(* ===== verification/Prelude.thy ===== *)
theory Prelude
  imports Main "HOL-Library.Word" "HOL-Library.Monad_Syntax"
begin

unbundle bit_operations_syntax

text \<open>
  Shared ground of the development.  The kernel is modelled for its AArch64 build (LP64): a
  \<^verbatim>\<open>size_t\<close>, \<^verbatim>\<open>uintptr_t\<close> or \<^verbatim>\<open>vaddr_t\<close> is a natural number below \<open>2 ^ 64\<close> and an \<^verbatim>\<open>unsigned\<close>
  one below \<open>2 ^ 32\<close>, with the wrap-around of C written out by \<open>uadd\<close>, \<open>usub\<close> and \<open>u32\<close> wherever
  the code adds, subtracts or truncates.  A failed \<^verbatim>\<open>assert\<close>, a \<^verbatim>\<open>panic\<close> and an access outside
  an object are all the value \<^term>\<open>None\<close> of an option; an error return is a value of the type
  \<open>errno\<close>.  The theory also holds the macros of \<^verbatim>\<open>include/sys/mimiker.h\<close> and
  \<^verbatim>\<open>include/sys/param.h\<close> and the list facts that the components share.
\<close>

section \<open>Collections of rewrite rules\<close>

named_theorems kmodel \<open>unfolding rules of the model's small operations\<close>
named_theorems kinv \<open>unfolding rules of the components' invariants\<close>

section \<open>Error numbers and panics\<close>

datatype errno =
    EPERM | ENOENT | ESRCH | EINTR | EIO | ENXIO | E2BIG | ENOEXEC | EBADF | ECHILD | EDEADLK
  | ENOMEM | EACCES | EFAULT | EBUSY | EEXIST | EXDEV | ENODEV | ENOTDIR | EISDIR | EINVAL
  | ENFILE | EMFILE | ENOTTY | EFBIG | ENOSPC | ESPIPE | EROFS | EMLINK | EPIPE | EAGAIN
  | EOPNOTSUPP | ETIMEDOUT | ELOOP | ENAMETOOLONG | ENOTEMPTY | ENOTSUP | EPASSTHROUGH
  | ERANGE

definition kassert :: "bool \<Rightarrow> unit option" where
  "kassert b = (if b then Some () else None)"

lemma kassert_simps [simp]: "kassert True = Some ()" "kassert False = None"
  by (simp_all add: kassert_def)

lemma kassert_Some [simp]: "kassert b = Some u \<longleftrightarrow> b"
  by (simp add: kassert_def)

lemma kassert_None [simp]: "kassert b = None \<longleftrightarrow> \<not> b"
  by (simp add: kassert_def)

lemma kassert_bind [simp]: "b \<Longrightarrow> (kassert b \<bind> f) = f ()"
  by simp

lemma kassert_bind_eq_Some [simp]: "(kassert b \<bind> f) = Some x \<longleftrightarrow> b \<and> f () = Some x"
  by (simp add: kassert_def)

section \<open>Machine integers\<close>

definition uadd :: "nat \<Rightarrow> nat \<Rightarrow> nat" where
  "uadd a b = (a + b) mod 2 ^ 64"

definition usub :: "nat \<Rightarrow> nat \<Rightarrow> nat" where
  "usub a b = (a + (2 ^ 64 - b mod 2 ^ 64)) mod 2 ^ 64"

definition umul :: "nat \<Rightarrow> nat \<Rightarrow> nat" where
  "umul a b = (a * b) mod 2 ^ 64"

definition u32 :: "nat \<Rightarrow> nat" where
  "u32 a = a mod 2 ^ 32"

lemma uadd_exact: "a + b < 2 ^ 64 \<Longrightarrow> uadd a b = a + b"
  by (simp add: uadd_def)

lemma umul_exact: "a * b < 2 ^ 64 \<Longrightarrow> umul a b = a * b"
  by (simp add: umul_def)

lemma u32_exact: "a < 2 ^ 32 \<Longrightarrow> u32 a = a"
  by (simp add: u32_def)

lemma uadd_bound [simp]: "uadd a b < 2 ^ 64"
  by (simp add: uadd_def)

lemma usub_exact:
  assumes "b \<le> a" and "a < 2 ^ 64"
  shows "usub a b = a - b"
proof -
  have b: "b mod 2 ^ 64 = b"
    using assms by simp
  have "a + (2 ^ 64 - b) = (a - b) + 2 ^ 64"
    using assms by simp
  then show ?thesis
    using assms by (simp only: usub_def b mod_add_self2) simp
qed

lemma usub_wrap:
  assumes "a < b" and "b < 2 ^ 64"
  shows "usub a b = a + (2 ^ 64 - b)"
  using assms by (simp add: usub_def)

section \<open>Macros of mimiker.h and param.h\<close>

fun log2 :: "nat \<Rightarrow> nat" where
  "log2 n = (if n \<le> 1 then 0 else Suc (log2 (n div 2)))"

declare log2.simps [simp del]

lemma log2_less [simp]: "n < 2 ^ Suc (log2 n)"
proof (induction n rule: log2.induct)
  case (1 n)
  show ?case
  proof (cases "n \<le> 1")
    case False
    then have "n div 2 < 2 ^ Suc (log2 (n div 2))"
      using "1.IH" by simp
    then have "n < 2 * 2 ^ Suc (log2 (n div 2))"
      by linarith
    then show ?thesis
      using False by (simp add: log2.simps [of n])
  qed (simp add: log2.simps [of n])
qed

lemma log2_le: "0 < n \<Longrightarrow> 2 ^ log2 n \<le> n"
proof (induction n rule: log2.induct)
  case (1 n)
  show ?case
  proof (cases "n \<le> 1")
    case False
    then have "2 ^ log2 (n div 2) \<le> n div 2"
      using "1.IH" by simp
    then have "2 * 2 ^ log2 (n div 2) \<le> n"
      by linarith
    then show ?thesis
      using False by (simp add: log2.simps [of n])
  qed (use "1.prems" in \<open>simp add: log2.simps [of n]\<close>)
qed

lemma log2_eqI:
  assumes "2 ^ k \<le> n" and "n < 2 ^ Suc k"
  shows "log2 n = k"
proof -
  have pos: "0 < n"
    using assms(1) by (metis less_le_trans zero_less_numeral zero_less_power)
  have "2 ^ log2 n < (2::nat) ^ Suc k"
    using log2_le [OF pos] assms(2) by linarith
  moreover have "2 ^ k < (2::nat) ^ Suc (log2 n)"
    using log2_less [of n] assms(1) by linarith
  ultimately show ?thesis
    by (metis less_Suc_eq_le nat_less_le not_le one_less_numeral_iff power_strict_increasing_iff
        semiring_norm(76))
qed

lemma log2_power [simp]: "log2 (2 ^ k) = k"
  by (rule log2_eqI) simp_all

lemma log2_mono: "a \<le> b \<Longrightarrow> log2 a \<le> log2 b"
proof (cases "a = 0")
  case False
  assume "a \<le> b"
  then have "2 ^ log2 a < (2::nat) ^ Suc (log2 b)"
    using False log2_le [of a] log2_less [of b] by linarith
  then show ?thesis
    by (metis less_Suc_eq_le one_less_numeral_iff power_strict_increasing_iff semiring_norm(76))
qed (simp add: log2.simps [of 0])

lemma log2_bound: "0 < n \<Longrightarrow> n < 2 ^ k \<Longrightarrow> log2 n < k"
  using log2_le [of n] by (metis le_less_trans one_less_numeral_iff power_strict_increasing_iff
      semiring_norm(76))

definition powerof2 :: "nat \<Rightarrow> bool" where
  "powerof2 x \<longleftrightarrow> (int x - 1) AND int x = 0"

definition align :: "nat \<Rightarrow> nat \<Rightarrow> nat" where
  "align addr sz = nat (take_bit 64 ((int addr + (int sz - 1)) AND (- int sz)))"

definition is_aligned :: "nat \<Rightarrow> nat \<Rightarrow> bool" where
  "is_aligned addr sz \<longleftrightarrow> int addr AND (int sz - 1) = 0"

definition roundup :: "nat \<Rightarrow> nat \<Rightarrow> nat" where
  "roundup x y = umul (uadd x (y - 1) div y) y"

definition PAGESIZE :: nat where "PAGESIZE = 4096"

definition page_aligned_p :: "nat \<Rightarrow> bool" where
  "page_aligned_p a \<longleftrightarrow> is_aligned a PAGESIZE"

lemma int_and_minus_power: "(a::int) AND - (2 ^ k) = a - a mod 2 ^ k"
proof -
  have "a AND NOT (mask k) = push_bit k (drop_bit k a)"
    by (rule bit_eqI) (auto simp: bit_simps)
  then have "a AND NOT (mask k) = a - take_bit k a"
    using bits_ident [of k a] by simp
  then show ?thesis
    by (simp add: minus_exp_eq_not_mask take_bit_eq_mod)
qed

lemma align_power2:
  assumes "sz = 2 ^ k" and "addr + sz \<le> 2 ^ 64"
  shows "align addr sz = (addr + sz - 1) div sz * sz"
proof -
  let ?n = "addr + sz - 1"
  have pos: "0 < sz"
    using assms(1) by simp
  have n: "int addr + (int sz - 1) = int ?n"
    using pos by simp
  have neg: "- int sz = - (2 ^ k)"
    using assms(1) by simp
  have "int ?n AND - (2 ^ k) = int ?n - int ?n mod 2 ^ k"
    by (rule int_and_minus_power)
  also have "\<dots> = int (?n - ?n mod sz)"
    by (simp only: assms(1) zmod_int of_nat_diff [OF mod_less_eq_dividend] of_nat_power of_nat_numeral)
  finally have v: "(int addr + (int sz - 1)) AND (- int sz) = int (?n - ?n mod sz)"
    by (simp only: n neg)
  have lt: "?n - ?n mod sz < 2 ^ 64"
    using assms(2) pos by linarith
  have "nat (take_bit 64 (int (?n - ?n mod sz))) = ?n - ?n mod sz"
    using lt by (simp only: take_bit_of_nat nat_int take_bit_nat_eq_self)
  then show ?thesis
    by (simp only: align_def v minus_mod_eq_div_mult)
qed

lemma is_aligned_power2: "is_aligned addr (2 ^ k) \<longleftrightarrow> 2 ^ k dvd addr"
proof -
  have "int addr AND (int (2 ^ k) - 1) = int addr mod 2 ^ k"
    by (simp flip: mask_eq_exp_minus_1 take_bit_eq_mask take_bit_eq_mod)
  also have "\<dots> = int (addr mod 2 ^ k)"
    by (simp add: zmod_int)
  finally show ?thesis
    by (simp only: is_aligned_def of_nat_eq_0_iff mod_0_imp_dvd dvd_eq_mod_eq_0)
qed

lemma align_dvd: "sz = 2 ^ k \<Longrightarrow> addr + sz \<le> 2 ^ 64 \<Longrightarrow> sz dvd align addr sz"
  by (simp add: align_power2)

lemma align_le: "sz = 2 ^ k \<Longrightarrow> addr + sz \<le> 2 ^ 64 \<Longrightarrow> addr \<le> align addr sz"
proof -
  assume a: "sz = 2 ^ k" "addr + sz \<le> 2 ^ 64"
  then have "0 < sz" by simp
  have "addr + sz - 1 < (addr + sz - 1) div sz * sz + sz"
    using \<open>0 < sz\<close> by (metis add.commute div_mod_decomp mod_less_divisor nat_add_left_cancel_less)
  then show ?thesis
    using align_power2 [OF a] by linarith
qed

lemma align_mult:
  assumes "sz = 2 ^ k" and "addr + sz \<le> 2 ^ 64" and "sz dvd addr"
  shows "align addr sz = addr"
proof -
  obtain q where "addr = sz * q" using assms(3) by blast
  moreover have "0 < sz" using assms(1) by simp
  ultimately have "(addr + sz - 1) div sz = q"
    by (metis Nat.add_diff_assoc One_nat_def Suc_leI Suc_pred add.commute div_less div_mult_self4
        lessI add_0 nat_neq_iff)
  then show ?thesis
    using align_power2 [OF assms(1,2)] \<open>addr = sz * q\<close> by simp
qed

lemma align_least:
  assumes "sz = 2 ^ k" and "addr + sz \<le> 2 ^ 64" and "sz dvd m" and "addr \<le> m"
  shows "align addr sz \<le> m"
proof -
  obtain q where q: "m = sz * q" using assms(3) by blast
  have "0 < sz" using assms(1) by simp
  then have "addr + sz - 1 < sz * q + sz"
    using assms(4) q by linarith
  then have "(addr + sz - 1) div sz < q + 1"
    by (simp add: less_mult_imp_div_less mult.commute)
  then have "(addr + sz - 1) div sz \<le> q"
    by simp
  then have "(addr + sz - 1) div sz * sz \<le> q * sz"
    by (rule mult_le_mono1)
  then show ?thesis
    using align_power2 [OF assms(1,2)] q by (simp add: mult.commute)
qed

section \<open>Lists of elements by index\<close>

text \<open>
  Arrays of lists that hold the elements of a set by an index: free lists by size, hash chains, run
  queues by priority.
\<close>

definition buckets :: "'a list list \<Rightarrow> nat \<Rightarrow> 'a set \<Rightarrow> ('a \<Rightarrow> nat) \<Rightarrow> bool" where
  "buckets ls n A idx \<longleftrightarrow> length ls = n \<and> distinct (concat ls) \<and> (\<forall>a \<in> A. idx a < n) \<and>
     (\<forall>i < n. set (ls ! i) = {a \<in> A. idx a = i})"

lemma buckets_set:
  assumes "buckets ls n A idx"
  shows "set (concat ls) = A"
proof -
  have "set (concat ls) = (\<Union>i < length ls. set (ls ! i))"
    by (fastforce simp: in_set_conv_nth)
  also have "\<dots> = (\<Union>i < n. {a \<in> A. idx a = i})"
    using assms by (auto simp: buckets_def)
  also have "\<dots> = A"
    using assms by (auto simp: buckets_def)
  finally show ?thesis .
qed

lemma buckets_cong:
  assumes "buckets ls n A idx" and "\<And>a. a \<in> A \<Longrightarrow> idx a = idx' a"
  shows "buckets ls n A idx'"
proof -
  have "{a \<in> A. idx a = i} = {a \<in> A. idx' a = i}" for i
    using assms(2) by auto
  then show ?thesis
    using assms by (simp add: buckets_def)
qed

lemma buckets_empty: "buckets (replicate n []) n {} idx"
proof -
  have "concat (replicate n []) = []"
    by (induction n) simp_all
  then show ?thesis
    by (simp add: buckets_def)
qed

lemma distinct_concat_update:
  assumes "distinct (concat ls)" and "x \<notin> set (concat ls)" and "i < length ls"
  shows "distinct (concat (ls[i := x # ls ! i]))"
proof -
  have ls: "ls = take i ls @ ls ! i # drop (Suc i) ls"
    using assms(3) by (rule id_take_nth_drop)
  have "ls[i := x # ls ! i] = take i ls @ (x # ls ! i) # drop (Suc i) ls"
    using assms(3) by (rule upd_conv_take_nth_drop)
  moreover have "distinct (concat (take i ls @ ls ! i # drop (Suc i) ls))"
    "x \<notin> set (concat (take i ls @ ls ! i # drop (Suc i) ls))"
    using assms(1,2) ls by simp_all
  ultimately show ?thesis by auto
qed

lemma buckets_insert:
  assumes b: "buckets ls n A idx" and x: "x \<notin> A" "idx x < n"
  shows "buckets (ls[idx x := x # ls ! idx x]) n (insert x A) idx"
proof -
  have "distinct (concat (ls[idx x := x # ls ! idx x]))"
    using b x buckets_set [OF b] by (intro distinct_concat_update) (simp_all add: buckets_def)
  then show ?thesis
    using b x by (auto simp: buckets_def nth_list_update)
qed

lemma distinct_concat_remove1: "distinct (concat ls) \<Longrightarrow> distinct (concat (map (remove1 x) ls))"
  by (induction ls) (auto dest: subsetD [OF set_remove1_subset])

lemma buckets_remove:
  assumes b: "buckets ls n A idx"
  shows "buckets (map (remove1 x) ls) n (A - {x}) idx"
proof -
  have d: "distinct (ls ! i)" if "i < n" for i
    using b that by (auto simp: buckets_def distinct_concat_iff)
  have "set (map (remove1 x) ls ! i) = {a \<in> A - {x}. idx a = i}" if "i < n" for i
    using b that d [OF that] by (auto simp: buckets_def)
  then show ?thesis
    using b distinct_concat_remove1 [of ls x] by (simp add: buckets_def)
qed

lemma distinct_concat_append:
  assumes "distinct (concat ls)" and "x \<notin> set (concat ls)" and "i < length ls"
  shows "distinct (concat (ls[i := ls ! i @ [x]]))"
proof -
  have ls: "ls = take i ls @ ls ! i # drop (Suc i) ls"
    using assms(3) by (rule id_take_nth_drop)
  have "ls[i := ls ! i @ [x]] = take i ls @ (ls ! i @ [x]) # drop (Suc i) ls"
    using assms(3) by (rule upd_conv_take_nth_drop)
  moreover have "distinct (concat (take i ls @ ls ! i # drop (Suc i) ls))"
    "x \<notin> set (concat (take i ls @ ls ! i # drop (Suc i) ls))"
    using assms(1,2) ls by simp_all
  ultimately show ?thesis by auto
qed

lemma buckets_append:
  assumes b: "buckets ls n A idx" and x: "x \<notin> A" "idx x < n"
  shows "buckets (ls[idx x := ls ! idx x @ [x]]) n (insert x A) idx"
proof -
  have "distinct (concat (ls[idx x := ls ! idx x @ [x]]))"
    using b x buckets_set [OF b] by (intro distinct_concat_append) (simp_all add: buckets_def)
  then show ?thesis
    using b x by (auto simp: buckets_def nth_list_update)
qed

lemma buckets_remove_at:
  assumes b: "buckets ls n A idx" and x: "x \<in> A"
  shows "buckets (ls[idx x := remove1 x (ls ! idx x)]) n (A - {x}) idx"
proof -
  have "remove1 x (ls ! i) = ls ! i" if "i < n" "i \<noteq> idx x" for i
    using b that by (intro remove1_idem) (auto simp: buckets_def)
  then have "ls[idx x := remove1 x (ls ! idx x)] = map (remove1 x) ls"
    using b x by (intro nth_equalityI) (auto simp: buckets_def nth_list_update)
  then show ?thesis
    using buckets_remove [OF b] by simp
qed

lemma buckets_mem: "buckets ls n A idx \<Longrightarrow> x \<in> A \<Longrightarrow> x \<in> set (ls ! idx x)"
  by (auto simp: buckets_def)

end
