(* ===== verification/Uio.thy ===== *)
theory Uio
  imports Prelude
begin

text \<open>
  Scatter/gather transfers: \<^verbatim>\<open>sys/kern/uio.c\<close>, \<^verbatim>\<open>include/sys/uio.h\<close> and the user copy routines of
  \<^verbatim>\<open>sys/aarch64/copy.S\<close> it calls.  A \<^verbatim>\<open>uio_iov\<close> pointer into an array of vectors is an index
  (\<open>uio_iov\<close>) into the whole array (\<open>uio_vec\<close>), so that \<open>uio_restore\<close> can move it back.  The
  lemmas describe \<open>uiomove\<close> through the list \<open>uio_addrs\<close> of the addresses that are still to be
  transferred.
\<close>

section \<open>Address spaces and the copy routines\<close>

type_synonym byte = "8 word"

datatype vmspace = KernelMap | UserMap | OtherMap

record memory =
  kbytes :: "nat \<Rightarrow> byte"
  kok :: "nat \<Rightarrow> bool"
  ubytes :: "nat \<Rightarrow> byte"
  uok :: "nat \<Rightarrow> bool"

definition USER_SPACE_END :: nat where
  "USER_SPACE_END = 0x0000800000000000"

definition mem_write :: "(nat \<Rightarrow> byte) \<Rightarrow> nat \<Rightarrow> byte list \<Rightarrow> nat \<Rightarrow> byte" where
  "mem_write f a bs = (\<lambda>x. if a \<le> x \<and> x < a + length bs then bs ! (x - a) else f x)"

definition mem_read :: "(nat \<Rightarrow> byte) \<Rightarrow> nat \<Rightarrow> nat \<Rightarrow> byte list" where
  "mem_read f a n = map f [a..<a + n]"

definition user_range_bad :: "nat \<Rightarrow> nat \<Rightarrow> bool" where
  "user_range_bad a len \<longleftrightarrow> a > uadd a len \<or> uadd a len > USER_SPACE_END"

definition copyin :: "memory \<Rightarrow> nat \<Rightarrow> nat \<Rightarrow> errno option \<times> byte list" where
  "copyin m udaddr len =
     (if len = 0 then (None, [])
      else if user_range_bad udaddr len then (Some EFAULT, [])
      else let k = length (takeWhile (uok m) [udaddr..<udaddr + len])
           in (if k = len then None else Some EFAULT, mem_read (ubytes m) udaddr k))"

definition copyout :: "memory \<Rightarrow> byte list \<Rightarrow> nat \<Rightarrow> errno option \<times> memory" where
  "copyout m bs udaddr =
     (let len = length bs in
      if len = 0 then (None, m)
      else if user_range_bad udaddr len then (Some EFAULT, m)
      else let k = length (takeWhile (uok m) [udaddr..<udaddr + len])
           in (if k = len then None else Some EFAULT,
               m\<lparr>ubytes := mem_write (ubytes m) udaddr (take k bs)\<rparr>))"

definition copyin_vmspace :: "vmspace \<Rightarrow> memory \<Rightarrow> nat \<Rightarrow> nat \<Rightarrow> (errno option \<times> byte list) option" where
  "copyin_vmspace vm m udaddr len =
     (case vm of
        KernelMap \<Rightarrow> (if list_all (kok m) [udaddr..<udaddr + len]
                      then Some (None, mem_read (kbytes m) udaddr len) else None)
      | UserMap \<Rightarrow> Some (copyin m udaddr len)
      | OtherMap \<Rightarrow> None)"

definition copyout_vmspace :: "vmspace \<Rightarrow> memory \<Rightarrow> byte list \<Rightarrow> nat \<Rightarrow> (errno option \<times> memory) option" where
  "copyout_vmspace vm m bs udaddr =
     (case vm of
        KernelMap \<Rightarrow> (if list_all (kok m) [udaddr..<udaddr + length bs]
                      then Some (None, m\<lparr>kbytes := mem_write (kbytes m) udaddr bs\<rparr>) else None)
      | UserMap \<Rightarrow> Some (copyout m bs udaddr)
      | OtherMap \<Rightarrow> None)"

section \<open>The uio structure\<close>

record iovec =
  iov_base :: nat
  iov_len :: nat

datatype uio_op = UIO_READ | UIO_WRITE

record uio =
  uio_vec :: "iovec list"
  uio_iov :: nat
  uio_iovcnt :: int
  uio_iovoff :: nat
  uio_offset :: int
  uio_resid :: nat
  uio_op :: uio_op
  uio_vmspace :: vmspace
  uio_ioflags :: nat

record uiostate =
  us_resid :: nat
  us_iovcnt :: int
  us_iovoff :: nat

definition UIO_SINGLE :: "uio_op \<Rightarrow> vmspace \<Rightarrow> int \<Rightarrow> nat \<Rightarrow> nat \<Rightarrow> uio" where
  "UIO_SINGLE op vm off buf buflen =
     \<lparr>uio_vec = [\<lparr>iov_base = buf, iov_len = buflen\<rparr>], uio_iov = 0, uio_iovcnt = 1, uio_iovoff = 0,
      uio_offset = off, uio_resid = buflen, uio_op = op, uio_vmspace = vm, uio_ioflags = 0\<rparr>"

definition UIO_VECTOR :: "uio_op \<Rightarrow> vmspace \<Rightarrow> iovec list \<Rightarrow> nat \<Rightarrow> uio" where
  "UIO_VECTOR op vm iov len =
     \<lparr>uio_vec = iov, uio_iov = 0, uio_iovcnt = int (length iov), uio_iovoff = 0,
      uio_offset = 0, uio_resid = len, uio_op = op, uio_vmspace = vm, uio_ioflags = 0\<rparr>"

text \<open>The result of a transfer: error, the kernel buffer, the updated uio and the memory.\<close>

type_synonym move_result = "errno option \<times> byte list \<times> uio \<times> memory"

definition advance :: "uio \<Rightarrow> nat \<Rightarrow> uio" where
  "advance uio cnt = uio\<lparr>uio_iovoff := uadd (uio_iovoff uio) cnt,
                         uio_resid := usub (uio_resid uio) cnt,
                         uio_offset := uio_offset uio + int cnt\<rparr>"

definition next_iov :: "uio \<Rightarrow> uio" where
  "next_iov uio = uio\<lparr>uio_iov := uio_iov uio + 1, uio_iovcnt := uio_iovcnt uio - 1,
                      uio_iovoff := 0\<rparr>"

function uiomove_loop :: "byte list \<Rightarrow> nat \<Rightarrow> nat \<Rightarrow> uio \<Rightarrow> memory \<Rightarrow> move_result option" where
  "uiomove_loop cbuf off n uio m =
     (if n > 0 \<and> uio_resid uio > 0 then
        if uio_iov uio < length (uio_vec uio) then
          let iov = uio_vec uio ! uio_iov uio;
              cnt = usub (iov_len iov) (uio_iovoff uio)
          in if cnt = 0 then
               if uio_iovcnt uio = 0 then Some (None, cbuf, uio, m)
               else uiomove_loop cbuf off n (next_iov uio) m
             else
               let cnt = min cnt n;
                   base = uadd (iov_base iov) (uio_iovoff uio)
               in if off + cnt \<le> length cbuf then
                    if uio_op uio = UIO_READ then
                      (case copyout_vmspace (uio_vmspace uio) m (take cnt (drop off cbuf)) base of
                         None \<Rightarrow> None
                       | Some (Some e, m') \<Rightarrow> Some (Some e, cbuf, uio, m')
                       | Some (None, m') \<Rightarrow>
                           uiomove_loop cbuf (off + cnt) (n - cnt) (advance uio cnt) m')
                    else
                      (case copyin_vmspace (uio_vmspace uio) m base cnt of
                         None \<Rightarrow> None
                       | Some (Some e, bs) \<Rightarrow>
                           Some (Some e, take off cbuf @ bs @ drop (off + length bs) cbuf, uio, m)
                       | Some (None, bs) \<Rightarrow>
                           uiomove_loop (take off cbuf @ bs @ drop (off + length bs) cbuf)
                             (off + cnt) (n - cnt) (advance uio cnt) m)
                  else None
        else None
      else Some (None, cbuf, uio, m))"
  by pat_completeness auto
termination
  by (relation "measure (\<lambda>(cbuf, off, n, uio, m). n + (length (uio_vec uio) - uio_iov uio))")
    (auto simp: next_iov_def advance_def min_def)

declare uiomove_loop.simps [simp del]

definition uiomove :: "byte list \<Rightarrow> nat \<Rightarrow> nat \<Rightarrow> uio \<Rightarrow> memory \<Rightarrow> move_result option" where
  "uiomove buf off n uio m = uiomove_loop buf off n uio m"

definition uio_save :: "uio \<Rightarrow> uiostate" where
  "uio_save uio = \<lparr>us_resid = uio_resid uio, us_iovcnt = uio_iovcnt uio, us_iovoff = uio_iovoff uio\<rparr>"

definition uio_restore :: "uio \<Rightarrow> uiostate \<Rightarrow> uio" where
  "uio_restore uio save =
     (let nbytes = usub (us_resid save) (uio_resid uio)
      in uio\<lparr>uio_resid := uadd (uio_resid uio) nbytes,
             uio_offset := uio_offset uio - int nbytes,
             uio_iovoff := us_iovoff save,
             uio_iov := nat (int (uio_iov uio) - (us_iovcnt save - uio_iovcnt uio)),
             uio_iovcnt := us_iovcnt save\<rparr>)"

definition uiomove_frombuf :: "byte list \<Rightarrow> nat \<Rightarrow> uio \<Rightarrow> memory \<Rightarrow> move_result option" where
  "uiomove_frombuf buf buflen uio m =
     do {
       let off = nat (uio_offset uio mod 2 ^ 64);
       kassert (off \<le> buflen);
       kassert (uio_offset uio \<ge> 0);
       uiomove buf off (buflen - off) uio m
     }"

definition SSIZE_MAX :: nat where
  "SSIZE_MAX = 2 ^ 63 - 1"

fun iovec_length_loop :: "iovec list \<Rightarrow> nat \<Rightarrow> errno + nat" where
  "iovec_length_loop [] len = Inr len"
| "iovec_length_loop (iov # iovs) len =
     (let len' = uadd len (iov_len iov)
      in if len' > SSIZE_MAX \<or> iov_len iov > SSIZE_MAX then Inl EINVAL
         else iovec_length_loop iovs len')"

definition iovec_length :: "iovec list \<Rightarrow> errno + nat" where
  "iovec_length iov = iovec_length_loop iov 0"

section \<open>What is left to transfer\<close>

definition iov_addrs :: "iovec \<Rightarrow> nat list" where
  "iov_addrs iov = [iov_base iov..<iov_base iov + iov_len iov]"

definition uio_addrs :: "uio \<Rightarrow> nat list" where
  "uio_addrs uio = drop (uio_iovoff uio) (concat (map iov_addrs (drop (uio_iov uio) (uio_vec uio))))"

definition uio_wf :: "uio \<Rightarrow> bool" where
  "uio_wf uio \<longleftrightarrow>
     uio_iov uio \<le> length (uio_vec uio) \<and>
     uio_iovcnt uio = int (length (uio_vec uio)) - int (uio_iov uio) \<and>
     (uio_iov uio < length (uio_vec uio) \<longrightarrow> uio_iovoff uio \<le> iov_len (uio_vec uio ! uio_iov uio)) \<and>
     (uio_iov uio = length (uio_vec uio) \<longrightarrow> uio_iovoff uio = 0) \<and>
     (\<forall>iov \<in> set (uio_vec uio). iov_base iov + iov_len iov < 2 ^ 64) \<and>
     uio_resid uio = length (uio_addrs uio) \<and> uio_resid uio < 2 ^ 64"

definition mapped :: "vmspace \<Rightarrow> memory \<Rightarrow> nat \<Rightarrow> bool" where
  "mapped vm m a \<longleftrightarrow> (case vm of KernelMap \<Rightarrow> kok m a | UserMap \<Rightarrow> uok m a \<and> a < USER_SPACE_END
                                | OtherMap \<Rightarrow> False)"

definition space :: "vmspace \<Rightarrow> memory \<Rightarrow> nat \<Rightarrow> byte" where
  "space vm m = (if vm = KernelMap then kbytes m else ubytes m)"

definition set_space :: "vmspace \<Rightarrow> (nat \<Rightarrow> byte) \<Rightarrow> memory \<Rightarrow> memory" where
  "set_space vm f m = (if vm = KernelMap then m\<lparr>kbytes := f\<rparr> else m\<lparr>ubytes := f\<rparr>)"

definition scatter :: "(nat \<Rightarrow> byte) \<Rightarrow> nat list \<Rightarrow> byte list \<Rightarrow> nat \<Rightarrow> byte" where
  "scatter f as bs = fold (\<lambda>(a, b) f. f(a := b)) (zip as bs) f"


subsection \<open>Scattering bytes over addresses\<close>

lemma scatter_Nil [simp]: "scatter f [] bs = f" "scatter f as [] = f"
  by (simp_all add: scatter_def)

lemma scatter_Cons [simp]: "scatter f (a # as) (b # bs) = scatter (f(a := b)) as bs"
  by (simp add: scatter_def)

lemma scatter_append:
  "length as = length bs \<Longrightarrow> scatter f (as @ as') (bs @ bs') = scatter (scatter f as bs) as' bs'"
  by (simp add: scatter_def)

lemma scatter_range: "scatter f [a..<a + length bs] bs = mem_write f a bs"
proof (induction bs arbitrary: f a)
  case Nil
  show ?case by (rule ext) (auto simp: mem_write_def)
next
  case (Cons b bs)
  have "[a..<a + length (b # bs)] = a # [Suc a..<Suc a + length bs]"
    by (subst upt_conv_Cons) simp_all
  then have "scatter f [a..<a + length (b # bs)] (b # bs) = mem_write (f(a := b)) (Suc a) bs"
    using Cons.IH [of "f(a := b)" "Suc a"] by (simp only: scatter_Cons)
  also have "\<dots> = mem_write f a (b # bs)"
    by (rule ext) (auto simp: mem_write_def nth_Cons' Suc_diff_le)
  finally show ?case .
qed

lemma space_set_space [simp]: "space vm (set_space vm f m) = f"
  by (simp add: space_def set_space_def)

lemma set_space_set_space [simp]: "set_space vm f (set_space vm g m) = set_space vm f m"
  by (simp add: set_space_def)

lemma set_space_space [simp]: "set_space vm (space vm m) m = m"
  by (simp add: space_def set_space_def)

lemma mapped_set_space [simp]: "mapped vm (set_space vm f m) a = mapped vm m a"
  by (cases vm) (simp_all add: mapped_def set_space_def)

subsection \<open>The copy routines on mapped memory\<close>

lemma user_range_ok:
  assumes "len > 0" and "\<And>x. a \<le> x \<Longrightarrow> x < a + len \<Longrightarrow> x < USER_SPACE_END"
  shows "\<not> user_range_bad a len"
proof -
  have "a + len - 1 < USER_SPACE_END"
    using assms(1) assms(2) [of "a + len - 1"] by linarith
  then have "a + len \<le> USER_SPACE_END"
    by linarith
  then show ?thesis
    by (simp add: user_range_bad_def USER_SPACE_END_def uadd_exact)
qed

lemma takeWhile_upt_all:
  assumes "\<And>x. a \<le> x \<Longrightarrow> x < a + len \<Longrightarrow> P x"
  shows "length (takeWhile P [a..<a + len]) = len"
proof -
  have eq: "takeWhile P [a..<a + len] = [a..<a + len]"
    using assms by (simp add: takeWhile_eq_all_conv)
  show ?thesis by (subst eq) simp
qed

lemma copyout_vmspace_mapped:
  assumes "\<And>x. a \<le> x \<Longrightarrow> x < a + length bs \<Longrightarrow> mapped vm m x" and "bs \<noteq> []"
  shows "copyout_vmspace vm m bs a = Some (None, set_space vm (mem_write (space vm m) a bs) m)"
proof (cases vm)
  case KernelMap
  then show ?thesis
    using assms by (auto simp: copyout_vmspace_def mapped_def set_space_def space_def list_all_iff)
next
  case UserMap
  have ok: "\<And>x. a \<le> x \<Longrightarrow> x < a + length bs \<Longrightarrow> uok m x \<and> x < USER_SPACE_END"
    using assms UserMap by (simp add: mapped_def)
  have len: "0 < length bs" using assms(2) by simp
  have good: "\<not> user_range_bad a (length bs)"
    by (rule user_range_ok [OF len]) (use ok in blast)
  have all: "length (takeWhile (uok m) [a..<a + length bs]) = length bs"
    by (rule takeWhile_upt_all) (use ok in blast)
  show ?thesis
    using good all assms(2) UserMap
    by (simp add: copyout_vmspace_def copyout_def Let_def set_space_def space_def)
next
  case OtherMap
  then show ?thesis
    using assms(1) [of a] assms(2) by (simp add: mapped_def)
qed

lemma copyin_vmspace_mapped:
  assumes "\<And>x. a \<le> x \<Longrightarrow> x < a + len \<Longrightarrow> mapped vm m x" and "len > 0"
  shows "copyin_vmspace vm m a len = Some (None, map (space vm m) [a..<a + len])"
proof (cases vm)
  case KernelMap
  then show ?thesis
    using assms by (auto simp: copyin_vmspace_def mapped_def space_def list_all_iff mem_read_def)
next
  case UserMap
  have ok: "\<And>x. a \<le> x \<Longrightarrow> x < a + len \<Longrightarrow> uok m x \<and> x < USER_SPACE_END"
    using assms UserMap by (simp add: mapped_def)
  have good: "\<not> user_range_bad a len"
    by (rule user_range_ok [OF assms(2)]) (use ok in blast)
  have all: "length (takeWhile (uok m) [a..<a + len]) = len"
    by (rule takeWhile_upt_all) (use ok in blast)
  show ?thesis
    using good all assms(2) UserMap
    by (simp add: copyin_vmspace_def copyin_def Let_def space_def mem_read_def)
next
  case OtherMap
  then show ?thesis
    using assms(1) [of a] assms(2) by (simp add: mapped_def)
qed

subsection \<open>Progress over the vectors\<close>

definition same_frame :: "uio \<Rightarrow> uio \<Rightarrow> bool" where
  "same_frame u v \<longleftrightarrow> uio_vec v = uio_vec u \<and> uio_op v = uio_op u \<and> uio_vmspace v = uio_vmspace u \<and>
                     uio_ioflags v = uio_ioflags u"

lemma same_frame_refl [simp]: "same_frame u u"
  by (simp add: same_frame_def)

lemma same_frame_trans: "same_frame u v \<Longrightarrow> same_frame v w \<Longrightarrow> same_frame u w"
  by (simp add: same_frame_def)

lemma length_iov_addrs [simp]: "length (iov_addrs iov) = iov_len iov"
  by (simp add: iov_addrs_def)

lemma uio_addrs_current:
  assumes "uio_iov u < length (uio_vec u)" and "uio_iovoff u \<le> iov_len (uio_vec u ! uio_iov u)"
  shows "uio_addrs u =
    [iov_base (uio_vec u ! uio_iov u) + uio_iovoff u
       ..<iov_base (uio_vec u ! uio_iov u) + iov_len (uio_vec u ! uio_iov u)] @
    concat (map iov_addrs (drop (Suc (uio_iov u)) (uio_vec u)))"
  using assms by (simp add: uio_addrs_def iov_addrs_def flip: Cons_nth_drop_Suc)

lemma next_iov_wf:
  assumes "uio_wf u" and "uio_iov u < length (uio_vec u)"
    and "uio_iovoff u = iov_len (uio_vec u ! uio_iov u)"
  shows "uio_wf (next_iov u)" and "uio_addrs (next_iov u) = uio_addrs u"
proof -
  show a: "uio_addrs (next_iov u) = uio_addrs u"
    using assms(2,3) uio_addrs_current [of u] by (simp add: uio_addrs_def next_iov_def)
  have "uio_resid (next_iov u) = length (uio_addrs (next_iov u))"
    using a assms(1) by (simp add: uio_wf_def next_iov_def)
  then show "uio_wf (next_iov u)"
    using assms by (auto simp: uio_wf_def next_iov_def)
qed

lemma advance_wf:
  assumes wf: "uio_wf u" and i: "uio_iov u < length (uio_vec u)"
    and cnt: "cnt \<le> iov_len (uio_vec u ! uio_iov u) - uio_iovoff u"
  shows "uio_addrs (advance u cnt) = drop cnt (uio_addrs u)" (is ?addrs)
    and "uio_wf (advance u cnt)" (is ?wf)
proof -
  let ?iov = "uio_vec u ! uio_iov u"
  have off: "uio_iovoff u \<le> iov_len ?iov"
    using wf i by (simp add: uio_wf_def)
  have mem: "?iov \<in> set (uio_vec u)"
    using i by simp
  have "iov_base ?iov + iov_len ?iov < 2 ^ 64"
    using wf mem unfolding uio_wf_def by blast
  then have off': "uadd (uio_iovoff u) cnt = uio_iovoff u + cnt"
    using cnt off by (intro uadd_exact) linarith
  show ?addrs
    using i cnt off
    by (simp add: uio_addrs_def advance_def off' add.commute)
  have len: "length (uio_addrs u) \<ge> cnt"
    using uio_addrs_current [OF i off] cnt by simp
  have "usub (uio_resid u) cnt = uio_resid u - cnt"
    using wf len by (intro usub_exact) (simp_all add: uio_wf_def)
  moreover have "uio_iovoff u + cnt \<le> iov_len ?iov"
    using cnt off by linarith
  ultimately show ?wf
    using wf i \<open>?addrs\<close> unfolding uio_wf_def by (auto simp: advance_def off')
qed

lemma advance_frame [simp]: "same_frame u (advance u cnt)"
  by (simp add: same_frame_def advance_def)

lemma next_iov_frame [simp]: "same_frame u (next_iov u)"
  by (simp add: same_frame_def next_iov_def)

lemma wf_exhausted:
  assumes "uio_wf u" and "uio_resid u > 0"
  shows "uio_iov u < length (uio_vec u)"
  using assms by (cases "uio_iov u = length (uio_vec u)") (auto simp: uio_wf_def uio_addrs_def)

lemma wf_cnt:
  assumes "uio_wf u" and "uio_iov u < length (uio_vec u)"
  shows "usub (iov_len (uio_vec u ! uio_iov u)) (uio_iovoff u) =
         iov_len (uio_vec u ! uio_iov u) - uio_iovoff u"
    and "uadd (iov_base (uio_vec u ! uio_iov u)) (uio_iovoff u) =
         iov_base (uio_vec u ! uio_iov u) + uio_iovoff u"
proof -
  have "uio_vec u ! uio_iov u \<in> set (uio_vec u)"
    using assms(2) by simp
  then have "iov_base (uio_vec u ! uio_iov u) + iov_len (uio_vec u ! uio_iov u) < 2 ^ 64"
    using assms(1) unfolding uio_wf_def by blast
  moreover have "uio_iovoff u \<le> iov_len (uio_vec u ! uio_iov u)"
    using assms by (simp add: uio_wf_def)
  ultimately show "usub (iov_len (uio_vec u ! uio_iov u)) (uio_iovoff u) =
         iov_len (uio_vec u ! uio_iov u) - uio_iovoff u"
    and "uadd (iov_base (uio_vec u ! uio_iov u)) (uio_iovoff u) =
         iov_base (uio_vec u ! uio_iov u) + uio_iovoff u"
    by (intro usub_exact uadd_exact; linarith)+
qed


section \<open>Correctness of uiomove\<close>

definition moved :: "nat \<Rightarrow> uio \<Rightarrow> uio \<Rightarrow> bool" where
  "moved k u v \<longleftrightarrow> uio_wf v \<and> uio_addrs v = drop k (uio_addrs u) \<and>
                   uio_offset v = uio_offset u + int k \<and> same_frame u v"

lemma moved_0 [simp]: "uio_wf u \<Longrightarrow> moved 0 u u"
  by (simp add: moved_def)

lemma moved_next:
  assumes "uio_wf u" and "uio_iov u < length (uio_vec u)"
    and "uio_iovoff u = iov_len (uio_vec u ! uio_iov u)" and "moved k (next_iov u) v"
  shows "moved k u v"
  using assms next_iov_wf [OF assms(1-3)] same_frame_trans [OF next_iov_frame]
  by (auto simp: moved_def) (simp add: next_iov_def)

lemma moved_advance:
  assumes "uio_wf u" and "uio_iov u < length (uio_vec u)"
    and "cnt \<le> iov_len (uio_vec u ! uio_iov u) - uio_iovoff u" and "moved k (advance u cnt) v"
  shows "moved (cnt + k) u v"
  using assms advance_wf [OF assms(1-3)] same_frame_trans [OF advance_frame]
  by (auto simp: moved_def add.commute) (simp add: advance_def)

lemma moved_trans: "moved j u v \<Longrightarrow> moved k v w \<Longrightarrow> moved (j + k) u w"
  by (auto simp: moved_def add.commute intro: same_frame_trans)

lemma moved_resid: "moved k u v \<Longrightarrow> uio_wf u \<Longrightarrow> uio_resid v = uio_resid u - k"
  by (auto simp: moved_def uio_wf_def)

lemma moved_frame:
  assumes "moved k u v"
  shows "uio_wf v" and "uio_op v = uio_op u" and "uio_vmspace v = uio_vmspace u"
    and "uio_addrs v = drop k (uio_addrs u)"
  using assms by (simp_all add: moved_def same_frame_def)

lemma moved_mapped:
  "moved k u v \<Longrightarrow> \<forall>a \<in> set (uio_addrs u). mapped vm m a \<Longrightarrow> \<forall>a \<in> set (uio_addrs v). mapped vm m a"
  by (auto simp: moved_def dest: in_set_dropD)

lemma take_addrs_current:
  assumes "uio_iov u < length (uio_vec u)" and "uio_iovoff u \<le> iov_len (uio_vec u ! uio_iov u)"
    and "cnt \<le> iov_len (uio_vec u ! uio_iov u) - uio_iovoff u"
  shows "take cnt (uio_addrs u) =
    [iov_base (uio_vec u ! uio_iov u) + uio_iovoff u
       ..<iov_base (uio_vec u ! uio_iov u) + uio_iovoff u + cnt]"
  using assms by (simp add: uio_addrs_current [OF assms(1,2)])

lemma range_addrs_current:
  assumes "uio_iov u < length (uio_vec u)" and "uio_iovoff u \<le> iov_len (uio_vec u ! uio_iov u)"
    and "cnt \<le> iov_len (uio_vec u ! uio_iov u) - uio_iovoff u"
    and "iov_base (uio_vec u ! uio_iov u) + uio_iovoff u \<le> x"
    and "x < iov_base (uio_vec u ! uio_iov u) + uio_iovoff u + cnt"
  shows "x \<in> set (uio_addrs u)"
proof -
  have "x < iov_base (uio_vec u ! uio_iov u) + iov_len (uio_vec u ! uio_iov u)"
    using assms(2,3,5) by linarith
  then show ?thesis
    using assms(4) by (simp add: uio_addrs_current [OF assms(1,2)])
qed

lemma uiomove_loop_done: "n = 0 \<or> uio_resid u = 0 \<Longrightarrow> uiomove_loop cbuf off n u m = Some (None, cbuf, u, m)"
  by (subst uiomove_loop.simps) auto

lemma uiomove_loop_skip:
  assumes "uio_wf u" and "n > 0" and "uio_resid u > 0"
    and "uio_iovoff u = iov_len (uio_vec u ! uio_iov u)"
  shows "uiomove_loop cbuf off n u m = uiomove_loop cbuf off n (next_iov u) m"
proof -
  have i: "uio_iov u < length (uio_vec u)"
    by (rule wf_exhausted [OF assms(1,3)])
  have "uio_iovcnt u \<noteq> 0"
    using assms(1) i by (simp add: uio_wf_def)
  then show ?thesis
    using assms(2-4) i wf_cnt [OF assms(1) i] by (subst uiomove_loop.simps) (simp add: Let_def)
qed

lemma uiomove_loop_read:
  assumes wf: "uio_wf u" and n: "n > 0" and r: "uio_resid u > 0" and op: "uio_op u = UIO_READ"
    and off: "uio_iovoff u \<noteq> iov_len (uio_vec u ! uio_iov u)"
    and cnt: "cnt = min (iov_len (uio_vec u ! uio_iov u) - uio_iovoff u) n"
    and buf: "off + n \<le> length cbuf"
    and ok: "\<forall>a \<in> set (uio_addrs u). mapped (uio_vmspace u) m a"
  shows "uiomove_loop cbuf off n u m =
    uiomove_loop cbuf (off + cnt) (n - cnt) (advance u cnt)
      (set_space (uio_vmspace u)
         (scatter (space (uio_vmspace u) m) (take cnt (uio_addrs u)) (take cnt (drop off cbuf))) m)"
proof -
  let ?iov = "uio_vec u ! uio_iov u" and ?bs = "take cnt (drop off cbuf)"
  have i: "uio_iov u < length (uio_vec u)"
    by (rule wf_exhausted [OF wf r])
  have le: "uio_iovoff u \<le> iov_len ?iov"
    using wf i by (simp add: uio_wf_def)
  have pos: "0 < cnt" "cnt \<le> iov_len ?iov - uio_iovoff u" "cnt \<le> n"
    using cnt n off le by auto
  have bs: "length ?bs = cnt"
    using buf pos by simp
  have "?bs \<noteq> []"
    using bs pos by (metis list.size(3) less_not_refl)
  moreover have "\<And>x. iov_base ?iov + uio_iovoff u \<le> x \<Longrightarrow>
      x < iov_base ?iov + uio_iovoff u + length ?bs \<Longrightarrow> mapped (uio_vmspace u) m x"
    using range_addrs_current [OF i le pos(2)] ok unfolding bs by blast
  ultimately have "copyout_vmspace (uio_vmspace u) m ?bs (iov_base ?iov + uio_iovoff u) =
      Some (None, set_space (uio_vmspace u)
        (mem_write (space (uio_vmspace u) m) (iov_base ?iov + uio_iovoff u) ?bs) m)"
    by (intro copyout_vmspace_mapped) auto
  moreover have "mem_write (space (uio_vmspace u) m) (iov_base ?iov + uio_iovoff u) ?bs =
      scatter (space (uio_vmspace u) m) (take cnt (uio_addrs u)) ?bs"
    unfolding take_addrs_current [OF i le pos(2)]
    using scatter_range [of _ "iov_base ?iov + uio_iovoff u" ?bs] bs by simp
  ultimately show ?thesis
    using n r i off le pos buf wf_cnt [OF wf i] op
    by (subst uiomove_loop.simps) (simp add: Let_def flip: cnt)
qed

lemma uiomove_loop_write:
  assumes wf: "uio_wf u" and n: "n > 0" and r: "uio_resid u > 0" and op: "uio_op u = UIO_WRITE"
    and off: "uio_iovoff u \<noteq> iov_len (uio_vec u ! uio_iov u)"
    and cnt: "cnt = min (iov_len (uio_vec u ! uio_iov u) - uio_iovoff u) n"
    and buf: "off + n \<le> length cbuf"
    and ok: "\<forall>a \<in> set (uio_addrs u). mapped (uio_vmspace u) m a"
  shows "uiomove_loop cbuf off n u m =
    uiomove_loop (take off cbuf @ map (space (uio_vmspace u) m) (take cnt (uio_addrs u)) @
                  drop (off + cnt) cbuf) (off + cnt) (n - cnt) (advance u cnt) m"
proof -
  let ?iov = "uio_vec u ! uio_iov u"
  have i: "uio_iov u < length (uio_vec u)"
    by (rule wf_exhausted [OF wf r])
  have le: "uio_iovoff u \<le> iov_len ?iov"
    using wf i by (simp add: uio_wf_def)
  have pos: "0 < cnt" "cnt \<le> iov_len ?iov - uio_iovoff u" "cnt \<le> n"
    using cnt n off le by auto
  have "\<And>x. iov_base ?iov + uio_iovoff u \<le> x \<Longrightarrow> x < iov_base ?iov + uio_iovoff u + cnt \<Longrightarrow>
      mapped (uio_vmspace u) m x"
    using range_addrs_current [OF i le pos(2)] ok by blast
  then have c: "copyin_vmspace (uio_vmspace u) m (iov_base ?iov + uio_iovoff u) cnt =
      Some (None, map (space (uio_vmspace u) m) (take cnt (uio_addrs u)))"
    unfolding take_addrs_current [OF i le pos(2)] by (intro copyin_vmspace_mapped) (use pos in auto)
  have len: "min (length (uio_addrs u)) cnt = cnt"
    using uio_addrs_current [OF i le] pos by simp
  show ?thesis
    using n r i off le pos buf wf_cnt [OF wf i] op c len
    by (subst uiomove_loop.simps) (simp add: Let_def flip: cnt)
qed


lemma scatter_take_add:
  assumes "c + k \<le> length as" and "c + k \<le> length bs"
  shows "scatter (scatter f (take c as) (take c bs)) (take k (drop c as)) (take k (drop c bs)) =
         scatter f (take (c + k) as) (take (c + k) bs)"
  using assms by (simp add: take_add scatter_append)

text \<open>A transfer to the address space: every byte lands at its address.\<close>

lemma uiomove_loop_READ:
  assumes "uio_wf u" and "uio_op u = UIO_READ" and "off + n \<le> length cbuf"
    and "\<forall>a \<in> set (uio_addrs u). mapped (uio_vmspace u) m a"
  shows "\<exists>v. uiomove_loop cbuf off n u m =
      Some (None, cbuf, v, set_space (uio_vmspace u)
        (scatter (space (uio_vmspace u) m) (take (min n (uio_resid u)) (uio_addrs u))
          (take (min n (uio_resid u)) (drop off cbuf))) m) \<and> moved (min n (uio_resid u)) u v"
  using assms
proof (induction "n + (length (uio_vec u) - uio_iov u)" arbitrary: off n u m rule: less_induct)
  case less
  let ?iov = "uio_vec u ! uio_iov u" and ?vm = "uio_vmspace u"
  note wf = less.prems(1)
  consider (finished) "n = 0 \<or> uio_resid u = 0"
    | (skip) "n > 0" "uio_resid u > 0" "uio_iovoff u = iov_len ?iov"
    | (copy) "n > 0" "uio_resid u > 0" "uio_iovoff u \<noteq> iov_len ?iov"
    by fastforce
  then show ?case
  proof cases
    case finished
    then show ?thesis
      using less.prems by (auto simp: uiomove_loop_done)
  next
    case skip
    have i: "uio_iov u < length (uio_vec u)"
      by (rule wf_exhausted [OF wf skip(2)])
    note wf' = next_iov_wf [OF wf i skip(3)]
    have frame: "uio_vec (next_iov u) = uio_vec u" "uio_op (next_iov u) = uio_op u"
      "uio_vmspace (next_iov u) = ?vm" "uio_iov (next_iov u) = Suc (uio_iov u)"
      and resid: "uio_resid (next_iov u) = uio_resid u"
      by (simp_all add: next_iov_def)
    obtain v where "uiomove_loop cbuf off n (next_iov u) m =
      Some (None, cbuf, v, set_space ?vm
        (scatter (space ?vm m) (take (min n (uio_resid u)) (uio_addrs u))
          (take (min n (uio_resid u)) (drop off cbuf))) m)" "moved (min n (uio_resid u)) (next_iov u) v"
      using less.hyps [of n "next_iov u" off m] i less.prems wf' unfolding frame resid by force
    then show ?thesis
      using uiomove_loop_skip [OF wf skip] moved_next [OF wf i skip(3)] by metis
  next
    case copy
    define cnt where cnt: "cnt = min (iov_len ?iov - uio_iovoff u) n"
    define m' where "m' = set_space ?vm (scatter (space ?vm m) (take cnt (uio_addrs u))
                            (take cnt (drop off cbuf))) m"
    define k where "k = min (n - cnt) (uio_resid u - cnt)"
    have i: "uio_iov u < length (uio_vec u)"
      by (rule wf_exhausted [OF wf copy(2)])
    have le: "uio_iovoff u \<le> iov_len ?iov"
      using wf i by (simp add: uio_wf_def)
    have pos: "0 < cnt" "cnt \<le> iov_len ?iov - uio_iovoff u" "cnt \<le> n"
      using cnt copy le by auto
    note wf' = advance_wf [OF wf i pos(2)]
    have res: "cnt \<le> uio_resid u" "uio_resid u = length (uio_addrs u)"
      using wf pos uio_addrs_current [OF i le] by (auto simp: uio_wf_def)
    have resid': "uio_resid (advance u cnt) = uio_resid u - cnt"
      using wf' res by (simp add: uio_wf_def)
    have frame: "uio_vec (advance u cnt) = uio_vec u" "uio_op (advance u cnt) = uio_op u"
      "uio_vmspace (advance u cnt) = ?vm" "uio_iov (advance u cnt) = uio_iov u"
      by (simp_all add: advance_def)
    have ok: "\<forall>a \<in> set (uio_addrs (advance u cnt)). mapped ?vm m' a"
      using less.prems(4) wf'(1) by (auto simp: m'_def dest: in_set_dropD)
    have "\<exists>v. uiomove_loop cbuf (off + cnt) (n - cnt) (advance u cnt) m' =
        Some (None, cbuf, v, set_space ?vm (scatter (space ?vm m') (take k (drop cnt (uio_addrs u)))
          (take k (drop (off + cnt) cbuf))) m') \<and> moved k (advance u cnt) v"
      using less.hyps [of "n - cnt" "advance u cnt" "off + cnt" m'] pos i less.prems wf' ok
      by (simp add: frame resid' k_def)
    moreover have sum: "cnt + k = min n (uio_resid u)"
      using pos res by (simp add: k_def)
    moreover have "cnt + k \<le> length (uio_addrs u)" "cnt + k \<le> length (drop off cbuf)"
      using sum res less.prems(3) by auto
    from scatter_take_add [OF this] have "set_space ?vm (scatter (space ?vm m')
          (take k (drop cnt (uio_addrs u))) (take k (drop (off + cnt) cbuf))) m' =
        set_space ?vm (scatter (space ?vm m) (take (cnt + k) (uio_addrs u))
          (take (cnt + k) (drop off cbuf))) m"
      by (simp add: m'_def add.commute)
    ultimately show ?thesis
      using uiomove_loop_read [OF wf copy(1,2) less.prems(2) copy(3) cnt less.prems(3,4)]
        moved_advance [OF wf i pos(2)] unfolding m'_def by metis
  qed
qed


text \<open>A transfer from the address space: the buffer is filled in the order of the addresses.\<close>

lemma uiomove_loop_WRITE:
  assumes "uio_wf u" and "uio_op u = UIO_WRITE" and "off + n \<le> length cbuf"
    and "\<forall>a \<in> set (uio_addrs u). mapped (uio_vmspace u) m a"
  shows "\<exists>v. uiomove_loop cbuf off n u m =
      Some (None, take off cbuf @
              map (space (uio_vmspace u) m) (take (min n (uio_resid u)) (uio_addrs u)) @
              drop (off + min n (uio_resid u)) cbuf, v, m) \<and> moved (min n (uio_resid u)) u v"
  using assms
proof (induction "n + (length (uio_vec u) - uio_iov u)" arbitrary: cbuf off n u rule: less_induct)
  case less
  let ?iov = "uio_vec u ! uio_iov u" and ?f = "space (uio_vmspace u) m"
  note wf = less.prems(1)
  consider (finished) "n = 0 \<or> uio_resid u = 0"
    | (skip) "n > 0" "uio_resid u > 0" "uio_iovoff u = iov_len ?iov"
    | (copy) "n > 0" "uio_resid u > 0" "uio_iovoff u \<noteq> iov_len ?iov"
    by fastforce
  then show ?case
  proof cases
    case finished
    then show ?thesis
      using less.prems by (auto simp: uiomove_loop_done)
  next
    case skip
    have i: "uio_iov u < length (uio_vec u)"
      by (rule wf_exhausted [OF wf skip(2)])
    note wf' = next_iov_wf [OF wf i skip(3)]
    have frame: "uio_vec (next_iov u) = uio_vec u" "uio_op (next_iov u) = uio_op u"
      "uio_vmspace (next_iov u) = uio_vmspace u" "uio_iov (next_iov u) = Suc (uio_iov u)"
      and resid: "uio_resid (next_iov u) = uio_resid u"
      by (simp_all add: next_iov_def)
    obtain v where "uiomove_loop cbuf off n (next_iov u) m =
      Some (None, take off cbuf @ map ?f (take (min n (uio_resid u)) (uio_addrs u)) @
              drop (off + min n (uio_resid u)) cbuf, v, m)" "moved (min n (uio_resid u)) (next_iov u) v"
      using less.hyps [of n "next_iov u" off cbuf] i less.prems wf' unfolding frame resid by force
    then show ?thesis
      using uiomove_loop_skip [OF wf skip] moved_next [OF wf i skip(3)] by metis
  next
    case copy
    define cnt where cnt: "cnt = min (iov_len ?iov - uio_iovoff u) n"
    define cb where "cb = take off cbuf @ map ?f (take cnt (uio_addrs u)) @ drop (off + cnt) cbuf"
    define k where "k = min (n - cnt) (uio_resid u - cnt)"
    have i: "uio_iov u < length (uio_vec u)"
      by (rule wf_exhausted [OF wf copy(2)])
    have le: "uio_iovoff u \<le> iov_len ?iov"
      using wf i by (simp add: uio_wf_def)
    have pos: "0 < cnt" "cnt \<le> iov_len ?iov - uio_iovoff u" "cnt \<le> n"
      using cnt copy le by auto
    note wf' = advance_wf [OF wf i pos(2)]
    have res: "cnt \<le> uio_resid u" "uio_resid u = length (uio_addrs u)"
      using wf pos uio_addrs_current [OF i le] by (auto simp: uio_wf_def)
    have resid': "uio_resid (advance u cnt) = uio_resid u - cnt"
      using wf' res by (simp add: uio_wf_def)
    have frame: "uio_vec (advance u cnt) = uio_vec u" "uio_op (advance u cnt) = uio_op u"
      "uio_vmspace (advance u cnt) = uio_vmspace u" "uio_iov (advance u cnt) = uio_iov u"
      by (simp_all add: advance_def)
    have ok: "\<forall>a \<in> set (uio_addrs (advance u cnt)). mapped (uio_vmspace u) m a"
      using less.prems(4) wf'(1) by (auto dest: in_set_dropD)
    have lens: "length cb = length cbuf" "off + cnt + (n - cnt) \<le> length cb"
      using pos res less.prems(3) by (simp_all add: cb_def)
    have "\<exists>v. uiomove_loop cb (off + cnt) (n - cnt) (advance u cnt) m =
        Some (None, take (off + cnt) cb @ map ?f (take k (drop cnt (uio_addrs u))) @
          drop (off + cnt + k) cb, v, m) \<and> moved k (advance u cnt) v"
      using less.hyps [of "n - cnt" "advance u cnt" "off + cnt" cb] pos i less.prems wf' ok lens
      by (simp add: frame resid' k_def)
    moreover have sum: "cnt + k = min n (uio_resid u)"
      using pos res by (simp add: k_def)
    moreover have "take (off + cnt) cb @ map ?f (take k (drop cnt (uio_addrs u))) @
          drop (off + cnt + k) cb =
        take off cbuf @ map ?f (take (cnt + k) (uio_addrs u)) @ drop (off + (cnt + k)) cbuf"
      using pos res less.prems(3) by (simp add: cb_def take_add ac_simps)
    ultimately show ?thesis
      using uiomove_loop_write [OF wf copy(1,2) less.prems(2) copy(3) cnt less.prems(3,4)]
        moved_advance [OF wf i pos(2)] unfolding cb_def by metis
  qed
qed

section \<open>Saving and restoring\<close>

lemma uio_restore_moved:
  assumes "uio_wf u" and "moved k u v" and "k \<le> uio_resid u"
  shows "uio_restore v (uio_save u) = u"
proof -
  have r: "uio_resid v = uio_resid u - k" and lt: "uio_resid u < 2 ^ 64"
    using assms by (auto simp: moved_def uio_wf_def)
  have n: "usub (uio_resid u) (uio_resid v) = k"
    using assms(3) r lt by (subst usub_exact) auto
  have a: "uadd (uio_resid v) k = uio_resid u"
    using assms(3) r lt by (subst uadd_exact) auto
  have "nat (int (uio_iov v) - (uio_iovcnt u - uio_iovcnt v)) = uio_iov u"
    using assms by (auto simp: moved_def same_frame_def uio_wf_def)
  then show ?thesis
    using assms(2) n a by (simp add: uio_restore_def uio_save_def moved_def same_frame_def Let_def)
qed

lemma iovec_length_loop_eq:
  "len \<le> SSIZE_MAX \<Longrightarrow> iovec_length_loop iovs len =
     (if len + sum_list (map iov_len iovs) \<le> SSIZE_MAX
      then Inr (len + sum_list (map iov_len iovs)) else Inl EINVAL)"
proof (induction iovs arbitrary: len)
  case Nil
  then show ?case by simp
next
  case (Cons iov iovs)
  show ?case
  proof (cases "iov_len iov > SSIZE_MAX")
    case True
    then show ?thesis by simp
  next
    case False
    then have "len + iov_len iov < 2 ^ 64"
      using Cons.prems by (simp add: SSIZE_MAX_def)
    then have "uadd len (iov_len iov) = len + iov_len iov"
      by (rule uadd_exact)
    then show ?thesis
      using False Cons.IH [of "len + iov_len iov"] by (simp add: add.assoc Let_def)
  qed
qed

text \<open>Whatever the outcome, faults included, the descriptor has moved over some bytes of the request.\<close>

lemma uiomove_loop_moved:
  assumes "uio_wf u" and "uiomove_loop cbuf off n u m = Some (r, d, v, m')"
  shows "\<exists>k \<le> min n (uio_resid u). moved k u v"
  using assms
proof (induction "n + (length (uio_vec u) - uio_iov u)" arbitrary: cbuf off n u m rule: less_induct)
  case less
  note wf = less.prems(1)
  show ?case
  proof (cases "n > 0 \<and> uio_resid u > 0")
    case False
    then show ?thesis
      using less.prems uiomove_loop_done [of n u cbuf off m] by auto
  next
    case True
    have i: "uio_iov u < length (uio_vec u)"
      using True wf_exhausted [OF wf] by simp
    show ?thesis
    proof (cases "uio_iovoff u = iov_len (uio_vec u ! uio_iov u)")
      case skip: True
      have "uiomove_loop cbuf off n (next_iov u) m = Some (r, d, v, m')"
        using uiomove_loop_skip [OF wf _ _ skip] True less.prems(2) by simp
      moreover have "n + (length (uio_vec (next_iov u)) - uio_iov (next_iov u)) <
                     n + (length (uio_vec u) - uio_iov u)"
        using i by (simp add: next_iov_def)
      ultimately obtain k where "k \<le> min n (uio_resid (next_iov u))" "moved k (next_iov u) v"
        using less.hyps next_iov_wf(1) [OF wf i skip] by blast
      then show ?thesis
        using moved_next [OF wf i skip] by (auto simp: next_iov_def)
    next
      case copy: False
      define cnt where "cnt = min (iov_len (uio_vec u ! uio_iov u) - uio_iovoff u) n"
      have off: "uio_iovoff u \<le> iov_len (uio_vec u ! uio_iov u)"
        using wf i by (simp add: uio_wf_def)
      have cnt: "cnt \<le> iov_len (uio_vec u ! uio_iov u) - uio_iovoff u" "0 < cnt" "cnt \<le> n"
        using copy True off unfolding cnt_def by auto
      have "v = u \<or> (\<exists>cb m2. uiomove_loop cb (off + cnt) (n - cnt) (advance u cnt) m2 = Some (r, d, v, m'))"
        using less.prems(2) True i copy off wf_cnt(1) [OF wf i]
        by (subst (asm) uiomove_loop.simps)
           (auto simp: Let_def split: if_splits option.splits simp flip: cnt_def)
      then show ?thesis
      proof
        assume "v = u"
        then show ?thesis
          using wf by auto
      next
        assume "\<exists>cb m2. uiomove_loop cb (off + cnt) (n - cnt) (advance u cnt) m2 = Some (r, d, v, m')"
        moreover have "n - cnt + (length (uio_vec (advance u cnt)) - uio_iov (advance u cnt)) <
                       n + (length (uio_vec u) - uio_iov u)"
          using cnt(2,3) by (simp add: advance_def)
        ultimately obtain k where
          k: "k \<le> min (n - cnt) (uio_resid (advance u cnt))" "moved k (advance u cnt) v"
          using less.hyps advance_wf(2) [OF wf i cnt(1)] by blast
        have "moved cnt u (advance u cnt)"
          using moved_advance [OF wf i cnt(1), of 0] advance_wf(2) [OF wf i cnt(1)] by simp
        then have "uio_resid (advance u cnt) = uio_resid u - cnt"
          by (rule moved_resid [OF _ wf])
        moreover have "cnt \<le> uio_resid u"
          using uio_addrs_current [OF i off] cnt(1) wf by (simp add: uio_wf_def)
        ultimately have "cnt + k \<le> min n (uio_resid u)"
          using k(1) cnt(3) by auto
        then show ?thesis
          using moved_advance [OF wf i cnt(1) k(2)] by blast
      qed
    qed
  qed
qed

section \<open>Properties\<close>

text \<open>A small address space for the witnesses: every kernel and user byte is mapped and zero.\<close>

definition zero_memory :: memory where
  "zero_memory = \<lparr>kbytes = (\<lambda>_. 0), kok = (\<lambda>_. True), ubytes = (\<lambda>_. 0), uok = (\<lambda>_. True)\<rparr>"

lemma UIO_SINGLE_wf:
  "a + n < 2 ^ 64 \<Longrightarrow> uio_wf (UIO_SINGLE op vm ofs a n)"
  "uio_addrs (UIO_SINGLE op vm ofs a n) = [a..<a + n]"
  by (simp_all add: UIO_SINGLE_def uio_wf_def uio_addrs_def iov_addrs_def)

lemma UIO_SINGLE_fields [simp]:
  "uio_op (UIO_SINGLE op vm ofs a n) = op" "uio_vmspace (UIO_SINGLE op vm ofs a n) = vm"
  "uio_resid (UIO_SINGLE op vm ofs a n) = n" "uio_offset (UIO_SINGLE op vm ofs a n) = ofs"
  by (simp_all add: UIO_SINGLE_def)

lemma zero_memory_space [simp]: "space vm zero_memory a = 0"
  by (cases vm) (simp_all add: zero_memory_def space_def)

lemma zero_memory_mapped [simp]: "mapped KernelMap zero_memory a" "a < USER_SPACE_END \<Longrightarrow> mapped UserMap zero_memory a"
  by (simp_all add: zero_memory_def mapped_def)





text \<open>
  \<^verbatim>\<open>uio_restore\<close> undoes a transfer: whatever \<^verbatim>\<open>uiomove\<close> returned, an error in the middle of a
  vector included, the descriptor is again the one that was saved.
\<close>

lemma uio_restore_uiomove:
  assumes "uio_wf u" and "uiomove cbuf off n u m = Some (r, d, v, m')"
  shows "uio_restore v (uio_save u) = u"
  using uiomove_loop_moved [OF assms(1) assms(2) [unfolded uiomove_def]] uio_restore_moved [OF assms(1)]
  by auto

text \<open>
  \<^verbatim>\<open>iovec_length\<close> returns the exact total length of the vectors, without wrap-around, when it fits
  in \<^verbatim>\<open>ssize_t\<close>, and \<^verbatim>\<open>EINVAL\<close> otherwise.
\<close>

lemma iovec_length_exact:
  "iovec_length iov = (if sum_list (map iov_len iov) \<le> SSIZE_MAX
                       then Inr (sum_list (map iov_len iov)) else Inl EINVAL)"
  unfolding iovec_length_def by (subst iovec_length_loop_eq) simp_all

end
