(* ===== verification/Ringbuf.thy ===== *)
theory Ringbuf
  imports Uio
begin

text \<open>
  The circular byte buffer of \<^verbatim>\<open>sys/kern/ringbuf.c\<close>, which pipes, terminals and drivers use.  A
  buffer is refined to the list \<open>contents\<close> of the bytes it holds.  The contract that clients rely
  on, a bounded first-in first-out queue, is the locale \<open>bounded_fifo\<close>; the ring buffer is an
  interpretation of it.
\<close>

section \<open>A bounded queue\<close>

locale bounded_fifo =
  fixes invar :: "'q \<Rightarrow> bool"
    and elems :: "'q \<Rightarrow> 'a list"
    and capacity :: "'q \<Rightarrow> nat"
    and put :: "'q \<Rightarrow> 'a \<Rightarrow> (bool \<times> 'q) option"
    and get :: "'q \<Rightarrow> ('a option \<times> 'q) option"
  assumes put_room: "invar q \<Longrightarrow> length (elems q) < capacity q \<Longrightarrow>
      \<exists>q'. put q x = Some (True, q') \<and> invar q' \<and> elems q' = elems q @ [x] \<and> capacity q' = capacity q"
    and put_full: "invar q \<Longrightarrow> length (elems q) = capacity q \<Longrightarrow> put q x = Some (False, q)"
    and get_empty: "invar q \<Longrightarrow> elems q = [] \<Longrightarrow> get q = Some (None, q)"
    and get_first: "invar q \<Longrightarrow> elems q = x # xs \<Longrightarrow>
      \<exists>q'. get q = Some (Some x, q') \<and> invar q' \<and> elems q' = xs \<and> capacity q' = capacity q"
    and elems_capacity: "invar q \<Longrightarrow> length (elems q) \<le> capacity q"
begin

fun put_all :: "'q \<Rightarrow> 'a list \<Rightarrow> 'q option" where
  "put_all q [] = Some q"
| "put_all q (x # xs) = (case put q x of None \<Rightarrow> None | Some (_, q') \<Rightarrow> put_all q' xs)"

fun get_many :: "'q \<Rightarrow> nat \<Rightarrow> ('a list \<times> 'q) option" where
  "get_many q 0 = Some ([], q)"
| "get_many q (Suc n) =
     (case get q of
        None \<Rightarrow> None
      | Some (None, q') \<Rightarrow> get_many q' n
      | Some (Some x, q') \<Rightarrow> map_option (\<lambda>(xs, q''). (x # xs, q'')) (get_many q' n))"

lemma put_all_room:
  "invar q \<Longrightarrow> length (elems q) + length xs \<le> capacity q \<Longrightarrow>
     \<exists>q'. put_all q xs = Some q' \<and> invar q' \<and> elems q' = elems q @ xs \<and> capacity q' = capacity q"
proof (induction xs arbitrary: q)
  case Nil
  then show ?case by simp
next
  case (Cons x xs)
  then obtain q1 where q1: "put q x = Some (True, q1)" "invar q1" "elems q1 = elems q @ [x]"
    "capacity q1 = capacity q"
    using put_room [of q x] by auto
  then obtain q2 where "put_all q1 xs = Some q2" "invar q2" "elems q2 = elems q1 @ xs"
    "capacity q2 = capacity q1"
    using Cons.IH [of q1] Cons.prems by auto
  then show ?case
    using q1 by simp
qed

lemma get_many_elems:
  "invar q \<Longrightarrow> n \<le> length (elems q) \<Longrightarrow>
     \<exists>q'. get_many q n = Some (take n (elems q), q') \<and> invar q' \<and> elems q' = drop n (elems q) \<and>
          capacity q' = capacity q"
proof (induction n arbitrary: q)
  case 0
  then show ?case by simp
next
  case (Suc n)
  then obtain x xs where xs: "elems q = x # xs"
    by (cases "elems q") auto
  obtain q1 where q1: "get q = Some (Some x, q1)" "invar q1" "elems q1 = xs" "capacity q1 = capacity q"
    using get_first [OF Suc.prems(1) xs] by auto
  then obtain q2 where "get_many q1 n = Some (take n xs, q2)" "invar q2" "elems q2 = drop n xs"
    "capacity q2 = capacity q1"
    using Suc.IH [of q1] Suc.prems xs by auto
  then show ?case
    using q1 xs by simp
qed

text \<open>What is put comes out again, in order, behind what was already there.\<close>

lemma put_get_roundtrip:
  assumes "invar q" and "length (elems q) + length xs \<le> capacity q"
  shows "\<exists>q1 q2. put_all q xs = Some q1 \<and>
                 get_many q1 (length (elems q) + length xs) = Some (elems q @ xs, q2) \<and> elems q2 = []"
proof -
  obtain q1 where q1: "put_all q xs = Some q1" "invar q1" "elems q1 = elems q @ xs"
    using put_all_room [OF assms] by auto
  then show ?thesis
    using get_many_elems [of q1 "length (elems q) + length xs"] by auto
qed

end

section \<open>The ring buffer\<close>

record ringbuf =
  rb_head :: nat
  rb_tail :: nat
  rb_count :: nat
  rb_size :: nat
  rb_data :: "byte list"

definition ringbuf_empty :: "ringbuf \<Rightarrow> bool" where
  "ringbuf_empty buf \<longleftrightarrow> rb_count buf = 0"

definition ringbuf_full :: "ringbuf \<Rightarrow> bool" where
  "ringbuf_full buf \<longleftrightarrow> rb_count buf = rb_size buf"

definition ringbuf_init :: "byte list \<Rightarrow> nat \<Rightarrow> ringbuf" where
  "ringbuf_init buf sz = \<lparr>rb_head = 0, rb_tail = 0, rb_count = 0, rb_size = sz, rb_data = buf\<rparr>"

definition produce :: "ringbuf \<Rightarrow> nat \<Rightarrow> ringbuf option" where
  "produce buf bytes =
     do {
       kassert (uadd (rb_count buf) bytes \<le> rb_size buf);
       kassert (uadd (rb_head buf) bytes \<le> rb_size buf);
       let buf = buf\<lparr>rb_count := uadd (rb_count buf) bytes, rb_head := uadd (rb_head buf) bytes\<rparr>;
       Some (if rb_head buf = rb_size buf then buf\<lparr>rb_head := 0\<rparr> else buf)
     }"

definition consume :: "ringbuf \<Rightarrow> nat \<Rightarrow> ringbuf option" where
  "consume buf bytes =
     do {
       kassert (rb_count buf \<ge> bytes);
       kassert (uadd (rb_tail buf) bytes \<le> rb_size buf);
       let buf = buf\<lparr>rb_count := usub (rb_count buf) bytes, rb_tail := uadd (rb_tail buf) bytes\<rparr>;
       Some (if rb_tail buf = rb_size buf then buf\<lparr>rb_tail := 0\<rparr> else buf)
     }"

definition ringbuf_putb :: "ringbuf \<Rightarrow> byte \<Rightarrow> (bool \<times> ringbuf) option" where
  "ringbuf_putb buf b =
     (if rb_count buf = rb_size buf then Some (False, buf)
      else do {
        kassert (rb_head buf < length (rb_data buf));
        buf \<leftarrow> produce (buf\<lparr>rb_data := (rb_data buf)[rb_head buf := b]\<rparr>) 1;
        Some (True, buf)
      })"

fun putnb_loop :: "ringbuf \<Rightarrow> byte list \<Rightarrow> ringbuf option" where
  "putnb_loop buf [] = Some buf"
| "putnb_loop buf (b # bs) = do { (_, buf) \<leftarrow> ringbuf_putb buf b; putnb_loop buf bs }"

definition ringbuf_putnb :: "ringbuf \<Rightarrow> byte list \<Rightarrow> (bool \<times> ringbuf) option" where
  "ringbuf_putnb buf bs =
     (if uadd (rb_count buf) (length bs) > rb_size buf then Some (False, buf)
      else do { buf \<leftarrow> putnb_loop buf bs; Some (True, buf) })"

definition ringbuf_getb :: "ringbuf \<Rightarrow> (byte option \<times> ringbuf) option" where
  "ringbuf_getb buf =
     (if rb_count buf = 0 then Some (None, buf)
      else do {
        kassert (rb_tail buf < length (rb_data buf));
        let b = rb_data buf ! rb_tail buf;
        buf \<leftarrow> consume buf 1;
        Some (Some b, buf)
      })"

text \<open>
  \<^verbatim>\<open>ringbuf_getnb\<close> stores into its destination only what \<^verbatim>\<open>ringbuf_getb\<close> returned; the model
  collects the bytes stored.
\<close>

fun getnb_loop :: "ringbuf \<Rightarrow> nat \<Rightarrow> (byte list \<times> ringbuf) option" where
  "getnb_loop buf 0 = Some ([], buf)"
| "getnb_loop buf (Suc n) =
     do {
       (b, buf) \<leftarrow> ringbuf_getb buf;
       (bs, buf) \<leftarrow> getnb_loop buf n;
       Some (case b of None \<Rightarrow> bs | Some b \<Rightarrow> b # bs, buf)
     }"

definition ringbuf_getnb :: "ringbuf \<Rightarrow> nat \<Rightarrow> (byte list option \<times> ringbuf) option" where
  "ringbuf_getnb buf n =
     (if rb_count buf < n then Some (None, buf)
      else do { (bs, buf) \<leftarrow> getnb_loop buf n; Some (Some bs, buf) })"

definition ringbuf_moveb :: "ringbuf \<Rightarrow> ringbuf \<Rightarrow> (bool \<times> ringbuf \<times> ringbuf) option" where
  "ringbuf_moveb src dst =
     (if rb_count src = 0 \<or> rb_count dst = rb_size dst then Some (False, src, dst)
      else do {
        (b, src) \<leftarrow> ringbuf_getb src;
        (_, dst) \<leftarrow> ringbuf_putb dst (the b);
        Some (True, src, dst)
      })"

fun movenb_loop :: "ringbuf \<Rightarrow> ringbuf \<Rightarrow> nat \<Rightarrow> (ringbuf \<times> ringbuf) option" where
  "movenb_loop src dst 0 = Some (src, dst)"
| "movenb_loop src dst (Suc n) =
     do { (_, src, dst) \<leftarrow> ringbuf_moveb src dst; movenb_loop src dst n }"

definition ringbuf_movenb :: "ringbuf \<Rightarrow> ringbuf \<Rightarrow> nat \<Rightarrow> (bool \<times> ringbuf \<times> ringbuf) option" where
  "ringbuf_movenb src dst n =
     (if rb_count src < n \<or> uadd (rb_count dst) n > rb_size dst then Some (False, src, dst)
      else do { (src, dst) \<leftarrow> movenb_loop src dst n; Some (True, src, dst) })"

partial_function (option) ringbuf_read_loop ::
  "ringbuf \<Rightarrow> uio \<Rightarrow> memory \<Rightarrow> (errno option \<times> ringbuf \<times> uio \<times> memory) option" where
  "ringbuf_read_loop buf uio m =
     (if uio_resid uio > 0 \<and> \<not> ringbuf_empty buf then
        let sz = (if rb_tail buf < rb_head buf then usub (rb_head buf) (rb_tail buf)
                  else usub (rb_size buf) (rb_tail buf));
            sz = (if sz > uio_resid uio then uio_resid uio else sz)
        in do {
             (res, d, uio, m) \<leftarrow> uiomove (rb_data buf) (rb_tail buf) sz uio m;
             case res of
               Some e \<Rightarrow> Some (Some e, buf\<lparr>rb_data := d\<rparr>, uio, m)
             | None \<Rightarrow> do { buf \<leftarrow> consume (buf\<lparr>rb_data := d\<rparr>) (u32 sz); ringbuf_read_loop buf uio m }
           }
      else Some (None, buf, uio, m))"

definition ringbuf_read ::
  "ringbuf \<Rightarrow> uio \<Rightarrow> memory \<Rightarrow> (errno option \<times> ringbuf \<times> uio \<times> memory) option" where
  "ringbuf_read buf uio m = do { kassert (uio_op uio = UIO_READ); ringbuf_read_loop buf uio m }"

partial_function (option) ringbuf_write_loop ::
  "ringbuf \<Rightarrow> uio \<Rightarrow> memory \<Rightarrow> (errno option \<times> ringbuf \<times> uio \<times> memory) option" where
  "ringbuf_write_loop buf uio m =
     (if uio_resid uio > 0 \<and> \<not> ringbuf_full buf then
        let sz = (if rb_head buf < rb_tail buf then usub (rb_tail buf) (rb_head buf)
                  else usub (rb_size buf) (rb_head buf));
            sz = (if sz > uio_resid uio then uio_resid uio else sz)
        in do {
             (res, d, uio, m) \<leftarrow> uiomove (rb_data buf) (rb_head buf) sz uio m;
             case res of
               Some e \<Rightarrow> Some (Some e, buf\<lparr>rb_data := d\<rparr>, uio, m)
             | None \<Rightarrow> do { buf \<leftarrow> produce (buf\<lparr>rb_data := d\<rparr>) (u32 sz); ringbuf_write_loop buf uio m }
           }
      else Some (None, buf, uio, m))"

definition ringbuf_write ::
  "ringbuf \<Rightarrow> uio \<Rightarrow> memory \<Rightarrow> (errno option \<times> ringbuf \<times> uio \<times> memory) option" where
  "ringbuf_write buf uio m = do { kassert (uio_op uio = UIO_WRITE); ringbuf_write_loop buf uio m }"

definition ringbuf_reset :: "ringbuf \<Rightarrow> ringbuf" where
  "ringbuf_reset buf = ringbuf_init (rb_data buf) (rb_size buf)"

section \<open>Invariant and contents\<close>

definition ringbuf_inv :: "ringbuf \<Rightarrow> bool" where
  "ringbuf_inv rb \<longleftrightarrow> 0 < rb_size rb \<and> rb_size rb < 2 ^ 32 \<and> rb_size rb = length (rb_data rb) \<and>
     rb_count rb \<le> rb_size rb \<and> rb_tail rb < rb_size rb \<and>
     rb_head rb = (rb_tail rb + rb_count rb) mod rb_size rb"

definition contents :: "ringbuf \<Rightarrow> byte list" where
  "contents rb = map (\<lambda>i. rb_data rb ! ((rb_tail rb + i) mod rb_size rb)) [0..<rb_count rb]"


lemma length_contents [simp]: "length (contents rb) = rb_count rb"
  by (simp add: contents_def)

lemma contents_nth: "i < rb_count rb \<Longrightarrow> contents rb ! i = rb_data rb ! ((rb_tail rb + i) mod rb_size rb)"
  by (simp add: contents_def)

lemma ringbuf_init_inv:
  assumes "0 < length d" and "length d < 2 ^ 32"
  shows "ringbuf_inv (ringbuf_init d (length d))" and "contents (ringbuf_init d (length d)) = []"
  using assms by (simp_all add: ringbuf_inv_def contents_def ringbuf_init_def)

lemma consume_ok:
  assumes inv: "ringbuf_inv rb" and n: "n \<le> rb_count rb" "rb_tail rb + n \<le> rb_size rb"
  shows "\<exists>rb'. consume rb n = Some rb' \<and> ringbuf_inv rb' \<and> contents rb' = drop n (contents rb) \<and>
               rb_size rb' = rb_size rb"
proof -
  let ?t = "(rb_tail rb + n) mod rb_size rb"
  let ?r = "rb\<lparr>rb_count := rb_count rb - n, rb_tail := ?t\<rparr>"
  have sz: "rb_size rb < 2 ^ 64" "rb_tail rb + n < 2 ^ 64" "rb_count rb < 2 ^ 64"
    using inv n by (auto simp: ringbuf_inv_def)
  have 1: "consume rb n = Some ?r"
    using inv n sz by (auto simp: consume_def uadd_exact usub_exact Let_def ringbuf_inv_def)
  have "(rb_tail rb + rb_count rb) mod rb_size rb = (?t + (rb_count rb - n)) mod rb_size rb"
    using n by (simp only: mod_add_left_eq) simp
  then have 2: "ringbuf_inv ?r"
    using inv by (auto simp: ringbuf_inv_def)
  have 3: "contents ?r = drop n (contents rb)"
    by (rule nth_equalityI) (auto simp: contents_nth mod_simps add.assoc)
  show ?thesis
    using 1 2 3 by simp
qed

lemma produce_ok:
  assumes inv: "ringbuf_inv rb" and n: "rb_count rb + n \<le> rb_size rb" "rb_head rb + n \<le> rb_size rb"
  shows "\<exists>rb'. produce rb n = Some rb' \<and> ringbuf_inv rb' \<and>
               contents rb' = contents rb @ take n (drop (rb_head rb) (rb_data rb)) \<and>
               rb_size rb' = rb_size rb"
proof -
  let ?h = "(rb_head rb + n) mod rb_size rb"
  let ?r = "rb\<lparr>rb_count := rb_count rb + n, rb_head := ?h\<rparr>"
  have sz: "rb_size rb < 2 ^ 64" "rb_head rb + n < 2 ^ 64" "rb_count rb + n < 2 ^ 64"
    using inv n by (auto simp: ringbuf_inv_def)
  have hd: "rb_head rb = (rb_tail rb + rb_count rb) mod rb_size rb"
    using inv by (simp add: ringbuf_inv_def)
  have 1: "produce rb n = Some ?r"
    using inv n sz by (auto simp: produce_def uadd_exact Let_def ringbuf_inv_def)
  have 2: "ringbuf_inv ?r"
    using inv n(1) hd by (auto simp: ringbuf_inv_def mod_simps add.assoc)
  have "(rb_tail rb + i) mod rb_size rb = rb_head rb + (i - rb_count rb)"
    if "rb_count rb \<le> i" "i < rb_count rb + n" for i
  proof -
    have "(rb_tail rb + i) mod rb_size rb = (rb_head rb + (i - rb_count rb)) mod rb_size rb"
      unfolding hd mod_add_left_eq using that(1) by simp
    also have "\<dots> = rb_head rb + (i - rb_count rb)"
      using that n(2) by (intro mod_less) linarith
    finally show ?thesis .
  qed
  moreover have "length (take n (drop (rb_head rb) (rb_data rb))) = n"
    using inv n(2) unfolding ringbuf_inv_def by simp
  ultimately have 3: "contents ?r = contents rb @ take n (drop (rb_head rb) (rb_data rb))"
    by (intro nth_equalityI) (simp_all add: contents_nth nth_append)
  show ?thesis
    using 1 2 3 by simp
qed

text \<open>Writing into the free space \<open>[head, head + n)\<close> keeps the contents.\<close>

definition fill :: "ringbuf \<Rightarrow> byte list \<Rightarrow> ringbuf" where
  "fill rb bs = rb\<lparr>rb_data := take (rb_head rb) (rb_data rb) @ bs @ drop (rb_head rb + length bs) (rb_data rb)\<rparr>"

lemma fill_fields [simp]:
  "rb_head (fill rb bs) = rb_head rb" "rb_tail (fill rb bs) = rb_tail rb"
  "rb_count (fill rb bs) = rb_count rb" "rb_size (fill rb bs) = rb_size rb"
  by (simp_all add: fill_def)

lemma fill_ok:
  assumes inv: "ringbuf_inv rb"
    and n: "rb_count rb + length bs \<le> rb_size rb" "rb_head rb + length bs \<le> rb_size rb"
  shows "ringbuf_inv (fill rb bs)" and "contents (fill rb bs) = contents rb"
    and "take (length bs) (drop (rb_head rb) (rb_data (fill rb bs))) = bs"
proof -
  show "ringbuf_inv (fill rb bs)"
    using inv n by (auto simp: ringbuf_inv_def fill_def)
  show "take (length bs) (drop (rb_head rb) (rb_data (fill rb bs))) = bs"
    using inv n by (simp add: fill_def ringbuf_inv_def)
  have outside: "rb_data (fill rb bs) ! j = rb_data rb ! j"
    if "j < rb_size rb" "\<not> (rb_head rb \<le> j \<and> j < rb_head rb + length bs)" for j
    using that n inv by (auto simp: fill_def nth_append ringbuf_inv_def)
  have "\<not> (rb_head rb \<le> (rb_tail rb + i) mod rb_size rb \<and>
           (rb_tail rb + i) mod rb_size rb < rb_head rb + length bs)" if "i < rb_count rb" for i
  proof (cases "rb_tail rb + rb_count rb < rb_size rb")
    case True
    then show ?thesis
      using inv that by (simp add: ringbuf_inv_def)
  next
    case False
    then have "rb_head rb = rb_tail rb + rb_count rb - rb_size rb"
      using inv by (auto simp: ringbuf_inv_def le_mod_geq)
    then show ?thesis
      using inv that n False
      by (cases "rb_tail rb + i < rb_size rb") (auto simp: ringbuf_inv_def le_mod_geq)
  qed
  moreover have "0 < rb_size rb"
    using inv unfolding ringbuf_inv_def by blast
  ultimately show "contents (fill rb bs) = contents rb"
    using outside by (intro nth_equalityI) (simp_all add: contents_nth)
qed

section \<open>Bytes in, bytes out\<close>

lemma ringbuf_inv_head: "ringbuf_inv rb \<Longrightarrow> rb_head rb < rb_size rb"
  unfolding ringbuf_inv_def by auto

lemma ringbuf_putb_room:
  assumes inv: "ringbuf_inv rb" and room: "rb_count rb < rb_size rb"
  shows "\<exists>rb'. ringbuf_putb rb b = Some (True, rb') \<and> ringbuf_inv rb' \<and>
               contents rb' = contents rb @ [b] \<and> rb_size rb' = rb_size rb"
proof -
  have h: "rb_head rb < rb_size rb" "rb_head rb < length (rb_data rb)"
    using ringbuf_inv_head [OF inv] inv by (auto simp: ringbuf_inv_def)
  have eq: "rb\<lparr>rb_data := (rb_data rb)[rb_head rb := b]\<rparr> = fill rb [b]"
    using h by (simp add: fill_def upd_conv_take_nth_drop)
  have f: "ringbuf_inv (fill rb [b])" "contents (fill rb [b]) = contents rb"
    "take 1 (drop (rb_head rb) (rb_data (fill rb [b]))) = [b]"
    using fill_ok [OF inv, of "[b]"] room h(1) by simp_all
  obtain rb' where "produce (fill rb [b]) 1 = Some rb'" "ringbuf_inv rb'"
    "contents rb' = contents rb @ [b]" "rb_size rb' = rb_size rb"
    using produce_ok [OF f(1), of 1] room h(1) f(2,3) by auto
  then show ?thesis
    using room h(2) by (simp add: ringbuf_putb_def eq)
qed

lemma ringbuf_getb_first:
  assumes inv: "ringbuf_inv rb" and c: "contents rb = b # bs"
  shows "\<exists>rb'. ringbuf_getb rb = Some (Some b, rb') \<and> ringbuf_inv rb' \<and>
               contents rb' = bs \<and> rb_size rb' = rb_size rb"
proof -
  have n: "0 < rb_count rb"
    using c length_contents [of rb] by simp
  have t: "rb_tail rb < length (rb_data rb)" "rb_tail rb < rb_size rb"
    using inv by (auto simp: ringbuf_inv_def)
  have b: "rb_data rb ! rb_tail rb = b"
    using contents_nth [OF n] c t(2) by simp
  obtain rb' where "consume rb 1 = Some rb'" "ringbuf_inv rb'" "contents rb' = bs" "rb_size rb' = rb_size rb"
    using consume_ok [OF inv, of 1] n t(2) c by auto
  then show ?thesis
    using n t(1) b by (simp add: ringbuf_getb_def)
qed

interpretation rb: bounded_fifo ringbuf_inv contents rb_size ringbuf_putb ringbuf_getb
proof unfold_locales
  show "length (contents q) \<le> rb_size q" if "ringbuf_inv q" for q
    using that by (auto simp: ringbuf_inv_def)
  show "ringbuf_getb q = Some (None, q)" if "contents q = []" for q
    using that length_contents [of q] by (simp add: ringbuf_getb_def)
  show "ringbuf_putb q x = Some (False, q)" if "length (contents q) = rb_size q" for q x
    using that by (simp add: ringbuf_putb_def)
qed (simp_all add: ringbuf_putb_room ringbuf_getb_first)

lemma putnb_loop_put_all: "putnb_loop rb bs = rb.put_all rb bs"
  by (induction bs arbitrary: rb) (auto simp: bind_eq_Some_conv split: option.splits)

lemma getnb_loop_get_many: "getnb_loop rb n = rb.get_many rb n"
proof (induction n arbitrary: rb)
  case (Suc n)
  then show ?case
    by (cases "ringbuf_getb rb") (auto simp: map_option_case split: option.splits)
qed simp

lemma ringbuf_putnb_ok:
  assumes "ringbuf_inv rb" and "length bs < 2 ^ 63"
  shows "\<exists>rb'. ringbuf_putnb rb bs = Some (rb_count rb + length bs \<le> rb_size rb, rb') \<and> ringbuf_inv rb' \<and>
               rb_size rb' = rb_size rb \<and>
               contents rb' = (if rb_count rb + length bs \<le> rb_size rb then contents rb @ bs else contents rb)"
proof -
  have "uadd (rb_count rb) (length bs) = rb_count rb + length bs"
    using assms by (intro uadd_exact) (auto simp: ringbuf_inv_def)
  then show ?thesis
    using rb.put_all_room [OF assms(1), of bs] assms(1)
    by (auto simp: ringbuf_putnb_def putnb_loop_put_all)
qed

lemma ringbuf_getnb_ok:
  assumes "ringbuf_inv rb"
  shows "\<exists>rb'. ringbuf_getnb rb n = Some (if n \<le> rb_count rb then Some (take n (contents rb)) else None, rb') \<and>
               ringbuf_inv rb' \<and> rb_size rb' = rb_size rb \<and>
               contents rb' = (if n \<le> rb_count rb then drop n (contents rb) else contents rb)"
  using rb.get_many_elems [OF assms, of n] assms
  by (auto simp: ringbuf_getnb_def getnb_loop_get_many)

lemma ringbuf_moveb_ok:
  assumes "ringbuf_inv src" and "ringbuf_inv dst" and "contents src = b # bs" and "rb_count dst < rb_size dst"
  shows "\<exists>src' dst'. ringbuf_moveb src dst = Some (True, src', dst') \<and> ringbuf_inv src' \<and> ringbuf_inv dst' \<and>
           contents src' = bs \<and> contents dst' = contents dst @ [b] \<and>
           rb_size src' = rb_size src \<and> rb_size dst' = rb_size dst"
  using ringbuf_getb_first [OF assms(1,3)] ringbuf_putb_room [OF assms(2,4), of b] assms(3,4)
    length_contents [of src]
  by (auto simp: ringbuf_moveb_def)

lemma movenb_loop_ok:
  assumes "ringbuf_inv src" and "ringbuf_inv dst" and "n \<le> rb_count src" and "rb_count dst + n \<le> rb_size dst"
  shows "\<exists>src' dst'. movenb_loop src dst n = Some (src', dst') \<and> ringbuf_inv src' \<and> ringbuf_inv dst' \<and>
           contents src' = drop n (contents src) \<and> contents dst' = contents dst @ take n (contents src) \<and>
           rb_size src' = rb_size src \<and> rb_size dst' = rb_size dst"
  using assms
proof (induction n arbitrary: src dst)
  case (Suc n)
  then obtain b bs where c: "contents src = b # bs"
    using length_contents [of src] by (cases "contents src") auto
  obtain s d where sd: "ringbuf_moveb src dst = Some (True, s, d)" "ringbuf_inv s" "ringbuf_inv d"
    "contents s = bs" "contents d = contents dst @ [b]" "rb_size s = rb_size src" "rb_size d = rb_size dst"
    using ringbuf_moveb_ok [OF Suc.prems(1,2) c] Suc.prems(4) by auto
  have "rb_count s = length bs" "rb_count d = Suc (rb_count dst)" "rb_count src = Suc (length bs)"
    using length_contents [of s] length_contents [of d] length_contents [of src] sd(4,5) c by simp_all
  then show ?case
    using Suc.IH [OF sd(2,3)] Suc.prems(3,4) sd c by auto
qed simp

lemma ringbuf_movenb_ok:
  assumes "ringbuf_inv src" and "ringbuf_inv dst" and "n < 2 ^ 63"
  shows "\<exists>src' dst'. ringbuf_movenb src dst n =
             Some (n \<le> rb_count src \<and> rb_count dst + n \<le> rb_size dst, src', dst') \<and>
           ringbuf_inv src' \<and> ringbuf_inv dst' \<and> contents dst' @ contents src' = contents dst @ contents src \<and>
           rb_count dst' = rb_count dst + (if n \<le> rb_count src \<and> rb_count dst + n \<le> rb_size dst then n else 0)"
proof (cases "n \<le> rb_count src \<and> rb_count dst + n \<le> rb_size dst")
  case True
  have u: "uadd (rb_count dst) n = rb_count dst + n"
    using assms by (intro uadd_exact) (auto simp: ringbuf_inv_def)
  obtain s d where sd: "movenb_loop src dst n = Some (s, d)" "ringbuf_inv s" "ringbuf_inv d"
    "contents s = drop n (contents src)" "contents d = contents dst @ take n (contents src)"
    using movenb_loop_ok [OF assms(1,2)] True by blast
  then show ?thesis
    using True u length_contents [of d] by (simp add: ringbuf_movenb_def)
next
  case False
  have u: "uadd (rb_count dst) n = rb_count dst + n"
    using assms by (intro uadd_exact) (auto simp: ringbuf_inv_def)
  then show ?thesis
    using False assms by (auto simp: ringbuf_movenb_def)
qed

section \<open>Transfers to and from an address space\<close>

text \<open>The first segment that \<^verbatim>\<open>ringbuf_read\<close> moves: a prefix of the contents, contiguous in the data.\<close>

definition used_seg :: "ringbuf \<Rightarrow> nat" where
  "used_seg rb = (if rb_tail rb < rb_head rb then usub (rb_head rb) (rb_tail rb)
                  else usub (rb_size rb) (rb_tail rb))"

definition free_seg :: "ringbuf \<Rightarrow> nat" where
  "free_seg rb = (if rb_head rb < rb_tail rb then usub (rb_tail rb) (rb_head rb)
                  else usub (rb_size rb) (rb_head rb))"

lemma used_seg_bounds:
  assumes inv: "ringbuf_inv rb" and ne: "0 < rb_count rb"
  shows "0 < used_seg rb" and "used_seg rb \<le> rb_count rb" and "rb_tail rb + used_seg rb \<le> rb_size rb"
proof -
  have sz: "rb_size rb < 2 ^ 64" "rb_tail rb < rb_size rb" "rb_head rb < rb_size rb"
    using inv ringbuf_inv_head [OF inv] by (auto simp: ringbuf_inv_def)
  then have u: "used_seg rb = (if rb_tail rb < rb_head rb then rb_head rb - rb_tail rb
                                else rb_size rb - rb_tail rb)"
    unfolding used_seg_def by (auto simp: usub_exact)
  have "rb_head rb = (if rb_tail rb + rb_count rb < rb_size rb then rb_tail rb + rb_count rb
                      else rb_tail rb + rb_count rb - rb_size rb)"
    using inv by (auto simp: ringbuf_inv_def le_mod_geq)
  then show "0 < used_seg rb" "used_seg rb \<le> rb_count rb" "rb_tail rb + used_seg rb \<le> rb_size rb"
    using inv ne sz(2,3) unfolding u by (auto simp: ringbuf_inv_def split: if_splits)
qed

lemma free_seg_bounds:
  assumes inv: "ringbuf_inv rb" and ne: "rb_count rb \<noteq> rb_size rb"
  shows "0 < free_seg rb" and "rb_count rb + free_seg rb \<le> rb_size rb" and "rb_head rb + free_seg rb \<le> rb_size rb"
proof -
  have sz: "rb_size rb < 2 ^ 64" "rb_tail rb < rb_size rb" "rb_head rb < rb_size rb"
    using inv ringbuf_inv_head [OF inv] by (auto simp: ringbuf_inv_def)
  then have u: "free_seg rb = (if rb_head rb < rb_tail rb then rb_tail rb - rb_head rb
                                else rb_size rb - rb_head rb)"
    unfolding free_seg_def by (auto simp: usub_exact)
  have "rb_head rb = (if rb_tail rb + rb_count rb < rb_size rb then rb_tail rb + rb_count rb
                      else rb_tail rb + rb_count rb - rb_size rb)"
    using inv by (auto simp: ringbuf_inv_def le_mod_geq)
  then show "0 < free_seg rb" "rb_count rb + free_seg rb \<le> rb_size rb" "rb_head rb + free_seg rb \<le> rb_size rb"
    using inv ne sz(2,3) unfolding u by (auto simp: ringbuf_inv_def split: if_splits)
qed

lemma take_contents:
  assumes inv: "ringbuf_inv rb" and n: "n \<le> rb_count rb" "rb_tail rb + n \<le> rb_size rb"
  shows "take n (drop (rb_tail rb) (rb_data rb)) = take n (contents rb)"
proof (rule nth_equalityI)
  show "length (take n (drop (rb_tail rb) (rb_data rb))) = length (take n (contents rb))"
    using inv n unfolding ringbuf_inv_def by simp
next
  fix i
  assume "i < length (take n (drop (rb_tail rb) (rb_data rb)))"
  then show "take n (drop (rb_tail rb) (rb_data rb)) ! i = take n (contents rb) ! i"
    using n by (simp add: contents_nth less_diff_conv)
qed

lemma if_greater_min: "(if a > b then b else a) = min a (b :: nat)"
  by simp

lemma ringbuf_read_loop_unfold:
  "ringbuf_read_loop buf uio m =
     (if uio_resid uio > 0 \<and> 0 < rb_count buf then
        do {
          (res, d, uio', m) \<leftarrow> uiomove (rb_data buf) (rb_tail buf) (min (used_seg buf) (uio_resid uio)) uio m;
          case res of
            Some e \<Rightarrow> Some (Some e, buf\<lparr>rb_data := d\<rparr>, uio', m)
          | None \<Rightarrow> do {
              buf \<leftarrow> consume (buf\<lparr>rb_data := d\<rparr>) (u32 (min (used_seg buf) (uio_resid uio)));
              ringbuf_read_loop buf uio' m
            }
        }
      else Some (None, buf, uio, m))"
  by (subst ringbuf_read_loop.simps)
     (unfold Let_def used_seg_def [symmetric] if_greater_min ringbuf_empty_def neq0_conv, rule refl)

lemma ringbuf_write_loop_unfold:
  "ringbuf_write_loop buf uio m =
     (if uio_resid uio > 0 \<and> rb_count buf \<noteq> rb_size buf then
        do {
          (res, d, uio', m) \<leftarrow> uiomove (rb_data buf) (rb_head buf) (min (free_seg buf) (uio_resid uio)) uio m;
          case res of
            Some e \<Rightarrow> Some (Some e, buf\<lparr>rb_data := d\<rparr>, uio', m)
          | None \<Rightarrow> do {
              buf \<leftarrow> produce (buf\<lparr>rb_data := d\<rparr>) (u32 (min (free_seg buf) (uio_resid uio)));
              ringbuf_write_loop buf uio' m
            }
        }
      else Some (None, buf, uio, m))"
  by (subst ringbuf_write_loop.simps)
     (unfold Let_def free_seg_def [symmetric] if_greater_min ringbuf_full_def, rule refl)

lemma ringbuf_read_loop_ok:
  assumes "ringbuf_inv rb" and "uio_wf u" and "uio_op u = UIO_READ"
    and "\<forall>a \<in> set (uio_addrs u). mapped (uio_vmspace u) m a"
  shows "\<exists>rb' v. ringbuf_read_loop rb u m =
      Some (None, rb', v, set_space (uio_vmspace u)
        (scatter (space (uio_vmspace u) m) (take (min (uio_resid u) (rb_count rb)) (uio_addrs u))
          (take (min (uio_resid u) (rb_count rb)) (contents rb))) m) \<and>
      ringbuf_inv rb' \<and> contents rb' = drop (min (uio_resid u) (rb_count rb)) (contents rb) \<and>
      rb_size rb' = rb_size rb \<and> moved (min (uio_resid u) (rb_count rb)) u v"
  using assms
proof (induction "rb_count rb" arbitrary: rb u m rule: less_induct)
  case less
  note inv = less.prems(1) and wf = less.prems(2)
  show ?case
  proof (cases "uio_resid u > 0 \<and> 0 < rb_count rb")
    case False
    then show ?thesis
      using less.prems by (subst ringbuf_read_loop_unfold) auto
  next
    case True
    define s where "s = min (used_seg rb) (uio_resid u)"
    have s: "0 < s" "s \<le> rb_count rb" "rb_tail rb + s \<le> rb_size rb" "s \<le> uio_resid u" "u32 s = s"
      using used_seg_bounds [OF inv] True inv unfolding s_def by (auto simp: ringbuf_inv_def u32_def)
    let ?m = "set_space (uio_vmspace u) (scatter (space (uio_vmspace u) m) (take s (uio_addrs u))
                (take s (contents rb))) m"
    have len: "rb_tail rb + s \<le> length (rb_data rb)"
      using s(3) inv unfolding ringbuf_inv_def by simp
    have "min s (uio_resid u) = s"
      using s(4) by simp
    then obtain v where v: "uiomove (rb_data rb) (rb_tail rb) s u m = Some (None, rb_data rb, v, ?m)"
      "moved s u v"
      using uiomove_loop_READ [OF wf less.prems(3) len less.prems(4)] take_contents [OF inv s(2,3)]
      unfolding uiomove_def by metis
    obtain r where r: "consume rb s = Some r" "ringbuf_inv r" "contents r = drop s (contents rb)"
      "rb_size r = rb_size rb"
      using consume_ok [OF inv s(2,3)] by auto
    have step: "ringbuf_read_loop rb u m = ringbuf_read_loop r v ?m"
      using True s(5) v(1) r(1) by (subst ringbuf_read_loop_unfold) (simp flip: s_def)
    define k where "k = min (uio_resid v) (rb_count r)"
    have cr: "rb_count r = rb_count rb - s"
      using length_contents [of r] r(3) by simp
    have k: "s + k = min (uio_resid u) (rb_count rb)"
      using cr moved_resid [OF v(2) wf] s unfolding k_def by auto
    have map: "\<forall>a \<in> set (uio_addrs v). mapped (uio_vmspace v) ?m a"
      using moved_mapped [OF v(2) less.prems(4)] moved_frame(3) [OF v(2)] by simp
    have "uio_op v = UIO_READ"
      using less.prems(3) moved_frame(2) [OF v(2)] by simp
    from less.hyps [OF _ r(2) moved_frame(1) [OF v(2)] this map]
    obtain rb' w where w: "ringbuf_read_loop r v ?m = Some (None, rb', w, set_space (uio_vmspace v)
        (scatter (space (uio_vmspace v) ?m) (take k (uio_addrs v)) (take k (contents r))) ?m)"
      "ringbuf_inv rb'" "contents rb' = drop k (contents r)" "rb_size rb' = rb_size r" "moved k v w"
      using cr s(1,2) unfolding k_def by auto
    have "s + k \<le> length (uio_addrs u)" "s + k \<le> length (contents rb)"
      using k wf by (auto simp: uio_wf_def)
    then have "set_space (uio_vmspace v)
        (scatter (space (uio_vmspace v) ?m) (take k (uio_addrs v)) (take k (contents r))) ?m =
      set_space (uio_vmspace u)
        (scatter (space (uio_vmspace u) m) (take (s + k) (uio_addrs u)) (take (s + k) (contents rb))) m"
      using r(3) moved_frame(3,4) [OF v(2)] scatter_take_add [of s k "uio_addrs u" "contents rb"] by simp
    then show ?thesis
      using step w r moved_trans [OF v(2) w(5)] by (simp add: add.commute flip: k)
  qed
qed

lemma ringbuf_write_loop_ok:
  assumes "ringbuf_inv rb" and "uio_wf u" and "uio_op u = UIO_WRITE"
    and "\<forall>a \<in> set (uio_addrs u). mapped (uio_vmspace u) m a"
  shows "\<exists>rb' v. ringbuf_write_loop rb u m = Some (None, rb', v, m) \<and> ringbuf_inv rb' \<and>
      contents rb' = contents rb @
        map (space (uio_vmspace u) m) (take (min (uio_resid u) (rb_size rb - rb_count rb)) (uio_addrs u)) \<and>
      rb_size rb' = rb_size rb \<and> moved (min (uio_resid u) (rb_size rb - rb_count rb)) u v"
  using assms
proof (induction "rb_size rb - rb_count rb" arbitrary: rb u rule: less_induct)
  case less
  note inv = less.prems(1) and wf = less.prems(2)
  have le: "rb_count rb \<le> rb_size rb"
    using inv unfolding ringbuf_inv_def by blast
  show ?case
  proof (cases "uio_resid u > 0 \<and> rb_count rb \<noteq> rb_size rb")
    case False
    then show ?thesis
      using less.prems le by (subst ringbuf_write_loop_unfold) auto
  next
    case True
    define s where "s = min (free_seg rb) (uio_resid u)"
    have s: "0 < s" "rb_count rb + s \<le> rb_size rb" "rb_head rb + s \<le> rb_size rb" "s \<le> uio_resid u"
      using free_seg_bounds [OF inv] True unfolding s_def by auto
    have s5: "u32 s = s"
      using s(2) inv unfolding ringbuf_inv_def by (intro u32_exact) auto
    define bs where "bs = map (space (uio_vmspace u) m) (take s (uio_addrs u))"
    have len: "rb_head rb + s \<le> length (rb_data rb)" and lbs: "length bs = s"
      using s(3,4) inv wf unfolding ringbuf_inv_def bs_def uio_wf_def by simp_all
    have "min s (uio_resid u) = s"
      using s(4) by simp
    then obtain v where v: "uiomove (rb_data rb) (rb_head rb) s u m =
        Some (None, rb_data (fill rb bs), v, m)" "moved s u v"
      using uiomove_loop_WRITE [OF wf less.prems(3) len less.prems(4)]
      by (auto simp: uiomove_def fill_def lbs simp flip: bs_def)
    note f = fill_ok [OF inv, of bs, unfolded lbs, OF s(2,3)]
    obtain r where r: "produce (fill rb bs) s = Some r" "ringbuf_inv r" "contents r = contents rb @ bs"
      "rb_size r = rb_size rb"
      using produce_ok [OF f(1), of s] s(2,3) f(2,3) by auto
    have upd: "rb\<lparr>rb_data := rb_data (fill rb bs)\<rparr> = fill rb bs"
      by (simp add: fill_def)
    have step: "ringbuf_write_loop rb u m = ringbuf_write_loop r v m"
      using True s5 v(1) r(1) by (subst ringbuf_write_loop_unfold) (simp add: upd flip: s_def)
    define k where "k = min (uio_resid v) (rb_size r - rb_count r)"
    have cr: "rb_count r = rb_count rb + s"
      using length_contents [of r] r(3) lbs by simp
    have k: "s + k = min (uio_resid u) (rb_size rb - rb_count rb)"
      using cr r(4) moved_resid [OF v(2) wf] s unfolding k_def by auto
    have map: "\<forall>a \<in> set (uio_addrs v). mapped (uio_vmspace v) m a"
      using moved_mapped [OF v(2) less.prems(4)] moved_frame(3) [OF v(2)] by simp
    have op: "uio_op v = UIO_WRITE"
      using less.prems(3) moved_frame(2) [OF v(2)] by simp
    have "rb_size r - rb_count r < rb_size rb - rb_count rb"
      using cr r(4) s(1,2) by linarith
    from less.hyps [OF this r(2) moved_frame(1) [OF v(2)] op map]
    obtain rb' w where w: "ringbuf_write_loop r v m = Some (None, rb', w, m)" "ringbuf_inv rb'"
      "contents rb' = contents r @ map (space (uio_vmspace v) m) (take k (uio_addrs v))"
      "rb_size rb' = rb_size r" "moved k v w"
      unfolding k_def by auto
    have "bs @ map (space (uio_vmspace v) m) (take k (uio_addrs v)) =
          map (space (uio_vmspace u) m) (take (s + k) (uio_addrs u))"
      using moved_frame(3,4) [OF v(2)] by (simp add: bs_def take_add)
    then show ?thesis
      using step w r moved_trans [OF v(2) w(5)] by (simp add: add.commute flip: k)
  qed
qed

section \<open>Properties\<close>

text \<open>Two buffers of three bytes for the witnesses, one whose used and one whose free space is split.\<close>

definition split_used :: ringbuf where
  "split_used = \<lparr>rb_head = 1, rb_tail = 2, rb_count = 2, rb_size = 3, rb_data = [8, 0, 7]\<rparr>"

definition split_free :: ringbuf where
  "split_free = \<lparr>rb_head = 2, rb_tail = 1, rb_count = 1, rb_size = 3, rb_data = [0, 7, 0]\<rparr>"

lemma split_buffers:
  "ringbuf_inv split_used" "contents split_used = [7, 8]" "rb_count split_used = 2" "rb_size split_used = 3"
  "ringbuf_inv split_free" "contents split_free = [7]" "rb_count split_free = 1" "rb_size split_free = 3"
  by (simp_all add: ringbuf_inv_def contents_def split_used_def split_free_def upt_rec)

text \<open>
  C16: \<^verbatim>\<open>ringbuf_putnb\<close> followed by \<^verbatim>\<open>ringbuf_getnb\<close> is a first-in first-out transfer: when the bytes
  fit, the buffer returns what it held and then exactly those bytes in order, across the wrap of
  the circular buffer, and is empty again; no assertion of \<^verbatim>\<open>produce\<close> or \<^verbatim>\<open>consume\<close> fails.
\<close>

theorem ringbuf_put_get:
  assumes "ringbuf_inv rb" and "rb_count rb + length bs \<le> rb_size rb"
  shows "\<exists>rb1 rb2. ringbuf_putnb rb bs = Some (True, rb1) \<and>
           ringbuf_getnb rb1 (rb_count rb + length bs) = Some (Some (contents rb @ bs), rb2) \<and>
           ringbuf_inv rb2 \<and> ringbuf_empty rb2"
proof -
  have "length bs < 2 ^ 63"
    using assms by (auto simp: ringbuf_inv_def)
  then obtain rb1 where 1: "ringbuf_putnb rb bs = Some (True, rb1)" "ringbuf_inv rb1" "contents rb1 = contents rb @ bs"
    using ringbuf_putnb_ok [OF assms(1), of bs] assms(2) by auto
  have 2: "rb_count rb1 = rb_count rb + length bs"
    using length_contents [of rb1] 1(3) by simp
  obtain rb2 where "ringbuf_getnb rb1 (rb_count rb + length bs) = Some (Some (contents rb @ bs), rb2)"
    "ringbuf_inv rb2" "contents rb2 = []"
    using ringbuf_getnb_ok [OF 1(2), of "rb_count rb1"] 1(3) 2 by auto
  then show ?thesis
    using 1(1) length_contents [of rb2] by (simp add: ringbuf_empty_def)
qed

theorem ringbuf_put_get_witness:
  "\<exists>rb1 rb2. ringbuf_putnb split_free [8, 9] =
       Some (True, rb1) \<and>
     ringbuf_getnb rb1 3 = Some (Some [7, 8, 9], rb2) \<and> ringbuf_inv rb2 \<and> ringbuf_empty rb2"
  using ringbuf_put_get [of split_free "[8, 9]"]
  by (simp add: split_buffers numeral_3_eq_3)





text \<open>
  \<^verbatim>\<open>ringbuf_movenb\<close> moves all or nothing between two buffers: the concatenation of both contents
  is preserved, and it succeeds exactly when the source has the bytes and the destination the room.
\<close>

lemma ringbuf_movenb_all_or_nothing:
  assumes "ringbuf_inv src" and "ringbuf_inv dst" and "n < 2 ^ 63"
  shows "\<exists>src' dst'. ringbuf_movenb src dst n =
             Some (n \<le> rb_count src \<and> rb_count dst + n \<le> rb_size dst, src', dst') \<and>
           ringbuf_inv src' \<and> ringbuf_inv dst' \<and> contents dst' @ contents src' = contents dst @ contents src \<and>
           rb_count dst' = rb_count dst + (if n \<le> rb_count src \<and> rb_count dst + n \<le> rb_size dst then n else 0)"
  by (rule ringbuf_movenb_ok [OF assms])

end
