(* ===== verification/Bitstring.thy ===== *)
theory Bitstring
  imports Prelude
begin

text \<open>
  Bit strings: the macros of \<^verbatim>\<open>include/bitstring.h\<close> on arrays of bytes.  An access outside of the
  array is \<open>None\<close>.  What the users of a bit string rely on is the locale \<open>bitmap\<close>, which the macros
  interpret.
\<close>

section \<open>Interface\<close>

locale bitmap =
  fixes invar :: "'b \<Rightarrow> bool"
    and nbits :: "'b \<Rightarrow> nat"
    and is_set :: "'b \<Rightarrow> nat \<Rightarrow> bool option"
    and mark :: "'b \<Rightarrow> nat \<Rightarrow> 'b option"
    and unmark :: "'b \<Rightarrow> nat \<Rightarrow> 'b option"
  assumes is_set_range: "invar b \<Longrightarrow> i < nbits b \<Longrightarrow> is_set b i \<noteq> None"
    and mark_ok: "invar b \<Longrightarrow> i < nbits b \<Longrightarrow> \<exists>b'. mark b i = Some b' \<and> invar b' \<and> nbits b' = nbits b \<and>
          (\<forall>j < nbits b. is_set b' j = (if j = i then Some True else is_set b j))"
    and unmark_ok: "invar b \<Longrightarrow> i < nbits b \<Longrightarrow> \<exists>b'. unmark b i = Some b' \<and> invar b' \<and> nbits b' = nbits b \<and>
          (\<forall>j < nbits b. is_set b' j = (if j = i then Some False else is_set b j))"
begin

definition members :: "'b \<Rightarrow> nat set" where
  "members b = {i. i < nbits b \<and> is_set b i = Some True}"

lemma is_set_members: "invar b \<Longrightarrow> i < nbits b \<Longrightarrow> is_set b i = Some (i \<in> members b)"
  using is_set_range [of b i] by (cases "is_set b i") (auto simp: members_def)

lemma mark_members:
  assumes "invar b" and "i < nbits b"
  shows "\<exists>b'. mark b i = Some b' \<and> invar b' \<and> nbits b' = nbits b \<and> members b' = insert i (members b)"
proof -
  obtain b' where b': "mark b i = Some b'" "invar b'" "nbits b' = nbits b"
    "\<forall>j < nbits b. is_set b' j = (if j = i then Some True else is_set b j)"
    using mark_ok [OF assms] by auto
  moreover from this have "members b' = insert i (members b)"
    using assms(2) by (auto simp: members_def split: if_splits)
  ultimately show ?thesis by blast
qed

lemma unmark_members:
  assumes "invar b" and "i < nbits b"
  shows "\<exists>b'. unmark b i = Some b' \<and> invar b' \<and> nbits b' = nbits b \<and> members b' = members b - {i}"
proof -
  obtain b' where b': "unmark b i = Some b'" "invar b'" "nbits b' = nbits b"
    "\<forall>j < nbits b. is_set b' j = (if j = i then Some False else is_set b j)"
    using unmark_ok [OF assms] by auto
  moreover from this have "members b' = members b - {i}"
    by (auto simp: members_def split: if_splits)
  ultimately show ?thesis by blast
qed

end

section \<open>The macros\<close>

type_synonym bitstr = "8 word list"

definition bit_byte :: "nat \<Rightarrow> nat" where
  "bit_byte b = u32 (b div 8)"

definition bit_mask :: "nat \<Rightarrow> 8 word" where
  "bit_mask b = push_bit (b mod 8) 1"

definition bitstr_size :: "nat \<Rightarrow> nat" where
  "bitstr_size nbits = u32 (nbits + 7) div 8"

definition bit_test :: "bitstr \<Rightarrow> nat \<Rightarrow> bool option" where
  "bit_test name b =
     (if bit_byte b < length name then Some (name ! bit_byte b AND bit_mask b \<noteq> 0) else None)"

definition bit_set :: "bitstr \<Rightarrow> nat \<Rightarrow> bitstr option" where
  "bit_set name b =
     (if bit_byte b < length name
      then Some (name[bit_byte b := bit_mask b OR name ! bit_byte b]) else None)"

definition bit_clear :: "bitstr \<Rightarrow> nat \<Rightarrow> bitstr option" where
  "bit_clear name b =
     (if bit_byte b < length name
      then Some (name[bit_byte b := name ! bit_byte b AND NOT (bit_mask b)]) else None)"

function bit_nclear :: "bitstr \<Rightarrow> nat \<Rightarrow> nat \<Rightarrow> bitstr option" where
  "bit_nclear name start stop =
     (if start \<le> stop then do { name \<leftarrow> bit_clear name start; bit_nclear name (start + 1) stop }
      else Some name)"
  by pat_completeness auto
termination
  by (relation "measure (\<lambda>(name, start, stop). Suc stop - start)") auto

function bit_nset :: "bitstr \<Rightarrow> nat \<Rightarrow> nat \<Rightarrow> bitstr option" where
  "bit_nset name start stop =
     (if start \<le> stop then do { name \<leftarrow> bit_set name start; bit_nset name (start + 1) stop }
      else Some name)"
  by pat_completeness auto
termination
  by (relation "measure (\<lambda>(name, start, stop). Suc stop - start)") auto

text \<open>The value \<^verbatim>\<open>-1\<close> of the search macros is the inner \<open>None\<close>.\<close>

function bit_ffc_from :: "bitstr \<Rightarrow> nat \<Rightarrow> nat \<Rightarrow> nat option option" where
  "bit_ffc_from name nbits b =
     (if b < nbits then
        do { t \<leftarrow> bit_test name b; if \<not> t then Some (Some b) else bit_ffc_from name nbits (b + 1) }
      else Some None)"
  by pat_completeness auto
termination
  by (relation "measure (\<lambda>(name, nbits, b). nbits - b)") auto

function bit_ffs_from :: "bitstr \<Rightarrow> nat \<Rightarrow> nat \<Rightarrow> nat option option" where
  "bit_ffs_from name nbits b =
     (if b < nbits then
        do { t \<leftarrow> bit_test name b; if t then Some (Some b) else bit_ffs_from name nbits (b + 1) }
      else Some None)"
  by pat_completeness auto
termination
  by (relation "measure (\<lambda>(name, nbits, b). nbits - b)") auto

definition bit_ffc :: "bitstr \<Rightarrow> nat \<Rightarrow> nat option option" where
  "bit_ffc name nbits = bit_ffc_from name nbits 0"

definition bit_ffs :: "bitstr \<Rightarrow> nat \<Rightarrow> nat option option" where
  "bit_ffs name nbits = bit_ffs_from name nbits 0"

declare bit_nclear.simps [simp del] bit_nset.simps [simp del]
  bit_ffc_from.simps [simp del] bit_ffs_from.simps [simp del]

section \<open>Correctness\<close>

text \<open>Bit strings that the 32-bit byte index can address.\<close>

definition bits_inv :: "bitstr \<Rightarrow> bool" where
  "bits_inv name \<longleftrightarrow> length name \<le> 2 ^ 29"

definition bits_len :: "bitstr \<Rightarrow> nat" where
  "bits_len name = 8 * length name"

lemma bit_byte_exact: "bits_inv name \<Longrightarrow> b < bits_len name \<Longrightarrow> bit_byte b = b div 8 \<and> b div 8 < length name"
  unfolding bit_byte_def bits_inv_def bits_len_def by (auto intro: u32_exact)

lemma bit_bit_mask: "bit (bit_mask b) n \<longleftrightarrow> n = b mod 8"
  by (auto simp: bit_mask_def bit_simps)

lemma and_bit_mask: "(w AND bit_mask b \<noteq> 0) = bit w (b mod 8)"
proof
  assume "w AND bit_mask b \<noteq> 0"
  then obtain n where "bit (w AND bit_mask b) n"
    by (metis bit_eqI bit_0_eq bot_apply bot_bool_def)
  then show "bit w (b mod 8)"
    by (auto simp: bit_and_iff bit_bit_mask)
next
  assume "bit w (b mod 8)"
  then have "bit (w AND bit_mask b) (b mod 8)"
    by (simp add: bit_and_iff bit_bit_mask)
  then show "w AND bit_mask b \<noteq> 0"
    by auto
qed

lemma bit_test_eq:
  "bits_inv name \<Longrightarrow> b < bits_len name \<Longrightarrow> bit_test name b = Some (bit (name ! (b div 8)) (b mod 8))"
  using bit_byte_exact [of name b] by (simp add: bit_test_def and_bit_mask)

lemma div_mod_8: "i div 8 = j div 8 \<Longrightarrow> i mod 8 = j mod 8 \<Longrightarrow> i = (j :: nat)"
  by (metis div_mult_mod_eq)

lemma nth_set_mask:
  assumes "i div 8 < length b"
  shows "bit (b[i div 8 := bit_mask i OR b ! (i div 8)] ! (j div 8)) (j mod 8) \<longleftrightarrow>
         j = i \<or> bit (b ! (j div 8)) (j mod 8)"
    and "bit (b[i div 8 := b ! (i div 8) AND NOT (bit_mask i)] ! (j div 8)) (j mod 8) \<longleftrightarrow>
         j \<noteq> i \<and> bit (b ! (j div 8)) (j mod 8)"
proof -
  show "bit (b[i div 8 := bit_mask i OR b ! (i div 8)] ! (j div 8)) (j mod 8) \<longleftrightarrow>
        j = i \<or> bit (b ! (j div 8)) (j mod 8)"
    by (metis assms bit_bit_mask bit_or_iff div_mod_8 nth_list_update_eq nth_list_update_neq)
  show "bit (b[i div 8 := b ! (i div 8) AND NOT (bit_mask i)] ! (j div 8)) (j mod 8) \<longleftrightarrow>
        j \<noteq> i \<and> bit (b ! (j div 8)) (j mod 8)"
  proof (cases "i div 8 = j div 8")
    case True
    have "j mod 8 < LENGTH(8)" by simp
    then have "bit (w AND NOT (bit_mask i)) (j mod 8) \<longleftrightarrow> j mod 8 \<noteq> i mod 8 \<and> bit w (j mod 8)" for w
      by (auto simp: bit_and_iff bit_not_iff bit_bit_mask)
    then show ?thesis
      using True assms div_mod_8 [of i j] by (metis nth_list_update_eq)
  next
    case False
    then show ?thesis by auto
  qed
qed

interpretation bits: bitmap bits_inv bits_len bit_test bit_set bit_clear
proof unfold_locales
  fix b i
  assume inv: "bits_inv b" and i: "i < bits_len b"
  have e: "bit_byte i = i div 8" "i div 8 < length b"
    using bit_byte_exact [OF inv i] by auto
  show "bit_test b i \<noteq> None"
    using bit_test_eq [OF inv i] by simp
  let ?s = "b[i div 8 := bit_mask i OR b ! (i div 8)]" and ?c = "b[i div 8 := b ! (i div 8) AND NOT (bit_mask i)]"
  have inv': "bits_inv ?s" "bits_inv ?c" "bits_len ?s = bits_len b" "bits_len ?c = bits_len b"
    using inv by (simp_all add: bits_inv_def bits_len_def)
  have "bit_test ?s j = (if j = i then Some True else bit_test b j)" if "j < bits_len b" for j
    using bit_test_eq [OF inv that] bit_test_eq [OF inv'(1), of j] that inv'(3) nth_set_mask(1) [OF e(2), of j]
    by simp
  then show "\<exists>b'. bit_set b i = Some b' \<and> bits_inv b' \<and> bits_len b' = bits_len b \<and>
      (\<forall>j < bits_len b. bit_test b' j = (if j = i then Some True else bit_test b j))"
    using inv' e by (auto simp: bit_set_def)
  have "bit_test ?c j = (if j = i then Some False else bit_test b j)" if "j < bits_len b" for j
    using bit_test_eq [OF inv that] bit_test_eq [OF inv'(2), of j] that inv'(4) nth_set_mask(2) [OF e(2), of j]
    by simp
  then show "\<exists>b'. bit_clear b i = Some b' \<and> bits_inv b' \<and> bits_len b' = bits_len b \<and>
      (\<forall>j < bits_len b. bit_test b' j = (if j = i then Some False else bit_test b j))"
    using inv' e by (auto simp: bit_clear_def)
qed

lemma bit_nset_ok:
  assumes "bits_inv name" and "stop < bits_len name"
  shows "\<exists>name'. bit_nset name start stop = Some name' \<and> bits_inv name' \<and> bits_len name' = bits_len name \<and>
           bits.members name' = bits.members name \<union> {start..stop}"
  using assms
proof (induction "Suc stop - start" arbitrary: name start)
  case 0
  then show ?case
    by (subst bit_nset.simps) simp
next
  case (Suc n)
  have st: "start \<le> stop" "n = Suc stop - Suc start"
    using Suc.hyps(2) by linarith+
  then obtain b where b: "bit_set name start = Some b" "bits_inv b" "bits_len b = bits_len name"
    "bits.members b = insert start (bits.members name)"
    using bits.mark_members [of name start] Suc.prems by auto
  have "bits.members b \<union> {Suc start..stop} = bits.members name \<union> {start..stop}"
    unfolding b(4) using atLeastAtMost_insertL [OF st(1)] by blast
  then show ?case
    using Suc.hyps(1) [OF st(2) b(2)] st(1) Suc.prems b(1,3) by (subst bit_nset.simps) simp
qed

lemma bit_nclear_ok:
  assumes "bits_inv name" and "stop < bits_len name"
  shows "\<exists>name'. bit_nclear name start stop = Some name' \<and> bits_inv name' \<and> bits_len name' = bits_len name \<and>
           bits.members name' = bits.members name - {start..stop}"
  using assms
proof (induction "Suc stop - start" arbitrary: name start)
  case 0
  then show ?case
    by (subst bit_nclear.simps) simp
next
  case (Suc n)
  have st: "start \<le> stop" "n = Suc stop - Suc start"
    using Suc.hyps(2) by linarith+
  then obtain b where b: "bit_clear name start = Some b" "bits_inv b" "bits_len b = bits_len name"
    "bits.members b = bits.members name - {start}"
    using bits.unmark_members [of name start] Suc.prems by auto
  have "bits.members b - {Suc start..stop} = bits.members name - {start..stop}"
    unfolding b(4) using atLeastAtMost_insertL [OF st(1)] by blast
  then show ?case
    using Suc.hyps(1) [OF st(2) b(2)] st(1) Suc.prems b(1,3) by (subst bit_nclear.simps) simp
qed

text \<open>The search returns the least clear bit of the range, if there is one.\<close>

definition least_from :: "(nat \<Rightarrow> bool) \<Rightarrow> nat \<Rightarrow> nat \<Rightarrow> nat option \<Rightarrow> bool" where
  "least_from P start stop r \<longleftrightarrow>
     (case r of None \<Rightarrow> \<forall>i. start \<le> i \<and> i < stop \<longrightarrow> \<not> P i
      | Some k \<Rightarrow> start \<le> k \<and> k < stop \<and> P k \<and> (\<forall>i. start \<le> i \<and> i < k \<longrightarrow> \<not> P i))"

lemma least_from_step:
  "\<not> P b \<Longrightarrow> least_from P (Suc b) stop r \<Longrightarrow> least_from P b stop r"
  unfolding least_from_def by (cases r) (auto simp: Suc_le_eq le_eq_less_or_eq [of b])

lemma bit_ffc_from_least:
  assumes "bits_inv name" and "nbits \<le> bits_len name"
  shows "\<exists>r. bit_ffc_from name nbits start = Some r \<and> least_from (\<lambda>i. i \<notin> bits.members name) start nbits r"
proof (induction "nbits - start" arbitrary: start)
  case 0
  then show ?case
    by (subst bit_ffc_from.simps) (auto simp: least_from_def)
next
  case (Suc n)
  then have t: "bit_test name start = Some (start \<in> bits.members name)"
    using assms by (intro bits.is_set_members) auto
  show ?case
  proof (cases "start \<in> bits.members name")
    case True
    then show ?thesis
      using Suc.hyps(1) [of "Suc start"] Suc.hyps(2) t least_from_step [of _ start nbits]
      by (subst bit_ffc_from.simps) fastforce
  next
    case False
    then show ?thesis
      using Suc.hyps(2) t by (subst bit_ffc_from.simps) (auto simp: least_from_def)
  qed
qed

lemma bit_ffs_from_least:
  assumes "bits_inv name" and "nbits \<le> bits_len name"
  shows "\<exists>r. bit_ffs_from name nbits start = Some r \<and> least_from (\<lambda>i. i \<in> bits.members name) start nbits r"
proof (induction "nbits - start" arbitrary: start)
  case 0
  then show ?case
    by (subst bit_ffs_from.simps) (auto simp: least_from_def)
next
  case (Suc n)
  then have t: "bit_test name start = Some (start \<in> bits.members name)"
    using assms by (intro bits.is_set_members) auto
  show ?case
  proof (cases "start \<in> bits.members name")
    case False
    then show ?thesis
      using Suc.hyps(1) [of "Suc start"] Suc.hyps(2) t least_from_step [of _ start nbits]
      by (subst bit_ffs_from.simps) fastforce
  next
    case True
    then show ?thesis
      using Suc.hyps(2) t by (subst bit_ffs_from.simps) (auto simp: least_from_def)
  qed
qed

lemma members_bit:
  assumes "bits_inv name"
  shows "bits.members name = {i. i < bits_len name \<and> bit (name ! (i div 8)) (i mod 8)}"
  unfolding bits.members_def using bit_test_eq [OF assms] by auto

lemma members_append_zero:
  assumes "bits_inv (name @ replicate m 0)"
  shows "bits.members (name @ replicate m 0) = bits.members name"
proof -
  have "bits_inv name"
    using assms by (simp add: bits_inv_def)
  moreover have "bit ((name @ replicate m 0) ! (i div 8)) (i mod 8) \<longleftrightarrow>
      i < 8 * length name \<and> bit (name ! (i div 8)) (i mod 8)" if "i < 8 * (length name + m)" for i
  proof (cases "i < 8 * length name")
    case True
    then show ?thesis
      by (simp add: nth_append less_mult_imp_div_less mult.commute)
  next
    case False
    then have "length name \<le> i div 8" "i div 8 < length name + m"
      using that by (simp_all add: less_eq_div_iff_mult_less_eq div_less_iff_less_mult mult.commute)
    then have "\<not> i div 8 < length name" "i div 8 - length name < m"
      by linarith+
    then show ?thesis
      using False by (simp add: nth_append)
  qed
  ultimately show ?thesis
    by (auto simp: members_bit assms bits_len_def)
qed

lemma members_zero: "bits_inv (replicate m 0) \<Longrightarrow> bits.members (replicate m 0) = {}"
  by (auto simp: members_bit bits_len_def)

lemma bitstr_size_exact:
  assumes "nbits < 2 ^ 31"
  shows "bitstr_size nbits = (nbits + 7) div 8" and "nbits \<le> 8 * bitstr_size nbits"
proof -
  show 1: "bitstr_size nbits = (nbits + 7) div 8"
    using assms by (simp add: bitstr_size_def u32_exact)
  show "nbits \<le> 8 * bitstr_size nbits"
    unfolding 1 by presburger
qed

end
