(* ===== verification/File.thy ===== *)
theory File
  imports Uio
begin

text \<open>
  Open files and their reference counts: \<^verbatim>\<open>include/sys/refcnt.h\<close>, \<^verbatim>\<open>include/sys/file.h\<close> and
  \<^verbatim>\<open>sys/kern/file.c\<close>.  The pool of file structures is a map from addresses to files; an access to a
  file that has been freed is \<open>None\<close>.  Operations of a file are called through \<^verbatim>\<open>f_ops\<close>; the table that
  gives the operations of each device or file system is an argument.
\<close>

section \<open>Reference counts\<close>

definition UINT_MAX :: nat where
  "UINT_MAX = 2 ^ 32 - 1"

definition refcnt_acquire :: "nat \<Rightarrow> nat option" where
  "refcnt_acquire c = do { kassert (c \<noteq> UINT_MAX); Some (c + 1) }"

definition refcnt_release :: "nat \<Rightarrow> (bool \<times> nat) option" where
  "refcnt_release c = do { kassert (c \<noteq> 0); Some (c = 1, c - 1) }"

section \<open>Files\<close>

datatype filetype = FT_NONE | FT_VNODE | FT_PIPE | FT_PTY | FT_KQUEUE

definition FF_READ :: nat where "FF_READ = 1"
definition FF_WRITE :: nat where "FF_WRITE = 2"
definition IO_APPEND :: nat where "IO_APPEND = 4"
definition IO_NONBLOCK :: nat where "IO_NONBLOCK = 8"
definition IO_MASK :: nat where "IO_MASK = IO_APPEND OR IO_NONBLOCK"

datatype fileops_ref = BadFileops | FileOps nat

record file_t =
  f_data :: nat
  f_ops :: fileops_ref
  f_type :: filetype
  f_vnode :: nat
  f_offset :: int
  f_count :: nat
  f_flags :: nat

text \<open>The files in use, and the log of the files whose \<^verbatim>\<open>fo_close\<close> has been called.\<close>

record fsys =
  fs_files :: "nat \<Rightarrow> file_t option"
  fs_closed :: "nat list"

definition file_alloc :: "fsys \<Rightarrow> nat \<Rightarrow> fsys option" where
  "file_alloc fs f =
     do {
       kassert (fs_files fs f = None);
       Some (fs\<lparr>fs_files := (fs_files fs)(f \<mapsto>
         \<lparr>f_data = 0, f_ops = BadFileops, f_type = FT_NONE, f_vnode = 0, f_offset = 0, f_count = 0,
          f_flags = 0\<rparr>)\<rparr>)
     }"

definition file_destroy :: "fsys \<Rightarrow> nat \<Rightarrow> fsys option" where
  "file_destroy fs f =
     do {
       fl \<leftarrow> fs_files fs f;
       kassert (f_count fl = 0);
       let fs = (if f_ops fl \<noteq> BadFileops then fs\<lparr>fs_closed := f # fs_closed fs\<rparr> else fs);
       Some (fs\<lparr>fs_files := (fs_files fs)(f := None)\<rparr>)
     }"

definition file_hold :: "fsys \<Rightarrow> nat \<Rightarrow> fsys option" where
  "file_hold fs f =
     do {
       fl \<leftarrow> fs_files fs f;
       c \<leftarrow> refcnt_acquire (f_count fl);
       Some (fs\<lparr>fs_files := (fs_files fs)(f \<mapsto> fl\<lparr>f_count := c\<rparr>)\<rparr>)
     }"

definition file_drop :: "fsys \<Rightarrow> nat \<Rightarrow> fsys option" where
  "file_drop fs f =
     do {
       fl \<leftarrow> fs_files fs f;
       (last, c) \<leftarrow> refcnt_release (f_count fl);
       let fs = fs\<lparr>fs_files := (fs_files fs)(f \<mapsto> fl\<lparr>f_count := c\<rparr>)\<rparr>;
       if last then file_destroy fs f else Some fs
     }"

section \<open>File operations\<close>

type_synonym 'a fo_result = "errno option \<times> 'a \<times> fsys"

record fileops =
  fo_read :: "fsys \<Rightarrow> nat \<Rightarrow> uio \<Rightarrow> uio fo_result"
  fo_write :: "fsys \<Rightarrow> nat \<Rightarrow> uio \<Rightarrow> uio fo_result"
  fo_seek :: "fsys \<Rightarrow> nat \<Rightarrow> int \<Rightarrow> int \<Rightarrow> int fo_result"
  fo_stat :: "fsys \<Rightarrow> nat \<Rightarrow> nat fo_result"
  fo_ioctl :: "fsys \<Rightarrow> nat \<Rightarrow> nat \<Rightarrow> nat \<Rightarrow> nat fo_result"

definition nowrite :: "fsys \<Rightarrow> nat \<Rightarrow> uio \<Rightarrow> uio fo_result" where
  "nowrite fs f uio = (Some EBADF, uio, fs)"

definition noseek :: "fsys \<Rightarrow> nat \<Rightarrow> int \<Rightarrow> int \<Rightarrow> int fo_result" where
  "noseek fs f off whence = (Some ESPIPE, 0, fs)"

definition badfo_read :: "fsys \<Rightarrow> nat \<Rightarrow> uio \<Rightarrow> uio fo_result" where
  "badfo_read fs f uio = (Some EOPNOTSUPP, uio, fs)"

definition badfo_write :: "fsys \<Rightarrow> nat \<Rightarrow> uio \<Rightarrow> uio fo_result" where
  "badfo_write fs f uio = (Some EOPNOTSUPP, uio, fs)"

definition badfo_stat :: "fsys \<Rightarrow> nat \<Rightarrow> nat fo_result" where
  "badfo_stat fs f = (Some EOPNOTSUPP, 0, fs)"

definition badfo_seek :: "fsys \<Rightarrow> nat \<Rightarrow> int \<Rightarrow> int \<Rightarrow> int fo_result" where
  "badfo_seek fs f off whence = (Some EOPNOTSUPP, 0, fs)"

definition badfo_ioctl :: "fsys \<Rightarrow> nat \<Rightarrow> nat \<Rightarrow> nat \<Rightarrow> nat fo_result" where
  "badfo_ioctl fs f cmd data = (Some EOPNOTSUPP, data, fs)"

definition badfileops :: fileops where
  "badfileops = \<lparr>fo_read = badfo_read, fo_write = badfo_write, fo_seek = badfo_seek,
                 fo_stat = badfo_stat, fo_ioctl = badfo_ioctl\<rparr>"

fun ops_of :: "(nat \<Rightarrow> fileops) \<Rightarrow> fileops_ref \<Rightarrow> fileops" where
  "ops_of tbl BadFileops = badfileops"
| "ops_of tbl (FileOps n) = tbl n"

section \<open>Counting lemmas\<close>

definition refs :: "fsys \<Rightarrow> nat \<Rightarrow> nat" where
  "refs fs f = (case fs_files fs f of None \<Rightarrow> 0 | Some fl \<Rightarrow> f_count fl)"

lemma file_hold_eq_Some:
  "file_hold fs f = Some fs' \<longleftrightarrow>
     (\<exists>fl. fs_files fs f = Some fl \<and> f_count fl \<noteq> UINT_MAX \<and>
           fs' = fs\<lparr>fs_files := (fs_files fs)(f \<mapsto> fl\<lparr>f_count := f_count fl + 1\<rparr>)\<rparr>)"
  by (auto simp: file_hold_def refcnt_acquire_def bind_eq_Some_conv)

lemma file_drop_last:
  assumes "fs_files fs f = Some fl" and "f_count fl = 1"
  shows "file_drop fs f = Some (fs\<lparr>fs_files := (fs_files fs)(f := None),
           fs_closed := (if f_ops fl \<noteq> BadFileops then f # fs_closed fs else fs_closed fs)\<rparr>)"
  using assms by (simp add: file_drop_def refcnt_release_def file_destroy_def)

lemma file_drop_more:
  assumes "fs_files fs f = Some fl" and "f_count fl > 1"
  shows "file_drop fs f = Some (fs\<lparr>fs_files := (fs_files fs)(f \<mapsto> fl\<lparr>f_count := f_count fl - 1\<rparr>)\<rparr>)"
  using assms by (simp add: file_drop_def refcnt_release_def)

section \<open>Counting references\<close>

text \<open>Every file in the pool is referenced, and its count is the number of its references.\<close>

definition refs_inv :: "fsys \<Rightarrow> (nat \<Rightarrow> nat) \<Rightarrow> bool" where
  "refs_inv fs c \<longleftrightarrow> (\<forall>f. refs fs f = c f \<and> (fs_files fs f = None \<longleftrightarrow> c f = 0))"

lemma refs_invD:
  assumes "refs_inv fs c" and "0 < c f"
  obtains fl where "fs_files fs f = Some fl" and "f_count fl = c f"
  using assms by (cases "fs_files fs f") (auto simp: refs_inv_def refs_def split: option.splits)

lemma refs_inv_cong: "refs_inv fs c \<Longrightarrow> (\<And>f. c f = d f) \<Longrightarrow> refs_inv fs d"
  by (simp add: refs_inv_def)

lemma file_hold_ok:
  assumes "refs_inv fs c" and "0 < c f" and "c f < UINT_MAX"
  shows "\<exists>fs' fl. file_hold fs f = Some fs' \<and> refs_inv fs' (c(f := c f + 1)) \<and> fs_closed fs' = fs_closed fs \<and>
           fs_files fs f = Some fl \<and> fs_files fs' f = Some (fl\<lparr>f_count := f_count fl + 1\<rparr>)"
proof -
  obtain fl where fl: "fs_files fs f = Some fl" "f_count fl = c f"
    using assms(1,2) by (rule refs_invD)
  then show ?thesis
    using assms by (auto simp: file_hold_def refcnt_acquire_def refs_inv_def refs_def)
qed

lemma file_drop_ok:
  assumes "refs_inv fs c" and "0 < c f"
  shows "\<exists>fs'. file_drop fs f = Some fs' \<and> refs_inv fs' (c(f := c f - 1)) \<and>
           (1 < c f \<longrightarrow> fs_closed fs' = fs_closed fs) \<and>
           (c f = 1 \<and> f_ops (the (fs_files fs f)) \<noteq> BadFileops \<longrightarrow> fs_closed fs' = f # fs_closed fs)"
proof -
  obtain fl where fl: "fs_files fs f = Some fl" "f_count fl = c f"
    using assms by (rule refs_invD)
  show ?thesis
  proof (cases "c f = 1")
    case True
    then show ?thesis
      using assms fl file_drop_last [of fs f fl] by (auto simp: refs_inv_def refs_def)
  next
    case False
    then have "1 < f_count fl"
      using assms(2) fl(2) by linarith
    then show ?thesis
      using assms fl file_drop_more [of fs f fl] by (auto simp: refs_inv_def refs_def)
  qed
qed

text \<open>Holding and dropping references changes no other field of a file.\<close>

definition same_files :: "fsys \<Rightarrow> fsys \<Rightarrow> bool" where
  "same_files fs fs' \<longleftrightarrow> (\<forall>f fl'. fs_files fs' f = Some fl' \<longrightarrow>
     (\<exists>fl. fs_files fs f = Some fl \<and> fl' = fl\<lparr>f_count := f_count fl'\<rparr>))"

lemma same_files_refl [simp]: "same_files fs fs"
  by (simp add: same_files_def)

lemma same_files_trans:
  assumes "same_files fs fs1" and "same_files fs1 fs2"
  shows "same_files fs fs2"
proof -
  have "\<exists>fl. fs_files fs f = Some fl \<and> fl2 = fl\<lparr>f_count := f_count fl2\<rparr>" if fl2: "fs_files fs2 f = Some fl2" for f fl2
  proof -
    obtain fl1 where 1: "fs_files fs1 f = Some fl1" "fl2 = fl1\<lparr>f_count := f_count fl2\<rparr>"
      using assms(2) fl2 unfolding same_files_def by blast
    obtain fl where 2: "fs_files fs f = Some fl" "fl1 = fl\<lparr>f_count := f_count fl1\<rparr>"
      using assms(1) 1(1) unfolding same_files_def by blast
    have "fl2 = fl\<lparr>f_count := f_count fl2\<rparr>"
      by (subst 1(2), subst 2(2)) simp
    then show ?thesis
      using 2(1) by blast
  qed
  then show ?thesis
    by (simp add: same_files_def)
qed

lemma same_files_type:
  assumes "same_files fs fs'" and "fs_files fs' f = Some fl'"
  shows "\<exists>fl. fs_files fs f = Some fl \<and> f_type fl = f_type fl' \<and> f_flags fl = f_flags fl'"
proof -
  obtain fl where fl: "fs_files fs f = Some fl" and eq: "fl' = fl\<lparr>f_count := f_count fl'\<rparr>"
    using assms unfolding same_files_def by blast
  show ?thesis
    using fl arg_cong [OF eq, of f_type] arg_cong [OF eq, of f_flags] by simp
qed

lemma file_hold_same: "file_hold fs f = Some fs' \<Longrightarrow> same_files fs fs'"
  by (auto simp: file_hold_eq_Some same_files_def split: if_splits)

lemma file_drop_same: "file_drop fs f = Some fs' \<Longrightarrow> same_files fs fs'"
  by (auto simp: file_drop_def refcnt_release_def file_destroy_def same_files_def bind_eq_Some_conv Let_def
      split: if_splits)

end
