(* ===== verification/Filedesc.thy ===== *)
theory Filedesc
  imports Bitstring File
begin

text \<open>
  The file descriptor table: \<^verbatim>\<open>sys/kern/filedesc.c\<close>.  The array of entries and the bitmap of used
  descriptors are lists; an index outside of them is \<open>None\<close>.  The operations run under the mutex of
  the table, so each of them is one step.
\<close>

section \<open>The table and its operations\<close>

definition NDFILE :: nat where "NDFILE = 20"
definition MAXFILES :: nat where "MAXFILES = 1024"

record fdent =
  fde_file :: "nat option"
  fde_cloexec :: bool

record fdtab =
  fdt_entries :: "fdent list"
  fdt_map :: bitstr
  fdt_nfiles :: nat
  fdt_count :: nat

definition empty_fde :: fdent where
  "empty_fde = \<lparr>fde_file = None, fde_cloexec = False\<rparr>"

definition fd_is_used :: "fdtab \<Rightarrow> nat \<Rightarrow> bool option" where
  "fd_is_used fdt fd = bit_test (fdt_map fdt) fd"

definition fd_mark_used :: "fdtab \<Rightarrow> nat \<Rightarrow> fdtab option" where
  "fd_mark_used fdt fd =
     do {
       used \<leftarrow> fd_is_used fdt fd;
       kassert (\<not> used);
       bm \<leftarrow> bit_set (fdt_map fdt) fd;
       Some (fdt\<lparr>fdt_map := bm\<rparr>)
     }"

definition fd_mark_unused :: "fdtab \<Rightarrow> nat \<Rightarrow> fdtab option" where
  "fd_mark_unused fdt fd =
     do {
       used \<leftarrow> fd_is_used fdt fd;
       kassert used;
       bm \<leftarrow> bit_clear (fdt_map fdt) fd;
       Some (fdt\<lparr>fdt_map := bm\<rparr>)
     }"

definition is_bad_fd :: "fdtab \<Rightarrow> int \<Rightarrow> bool" where
  "is_bad_fd fdt fd \<longleftrightarrow> fd < 0 \<or> fd > int (fdt_nfiles fdt)"

text \<open>The entry of a descriptor; reading or writing outside of the array is \<open>None\<close>.\<close>

definition fd_entry :: "fdtab \<Rightarrow> nat \<Rightarrow> fdent option" where
  "fd_entry fdt fd = (if fd < length (fdt_entries fdt) then Some (fdt_entries fdt ! fd) else None)"

definition set_entry :: "fdtab \<Rightarrow> nat \<Rightarrow> fdent \<Rightarrow> fdtab option" where
  "set_entry fdt fd e =
     (if fd < length (fdt_entries fdt) then Some (fdt\<lparr>fdt_entries := (fdt_entries fdt)[fd := e]\<rparr>) else None)"

definition fdtab_hold :: "fdtab \<Rightarrow> fdtab option" where
  "fdtab_hold fdt = do { c \<leftarrow> refcnt_acquire (fdt_count fdt); Some (fdt\<lparr>fdt_count := c\<rparr>) }"

definition fd_growtable :: "fdtab \<Rightarrow> nat \<Rightarrow> fdtab option" where
  "fd_growtable fdt new_size =
     do {
       kassert (fdt_nfiles fdt < new_size \<and> new_size \<le> MAXFILES);
       let old = fdt_nfiles fdt;
       let ents = replicate new_size empty_fde;
       let bm = replicate (bitstr_size new_size) 0;
       let ents = take old (fdt_entries fdt) @ drop old ents;
       let bm = take (bitstr_size old) (fdt_map fdt) @ drop (bitstr_size old) bm;
       Some (fdt\<lparr>fdt_entries := ents, fdt_map := bm, fdt_nfiles := new_size\<rparr>)
     }"

definition fd_alloc :: "fdtab \<Rightarrow> int \<Rightarrow> ((errno + nat) \<times> fdtab) option" where
  "fd_alloc fdt minfd =
     (if minfd \<ge> int MAXFILES then Some (Inl EMFILE, fdt)
      else do {
        first_free \<leftarrow> bit_ffc_from (fdt_map fdt) (fdt_nfiles fdt) (nat (minfd mod 2 ^ 64));
        case first_free of
          Some fd \<Rightarrow> do { fdt \<leftarrow> fd_mark_used fdt fd; Some (Inr fd, fdt) }
        | None \<Rightarrow>
            (if fdt_nfiles fdt = MAXFILES then Some (Inl EMFILE, fdt)
             else do {
               let new_size = min (max (minfd + 1) (int (fdt_nfiles fdt) * 2)) (int MAXFILES);
               let fd = nat (max minfd (int (fdt_nfiles fdt)));
               fdt \<leftarrow> fd_growtable fdt (nat new_size);
               fdt \<leftarrow> fd_mark_used fdt fd;
               Some (Inr fd, fdt)
             })
      })"

definition fd_free :: "fdtab \<Rightarrow> fsys \<Rightarrow> nat \<Rightarrow> (fdtab \<times> fsys) option" where
  "fd_free fdt fs fd =
     do {
       fde \<leftarrow> fd_entry fdt fd;
       f \<leftarrow> fde_file fde;
       fs \<leftarrow> file_drop fs f;
       fdt \<leftarrow> set_entry fdt fd empty_fde;
       fdt \<leftarrow> fd_mark_unused fdt fd;
       Some (fdt, fs)
     }"

definition fdtab_create :: fdtab where
  "fdtab_create = \<lparr>fdt_entries = replicate NDFILE empty_fde, fdt_map = replicate (bitstr_size NDFILE) 0,
                   fdt_nfiles = NDFILE, fdt_count = 1\<rparr>"

function copy_loop :: "fdtab \<Rightarrow> fdtab \<Rightarrow> fsys \<Rightarrow> nat \<Rightarrow> (fdtab \<times> fsys) option" where
  "copy_loop fdt newfdt fs i =
     (if i < fdt_nfiles fdt then
        do {
          used \<leftarrow> fd_is_used fdt i;
          if used then
            do {
              f \<leftarrow> fd_entry fdt i;
              newfdt \<leftarrow> set_entry newfdt i f;
              p \<leftarrow> fde_file f;
              fs \<leftarrow> file_hold fs p;
              copy_loop fdt newfdt fs (i + 1)
            }
          else copy_loop fdt newfdt fs (i + 1)
        }
      else Some (newfdt, fs))"
  by pat_completeness auto
termination
  by (relation "measure (\<lambda>(fdt, newfdt, fs, i). fdt_nfiles fdt - i)") auto

definition fdtab_copy :: "fdtab option \<Rightarrow> fsys \<Rightarrow> (fdtab \<times> fsys) option" where
  "fdtab_copy ofdt fs =
     (case ofdt of
        None \<Rightarrow> Some (fdtab_create, fs)
      | Some fdt \<Rightarrow>
          do {
            newfdt \<leftarrow> (if fdt_nfiles fdt > fdt_nfiles fdtab_create
                       then fd_growtable fdtab_create (fdt_nfiles fdt) else Some fdtab_create);
            (newfdt, fs) \<leftarrow> copy_loop fdt newfdt fs 0;
            let n = bitstr_size (fdt_nfiles fdt);
            kassert (n \<le> length (fdt_map fdt) \<and> n \<le> length (fdt_map newfdt));
            Some (newfdt\<lparr>fdt_map := take n (fdt_map fdt) @ drop n (fdt_map newfdt)\<rparr>, fs)
          })"

function drop_loop :: "fdtab \<Rightarrow> fsys \<Rightarrow> nat \<Rightarrow> nat \<Rightarrow> (fdtab \<times> fsys) option" where
  "drop_loop fdt fs n i =
     (if i < n then
        do {
          used \<leftarrow> fd_is_used fdt i;
          if used then do { (fdt, fs) \<leftarrow> fd_free fdt fs i; drop_loop fdt fs n (i + 1) }
          else drop_loop fdt fs n (i + 1)
        }
      else Some (fdt, fs))"
  by pat_completeness auto
termination
  by (relation "measure (\<lambda>(fdt, fs, n, i). n - i)") auto

text \<open>The table is gone (the inner \<open>None\<close>) when the last reference is dropped.\<close>

definition fdtab_drop :: "fdtab \<Rightarrow> fsys \<Rightarrow> (fdtab option \<times> fsys) option" where
  "fdtab_drop fdt fs =
     do {
       (last, c) \<leftarrow> refcnt_release (fdt_count fdt);
       let fdt = fdt\<lparr>fdt_count := c\<rparr>;
       if \<not> last then Some (Some fdt, fs)
       else do {
         kassert (fdt_count fdt \<le> 0);
         (fdt, fs) \<leftarrow> drop_loop fdt fs (fdt_nfiles fdt) 0;
         Some (None, fs)
       }
     }"

definition fdtab_install_file :: "fdtab \<Rightarrow> fsys \<Rightarrow> nat \<Rightarrow> int \<Rightarrow> ((errno + nat) \<times> fdtab \<times> fsys) option" where
  "fdtab_install_file fdt fs f minfd =
     do {
       (res, fdt) \<leftarrow> fd_alloc fdt minfd;
       case res of
         Inl e \<Rightarrow> Some (Inl e, fdt, fs)
       | Inr fd \<Rightarrow>
           do {
             fdt \<leftarrow> set_entry fdt fd \<lparr>fde_file = Some f, fde_cloexec = False\<rparr>;
             fs \<leftarrow> file_hold fs f;
             Some (Inr fd, fdt, fs)
           }
     }"

definition fdtab_install_file_at :: "fdtab \<Rightarrow> fsys \<Rightarrow> nat \<Rightarrow> int \<Rightarrow> (errno option \<times> fdtab \<times> fsys) option" where
  "fdtab_install_file_at fdt fs f fd =
     (if is_bad_fd fdt fd then Some (Some EBADF, fdt, fs)
      else do {
        used \<leftarrow> fd_is_used fdt (nat fd);
        (fdt, fs) \<leftarrow>
          (if used then
             do {
               fde \<leftarrow> fd_entry fdt (nat fd);
               if fde_file fde = Some f then Some (fdt, fs)
               else do {
                 (fdt, fs) \<leftarrow> fd_free fdt fs (nat fd);
                 fdt \<leftarrow> set_entry fdt (nat fd) \<lparr>fde_file = Some f, fde_cloexec = False\<rparr>;
                 fdt \<leftarrow> fd_mark_used fdt (nat fd);
                 Some (fdt, fs)
               }
             }
           else do {
             fdt \<leftarrow> set_entry fdt (nat fd) \<lparr>fde_file = Some f, fde_cloexec = False\<rparr>;
             fdt \<leftarrow> fd_mark_used fdt (nat fd);
             Some (fdt, fs)
           });
        fs \<leftarrow> file_hold fs f;
        Some (None, fdt, fs)
      })"

definition fdtab_get_file :: "fdtab option \<Rightarrow> fsys \<Rightarrow> int \<Rightarrow> nat \<Rightarrow> ((errno + nat) \<times> fsys) option" where
  "fdtab_get_file ofdt fs fd flags =
     (case ofdt of
        None \<Rightarrow> Some (Inl EBADF, fs)
      | Some fdt \<Rightarrow>
          if is_bad_fd fdt fd then Some (Inl EBADF, fs)
          else do {
            used \<leftarrow> fd_is_used fdt (nat fd);
            if \<not> used then Some (Inl EBADF, fs)
            else do {
              fde \<leftarrow> fd_entry fdt (nat fd);
              f \<leftarrow> fde_file fde;
              fs \<leftarrow> file_hold fs f;
              fl \<leftarrow> fs_files fs f;
              if (flags AND FF_READ \<noteq> 0 \<and> f_flags fl AND FF_READ = 0) \<or>
                 (flags AND FF_WRITE \<noteq> 0 \<and> f_flags fl AND FF_WRITE = 0)
              then do { fs \<leftarrow> file_drop fs f; Some (Inl EBADF, fs) }
              else Some (Inr f, fs)
            }
          })"

definition fdtab_close_fd :: "fdtab \<Rightarrow> fsys \<Rightarrow> int \<Rightarrow> (errno option \<times> fdtab \<times> fsys) option" where
  "fdtab_close_fd fdt fs fd =
     (if is_bad_fd fdt fd then Some (Some EBADF, fdt, fs)
      else do {
        used \<leftarrow> fd_is_used fdt (nat fd);
        if \<not> used then Some (Some EBADF, fdt, fs)
        else do { (fdt, fs) \<leftarrow> fd_free fdt fs (nat fd); Some (None, fdt, fs) }
      })"

definition fd_set_cloexec :: "fdtab \<Rightarrow> int \<Rightarrow> bool \<Rightarrow> (errno option \<times> fdtab) option" where
  "fd_set_cloexec fdt fd cloexec =
     (if is_bad_fd fdt fd then Some (Some EBADF, fdt)
      else do {
        used \<leftarrow> fd_is_used fdt (nat fd);
        if \<not> used then Some (Some EBADF, fdt)
        else do {
          fde \<leftarrow> fd_entry fdt (nat fd);
          fdt \<leftarrow> set_entry fdt (nat fd) (fde\<lparr>fde_cloexec := cloexec\<rparr>);
          Some (None, fdt)
        }
      })"

definition fd_get_cloexec :: "fdtab \<Rightarrow> int \<Rightarrow> (errno + bool) option" where
  "fd_get_cloexec fdt fd =
     (if is_bad_fd fdt fd then Some (Inl EBADF)
      else do {
        used \<leftarrow> fd_is_used fdt (nat fd);
        if \<not> used then Some (Inl EBADF)
        else do { fde \<leftarrow> fd_entry fdt (nat fd); Some (Inr (fde_cloexec fde)) }
      })"

text \<open>
  The loops of \<^verbatim>\<open>fdtab_onexec\<close> and \<^verbatim>\<open>fdtab_onfork\<close> differ in the test on the entry; the table size
  does not change while they run.
\<close>

function close_loop ::
  "(fsys \<Rightarrow> fdent \<Rightarrow> bool option) \<Rightarrow> fdtab \<Rightarrow> fsys \<Rightarrow> nat \<Rightarrow> nat \<Rightarrow> (errno option \<times> fdtab \<times> fsys) option" where
  "close_loop doomed fdt fs n fd =
     (if fd < n then
        do {
          used \<leftarrow> fd_is_used fdt fd;
          del \<leftarrow> (if used then do { fde \<leftarrow> fd_entry fdt fd; doomed fs fde } else Some False);
          if del then
            do {
              (error, fdt, fs) \<leftarrow> fdtab_close_fd fdt fs (int fd);
              case error of
                Some e \<Rightarrow> Some (Some e, fdt, fs)
              | None \<Rightarrow> close_loop doomed fdt fs n (fd + 1)
            }
          else close_loop doomed fdt fs n (fd + 1)
        }
      else Some (None, fdt, fs))"
  by pat_completeness auto
termination
  by (relation "measure (\<lambda>(doomed, fdt, fs, n, fd). n - fd)") auto

definition fdtab_onexec :: "fdtab \<Rightarrow> fsys \<Rightarrow> (errno option \<times> fdtab \<times> fsys) option" where
  "fdtab_onexec fdt fs = close_loop (\<lambda>fs fde. Some (fde_cloexec fde)) fdt fs (fdt_nfiles fdt) 0"

definition is_kqueue :: "fsys \<Rightarrow> fdent \<Rightarrow> bool option" where
  "is_kqueue fs fde = do { f \<leftarrow> fde_file fde; fl \<leftarrow> fs_files fs f; Some (f_type fl = FT_KQUEUE) }"

definition fdtab_onfork :: "fdtab \<Rightarrow> fsys \<Rightarrow> (errno option \<times> fdtab \<times> fsys) option" where
  "fdtab_onfork fdt fs = close_loop is_kqueue fdt fs (fdt_nfiles fdt) 0"

declare copy_loop.simps [simp del] drop_loop.simps [simp del] close_loop.simps [simp del]

section \<open>The table as a finite map\<close>

text \<open>What the table stores: the file and the close-on-exec flag of every descriptor in use.\<close>

definition fds :: "fdtab \<Rightarrow> nat \<Rightarrow> (nat \<times> bool) option" where
  "fds fdt i = (if i < length (fdt_entries fdt)
                then map_option (\<lambda>f. (f, fde_cloexec (fdt_entries fdt ! i))) (fde_file (fdt_entries fdt ! i))
                else None)"

definition fd_wf :: "fdtab \<Rightarrow> nat set \<Rightarrow> bool" where
  "fd_wf fdt U \<longleftrightarrow> NDFILE \<le> fdt_nfiles fdt \<and> fdt_nfiles fdt \<le> MAXFILES \<and>
     length (fdt_entries fdt) = fdt_nfiles fdt \<and> length (fdt_map fdt) = bitstr_size (fdt_nfiles fdt) \<and>
     bits.members (fdt_map fdt) = U \<and> U \<subseteq> {..<fdt_nfiles fdt} \<and>
     (\<forall>e \<in> set (fdt_entries fdt). fde_file e = None \<longrightarrow> e = empty_fde)"

definition fdtab_inv :: "fdtab \<Rightarrow> bool" where
  "fdtab_inv fdt \<longleftrightarrow> fd_wf fdt (dom (fds fdt))"

definition nrefs :: "(nat \<Rightarrow> (nat \<times> bool) option) \<Rightarrow> nat \<Rightarrow> nat" where
  "nrefs m f = card {i. \<exists>c. m i = Some (f, c)}"

lemma finite_fds: "finite (dom (fds fdt))"
  by (rule finite_subset [of _ "{..<length (fdt_entries fdt)}"]) (auto simp: fds_def split: if_splits)

lemma nrefs_finite: "finite (dom m) \<Longrightarrow> finite {i. \<exists>c. m i = Some (f, c)}"
  by (rule finite_subset) auto

lemma nrefs_new:
  assumes "finite (dom m)" and "m i = None"
  shows "nrefs (m(i \<mapsto> (g, c))) f = nrefs m f + (if f = g then 1 else 0)"
proof -
  have "{j. \<exists>c'. (m(i \<mapsto> (g, c))) j = Some (f, c')} =
        (if f = g then insert i {j. \<exists>c. m j = Some (f, c)} else {j. \<exists>c. m j = Some (f, c)})"
    using assms(2) by auto
  then show ?thesis
    using assms nrefs_finite [OF assms(1), of f] by (auto simp: nrefs_def card_insert_if)
qed

lemma nrefs_clear:
  assumes "finite (dom m)" and "m i = Some (g, c)"
  shows "nrefs m f = nrefs (m(i := None)) f + (if f = g then 1 else 0)"
proof -
  have "(m(i := None))(i \<mapsto> (g, c)) = m"
    using assms(2) by auto
  then show ?thesis
    using nrefs_new [of "m(i := None)" i g c f] assms(1) by simp
qed

lemma nrefs_flag:
  assumes "m i = Some (g, c)"
  shows "nrefs (m(i \<mapsto> (g, c'))) f = nrefs m f"
proof -
  have "{j. \<exists>c''. (m(i \<mapsto> (g, c'))) j = Some (f, c'')} = {j. \<exists>c. m j = Some (f, c)}"
    using assms by auto
  then show ?thesis by (simp add: nrefs_def)
qed

lemma fd_wf_bits:
  assumes "fd_wf fdt U"
  shows "bits_inv (fdt_map fdt)" and "fdt_nfiles fdt \<le> bits_len (fdt_map fdt)"
proof -
  have n: "fdt_nfiles fdt \<le> 1024" "length (fdt_map fdt) = bitstr_size (fdt_nfiles fdt)"
    using assms by (simp_all add: fd_wf_def MAXFILES_def)
  then show "bits_inv (fdt_map fdt)"
    using bitstr_size_exact(1) [of "fdt_nfiles fdt"] by (simp add: bits_inv_def)
  show "fdt_nfiles fdt \<le> bits_len (fdt_map fdt)"
    using n bitstr_size_exact(2) [of "fdt_nfiles fdt"] by (simp add: bits_len_def)
qed

lemma fd_is_used_eq:
  "fd_wf fdt U \<Longrightarrow> fd < fdt_nfiles fdt \<Longrightarrow> fd_is_used fdt fd = Some (fd \<in> U)"
  using bits.is_set_members [of "fdt_map fdt" fd] fd_wf_bits [of fdt U] by (simp add: fd_is_used_def fd_wf_def)

lemma fd_mark_used_ok:
  assumes wf: "fd_wf fdt U" and fd: "fd < fdt_nfiles fdt" "fd \<notin> U"
  shows "\<exists>fdt'. fd_mark_used fdt fd = Some fdt' \<and> fd_wf fdt' (insert fd U) \<and> fds fdt' = fds fdt \<and>
           fdt_nfiles fdt' = fdt_nfiles fdt \<and> fdt_count fdt' = fdt_count fdt"
proof -
  have lt: "fd < bits_len (fdt_map fdt)"
    using fd(1) fd_wf_bits(2) [OF wf] by simp
  obtain bm where bm: "bit_set (fdt_map fdt) fd = Some bm" "bits_inv bm"
    "bits_len bm = bits_len (fdt_map fdt)" "bits.members bm = insert fd (bits.members (fdt_map fdt))"
    using bits.mark_members [OF fd_wf_bits(1) [OF wf] lt] by auto
  then show ?thesis
    using wf fd fd_is_used_eq [OF wf fd(1)]
    by (auto simp: fd_mark_used_def fd_wf_def fds_def bits_len_def)
qed

lemma fd_mark_unused_ok:
  assumes wf: "fd_wf fdt U" and fd: "fd < fdt_nfiles fdt" "fd \<in> U"
  shows "\<exists>fdt'. fd_mark_unused fdt fd = Some fdt' \<and> fd_wf fdt' (U - {fd}) \<and> fds fdt' = fds fdt \<and>
           fdt_nfiles fdt' = fdt_nfiles fdt \<and> fdt_count fdt' = fdt_count fdt"
proof -
  have lt: "fd < bits_len (fdt_map fdt)"
    using fd(1) fd_wf_bits(2) [OF wf] by simp
  obtain bm where bm: "bit_clear (fdt_map fdt) fd = Some bm" "bits_inv bm"
    "bits_len bm = bits_len (fdt_map fdt)" "bits.members bm = bits.members (fdt_map fdt) - {fd}"
    using bits.unmark_members [OF fd_wf_bits(1) [OF wf] lt] by auto
  then show ?thesis
    using wf fd fd_is_used_eq [OF wf fd(1)]
    by (auto simp: fd_mark_unused_def fd_wf_def fds_def bits_len_def)
qed

lemma set_entry_ok:
  assumes wf: "fd_wf fdt U" and fd: "fd < fdt_nfiles fdt" and e: "fde_file e = None \<longrightarrow> e = empty_fde"
  shows "\<exists>fdt'. set_entry fdt fd e = Some fdt' \<and> fd_wf fdt' U \<and>
           fds fdt' = (fds fdt)(fd := map_option (\<lambda>f. (f, fde_cloexec e)) (fde_file e)) \<and>
           fdt_nfiles fdt' = fdt_nfiles fdt \<and> fdt_count fdt' = fdt_count fdt"
proof -
  have len: "length (fdt_entries fdt) = fdt_nfiles fdt"
    using wf by (simp add: fd_wf_def)
  have "set ((fdt_entries fdt)[fd := e]) \<subseteq> insert e (set (fdt_entries fdt))"
    by (rule set_update_subset_insert)
  then have "fd_wf (fdt\<lparr>fdt_entries := (fdt_entries fdt)[fd := e]\<rparr>) U"
    using wf e by (auto simp: fd_wf_def)
  moreover have "fds (fdt\<lparr>fdt_entries := (fdt_entries fdt)[fd := e]\<rparr>) =
      (fds fdt)(fd := map_option (\<lambda>f. (f, fde_cloexec e)) (fde_file e))"
    using len fd by (auto simp: fds_def fun_eq_iff nth_list_update)
  ultimately show ?thesis
    using fd len by (simp add: set_entry_def)
qed

lemma fd_growtable_ok:
  assumes wf: "fd_wf fdt U" and n: "fdt_nfiles fdt < n" "n \<le> MAXFILES"
  shows "\<exists>fdt'. fd_growtable fdt n = Some fdt' \<and> fd_wf fdt' U \<and> fds fdt' = fds fdt \<and>
           fdt_nfiles fdt' = n \<and> fdt_count fdt' = fdt_count fdt"
proof -
  let ?k = "bitstr_size (fdt_nfiles fdt)" and ?e = "replicate (n - fdt_nfiles fdt) empty_fde"
  let ?b = "fdt_map fdt @ replicate (bitstr_size n - ?k) 0"
  let ?t = "fdt\<lparr>fdt_entries := fdt_entries fdt @ ?e, fdt_map := ?b, fdt_nfiles := n\<rparr>"
  have len: "length (fdt_entries fdt) = fdt_nfiles fdt" "length (fdt_map fdt) = ?k"
    using wf by (simp_all add: fd_wf_def)
  have "fdt_nfiles fdt < 2 ^ 31" "n < 2 ^ 31"
    using n by (simp_all add: MAXFILES_def)
  then have k: "?k \<le> bitstr_size n" "bitstr_size n \<le> 2 ^ 29"
    using n(1) by (simp_all add: bitstr_size_exact(1) div_le_mono)
  have grow: "fd_growtable fdt n = Some ?t"
    using n len k(1) by (simp add: fd_growtable_def Let_def)
  have "bits_inv ?b"
    using len(2) k by (simp add: bits_inv_def)
  then have "bits.members ?b = U"
    using members_append_zero wf by (simp add: fd_wf_def)
  then have "fd_wf ?t U"
    using wf n len k(1) by (auto simp: fd_wf_def)
  moreover have "fds ?t = fds fdt"
    by (auto simp: fds_def fun_eq_iff nth_append empty_fde_def)
  ultimately show ?thesis
    using grow by simp
qed

section \<open>The operations on the map\<close>

lemma fdtab_invD: "fdtab_inv fdt \<Longrightarrow> fd_wf fdt (dom (fds fdt))"
  by (simp add: fdtab_inv_def)

lemma fdtab_inv_size: "fdtab_inv fdt \<Longrightarrow> fd \<in> dom (fds fdt) \<Longrightarrow> fd < fdt_nfiles fdt"
  by (auto simp: fdtab_inv_def fd_wf_def)

lemma fdtab_create_inv: "fdtab_inv fdtab_create" and fdtab_create_fds: "fds fdtab_create = Map.empty"
proof -
  have b: "bits_inv (replicate (bitstr_size NDFILE) 0)"
    by (simp add: bits_inv_def bitstr_size_exact NDFILE_def)
  show e: "fds fdtab_create = Map.empty"
    by (auto simp: fds_def fdtab_create_def empty_fde_def fun_eq_iff)
  show "fdtab_inv fdtab_create"
    unfolding fdtab_inv_def e using members_zero [OF b]
    by (simp add: fd_wf_def fdtab_create_def NDFILE_def MAXFILES_def)
qed

text \<open>
  The descriptor that \<^verbatim>\<open>fd_alloc\<close> returns is free and, for a non-negative \<^verbatim>\<open>minfd\<close>, the least free one
  that is at least \<^verbatim>\<open>minfd\<close>; there is none only when all descriptors up to the limit are used.
\<close>

definition alloc_result :: "(nat \<Rightarrow> (nat \<times> bool) option) \<Rightarrow> int \<Rightarrow> errno + nat \<Rightarrow> bool" where
  "alloc_result m minfd res \<longleftrightarrow>
     (case res of
        Inl e \<Rightarrow> e = EMFILE \<and> (0 \<le> minfd \<longrightarrow> (\<forall>i. minfd \<le> int i \<and> i < MAXFILES \<longrightarrow> m i \<noteq> None))
      | Inr fd \<Rightarrow> m fd = None \<and> minfd \<le> int fd \<and>
                  (0 \<le> minfd \<longrightarrow> (\<forall>i. minfd \<le> int i \<and> i < fd \<longrightarrow> m i \<noteq> None)))"

lemma fd_alloc_ok:
  assumes inv: "fdtab_inv fdt" and lo: "- (2 ^ 31) \<le> minfd"
  shows "\<exists>res fdt'. fd_alloc fdt minfd = Some (res, fdt') \<and> alloc_result (fds fdt) minfd res \<and>
           fds fdt' = fds fdt \<and> fdt_count fdt' = fdt_count fdt \<and> fdt_nfiles fdt \<le> fdt_nfiles fdt' \<and>
           (case res of Inl e \<Rightarrow> fdt' = fdt
            | Inr fd \<Rightarrow> fd < fdt_nfiles fdt' \<and> fd_wf fdt' (insert fd (dom (fds fdt))))"
proof (cases "minfd \<ge> int MAXFILES")
  case True
  then show ?thesis
    by (auto simp: fd_alloc_def alloc_result_def)
next
  case False
  note wf = fdtab_invD [OF inv]
  let ?n = "fdt_nfiles fdt" and ?start = "nat (minfd mod 2 ^ 64)"
  have n: "?n \<le> MAXFILES" "bits.members (fdt_map fdt) = dom (fds fdt)" "dom (fds fdt) \<subseteq> {..<?n}" "0 < ?n"
    using wf by (auto simp: fd_wf_def NDFILE_def)
  have "minfd mod 2 ^ 64 = minfd + 2 ^ 64" if "minfd < 0"
    using that lo by (subst mod_add_self2 [symmetric], intro mod_pos_pos_trivial) auto
  then have start: "(0 \<le> minfd \<longrightarrow> int ?start = minfd) \<and> (minfd < 0 \<longrightarrow> ?n \<le> ?start)"
    using lo False n(1) by (auto simp: MAXFILES_def)
  have le: "?start \<le> i \<longleftrightarrow> minfd \<le> int i" if "0 \<le> minfd" for i
    using that start by linarith
  obtain r where r: "bit_ffc_from (fdt_map fdt) ?n ?start = Some r"
    "least_from (\<lambda>i. i \<notin> dom (fds fdt)) ?start ?n r"
    using bit_ffc_from_least [OF fd_wf_bits [OF wf]] n(2) by metis
  show ?thesis
  proof (cases r)
    case (Some fd)
    then have fd: "?start \<le> fd" "fd < ?n" "fd \<notin> dom (fds fdt)" "\<forall>i. ?start \<le> i \<and> i < fd \<longrightarrow> i \<in> dom (fds fdt)"
      using r(2) by (auto simp: least_from_def)
    then have pos: "0 \<le> minfd"
      using start by linarith
    obtain t where "fd_mark_used fdt fd = Some t" "fd_wf t (insert fd (dom (fds fdt)))" "fds t = fds fdt"
      "fdt_nfiles t = ?n" "fdt_count t = fdt_count fdt"
      using fd_mark_used_ok [OF wf fd(2,3)] by auto
    moreover have "alloc_result (fds fdt) minfd (Inr fd)"
      using fd le [OF pos] by (simp add: alloc_result_def domIff del: not_None_eq)
    ultimately show ?thesis
      using False r(1) Some fd(2) by (auto simp: fd_alloc_def)
  next
    case None
    then have full: "\<forall>i. ?start \<le> i \<and> i < ?n \<longrightarrow> i \<in> dom (fds fdt)"
      using r(2) by (simp add: least_from_def)
    show ?thesis
    proof (cases "?n = MAXFILES")
      case True
      then have "alloc_result (fds fdt) minfd (Inl EMFILE)"
        using full le by (simp add: alloc_result_def domIff del: not_None_eq)
      then show ?thesis
        using False r(1) None True by (auto simp: fd_alloc_def)
    next
      case nmax: False
      define m where "m = nat (min (max (minfd + 1) (int ?n * 2)) (int MAXFILES))"
      define fd where "fd = nat (max minfd (int ?n))"
      have m: "?n < m" "m \<le> MAXFILES" "fd < m" "?n \<le> fd" "minfd \<le> int fd"
        using nmax n(1,4) False by (auto simp: m_def fd_def)
      obtain g where g: "fd_growtable fdt m = Some g" "fd_wf g (dom (fds fdt))" "fds g = fds fdt"
        "fdt_nfiles g = m" "fdt_count g = fdt_count fdt"
        using fd_growtable_ok [OF wf m(1,2)] by auto
      have fresh: "fd \<notin> dom (fds fdt)"
        using n(3) m(4) by auto
      obtain t where t: "fd_mark_used g fd = Some t" "fd_wf t (insert fd (dom (fds fdt)))" "fds t = fds g"
        "fdt_nfiles t = m" "fdt_count t = fdt_count g"
        using fd_mark_used_ok [OF g(2) _ fresh] m(3) g(4) by auto
      have "i \<in> dom (fds fdt)" if "0 \<le> minfd" "minfd \<le> int i" "i < fd" for i
        using that full le [OF that(1)] unfolding fd_def by (auto simp: max_def split: if_splits)
      then have "alloc_result (fds fdt) minfd (Inr fd)"
        using fresh m(5) by (simp add: alloc_result_def domIff del: not_None_eq)
      then show ?thesis
        using False r(1) None nmax g t m(1,3) by (auto simp: fd_alloc_def simp flip: m_def fd_def)
    qed
  qed
qed

text \<open>The references to a file: those of the table and those \<open>held\<close> elsewhere.\<close>

definition tab_refs :: "fdtab \<Rightarrow> (nat \<Rightarrow> nat) \<Rightarrow> nat \<Rightarrow> nat" where
  "tab_refs fdt held f = nrefs (fds fdt) f + held f"

lemma fd_free_ok:
  assumes inv: "fdtab_inv fdt" and fd: "fds fdt fd = Some (g, c)" and refs: "refs_inv fs (tab_refs fdt held)"
  shows "\<exists>fdt' fs'. fd_free fdt fs fd = Some (fdt', fs') \<and> fdtab_inv fdt' \<and> fds fdt' = (fds fdt)(fd := None) \<and>
           fdt_nfiles fdt' = fdt_nfiles fdt \<and> fdt_count fdt' = fdt_count fdt \<and>
           refs_inv fs' (tab_refs fdt' held)"
proof -
  note wf = fdtab_invD [OF inv]
  have lt: "fd < fdt_nfiles fdt"
    using fdtab_inv_size [OF inv] fd by auto
  have ent: "fd_entry fdt fd = Some (fdt_entries fdt ! fd)" "fde_file (fdt_entries fdt ! fd) = Some g"
    using fd lt wf by (auto simp: fd_entry_def fds_def fd_wf_def split: if_splits)
  have cl: "tab_refs fdt held f = nrefs ((fds fdt)(fd := None)) f + (if f = g then 1 else 0) + held f" for f
    unfolding tab_refs_def by (subst nrefs_clear [OF finite_fds fd]) simp
  then have "0 < tab_refs fdt held g"
    by simp
  then obtain fs' where fs': "file_drop fs g = Some fs'" "refs_inv fs' ((tab_refs fdt held)(g := tab_refs fdt held g - 1))"
    using file_drop_ok [OF refs] by blast
  obtain t where t: "set_entry fdt fd empty_fde = Some t" "fd_wf t (dom (fds fdt))" "fds t = (fds fdt)(fd := None)"
    "fdt_nfiles t = fdt_nfiles fdt" "fdt_count t = fdt_count fdt"
    using set_entry_ok [OF wf lt, of empty_fde] by (auto simp: empty_fde_def)
  obtain u where u: "fd_mark_unused t fd = Some u" "fd_wf u (dom (fds fdt) - {fd})" "fds u = fds t"
    "fdt_nfiles u = fdt_nfiles t" "fdt_count u = fdt_count t"
    using fd_mark_unused_ok [OF t(2), of fd] lt t(4) fd by auto
  have "fdtab_inv u"
    using u(2,3) t(3) by (simp add: fdtab_inv_def)
  moreover have "tab_refs u held f = nrefs ((fds fdt)(fd := None)) f + held f" for f
    by (simp add: tab_refs_def u(3) t(3))
  then have "refs_inv fs' (tab_refs u held)"
    by (intro refs_inv_cong [OF fs'(2)]) (simp add: cl)
  ultimately show ?thesis
    using ent fs'(1) t u by (simp add: fd_free_def)
qed

lemma tab_refs_new:
  "fds fdt' = (fds fdt)(fd \<mapsto> (f, c)) \<Longrightarrow> fds fdt fd = None \<Longrightarrow>
     tab_refs fdt' held = (tab_refs fdt held)(f := tab_refs fdt held f + 1)"
  by (rule ext) (simp add: tab_refs_def nrefs_new finite_fds)

lemma fdtab_install_file_ok:
  assumes inv: "fdtab_inv fdt" and lo: "- (2 ^ 31) \<le> minfd" and refs: "refs_inv fs (tab_refs fdt held)"
    and f: "0 < tab_refs fdt held f" "tab_refs fdt held f < UINT_MAX"
  shows "\<exists>res fdt' fs'. fdtab_install_file fdt fs f minfd = Some (res, fdt', fs') \<and>
           alloc_result (fds fdt) minfd res \<and> fdtab_inv fdt' \<and> refs_inv fs' (tab_refs fdt' held) \<and>
           fdt_count fdt' = fdt_count fdt \<and> fdt_nfiles fdt \<le> fdt_nfiles fdt' \<and>
           (case res of Inl e \<Rightarrow> fdt' = fdt \<and> fs' = fs
            | Inr fd \<Rightarrow> fd < fdt_nfiles fdt' \<and> fds fdt' = (fds fdt)(fd \<mapsto> (f, False)))"
proof -
  obtain res t where t: "fd_alloc fdt minfd = Some (res, t)" "alloc_result (fds fdt) minfd res"
    "fds t = fds fdt" "fdt_count t = fdt_count fdt" "fdt_nfiles fdt \<le> fdt_nfiles t"
    "case res of Inl e \<Rightarrow> t = fdt | Inr fd \<Rightarrow> fd < fdt_nfiles t \<and> fd_wf t (insert fd (dom (fds fdt)))"
    using fd_alloc_ok [OF inv lo] by auto
  show ?thesis
  proof (cases res)
    case (Inl e)
    then show ?thesis
      using t inv refs by (auto simp: fdtab_install_file_def)
  next
    case (Inr fd)
    then have fd: "fd < fdt_nfiles t" "fd_wf t (insert fd (dom (fds fdt)))" "fds fdt fd = None"
      using t(2,6) by (simp_all add: alloc_result_def)
    obtain u where u: "set_entry t fd \<lparr>fde_file = Some f, fde_cloexec = False\<rparr> = Some u"
      "fd_wf u (insert fd (dom (fds fdt)))" "fds u = (fds fdt)(fd \<mapsto> (f, False))"
      "fdt_nfiles u = fdt_nfiles t" "fdt_count u = fdt_count t"
      using set_entry_ok [OF fd(2,1), of "\<lparr>fde_file = Some f, fde_cloexec = False\<rparr>"] t(3) by auto
    obtain fs' where fs': "file_hold fs f = Some fs'"
      "refs_inv fs' ((tab_refs fdt held)(f := tab_refs fdt held f + 1))"
      using file_hold_ok [OF refs f] by auto
    have "fdtab_inv u"
      using u(2,3) by (simp add: fdtab_inv_def)
    then show ?thesis
      using t u fs' Inr fd tab_refs_new [OF u(3) fd(3), of held] by (simp add: fdtab_install_file_def)
  qed
qed

lemma fdtab_close_fd_ok:
  assumes inv: "fdtab_inv fdt" and fd: "fd \<noteq> int (fdt_nfiles fdt)" and refs: "refs_inv fs (tab_refs fdt held)"
  shows "\<exists>res fdt' fs'. fdtab_close_fd fdt fs fd = Some (res, fdt', fs') \<and> fdtab_inv fdt' \<and>
           refs_inv fs' (tab_refs fdt' held) \<and> fdt_nfiles fdt' = fdt_nfiles fdt \<and>
           fdt_count fdt' = fdt_count fdt \<and>
           (if 0 \<le> fd \<and> fds fdt (nat fd) \<noteq> None then res = None \<and> fds fdt' = (fds fdt)(nat fd := None)
            else res = Some EBADF \<and> fdt' = fdt \<and> fs' = fs)"
proof (cases "0 \<le> fd \<and> nat fd < fdt_nfiles fdt")
  case False
  then have "is_bad_fd fdt fd"
    using fd by (auto simp: is_bad_fd_def)
  moreover have "\<not> (0 \<le> fd \<and> fds fdt (nat fd) \<noteq> None)"
    using False fdtab_inv_size [OF inv, of "nat fd"] by auto
  ultimately show ?thesis
    using inv refs by (auto simp: fdtab_close_fd_def)
next
  case True
  then have ok: "\<not> is_bad_fd fdt fd"
    by (auto simp: is_bad_fd_def)
  have used: "fd_is_used fdt (nat fd) = Some (fds fdt (nat fd) \<noteq> None)"
    using fd_is_used_eq [OF fdtab_invD [OF inv], of "nat fd"] True by (simp add: domIff)
  show ?thesis
  proof (cases "fds fdt (nat fd)")
    case None
    then show ?thesis
      using ok used inv refs by (simp add: fdtab_close_fd_def)
  next
    case (Some gc)
    obtain g c where "fds fdt (nat fd) = Some (g, c)"
      using Some by (cases gc) auto
    then show ?thesis
      using fd_free_ok [OF inv _ refs, of "nat fd" g c] ok used True by (auto simp: fdtab_close_fd_def)
  qed
qed

text \<open>Looking up a descriptor: its file is held once more, or the error is \<^verbatim>\<open>EBADF\<close>.\<close>

definition fd_allows :: "file_t \<Rightarrow> nat \<Rightarrow> bool" where
  "fd_allows fl flags \<longleftrightarrow> (flags AND FF_READ \<noteq> 0 \<longrightarrow> f_flags fl AND FF_READ \<noteq> 0) \<and>
                         (flags AND FF_WRITE \<noteq> 0 \<longrightarrow> f_flags fl AND FF_WRITE \<noteq> 0)"

lemma fdtab_get_file_ok:
  assumes inv: "fdtab_inv fdt" and fd: "fd \<noteq> int (fdt_nfiles fdt)" and refs: "refs_inv fs (tab_refs fdt held)"
    and bound: "\<forall>f. tab_refs fdt held f < UINT_MAX"
  shows "\<exists>res fs'. fdtab_get_file (Some fdt) fs fd flags = Some (res, fs') \<and>
     (case res of
        Inl e \<Rightarrow> e = EBADF \<and> refs_inv fs' (tab_refs fdt held) \<and>
                 (\<forall>f c. 0 \<le> fd \<longrightarrow> fds fdt (nat fd) = Some (f, c) \<longrightarrow> \<not> fd_allows (the (fs_files fs f)) flags)
      | Inr f \<Rightarrow> 0 \<le> fd \<and> (\<exists>c. fds fdt (nat fd) = Some (f, c)) \<and> fd_allows (the (fs_files fs f)) flags \<and>
                 refs_inv fs' ((tab_refs fdt held)(f := tab_refs fdt held f + 1)) \<and> fs_closed fs' = fs_closed fs)"
proof (cases "0 \<le> fd \<and> fds fdt (nat fd) \<noteq> None")
  case False
  have "0 \<le> fd \<and> nat fd < fdt_nfiles fdt \<longrightarrow> fd_is_used fdt (nat fd) = Some False"
    using fd_is_used_eq [OF fdtab_invD [OF inv], of "nat fd"] False by (auto simp: domIff)
  moreover have "is_bad_fd fdt fd \<or> 0 \<le> fd \<and> nat fd < fdt_nfiles fdt"
    using fd by (auto simp: is_bad_fd_def)
  ultimately have "fdtab_get_file (Some fdt) fs fd flags = Some (Inl EBADF, fs)"
    by (auto simp: fdtab_get_file_def)
  then show ?thesis
    using False refs by auto
next
  case True
  then obtain f c where f: "fds fdt (nat fd) = Some (f, c)"
    by auto
  have "nat fd < fdt_nfiles fdt"
    using fdtab_inv_size [OF inv, of "nat fd"] f by (simp add: domI)
  then have lt: "nat fd < fdt_nfiles fdt" "\<not> is_bad_fd fdt fd"
    using True by (auto simp: is_bad_fd_def)
  have used: "fd_is_used fdt (nat fd) = Some True"
    using fd_is_used_eq [OF fdtab_invD [OF inv] lt(1)] f by (auto simp: domIff)
  have ent: "fd_entry fdt (nat fd) = Some (fdt_entries fdt ! nat fd)" "fde_file (fdt_entries fdt ! nat fd) = Some f"
    using f by (auto simp: fd_entry_def fds_def split: if_splits)
  have pos: "0 < tab_refs fdt held f"
    using nrefs_clear [OF finite_fds f, of f] by (simp add: tab_refs_def)
  obtain fs1 fl where h: "file_hold fs f = Some fs1" "refs_inv fs1 ((tab_refs fdt held)(f := tab_refs fdt held f + 1))"
    "fs_closed fs1 = fs_closed fs" "fs_files fs f = Some fl" "fs_files fs1 f = Some (fl\<lparr>f_count := f_count fl + 1\<rparr>)"
    using file_hold_ok [OF refs pos] bound by blast
  show ?thesis
  proof (cases "fd_allows fl flags")
    case ok: True
    then have "fdtab_get_file (Some fdt) fs fd flags = Some (Inr f, fs1)"
      using lt used ent h by (auto simp: fdtab_get_file_def fd_allows_def)
    then show ?thesis
      using h f True ok by auto
  next
    case no: False
    obtain fs2 where d: "file_drop fs1 f = Some fs2" "refs_inv fs2 (tab_refs fdt held)"
      using file_drop_ok [OF h(2), of f] by auto
    have "fdtab_get_file (Some fdt) fs fd flags = Some (Inl EBADF, fs2)"
      using lt used ent h d no by (auto simp: fdtab_get_file_def fd_allows_def)
    then show ?thesis
      using d(2) no f h(4) by auto
  qed
qed

lemma fd_free_same: "fd_free fdt fs fd = Some (fdt', fs') \<Longrightarrow> same_files fs fs'"
  by (auto simp: fd_free_def bind_eq_Some_conv dest: file_drop_same)

lemma fdtab_close_fd_same: "fdtab_close_fd fdt fs fd = Some (r, fdt', fs') \<Longrightarrow> same_files fs fs'"
  by (auto simp: fdtab_close_fd_def bind_eq_Some_conv split: if_splits dest: fd_free_same)

lemma nrefs_bound: "fdtab_inv fdt \<Longrightarrow> nrefs (fds fdt) f \<le> MAXFILES"
proof -
  assume "fdtab_inv fdt"
  then have "{i. \<exists>c. fds fdt i = Some (f, c)} \<subseteq> {..<fdt_nfiles fdt}" "fdt_nfiles fdt \<le> MAXFILES"
    by (auto simp: fdtab_inv_def fd_wf_def)
  then show ?thesis
    using card_mono [of "{..<fdt_nfiles fdt}" "{i. \<exists>c. fds fdt i = Some (f, c)}"] by (simp add: nrefs_def)
qed

lemma fds_entry:
  assumes "fds fdt i = Some (f, c)"
  shows "fd_entry fdt i = Some \<lparr>fde_file = Some f, fde_cloexec = c\<rparr>"
  using assms by (auto simp: fd_entry_def fds_def split: if_splits)

text \<open>Closing the descriptors that a test selects, as \<^verbatim>\<open>exec\<close> and \<^verbatim>\<open>fork\<close> do.\<close>

lemma close_loop_ok:
  assumes "fdtab_inv fdt" and "refs_inv fs (tab_refs fdt held)" and "n = fdt_nfiles fdt"
    and "\<And>fs' f c. same_files fs fs' \<Longrightarrow> fs_files fs' f \<noteq> None \<Longrightarrow>
           doomed fs' \<lparr>fde_file = Some f, fde_cloexec = c\<rparr> = Some (P f c)"
  shows "\<exists>fdt' fs'. close_loop doomed fdt fs n i = Some (None, fdt', fs') \<and> fdtab_inv fdt' \<and>
           refs_inv fs' (tab_refs fdt' held) \<and> fdt_nfiles fdt' = fdt_nfiles fdt \<and>
           fds fdt' = (\<lambda>k. case fds fdt k of Some (f, c) \<Rightarrow> if i \<le> k \<and> P f c then None else Some (f, c)
                                           | None \<Rightarrow> None)"
  using assms
proof (induction "n - i" arbitrary: fdt fs i)
  case 0
  have "(\<lambda>k. case fds fdt k of Some (f, c) \<Rightarrow> if i \<le> k \<and> P f c then None else Some (f, c) | None \<Rightarrow> None) = fds fdt"
    using fdtab_inv_size [OF 0(2)] 0(1,4) by (force simp: fun_eq_iff split: option.splits)
  then show ?case
    using 0 by (subst close_loop.simps) auto
next
  case (Suc m)
  note inv = Suc.prems(1) and refs = Suc.prems(2)
  have i: "i < n" "m = n - (i + 1)"
    using Suc.hyps(2) by linarith+
  have used: "fd_is_used fdt i = Some (fds fdt i \<noteq> None)"
    using fd_is_used_eq [OF fdtab_invD [OF inv], of i] i(1) Suc.prems(3) by (simp add: domIff)
  have skip: "?case" if del: "\<And>f c. fds fdt i = Some (f, c) \<Longrightarrow> \<not> P f c"
  proof -
    have step: "close_loop doomed fdt fs n i = close_loop doomed fdt fs n (i + 1)"
    proof (cases "fds fdt i")
      case None
      then show ?thesis
        using i(1) used by (subst close_loop.simps) simp
    next
      case (Some fc)
      obtain f c where f: "fds fdt i = Some (f, c)"
        using Some by (cases fc) auto
      have "fs_files fs f \<noteq> None"
        using refs nrefs_clear [OF finite_fds f, of f] by (auto simp: refs_inv_def tab_refs_def)
      then have "doomed fs \<lparr>fde_file = Some f, fde_cloexec = c\<rparr> = Some False"
        using Suc.prems(4) [of fs f c] del [OF f] by simp
      then show ?thesis
        using i(1) used f fds_entry [OF f] by (subst close_loop.simps) simp
    qed
    have "(case fds fdt k of Some (f, c) \<Rightarrow> if i + 1 \<le> k \<and> P f c then None else Some (f, c) | None \<Rightarrow> None) =
          (case fds fdt k of Some (f, c) \<Rightarrow> if i \<le> k \<and> P f c then None else Some (f, c) | None \<Rightarrow> None)" for k
      using del by (cases "k = i") (auto split: option.splits)
    then show ?case
      using Suc.hyps(1) [OF i(2) Suc.prems] step by simp
  qed
  show ?case
  proof (cases "\<exists>f c. fds fdt i = Some (f, c) \<and> P f c")
    case False
    then show ?thesis
      using skip by blast
  next
    case True
    then obtain f c where f: "fds fdt i = Some (f, c)" "P f c"
      by blast
    have ne: "int i \<noteq> int (fdt_nfiles fdt)"
      using i(1) Suc.prems(3) by simp
    obtain t fs1 where t: "fdtab_close_fd fdt fs (int i) = Some (None, t, fs1)" "fdtab_inv t"
      "refs_inv fs1 (tab_refs t held)" "fdt_nfiles t = fdt_nfiles fdt" "fds t = (fds fdt)(i := None)"
      using fdtab_close_fd_ok [OF inv ne refs] f(1) by auto
    have "fs_files fs f \<noteq> None"
      using refs nrefs_clear [OF finite_fds f(1), of f] by (auto simp: refs_inv_def tab_refs_def)
    then have "doomed fs \<lparr>fde_file = Some f, fde_cloexec = c\<rparr> = Some True"
      using Suc.prems(4) [of fs f c] f(2) by simp
    then have step: "close_loop doomed fdt fs n i = close_loop doomed t fs1 n (i + 1)"
      using i(1) used f(1) fds_entry [OF f(1)] t(1) by (subst close_loop.simps) simp
    have same: "same_files fs fs1"
      by (rule fdtab_close_fd_same [OF t(1)])
    have "(case fds t k of Some (f, c) \<Rightarrow> if i + 1 \<le> k \<and> P f c then None else Some (f, c) | None \<Rightarrow> None) =
          (case fds fdt k of Some (f, c) \<Rightarrow> if i \<le> k \<and> P f c then None else Some (f, c) | None \<Rightarrow> None)" for k
      unfolding t(5) using f by (cases "k = i") (auto split: option.splits)
    then show ?thesis
      using Suc.hyps(1) [OF i(2) t(2,3)] Suc.prems(3,4) t(4) same_files_trans [OF same] step by simp
  qed
qed

lemma close_loop_all:
  assumes "fdtab_inv fdt" and "refs_inv fs (tab_refs fdt held)"
    and "\<And>fs' f c. same_files fs fs' \<Longrightarrow> fs_files fs' f \<noteq> None \<Longrightarrow>
           doomed fs' \<lparr>fde_file = Some f, fde_cloexec = c\<rparr> = Some (P f c)"
  shows "\<exists>fdt' fs'. close_loop doomed fdt fs (fdt_nfiles fdt) 0 = Some (None, fdt', fs') \<and> fdtab_inv fdt' \<and>
           refs_inv fs' (tab_refs fdt' held) \<and>
           fds fdt' = (\<lambda>k. case fds fdt k of Some (f, c) \<Rightarrow> if P f c then None else Some (f, c) | None \<Rightarrow> None)"
proof -
  have "(\<lambda>k. case fds fdt k of Some (f, c) \<Rightarrow> if 0 \<le> k \<and> P f c then None else Some (f, c) | None \<Rightarrow> None) =
        (\<lambda>k. case fds fdt k of Some (f, c) \<Rightarrow> if P f c then None else Some (f, c) | None \<Rightarrow> None)"
    by (auto simp: fun_eq_iff split: option.splits)
  then show ?thesis
    using close_loop_ok [where doomed = doomed and P = P and i = 0, OF assms(1,2) refl assms(3)] by auto
qed

lemma fdtab_install_file_at_ok:
  assumes inv: "fdtab_inv fdt" and fd: "0 \<le> fd" "nat fd < fdt_nfiles fdt" and refs: "refs_inv fs (tab_refs fdt held)"
    and f: "0 < tab_refs fdt held f" "tab_refs fdt held f < UINT_MAX"
    and other: "\<nexists>c. fds fdt (nat fd) = Some (f, c)"
  shows "\<exists>fdt' fs'. fdtab_install_file_at fdt fs f fd = Some (None, fdt', fs') \<and> fdtab_inv fdt' \<and>
           refs_inv fs' (tab_refs fdt' held) \<and> fdt_nfiles fdt' = fdt_nfiles fdt \<and>
           fdt_count fdt' = fdt_count fdt \<and> fds fdt' = (fds fdt)(nat fd \<mapsto> (f, False))"
proof -
  have ok: "\<not> is_bad_fd fdt fd"
    using fd by (auto simp: is_bad_fd_def)
  have used: "fd_is_used fdt (nat fd) = Some (fds fdt (nat fd) \<noteq> None)"
    using fd_is_used_eq [OF fdtab_invD [OF inv] fd(2)] by (simp add: domIff)
  define install where "install = (\<lambda>fdt :: fdtab. do {
       fdt \<leftarrow> set_entry fdt (nat fd) \<lparr>fde_file = Some f, fde_cloexec = False\<rparr>;
       fd_mark_used fdt (nat fd) })"
  have inst: "\<exists>u. install t = Some u \<and> fdtab_inv u \<and> fds u = (fds t)(nat fd \<mapsto> (f, False)) \<and>
      fdt_nfiles u = fdt_nfiles t \<and> fdt_count u = fdt_count t"
    if t: "fdtab_inv t" "nat fd < fdt_nfiles t" "fds t (nat fd) = None" for t
  proof -
    obtain a where a: "set_entry t (nat fd) \<lparr>fde_file = Some f, fde_cloexec = False\<rparr> = Some a"
      "fd_wf a (dom (fds t))" "fds a = (fds t)(nat fd \<mapsto> (f, False))"
      "fdt_nfiles a = fdt_nfiles t" "fdt_count a = fdt_count t"
      using set_entry_ok [OF fdtab_invD [OF t(1)] t(2), of "\<lparr>fde_file = Some f, fde_cloexec = False\<rparr>"] by auto
    obtain u where "fd_mark_used a (nat fd) = Some u" "fd_wf u (insert (nat fd) (dom (fds t)))" "fds u = fds a"
      "fdt_nfiles u = fdt_nfiles a" "fdt_count u = fdt_count a"
      using fd_mark_used_ok [OF a(2), of "nat fd"] t(2,3) a(4) by auto
    then show ?thesis
      using a by (simp add: install_def fdtab_inv_def)
  qed
  obtain t fs1 where t: "fdtab_inv t" "fds t = (fds fdt)(nat fd := None)" "fdt_nfiles t = fdt_nfiles fdt"
    "fdt_count t = fdt_count fdt" "refs_inv fs1 (tab_refs t held)"
    and step: "fdtab_install_file_at fdt fs f fd =
      do { u \<leftarrow> install t; fs \<leftarrow> file_hold fs1 f; Some (None, u, fs) }"
  proof (cases "fds fdt (nat fd)")
    case None
    then show ?thesis
      using that [of fdt fs] inv refs ok used
      by (simp add: fdtab_install_file_at_def install_def fun_upd_idem)
  next
    case (Some gc)
    obtain g c where g: "fds fdt (nat fd) = Some (g, c)"
      using Some by (cases gc) auto
    then have "g \<noteq> f"
      using other by auto
    then show ?thesis
      using fd_free_ok [OF inv g refs] that ok used fds_entry [OF g] g
      by (auto simp: fdtab_install_file_at_def install_def)
  qed
  obtain u where u: "install t = Some u" "fdtab_inv u" "fds u = (fds t)(nat fd \<mapsto> (f, False))"
    "fdt_nfiles u = fdt_nfiles t" "fdt_count u = fdt_count t"
    using inst [OF t(1)] t(2,3) fd(2) by auto
  have "nrefs (fds fdt) f = nrefs (fds t) f"
    unfolding t(2) using other nrefs_clear [OF finite_fds, of fdt "nat fd"]
    by (cases "fds fdt (nat fd)") (auto simp: fun_upd_idem)
  then have "tab_refs t held f = tab_refs fdt held f"
    by (simp add: tab_refs_def)
  then obtain fs' where "file_hold fs1 f = Some fs'" "refs_inv fs' ((tab_refs t held)(f := tab_refs t held f + 1))"
    using file_hold_ok [OF t(5), of f] f by auto
  moreover have "tab_refs u held = (tab_refs t held)(f := tab_refs t held f + 1)"
    using tab_refs_new [OF u(3)] t(2) by simp
  ultimately show ?thesis
    using step u t by auto
qed

lemma drop_loop_ok:
  assumes "fdtab_inv fdt" and "refs_inv fs (tab_refs fdt held)" and "n = fdt_nfiles fdt" and "\<forall>k < i. fds fdt k = None"
  shows "\<exists>fdt' fs'. drop_loop fdt fs n i = Some (fdt', fs') \<and> refs_inv fs' held"
  using assms
proof (induction "n - i" arbitrary: fdt fs i)
  case 0
  have "fds fdt k = None" for k
    using fdtab_inv_size [OF 0(2), of k] 0(1,4,5) by (cases "k < i") auto
  then have "tab_refs fdt held = held"
    by (simp add: tab_refs_def nrefs_def fun_eq_iff)
  then show ?case
    using 0 by (subst drop_loop.simps) auto
next
  case (Suc m)
  note inv = Suc.prems(1)
  have i: "i < n" "m = n - (i + 1)"
    using Suc.hyps(2) by linarith+
  have used: "fd_is_used fdt i = Some (fds fdt i \<noteq> None)"
    using fd_is_used_eq [OF fdtab_invD [OF inv], of i] i(1) Suc.prems(3) by (simp add: domIff)
  show ?case
  proof (cases "fds fdt i")
    case None
    then have "\<forall>k < i + 1. fds fdt k = None"
      using Suc.prems(4) by (auto simp: less_Suc_eq)
    then show ?thesis
      using Suc.hyps(1) [OF i(2) Suc.prems(1-3)] None used i(1) by (subst drop_loop.simps) simp
  next
    case (Some fc)
    obtain f c where f: "fds fdt i = Some (f, c)"
      using Some by (cases fc) auto
    obtain t fs1 where t: "fd_free fdt fs i = Some (t, fs1)" "fdtab_inv t" "fds t = (fds fdt)(i := None)"
      "fdt_nfiles t = fdt_nfiles fdt" "refs_inv fs1 (tab_refs t held)"
      using fd_free_ok [OF inv f Suc.prems(2)] by auto
    have "\<forall>k < i + 1. fds t k = None"
      using Suc.prems(4) t(3) by (auto simp: less_Suc_eq)
    then show ?thesis
      using Suc.hyps(1) [OF i(2) t(2,5)] Suc.prems(3) t(1,4) used f i(1) by (subst drop_loop.simps) simp
  qed
qed

lemma copy_loop_ok:
  assumes "fdtab_inv fdt" and "fd_wf new {}" and "fdt_nfiles new = fdt_nfiles fdt"
    and "refs_inv fs (\<lambda>f. tab_refs fdt held f + nrefs (fds new) f)" and "\<forall>f. held f + 3 * MAXFILES < UINT_MAX"
    and "\<forall>k. fds new k = (if k < i then fds fdt k else None)"
  shows "\<exists>new' fs'. copy_loop fdt new fs i = Some (new', fs') \<and> fd_wf new' {} \<and> fds new' = fds fdt \<and>
           fdt_nfiles new' = fdt_nfiles fdt \<and> fdt_count new' = fdt_count new \<and> fdt_map new' = fdt_map new \<and>
           refs_inv fs' (\<lambda>f. tab_refs fdt held f + nrefs (fds fdt) f)"
  using assms
proof (induction "fdt_nfiles fdt - i" arbitrary: new fs i)
  case 0
  have "fds fdt k = None" if "\<not> k < i" for k
    using fdtab_inv_size [OF 0(2), of k] 0(1) that by (cases "fds fdt k") auto
  then have "fds new = fds fdt"
    using 0(7) by auto
  then show ?case
    using 0 by (subst copy_loop.simps) auto
next
  case (Suc m)
  note inv = Suc.prems(1)
  have i: "i < fdt_nfiles fdt" "m = fdt_nfiles fdt - (i + 1)"
    using Suc.hyps(2) by linarith+
  have used: "fd_is_used fdt i = Some (fds fdt i \<noteq> None)"
    using fd_is_used_eq [OF fdtab_invD [OF inv] i(1)] by (simp add: domIff)
  show ?case
  proof (cases "fds fdt i")
    case None
    then have "\<forall>k. fds new k = (if k < i + 1 then fds fdt k else None)"
      using Suc.prems(6) by (auto simp: less_Suc_eq)
    then show ?thesis
      using Suc.hyps(1) [OF i(2) Suc.prems(1-5)] None used i(1) by (subst copy_loop.simps) simp
  next
    case (Some fc)
    obtain f c where f: "fds fdt i = Some (f, c)"
      using Some by (cases fc) auto
    obtain t where t: "set_entry new i \<lparr>fde_file = Some f, fde_cloexec = c\<rparr> = Some t" "fd_wf t {}"
      "fds t = (fds new)(i \<mapsto> (f, c))" "fdt_nfiles t = fdt_nfiles new" "fdt_count t = fdt_count new"
      using set_entry_ok [OF Suc.prems(2), of i "\<lparr>fde_file = Some f, fde_cloexec = c\<rparr>"] i(1) Suc.prems(3) by auto
    have map: "fdt_map t = fdt_map new"
      using t(1) by (auto simp: set_entry_def split: if_splits)
    have free: "fds new i = None"
      using Suc.prems(6) by simp
    have le: "nrefs (fds new) g \<le> nrefs (fds fdt) g" for g
      unfolding nrefs_def using Suc.prems(6)
      by (intro card_mono nrefs_finite [OF finite_fds]) (auto split: if_splits)
    have "tab_refs fdt held f + nrefs (fds new) f < UINT_MAX"
      using le [of f] nrefs_bound [OF inv, of f] Suc.prems(5) [rule_format, of f] by (simp add: tab_refs_def)
    moreover have "0 < tab_refs fdt held f"
      using nrefs_clear [OF finite_fds f, of f] by (simp add: tab_refs_def)
    ultimately obtain fs1 where fs1: "file_hold fs f = Some fs1"
      "refs_inv fs1 ((\<lambda>f. tab_refs fdt held f + nrefs (fds new) f)
         (f := tab_refs fdt held f + nrefs (fds new) f + 1))"
      using file_hold_ok [OF Suc.prems(4), of f] by auto
    have "refs_inv fs1 (\<lambda>f. tab_refs fdt held f + nrefs (fds t) f)"
      by (rule refs_inv_cong [OF fs1(2)]) (simp add: t(3) nrefs_new [OF finite_fds free])
    moreover have "\<forall>k. fds t k = (if k < i + 1 then fds fdt k else None)"
      using Suc.prems(6) f t(3) by (auto simp: less_Suc_eq)
    ultimately show ?thesis
      using Suc.hyps(1) [OF i(2) inv t(2)] Suc.prems(3,5) t(1,4,5) map used f fds_entry [OF f] fs1(1) i(1)
      by (subst copy_loop.simps) simp
  qed
qed

lemma fdtab_copy_ok:
  assumes inv: "fdtab_inv fdt" and refs: "refs_inv fs (tab_refs fdt held)"
    and bound: "\<forall>f. held f + 3 * MAXFILES < UINT_MAX"
  shows "\<exists>new fs'. fdtab_copy (Some fdt) fs = Some (new, fs') \<and> fdtab_inv new \<and> fds new = fds fdt \<and>
           fdt_count new = 1 \<and> refs_inv fs' (\<lambda>f. tab_refs fdt held f + nrefs (fds new) f)"
proof -
  note wf = fdtab_invD [OF inv]
  have create: "fd_wf fdtab_create {}" "fdt_nfiles fdtab_create = NDFILE" "fdt_count fdtab_create = 1"
    using fdtab_invD [OF fdtab_create_inv] fdtab_create_fds by (simp_all add: fdtab_create_def)
  have n: "NDFILE \<le> fdt_nfiles fdt" "fdt_nfiles fdt \<le> MAXFILES"
    using wf by (simp_all add: fd_wf_def)
  obtain t where t: "(if fdt_nfiles fdt > fdt_nfiles fdtab_create
        then fd_growtable fdtab_create (fdt_nfiles fdt) else Some fdtab_create) = Some t"
    "fd_wf t {}" "fds t = Map.empty" "fdt_nfiles t = fdt_nfiles fdt" "fdt_count t = 1"
  proof (cases "fdt_nfiles fdt > NDFILE")
    case True
    then show ?thesis
      using fd_growtable_ok [OF create(1)] n(2) create that fdtab_create_fds by auto
  next
    case False
    then show ?thesis
      using n(1) create that fdtab_create_fds by auto
  qed
  have "nrefs Map.empty f = 0" for f
    by (simp add: nrefs_def)
  then obtain new fs' where new: "copy_loop fdt t fs 0 = Some (new, fs')" "fd_wf new {}" "fds new = fds fdt"
    "fdt_nfiles new = fdt_nfiles fdt" "fdt_count new = fdt_count t"
    "refs_inv fs' (\<lambda>f. tab_refs fdt held f + nrefs (fds fdt) f)"
    using copy_loop_ok [OF inv t(2,4) _ bound, of fs 0] t(3) refs by auto
  have len: "length (fdt_map fdt) = bitstr_size (fdt_nfiles fdt)" "length (fdt_map new) = bitstr_size (fdt_nfiles fdt)"
    using wf new(2,4) by (simp_all add: fd_wf_def)
  let ?r = "new\<lparr>fdt_map := fdt_map fdt\<rparr>"
  have "fds ?r = fds new"
    by (rule ext) (simp add: fds_def)
  then have "fds ?r = fds fdt"
    using new(3) by simp
  moreover from this have "fdtab_inv ?r"
    using wf new(2,4) by (simp add: fdtab_inv_def fd_wf_def)
  moreover have "fdtab_copy (Some fdt) fs = Some (?r, fs')"
    using t(1) new(1) len by (simp add: fdtab_copy_def)
  ultimately show ?thesis
    using new t(5) by simp
qed

lemma fd_set_cloexec_ok:
  assumes inv: "fdtab_inv fdt" and fd: "fd \<noteq> int (fdt_nfiles fdt)"
  shows "\<exists>res fdt'. fd_set_cloexec fdt fd b = Some (res, fdt') \<and> fdtab_inv fdt' \<and>
           fdt_nfiles fdt' = fdt_nfiles fdt \<and> fdt_count fdt' = fdt_count fdt \<and> tab_refs fdt' held = tab_refs fdt held \<and>
           (case (if 0 \<le> fd then fds fdt (nat fd) else None) of
              Some (f, c) \<Rightarrow> res = None \<and> fds fdt' = (fds fdt)(nat fd \<mapsto> (f, b))
            | None \<Rightarrow> res = Some EBADF \<and> fdt' = fdt)"
proof (cases "0 \<le> fd \<and> fds fdt (nat fd) \<noteq> None")
  case False
  have "0 \<le> fd \<and> nat fd < fdt_nfiles fdt \<longrightarrow> fd_is_used fdt (nat fd) = Some False"
    using fd_is_used_eq [OF fdtab_invD [OF inv], of "nat fd"] False by (auto simp: domIff)
  moreover have "is_bad_fd fdt fd \<or> 0 \<le> fd \<and> nat fd < fdt_nfiles fdt"
    using fd by (auto simp: is_bad_fd_def)
  ultimately have "fd_set_cloexec fdt fd b = Some (Some EBADF, fdt)"
    by (auto simp: fd_set_cloexec_def)
  then show ?thesis
    using False inv by (auto split: option.splits)
next
  case True
  then obtain f c where f: "fds fdt (nat fd) = Some (f, c)"
    by auto
  have "nat fd < fdt_nfiles fdt"
    using fdtab_inv_size [OF inv, of "nat fd"] f by (simp add: domI)
  then have lt: "nat fd < fdt_nfiles fdt" "\<not> is_bad_fd fdt fd"
    using True by (auto simp: is_bad_fd_def)
  have used: "fd_is_used fdt (nat fd) = Some True"
    using fd_is_used_eq [OF fdtab_invD [OF inv] lt(1)] f by (auto simp: domIff)
  obtain t where t: "set_entry fdt (nat fd) \<lparr>fde_file = Some f, fde_cloexec = b\<rparr> = Some t" "fd_wf t (dom (fds fdt))"
    "fds t = (fds fdt)(nat fd \<mapsto> (f, b))" "fdt_nfiles t = fdt_nfiles fdt" "fdt_count t = fdt_count fdt"
    using set_entry_ok [OF fdtab_invD [OF inv] lt(1), of "\<lparr>fde_file = Some f, fde_cloexec = b\<rparr>"] by auto
  have "dom (fds t) = dom (fds fdt)"
    using t(3) f by auto
  then have "fdtab_inv t"
    using t(2) by (simp add: fdtab_inv_def)
  moreover have "tab_refs t held = tab_refs fdt held"
    using nrefs_flag [of "fds fdt" "nat fd", OF f] by (simp add: tab_refs_def t(3) fun_eq_iff)
  ultimately show ?thesis
    using t lt used fds_entry [OF f] f True by (simp add: fd_set_cloexec_def)
qed

end
