(* ===== verification/FileSyscalls.thy ===== *)
theory FileSyscalls
  imports Filedesc
begin

text \<open>
  The system calls on descriptors: \<^verbatim>\<open>sys/kern/file_syscalls.c\<close>.  Every call takes a reference on the
  file while it works and drops it at the end.
\<close>

section \<open>The calls\<close>

definition O_RDONLY :: int where "O_RDONLY = 0"
definition O_WRONLY :: int where "O_WRONLY = 1"
definition O_RDWR :: int where "O_RDWR = 2"
definition O_NONBLOCK :: int where "O_NONBLOCK = 4"
definition O_APPEND :: int where "O_APPEND = 8"
definition F_DUPFD :: nat where "F_DUPFD = 0"
definition F_GETFD :: nat where "F_GETFD = 1"
definition F_SETFD :: nat where "F_SETFD = 2"
definition F_GETFL :: nat where "F_GETFL = 3"
definition F_SETFL :: nat where "F_SETFL = 4"
definition F_DUPFD_CLOEXEC :: nat where "F_DUPFD_CLOEXEC = 12"
definition FD_CLOEXEC :: int where "FD_CLOEXEC = 1"
definition ALLPERMS :: nat where "ALLPERMS = 0xfff"

record fproc =
  p_fdtable :: "fdtab option"
  p_cmask :: nat

type_synonym 'a call_result = "('a \<times> fproc \<times> fsys) option"

definition do_close :: "fproc \<Rightarrow> fsys \<Rightarrow> int \<Rightarrow> errno option call_result" where
  "do_close p fs fd =
     do {
       fdt \<leftarrow> p_fdtable p;
       (error, fdt, fs) \<leftarrow> fdtab_close_fd fdt fs fd;
       Some (error, p\<lparr>p_fdtable := Some fdt\<rparr>, fs)
     }"

definition do_read :: "(nat \<Rightarrow> fileops) \<Rightarrow> fproc \<Rightarrow> fsys \<Rightarrow> int \<Rightarrow> uio \<Rightarrow> (errno option \<times> uio) call_result" where
  "do_read tbl p fs fd uio =
     do {
       (r, fs) \<leftarrow> fdtab_get_file (p_fdtable p) fs fd FF_READ;
       case r of
         Inl e \<Rightarrow> Some ((Some e, uio), p, fs)
       | Inr f \<Rightarrow>
           do {
             fl \<leftarrow> fs_files fs f;
             let uio = uio\<lparr>uio_ioflags := uio_ioflags uio OR (f_flags fl AND IO_MASK)\<rparr>;
             let (error, uio, fs) = fo_read (ops_of tbl (f_ops fl)) fs f uio;
             fs \<leftarrow> file_drop fs f;
             Some ((error, uio), p, fs)
           }
     }"

text \<open>The extra component of the result of \<^verbatim>\<open>do_write\<close> tells that \<^verbatim>\<open>SIGPIPE\<close> is sent to the process.\<close>

definition do_write ::
  "(nat \<Rightarrow> fileops) \<Rightarrow> fproc \<Rightarrow> fsys \<Rightarrow> int \<Rightarrow> uio \<Rightarrow> (errno option \<times> uio \<times> bool) call_result" where
  "do_write tbl p fs fd uio =
     do {
       (r, fs) \<leftarrow> fdtab_get_file (p_fdtable p) fs fd FF_WRITE;
       case r of
         Inl e \<Rightarrow> Some ((Some e, uio, False), p, fs)
       | Inr f \<Rightarrow>
           do {
             fl \<leftarrow> fs_files fs f;
             let uio = uio\<lparr>uio_ioflags := uio_ioflags uio OR (f_flags fl AND IO_MASK)\<rparr>;
             let (error, uio, fs) = fo_write (ops_of tbl (f_ops fl)) fs f uio;
             let sigpipe = (error = Some EPIPE);
             fs \<leftarrow> file_drop fs f;
             Some ((error, uio, sigpipe), p, fs)
           }
     }"

definition do_lseek ::
  "(nat \<Rightarrow> fileops) \<Rightarrow> fproc \<Rightarrow> fsys \<Rightarrow> int \<Rightarrow> int \<Rightarrow> int \<Rightarrow> (errno option \<times> int) call_result" where
  "do_lseek tbl p fs fd offset whence =
     do {
       (r, fs) \<leftarrow> fdtab_get_file (p_fdtable p) fs fd 0;
       case r of
         Inl e \<Rightarrow> Some ((Some e, 0), p, fs)
       | Inr f \<Rightarrow>
           do {
             fl \<leftarrow> fs_files fs f;
             let (error, off, fs) = fo_seek (ops_of tbl (f_ops fl)) fs f offset whence;
             fs \<leftarrow> file_drop fs f;
             Some ((error, off), p, fs)
           }
     }"

definition do_fstat :: "(nat \<Rightarrow> fileops) \<Rightarrow> fproc \<Rightarrow> fsys \<Rightarrow> int \<Rightarrow> (errno option \<times> nat) call_result" where
  "do_fstat tbl p fs fd =
     do {
       (r, fs) \<leftarrow> fdtab_get_file (p_fdtable p) fs fd 0;
       case r of
         Inl e \<Rightarrow> Some ((Some e, 0), p, fs)
       | Inr f \<Rightarrow>
           do {
             fl \<leftarrow> fs_files fs f;
             let (error, sb, fs) = fo_stat (ops_of tbl (f_ops fl)) fs f;
             fs \<leftarrow> file_drop fs f;
             Some ((error, sb), p, fs)
           }
     }"

definition do_dup :: "fproc \<Rightarrow> fsys \<Rightarrow> int \<Rightarrow> (errno + nat) call_result" where
  "do_dup p fs oldfd =
     do {
       (r, fs) \<leftarrow> fdtab_get_file (p_fdtable p) fs oldfd 0;
       case r of
         Inl e \<Rightarrow> Some (Inl e, p, fs)
       | Inr f \<Rightarrow>
           do {
             fdt \<leftarrow> p_fdtable p;
             (res, fdt, fs) \<leftarrow> fdtab_install_file fdt fs f 0;
             fs \<leftarrow> file_drop fs f;
             Some (res, p\<lparr>p_fdtable := Some fdt\<rparr>, fs)
           }
     }"

definition do_dup2 :: "fproc \<Rightarrow> fsys \<Rightarrow> int \<Rightarrow> int \<Rightarrow> errno option call_result" where
  "do_dup2 p fs oldfd newfd =
     (if oldfd = newfd then Some (None, p, fs)
      else do {
        (r, fs) \<leftarrow> fdtab_get_file (p_fdtable p) fs oldfd 0;
        case r of
          Inl e \<Rightarrow> Some (Some e, p, fs)
        | Inr f \<Rightarrow>
            do {
              fdt \<leftarrow> p_fdtable p;
              (error, fdt, fs) \<leftarrow> fdtab_install_file_at fdt fs f newfd;
              fs \<leftarrow> file_drop fs f;
              Some (error, p\<lparr>p_fdtable := Some fdt\<rparr>, fs)
            }
      })"

text \<open>The result of \<^verbatim>\<open>F_GETFL\<close>, and the flags that \<^verbatim>\<open>F_SETFL\<close> stores.\<close>

definition getfl_flags :: "nat \<Rightarrow> int" where
  "getfl_flags fflags =
     (let rd = fflags AND FF_READ \<noteq> 0; wr = fflags AND FF_WRITE \<noteq> 0;
          flags = (if rd \<and> wr then O_RDWR
                   else (if rd then O_RDONLY else 0) OR (if wr then O_WRONLY else 0));
          flags = (if fflags AND IO_APPEND \<noteq> 0 then flags OR O_APPEND else flags)
      in if fflags AND IO_NONBLOCK \<noteq> 0 then flags OR O_NONBLOCK else flags)"

definition setfl_flags :: "int \<Rightarrow> nat" where
  "setfl_flags arg =
     (if arg AND O_APPEND \<noteq> 0 then IO_APPEND else 0) OR (if arg AND O_NONBLOCK \<noteq> 0 then IO_NONBLOCK else 0)"

definition do_fcntl :: "fproc \<Rightarrow> fsys \<Rightarrow> int \<Rightarrow> nat \<Rightarrow> int \<Rightarrow> (errno option \<times> int) call_result" where
  "do_fcntl p fs fd cmd arg =
     do {
       (r, fs) \<leftarrow> fdtab_get_file (p_fdtable p) fs fd 0;
       case r of
         Inl e \<Rightarrow> Some ((Some e, 0), p, fs)
       | Inr f \<Rightarrow>
           do {
             fl \<leftarrow> fs_files fs f;
             fdt \<leftarrow> p_fdtable p;
             (res, fdt, fs) \<leftarrow>
               (if cmd = F_DUPFD \<or> cmd = F_DUPFD_CLOEXEC then
                  do {
                    (r, fdt, fs) \<leftarrow> fdtab_install_file fdt fs f arg;
                    case r of
                      Inl e \<Rightarrow> Some ((Some e, 0), fdt, fs)
                    | Inr newfd \<Rightarrow>
                        do {
                          (error, fdt) \<leftarrow> fd_set_cloexec fdt fd (cmd = F_DUPFD_CLOEXEC);
                          Some ((error, int newfd), fdt, fs)
                        }
                  }
                else if cmd = F_SETFD then
                  do { (error, fdt) \<leftarrow> fd_set_cloexec fdt fd (arg = FD_CLOEXEC); Some ((error, 0), fdt, fs) }
                else if cmd = F_GETFD then
                  do {
                    r \<leftarrow> fd_get_cloexec fdt fd;
                    Some (case r of Inl e \<Rightarrow> (Some e, 0) | Inr b \<Rightarrow> (None, if b then 1 else 0), fdt, fs)
                  }
                else if cmd = F_GETFL then Some ((None, getfl_flags (f_flags fl)), fdt, fs)
                else if cmd = F_SETFL then
                  Some ((None, 0), fdt, fs\<lparr>fs_files := (fs_files fs)(f \<mapsto> fl\<lparr>f_flags := setfl_flags arg\<rparr>)\<rparr>)
                else Some ((Some EINVAL, 0), fdt, fs));
             fs \<leftarrow> file_drop fs f;
             Some (res, p\<lparr>p_fdtable := Some fdt\<rparr>, fs)
           }
     }"

definition do_ioctl :: "(nat \<Rightarrow> fileops) \<Rightarrow> fproc \<Rightarrow> fsys \<Rightarrow> int \<Rightarrow> nat \<Rightarrow> nat \<Rightarrow> (errno option \<times> nat) call_result" where
  "do_ioctl tbl p fs fd cmd data =
     do {
       (r, fs) \<leftarrow> fdtab_get_file (p_fdtable p) fs fd 0;
       case r of
         Inl e \<Rightarrow> Some ((Some e, data), p, fs)
       | Inr f \<Rightarrow>
           do {
             fl \<leftarrow> fs_files fs f;
             let (error, data, fs) = fo_ioctl (ops_of tbl (f_ops fl)) fs f cmd data;
             fs \<leftarrow> file_drop fs f;
             Some ((if error = Some EPASSTHROUGH then Some ENOTTY else error, data), p, fs)
           }
     }"

definition do_umask :: "fproc \<Rightarrow> nat \<Rightarrow> nat \<times> fproc" where
  "do_umask p newmask = (p_cmask p, p\<lparr>p_cmask := newmask AND ALLPERMS\<rparr>)"

section \<open>References at rest\<close>

text \<open>Between two calls, the references to a file are exactly the descriptors in use and those held elsewhere.\<close>

definition proc_inv :: "fproc \<Rightarrow> fsys \<Rightarrow> (nat \<Rightarrow> nat) \<Rightarrow> bool" where
  "proc_inv p fs held \<longleftrightarrow>
     (\<exists>fdt. p_fdtable p = Some fdt \<and> fdtab_inv fdt \<and> refs_inv fs (tab_refs fdt held))"

definition held_bound :: "(nat \<Rightarrow> nat) \<Rightarrow> bool" where
  "held_bound held \<longleftrightarrow> (\<forall>f. held f + 3 * MAXFILES < UINT_MAX)"

lemma tab_refs_bound:
  assumes "fdtab_inv fdt" and "held_bound held"
  shows "tab_refs fdt held f + MAXFILES < UINT_MAX"
proof -
  have "held f + 3 * MAXFILES < UINT_MAX"
    using assms(2) by (simp add: held_bound_def)
  then show ?thesis
    using nrefs_bound [OF assms(1), of f] unfolding tab_refs_def by linarith
qed

lemma tab_refs_held:
  "(tab_refs fdt held)(f := tab_refs fdt held f + 1) = tab_refs fdt (held(f := held f + 1))"
  by (auto simp: tab_refs_def)

lemma drop_held:
  assumes "refs_inv fs (tab_refs fdt (held(f := held f + 1)))"
  shows "\<exists>fs'. file_drop fs f = Some fs' \<and> refs_inv fs' (tab_refs fdt held)"
proof -
  have "0 < tab_refs fdt (held(f := held f + 1)) f"
    by (simp add: tab_refs_def)
  then obtain fs' where fs': "file_drop fs f = Some fs'"
    "refs_inv fs' ((tab_refs fdt (held(f := held f + 1)))(f := tab_refs fdt (held(f := held f + 1)) f - 1))"
    using file_drop_ok [OF assms] by blast
  have "refs_inv fs' (tab_refs fdt held)"
    by (rule refs_inv_cong [OF fs'(2)]) (simp add: tab_refs_def)
  then show ?thesis
    using fs'(1) by blast
qed

lemma get_held:
  assumes inv: "fdtab_inv fdt" and refs: "refs_inv fs (tab_refs fdt held)" and bound: "held_bound held"
    and fd: "fd \<noteq> int (fdt_nfiles fdt)"
  obtains (bad) fs1 where "fdtab_get_file (Some fdt) fs fd flags = Some (Inl EBADF, fs1)"
      "refs_inv fs1 (tab_refs fdt held)"
  | (good) f c fs1 fl where "fdtab_get_file (Some fdt) fs fd flags = Some (Inr f, fs1)" "0 \<le> fd"
      "fds fdt (nat fd) = Some (f, c)" "refs_inv fs1 (tab_refs fdt (held(f := held f + 1)))"
      "fs_files fs1 f = Some fl"
proof -
  have "\<forall>f. tab_refs fdt held f < UINT_MAX"
    using tab_refs_bound [OF inv bound] add_lessD1 by blast
  note get = fdtab_get_file_ok [OF inv fd refs this, of flags]
  then obtain res fs1 where r: "fdtab_get_file (Some fdt) fs fd flags = Some (res, fs1)"
    "case res of
        Inl e \<Rightarrow> e = EBADF \<and> refs_inv fs1 (tab_refs fdt held) \<and>
                 (\<forall>f c. 0 \<le> fd \<longrightarrow> fds fdt (nat fd) = Some (f, c) \<longrightarrow> \<not> fd_allows (the (fs_files fs f)) flags)
      | Inr f \<Rightarrow> 0 \<le> fd \<and> (\<exists>c. fds fdt (nat fd) = Some (f, c)) \<and> fd_allows (the (fs_files fs f)) flags \<and>
                 refs_inv fs1 ((tab_refs fdt held)(f := tab_refs fdt held f + 1)) \<and> fs_closed fs1 = fs_closed fs"
    by blast
  show thesis
  proof (cases res)
    case (Inl e)
    then show thesis
      using r bad by simp
  next
    case (Inr f)
    have rf: "refs_inv fs1 (tab_refs fdt (held(f := held f + 1)))"
      using r(2) Inr tab_refs_held [of fdt held f] by simp
    then obtain fl where "fs_files fs1 f = Some fl"
      by (rule refs_invD [of _ _ f]) (auto simp: tab_refs_def)
    then show thesis
      using r Inr rf good by auto
  qed
qed

text \<open>The operations of a device or file system keep the pool of files and its counts.\<close>

definition pool_eq :: "fsys \<Rightarrow> fsys \<Rightarrow> bool" where
  "pool_eq fs fs' \<longleftrightarrow> (\<forall>f. refs fs' f = refs fs f \<and> (fs_files fs' f = None \<longleftrightarrow> fs_files fs f = None))"

definition keeps_pool :: "fileops \<Rightarrow> bool" where
  "keeps_pool ops \<longleftrightarrow>
     (\<forall>fs f u. pool_eq fs (snd (snd (fo_read ops fs f u)))) \<and>
     (\<forall>fs f u. pool_eq fs (snd (snd (fo_write ops fs f u)))) \<and>
     (\<forall>fs f x y. pool_eq fs (snd (snd (fo_seek ops fs f x y)))) \<and>
     (\<forall>fs f. pool_eq fs (snd (snd (fo_stat ops fs f)))) \<and>
     (\<forall>fs f x y. pool_eq fs (snd (snd (fo_ioctl ops fs f x y))))"

lemma pool_eq_refl [simp]: "pool_eq fs fs"
  by (simp add: pool_eq_def)

lemma refs_inv_pool: "refs_inv fs c \<Longrightarrow> pool_eq fs fs' \<Longrightarrow> refs_inv fs' c"
  by (simp add: refs_inv_def pool_eq_def)

lemma badfileops_keeps_pool: "keeps_pool badfileops"
  by (simp add: keeps_pool_def badfileops_def badfo_read_def badfo_write_def badfo_seek_def badfo_stat_def
      badfo_ioctl_def)

lemma ops_of_keeps_pool: "(\<And>n. keeps_pool (tbl n)) \<Longrightarrow> keeps_pool (ops_of tbl ops)"
  by (cases ops) (simp_all add: badfileops_keeps_pool)

section \<open>Every call keeps the references right\<close>

lemma do_close_inv:
  assumes "proc_inv p fs held" and "fd \<noteq> int (fdt_nfiles (the (p_fdtable p)))"
  shows "\<exists>r p' fs'. do_close p fs fd = Some (r, p', fs') \<and> proc_inv p' fs' held"
proof -
  obtain fdt where fdt: "p_fdtable p = Some fdt" "fdtab_inv fdt" "refs_inv fs (tab_refs fdt held)"
    using assms(1) by (auto simp: proc_inv_def)
  then show ?thesis
    using fdtab_close_fd_ok [OF fdt(2) _ fdt(3), of fd] assms(2) by (auto simp: do_close_def proc_inv_def)
qed

text \<open>The calls that only pass the file to one of its operations.\<close>

lemma call_with_file:
  assumes p: "proc_inv p fs held" and bound: "held_bound held" and fd: "fd \<noteq> int (fdt_nfiles (the (p_fdtable p)))"
    and run: "run = do {
       (r, fs) \<leftarrow> fdtab_get_file (p_fdtable p) fs fd flags;
       case r of
         Inl e \<Rightarrow> Some (bad e, p, fs)
       | Inr f \<Rightarrow> do { fl \<leftarrow> fs_files fs f; fs' \<leftarrow> file_drop (snd (oper fs f fl)) f; Some (fst (oper fs f fl), p, fs') } }"
    and pool: "\<And>fs f fl. pool_eq fs (snd (oper fs f fl))"
  shows "\<exists>r p' fs'. run = Some (r, p', fs') \<and> proc_inv p' fs' held"
proof -
  obtain fdt where fdt: "p_fdtable p = Some fdt" "fdtab_inv fdt" "refs_inv fs (tab_refs fdt held)"
    using p by (auto simp: proc_inv_def)
  have ne: "fd \<noteq> int (fdt_nfiles fdt)"
    using fd fdt(1) by simp
  show ?thesis
  proof (cases rule: get_held [OF fdt(2,3) bound ne, of flags])
    case (1 fs1)
    then show ?thesis
      using fdt by (simp add: run proc_inv_def)
  next
    case good: (2 f c fs1 fl)
    have "refs_inv (snd (oper fs1 f fl)) (tab_refs fdt (held(f := held f + 1)))"
      by (rule refs_inv_pool [OF good(4) pool])
    then obtain fs2 where "file_drop (snd (oper fs1 f fl)) f = Some fs2" "refs_inv fs2 (tab_refs fdt held)"
      using drop_held by blast
    then show ?thesis
      using good fdt by (simp add: run proc_inv_def)
  qed
qed

lemma do_read_inv:
  assumes "proc_inv p fs held" and "held_bound held" and "fd \<noteq> int (fdt_nfiles (the (p_fdtable p)))"
    and "\<And>n. keeps_pool (tbl n)"
  shows "\<exists>r p' fs'. do_read tbl p fs fd uio = Some (r, p', fs') \<and> proc_inv p' fs' held"
proof (rule call_with_file [OF assms(1-3), where flags = FF_READ and bad = "\<lambda>e. (Some e, uio)" and
      oper = "\<lambda>fs f fl. let (e, u, fs) = fo_read (ops_of tbl (f_ops fl)) fs f
        (uio\<lparr>uio_ioflags := uio_ioflags uio OR (f_flags fl AND IO_MASK)\<rparr>) in ((e, u), fs)"])
qed (unfold do_read_def Let_def case_prod_beta fst_conv snd_conv, rule refl,
      use ops_of_keeps_pool [of tbl, OF assms(4)] in \<open>simp add: keeps_pool_def\<close>)

lemma do_write_inv:
  assumes "proc_inv p fs held" and "held_bound held" and "fd \<noteq> int (fdt_nfiles (the (p_fdtable p)))"
    and "\<And>n. keeps_pool (tbl n)"
  shows "\<exists>r p' fs'. do_write tbl p fs fd uio = Some (r, p', fs') \<and> proc_inv p' fs' held"
proof (rule call_with_file [OF assms(1-3), where flags = FF_WRITE and bad = "\<lambda>e. (Some e, uio, False)" and
      oper = "\<lambda>fs f fl. let (e, u, fs) = fo_write (ops_of tbl (f_ops fl)) fs f
        (uio\<lparr>uio_ioflags := uio_ioflags uio OR (f_flags fl AND IO_MASK)\<rparr>) in ((e, u, e = Some EPIPE), fs)"])
qed (unfold do_write_def Let_def case_prod_beta fst_conv snd_conv, rule refl,
      use ops_of_keeps_pool [of tbl, OF assms(4)] in \<open>simp add: keeps_pool_def\<close>)

lemma do_lseek_inv:
  assumes "proc_inv p fs held" and "held_bound held" and "fd \<noteq> int (fdt_nfiles (the (p_fdtable p)))"
    and "\<And>n. keeps_pool (tbl n)"
  shows "\<exists>r p' fs'. do_lseek tbl p fs fd off wh = Some (r, p', fs') \<and> proc_inv p' fs' held"
proof (rule call_with_file [OF assms(1-3), where flags = 0 and bad = "\<lambda>e. (Some e, 0)" and
      oper = "\<lambda>fs f fl. let (e, u, fs) = fo_seek (ops_of tbl (f_ops fl)) fs f off wh in ((e, u), fs)"])
qed (unfold do_lseek_def Let_def case_prod_beta fst_conv snd_conv, rule refl,
      use ops_of_keeps_pool [of tbl, OF assms(4)] in \<open>simp add: keeps_pool_def\<close>)

lemma do_fstat_inv:
  assumes "proc_inv p fs held" and "held_bound held" and "fd \<noteq> int (fdt_nfiles (the (p_fdtable p)))"
    and "\<And>n. keeps_pool (tbl n)"
  shows "\<exists>r p' fs'. do_fstat tbl p fs fd = Some (r, p', fs') \<and> proc_inv p' fs' held"
proof (rule call_with_file [OF assms(1-3), where flags = 0 and bad = "\<lambda>e. (Some e, 0)" and
      oper = "\<lambda>fs f fl. let (e, u, fs) = fo_stat (ops_of tbl (f_ops fl)) fs f in ((e, u), fs)"])
qed (unfold do_fstat_def Let_def case_prod_beta fst_conv snd_conv, rule refl,
      use ops_of_keeps_pool [of tbl, OF assms(4)] in \<open>simp add: keeps_pool_def\<close>)

lemma do_ioctl_inv:
  assumes "proc_inv p fs held" and "held_bound held" and "fd \<noteq> int (fdt_nfiles (the (p_fdtable p)))"
    and "\<And>n. keeps_pool (tbl n)"
  shows "\<exists>r p' fs'. do_ioctl tbl p fs fd cmd data = Some (r, p', fs') \<and> proc_inv p' fs' held"
proof (rule call_with_file [OF assms(1-3), where flags = 0 and bad = "\<lambda>e. (Some e, data)" and
      oper = "\<lambda>fs f fl. let (e, u, fs) = fo_ioctl (ops_of tbl (f_ops fl)) fs f cmd data
        in ((if e = Some EPASSTHROUGH then Some ENOTTY else e, u), fs)"])
qed (unfold do_ioctl_def Let_def case_prod_beta fst_conv snd_conv, rule refl,
      use ops_of_keeps_pool [of tbl, OF assms(4)] in \<open>simp add: keeps_pool_def\<close>)

text \<open>The calls that also change the table.\<close>

lemma held_one:
  assumes "fdtab_inv fdt" and "held_bound held" and "fds fdt i = Some (f, c)"
  shows "0 < tab_refs fdt (held(f := held f + 1)) f" and "tab_refs fdt (held(f := held f + 1)) f < UINT_MAX"
  using tab_refs_bound [OF assms(1,2), of f] by (simp_all add: tab_refs_def MAXFILES_def)

lemma do_dup_ok:
  assumes p: "p_fdtable p = Some fdt" "fdtab_inv fdt" "refs_inv fs (tab_refs fdt held)" and bound: "held_bound held"
    and fd: "fd \<noteq> int (fdt_nfiles fdt)"
  shows "\<exists>res fdt' fs'. do_dup p fs fd = Some (res, p\<lparr>p_fdtable := Some fdt'\<rparr>, fs') \<and> fdtab_inv fdt' \<and>
           refs_inv fs' (tab_refs fdt' held) \<and>
           (case res of
              Inl e \<Rightarrow> fdt' = fdt
            | Inr new \<Rightarrow> 0 \<le> fd \<and> (\<exists>f c. fds fdt (nat fd) = Some (f, c) \<and>
                alloc_result (fds fdt) 0 (Inr new) \<and> fds fdt' = (fds fdt)(new \<mapsto> (f, False))))"
proof (cases rule: get_held [OF p(2,3) bound fd, of 0])
  case (1 fs1)
  then show ?thesis
    using p by (auto simp: do_dup_def intro!: exI [of _ fdt])
next
  case good: (2 f c fs1 fl)
  note one = held_one [OF p(2) bound good(3)]
  obtain res t fs2 where t: "fdtab_install_file fdt fs1 f 0 = Some (res, t, fs2)" "alloc_result (fds fdt) 0 res"
    "fdtab_inv t" "refs_inv fs2 (tab_refs t (held(f := held f + 1)))"
    "case res of Inl e \<Rightarrow> t = fdt \<and> fs2 = fs1
       | Inr fd \<Rightarrow> fd < fdt_nfiles t \<and> fds t = (fds fdt)(fd \<mapsto> (f, False))"
    using fdtab_install_file_ok [OF p(2) _ good(4) one, of 0] by auto
  obtain fs3 where fs3: "file_drop fs2 f = Some fs3" "refs_inv fs3 (tab_refs t held)"
    using drop_held [OF t(4)] by blast
  have "do_dup p fs fd = Some (res, p\<lparr>p_fdtable := Some t\<rparr>, fs3)"
    using good(1) p(1) t(1) fs3(1) by (simp add: do_dup_def)
  then show ?thesis
    using t fs3(2) good(2,3) by (cases res) auto
qed

lemma do_dup2_ok:
  assumes p: "p_fdtable p = Some fdt" "fdtab_inv fdt" "refs_inv fs (tab_refs fdt held)" and bound: "held_bound held"
    and fd: "old \<noteq> int (fdt_nfiles fdt)" "new \<noteq> int (fdt_nfiles fdt)"
    and other: "old \<noteq> new \<longrightarrow> (\<forall>f c c'. fds fdt (nat old) = Some (f, c) \<longrightarrow> fds fdt (nat new) \<noteq> Some (f, c'))"
  shows "\<exists>res fdt' fs'. do_dup2 p fs old new = Some (res, p\<lparr>p_fdtable := Some fdt'\<rparr>, fs') \<and> fdtab_inv fdt' \<and>
           refs_inv fs' (tab_refs fdt' held) \<and>
           (res = None \<and> old \<noteq> new \<longrightarrow> (\<exists>f c. fds fdt (nat old) = Some (f, c) \<and>
                fds fdt' = (fds fdt)(nat new \<mapsto> (f, False)))) \<and>
           (res \<noteq> None \<or> old = new \<longrightarrow> fds fdt' = fds fdt)"
proof (cases "old = new")
  case True
  then show ?thesis
    using p by (auto simp: do_dup2_def intro!: exI [of _ fdt])
next
  case ne: False
  show ?thesis
  proof (cases rule: get_held [OF p(2,3) bound fd(1), of 0])
    case (1 fs1)
    then show ?thesis
      using p ne by (auto simp: do_dup2_def intro!: exI [of _ fdt])
  next
    case good: (2 f c fs1 fl)
    note one = held_one [OF p(2) bound good(3)]
    show ?thesis
    proof (cases "0 \<le> new \<and> nat new < fdt_nfiles fdt")
      case False
      then have "is_bad_fd fdt new"
        using fd(2) by (auto simp: is_bad_fd_def)
      moreover obtain fs3 where "file_drop fs1 f = Some fs3" "refs_inv fs3 (tab_refs fdt held)"
        using drop_held [OF good(4)] by blast
      ultimately show ?thesis
        using good p ne by (auto simp: do_dup2_def fdtab_install_file_at_def intro!: exI [of _ fdt])
    next
      case True
      obtain t fs2 where t: "fdtab_install_file_at fdt fs1 f new = Some (None, t, fs2)" "fdtab_inv t"
        "refs_inv fs2 (tab_refs t (held(f := held f + 1)))" "fds t = (fds fdt)(nat new \<mapsto> (f, False))"
        using fdtab_install_file_at_ok [OF p(2) _ _ good(4) one] True other ne good(3) by blast
      obtain fs3 where fs3: "file_drop fs2 f = Some fs3" "refs_inv fs3 (tab_refs t held)"
        using drop_held [OF t(3)] by blast
      have "do_dup2 p fs old new = Some (None, p\<lparr>p_fdtable := Some t\<rparr>, fs3)"
        using good(1) p(1) t(1) fs3(1) ne by (simp add: do_dup2_def)
      then show ?thesis
        using t fs3(2) good(3) ne by auto
    qed
  qed
qed

lemma pool_eq_flags:
  "fs_files fs f = Some fl \<Longrightarrow> pool_eq fs (fs\<lparr>fs_files := (fs_files fs)(f \<mapsto> fl\<lparr>f_flags := x\<rparr>)\<rparr>)"
  by (auto simp: pool_eq_def refs_def)

lemma do_fcntl_inv:
  assumes p: "proc_inv p fs held" and bound: "held_bound held" and fd: "fd \<noteq> int (fdt_nfiles (the (p_fdtable p)))"
    and arg: "- (2 ^ 31) \<le> arg"
  shows "\<exists>r p' fs'. do_fcntl p fs fd cmd arg = Some (r, p', fs') \<and> proc_inv p' fs' held"
proof -
  obtain fdt where fdt: "p_fdtable p = Some fdt" "fdtab_inv fdt" "refs_inv fs (tab_refs fdt held)"
    using p by (auto simp: proc_inv_def)
  have ne: "fd \<noteq> int (fdt_nfiles fdt)"
    using fd fdt(1) by simp
  show ?thesis
  proof (cases rule: get_held [OF fdt(2,3) bound ne, of 0])
    case (1 fs1)
    then show ?thesis
      using fdt by (simp add: do_fcntl_def proc_inv_def)
  next
    case good: (2 f c fs1 fl)
    note one = held_one [OF fdt(2) bound good(3)]
    have "nat fd \<in> dom (fds fdt)"
      using good(3) by (rule domI)
    then have lt: "fd < int (fdt_nfiles fdt)"
      using fdtab_inv_size [OF fdt(2)] good(2) by force
    define oper where "oper =
               (if cmd = F_DUPFD \<or> cmd = F_DUPFD_CLOEXEC then
                  do {
                    (r, fdt, fs) \<leftarrow> fdtab_install_file fdt fs1 f arg;
                    case r of
                      Inl e \<Rightarrow> Some ((Some e, 0), fdt, fs)
                    | Inr newfd \<Rightarrow>
                        do {
                          (error, fdt) \<leftarrow> fd_set_cloexec fdt fd (cmd = F_DUPFD_CLOEXEC);
                          Some ((error, int newfd), fdt, fs)
                        }
                  }
                else if cmd = F_SETFD then
                  do { (error, fdt) \<leftarrow> fd_set_cloexec fdt fd (arg = FD_CLOEXEC); Some ((error, 0), fdt, fs1) }
                else if cmd = F_GETFD then
                  do {
                    r \<leftarrow> fd_get_cloexec fdt fd;
                    Some (case r of Inl e \<Rightarrow> (Some e, 0) | Inr b \<Rightarrow> (None, if b then 1 else 0), fdt, fs1)
                  }
                else if cmd = F_GETFL then Some ((None, getfl_flags (f_flags fl)), fdt, fs1)
                else if cmd = F_SETFL then
                  Some ((None, 0), fdt, fs1\<lparr>fs_files := (fs_files fs1)(f \<mapsto> fl\<lparr>f_flags := setfl_flags arg\<rparr>)\<rparr>)
                else Some ((Some EINVAL, 0), fdt, fs1))"
    have "\<exists>res fdt' fs2. oper = Some (res, fdt', fs2) \<and> fdtab_inv fdt' \<and>
            refs_inv fs2 (tab_refs fdt' (held(f := held f + 1)))"
    proof (cases "cmd = F_DUPFD \<or> cmd = F_DUPFD_CLOEXEC")
      case True
      obtain res t fs2 where t: "fdtab_install_file fdt fs1 f arg = Some (res, t, fs2)" "fdtab_inv t"
        "refs_inv fs2 (tab_refs t (held(f := held f + 1)))" "fdt_nfiles fdt \<le> fdt_nfiles t"
        using fdtab_install_file_ok [OF fdt(2) arg good(4) one] by auto
      have "fd \<noteq> int (fdt_nfiles t)"
        using lt t(4) by simp
      from fd_set_cloexec_ok [OF t(2) this, of "cmd = F_DUPFD_CLOEXEC" "held(f := held f + 1)"]
      show ?thesis
        using True t by (cases res) (auto simp: oper_def)
    next
      case False
      have "refs_inv (fs1\<lparr>fs_files := (fs_files fs1)(f \<mapsto> fl\<lparr>f_flags := setfl_flags arg\<rparr>)\<rparr>)
              (tab_refs fdt (held(f := held f + 1)))"
        by (rule refs_inv_pool [OF good(4) pool_eq_flags [OF good(5)]])
      moreover have "\<exists>r. fd_get_cloexec fdt fd = Some r"
        using fd_is_used_eq [OF fdtab_invD [OF fdt(2)], of "nat fd"] lt good(2,3) fds_entry [OF good(3)]
        by (auto simp: fd_get_cloexec_def)
      ultimately show ?thesis
        using False fd_set_cloexec_ok [OF fdt(2) ne, of "arg = FD_CLOEXEC" "held(f := held f + 1)"]
          fdt(2) good(4) unfolding oper_def by auto
    qed
    then obtain res t fs2 where t: "oper = Some (res, t, fs2)" "fdtab_inv t"
      "refs_inv fs2 (tab_refs t (held(f := held f + 1)))"
      by blast
    obtain fs3 where fs3: "file_drop fs2 f = Some fs3" "refs_inv fs3 (tab_refs t held)"
      using drop_held [OF t(3)] by blast
    have "do_fcntl p fs fd cmd arg = Some (res, p\<lparr>p_fdtable := Some t\<rparr>, fs3)"
      using good(1,5) fdt(1) t(1) fs3(1) by (simp add: do_fcntl_def flip: oper_def)
    then show ?thesis
      using t(2) fs3(2) by (auto simp: proc_inv_def)
  qed
qed

section \<open>Sequences of calls\<close>

datatype syscall =
    SysClose int
  | SysRead int uio
  | SysWrite int uio
  | SysLseek int int int
  | SysFstat int
  | SysDup int
  | SysDup2 int int
  | SysFcntl int nat int
  | SysIoctl int nat nat
  | SysUmask nat

definition after :: "('a \<times> fproc \<times> fsys) option \<Rightarrow> (fproc \<times> fsys) option" where
  "after r = map_option (\<lambda>(_, p, fs). (p, fs)) r"

fun syscall_run :: "(nat \<Rightarrow> fileops) \<Rightarrow> syscall \<Rightarrow> fproc \<times> fsys \<Rightarrow> (fproc \<times> fsys) option" where
  "syscall_run tbl (SysClose fd) (p, fs) = after (do_close p fs fd)"
| "syscall_run tbl (SysRead fd uio) (p, fs) = after (do_read tbl p fs fd uio)"
| "syscall_run tbl (SysWrite fd uio) (p, fs) = after (do_write tbl p fs fd uio)"
| "syscall_run tbl (SysLseek fd off wh) (p, fs) = after (do_lseek tbl p fs fd off wh)"
| "syscall_run tbl (SysFstat fd) (p, fs) = after (do_fstat tbl p fs fd)"
| "syscall_run tbl (SysDup fd) (p, fs) = after (do_dup p fs fd)"
| "syscall_run tbl (SysDup2 old new) (p, fs) = after (do_dup2 p fs old new)"
| "syscall_run tbl (SysFcntl fd cmd arg) (p, fs) = after (do_fcntl p fs fd cmd arg)"
| "syscall_run tbl (SysIoctl fd cmd data) (p, fs) = after (do_ioctl tbl p fs fd cmd data)"
| "syscall_run tbl (SysUmask m) (p, fs) = Some (snd (do_umask p m), fs)"

text \<open>
  The arguments the kernel handles: \<^verbatim>\<open>int\<close>s, no descriptor equal to the table size (which \<^verbatim>\<open>is_bad_fd\<close>
  lets through), and no \<^verbatim>\<open>dup2\<close> onto a descriptor of the same file (which leaks a reference).
\<close>

definition fd_sane :: "fproc \<Rightarrow> int \<Rightarrow> bool" where
  "fd_sane p fd \<longleftrightarrow> fd \<noteq> int (fdt_nfiles (the (p_fdtable p)))"

definition dup2_sane :: "fproc \<Rightarrow> int \<Rightarrow> int \<Rightarrow> bool" where
  "dup2_sane p old new \<longleftrightarrow> fd_sane p old \<and> fd_sane p new \<and>
     (old = new \<or> (case fds (the (p_fdtable p)) (nat old) of None \<Rightarrow> True
        | Some (f, _) \<Rightarrow> (case fds (the (p_fdtable p)) (nat new) of None \<Rightarrow> True | Some (g, _) \<Rightarrow> f \<noteq> g)))"

fun sane :: "fproc \<Rightarrow> syscall \<Rightarrow> bool" where
  "sane p (SysClose fd) = fd_sane p fd"
| "sane p (SysRead fd _) = fd_sane p fd"
| "sane p (SysWrite fd _) = fd_sane p fd"
| "sane p (SysLseek fd _ _) = fd_sane p fd"
| "sane p (SysFstat fd) = fd_sane p fd"
| "sane p (SysDup fd) = fd_sane p fd"
| "sane p (SysDup2 old new) = dup2_sane p old new"
| "sane p (SysFcntl fd _ arg) = (fd_sane p fd \<and> - (2 ^ 31) \<le> arg)"
| "sane p (SysIoctl fd _ _) = fd_sane p fd"
| "sane p (SysUmask _) = True"

inductive sys_steps :: "(nat \<Rightarrow> fileops) \<Rightarrow> fproc \<times> fsys \<Rightarrow> fproc \<times> fsys \<Rightarrow> bool" for tbl where
  sys_refl: "sys_steps tbl s s"
| sys_step: "sys_steps tbl s (p, fs) \<Longrightarrow> sane p sc \<Longrightarrow> syscall_run tbl sc (p, fs) = Some s' \<Longrightarrow> sys_steps tbl s s'"

lemma after_ex:
  "\<exists>r p' fs'. x = Some (r, p', fs') \<and> P p' fs' \<Longrightarrow> \<exists>p' fs'. after x = Some (p', fs') \<and> P p' fs'"
  by (auto simp: after_def)

lemma syscall_run_inv:
  assumes p: "proc_inv p fs held" and bound: "held_bound held" and ops: "\<And>n. keeps_pool (tbl n)" and sane: "sane p sc"
  shows "\<exists>p' fs'. syscall_run tbl sc (p, fs) = Some (p', fs') \<and> proc_inv p' fs' held"
proof -
  obtain fdt where fdt: "p_fdtable p = Some fdt" "fdtab_inv fdt" "refs_inv fs (tab_refs fdt held)"
    using p by (auto simp: proc_inv_def)
  show ?thesis
  proof (cases sc)
    case (SysDup fd)
    then have "fd \<noteq> int (fdt_nfiles fdt)"
      using sane fdt(1) by (simp add: fd_sane_def)
    from do_dup_ok [OF fdt bound this] show ?thesis
      using SysDup by (auto simp: after_def proc_inv_def)
  next
    case (SysDup2 old new)
    then have "old \<noteq> int (fdt_nfiles fdt)" "new \<noteq> int (fdt_nfiles fdt)"
      "old \<noteq> new \<longrightarrow> (\<forall>f c c'. fds fdt (nat old) = Some (f, c) \<longrightarrow> fds fdt (nat new) \<noteq> Some (f, c'))"
      using sane fdt(1) by (auto simp: fd_sane_def dup2_sane_def split: option.splits)
    from do_dup2_ok [OF fdt bound this] show ?thesis
      using SysDup2 by (auto simp: after_def proc_inv_def)
  next
    case (SysUmask m)
    then show ?thesis
      using p by (simp add: do_umask_def proc_inv_def)
  qed (use sane in \<open>auto simp: fd_sane_def intro!: after_ex do_close_inv [OF p] do_fcntl_inv [OF p bound]
      do_read_inv [OF p bound _ ops] do_write_inv [OF p bound _ ops] do_lseek_inv [OF p bound _ ops]
      do_fstat_inv [OF p bound _ ops] do_ioctl_inv [OF p bound _ ops]\<close>)
qed

lemma sys_steps_inv:
  assumes "sys_steps tbl s s'" and "proc_inv (fst s) (snd s) held" and "held_bound held" and "\<And>n. keeps_pool (tbl n)"
  shows "proc_inv (fst s') (snd s') held"
  using assms
proof (induction rule: sys_steps.induct)
  case (sys_step s p fs sc s')
  then show ?case
    using syscall_run_inv [of p fs held tbl sc] by auto
qed simp

section \<open>Properties\<close>

text \<open>One file, open for reading and writing on descriptor 0 of an otherwise empty table.\<close>

definition file0 :: file_t where
  "file0 = \<lparr>f_data = 0, f_ops = FileOps 0, f_type = FT_VNODE, f_vnode = 0, f_offset = 0, f_count = 1, f_flags = 3\<rparr>"

definition fsys0 :: fsys where
  "fsys0 = \<lparr>fs_files = [7 \<mapsto> file0], fs_closed = []\<rparr>"

definition fdtab0 :: fdtab where
  "fdtab0 = \<lparr>fdt_entries = \<lparr>fde_file = Some 7, fde_cloexec = False\<rparr> # replicate 19 empty_fde,
             fdt_map = [1, 0, 0], fdt_nfiles = 20, fdt_count = 1\<rparr>"

definition proc0 :: fproc where
  "proc0 = \<lparr>p_fdtable = Some fdtab0, p_cmask = 0\<rparr>"

lemma fds_fdtab0: "fds fdtab0 = [0 \<mapsto> (7, False)]"
  by (auto simp: fds_def fdtab0_def fun_eq_iff empty_fde_def nth_Cons split: nat.splits)

lemma fdtab0_inv: "fdtab_inv fdtab0"
proof -
  have "bits_inv [1, 0, 0]"
    by (simp add: bits_inv_def)
  moreover have "bit ([1, 0, 0] ! (i div 8) :: 8 word) (i mod 8) \<longleftrightarrow> i = 0" if "i < 24" for i
  proof -
    have "i div 8 = 0 \<or> i div 8 = 1 \<or> i div 8 = 2"
      using that by (auto simp: div_less_iff_less_mult)
    then show ?thesis
      by (auto simp: bit_1_iff numeral_2_eq_2)
  qed
  ultimately have "bits.members [1, 0, 0] = {0}"
    by (auto simp: members_bit bits_len_def)
  then show ?thesis
    unfolding fdtab_inv_def fds_fdtab0
    by (simp add: fd_wf_def fdtab0_def NDFILE_def MAXFILES_def bitstr_size_exact empty_fde_def)
qed

lemma fdtab0_refs: "refs_inv fsys0 (tab_refs fdtab0 (\<lambda>_. 0))"
proof -
  have "tab_refs fdtab0 (\<lambda>_. 0) f = (if f = 7 then 1 else 0)" for f
  proof -
    have "{i. \<exists>c. fds fdtab0 i = Some (f, c)} = (if f = 7 then {0} else {})"
      by (auto simp: fds_fdtab0 split: if_splits)
    then show ?thesis
      by (simp add: tab_refs_def nrefs_def)
  qed
  then show ?thesis
    by (simp add: refs_inv_def refs_def fsys0_def file0_def)
qed

lemma held_bound_0: "held_bound (\<lambda>_. 0)"
  by (simp add: held_bound_def MAXFILES_def UINT_MAX_def)

lemmas fd_example = fdtab0_inv fdtab0_refs held_bound_0 fds_fdtab0



text \<open>
  C5: reference counting is right under every sequence of system calls on sane arguments: no call panics
  (no count overflows or drops below zero, no freed file is touched, no index leaves the table), and
  afterwards the count of every file is again the number of descriptors that refer to it plus the
  references held elsewhere, and exactly the files with such references are in the pool.
\<close>

theorem syscalls_keep_references:
  assumes "sys_steps tbl (p, fs) (p', fs')" and "proc_inv p fs held" and "held_bound held"
    and "\<And>n. keeps_pool (tbl n)"
  shows "proc_inv p' fs' held \<and>
     (\<forall>sc. sane p' sc \<longrightarrow> (\<exists>p'' fs''. syscall_run tbl sc (p', fs') = Some (p'', fs'') \<and> proc_inv p'' fs'' held))"
proof -
  have "proc_inv p' fs' held"
    using sys_steps_inv [OF assms(1) _ assms(3,4)] assms(2) by simp
  then show ?thesis
    using syscall_run_inv [where tbl = tbl, OF _ assms(3) assms(4)] by blast
qed

theorem syscalls_keep_references_witness:
  "\<exists>p' fs'. sys_steps (\<lambda>_. badfileops) (proc0, fsys0) (p', fs') \<and>
     syscall_run (\<lambda>_. badfileops) (SysDup 0) (proc0, fsys0) = Some (p', fs') \<and> proc_inv p' fs' (\<lambda>_. 0) \<and>
     (\<exists>p'' fs''. syscall_run (\<lambda>_. badfileops) (SysUmask 0) (p', fs') = Some (p'', fs'') \<and> proc_inv p'' fs'' (\<lambda>_. 0))"
proof -
  have inv: "proc_inv proc0 fsys0 (\<lambda>_. 0)"
    using fd_example by (auto simp: proc_inv_def proc0_def)
  have sane: "sane proc0 (SysDup 0)"
    by (simp add: fd_sane_def proc0_def fdtab0_def)
  obtain p' fs' where run: "syscall_run (\<lambda>_. badfileops) (SysDup 0) (proc0, fsys0) = Some (p', fs')"
    using syscall_run_inv [OF inv held_bound_0 badfileops_keeps_pool sane] by blast
  have steps: "sys_steps (\<lambda>_. badfileops) (proc0, fsys0) (p', fs')"
    by (rule sys_step [OF sys_refl sane run])
  have "proc_inv p' fs' (\<lambda>_. 0) \<and>
     (\<forall>sc. sane p' sc \<longrightarrow> (\<exists>p'' fs''. syscall_run (\<lambda>_. badfileops) sc (p', fs') = Some (p'', fs'') \<and>
        proc_inv p'' fs'' (\<lambda>_. 0)))"
    by (rule syscalls_keep_references [OF steps inv held_bound_0 badfileops_keeps_pool])
  then show ?thesis
    using steps run sane.simps(10) by blast
qed

text \<open>
  the table that \<^verbatim>\<open>fork\<close> gives to the child, \<^verbatim>\<open>fdtab_copy\<close>, holds the same files with the same flags as
  the parent's, and every file has one more reference for every descriptor of the child.
\<close>

lemma fdtab_copy_same:
  assumes "fdtab_inv fdt" and "refs_inv fs (tab_refs fdt held)" and "held_bound held"
  shows "\<exists>new fs'. fdtab_copy (Some fdt) fs = Some (new, fs') \<and> fdtab_inv new \<and> fds new = fds fdt \<and>
           fdt_count new = 1 \<and> refs_inv fs' (\<lambda>f. tab_refs fdt held f + nrefs (fds new) f)"
  using fdtab_copy_ok [OF assms(1,2)] assms(3) by (simp add: held_bound_def)

text \<open>
  \<^verbatim>\<open>fdtab_onexec\<close> closes exactly the descriptors marked close-on-exec, drops their references, and
  always succeeds.
\<close>

lemma fdtab_onexec_closes:
  assumes "fdtab_inv fdt" and "refs_inv fs (tab_refs fdt held)"
  shows "\<exists>fdt' fs'. fdtab_onexec fdt fs = Some (None, fdt', fs') \<and> fdtab_inv fdt' \<and>
           refs_inv fs' (tab_refs fdt' held) \<and>
           fds fdt' = (\<lambda>k. case fds fdt k of Some (f, c) \<Rightarrow> if c then None else Some (f, c) | None \<Rightarrow> None)"
  unfolding fdtab_onexec_def by (rule close_loop_all [OF assms]) simp

text \<open>
  \<^verbatim>\<open>fdtab_onfork\<close> closes exactly the descriptors of kernel event queues, which a child does not inherit.
\<close>

lemma fdtab_onfork_closes:
  assumes "fdtab_inv fdt" and "refs_inv fs (tab_refs fdt held)"
  shows "\<exists>fdt' fs'. fdtab_onfork fdt fs = Some (None, fdt', fs') \<and> fdtab_inv fdt' \<and>
           refs_inv fs' (tab_refs fdt' held) \<and>
           fds fdt' = (\<lambda>k. case fds fdt k of
               Some (f, c) \<Rightarrow> if f_type (the (fs_files fs f)) = FT_KQUEUE then None else Some (f, c)
             | None \<Rightarrow> None)"
proof -
  have "is_kqueue fs' \<lparr>fde_file = Some f, fde_cloexec = c\<rparr> = Some (f_type (the (fs_files fs f)) = FT_KQUEUE)"
    if "same_files fs fs'" "fs_files fs' f \<noteq> None" for fs' f c
    using that same_files_type [of fs fs' f] by (auto simp: is_kqueue_def)
  then show ?thesis
    unfolding fdtab_onfork_def by (rule close_loop_all [OF assms])
qed



lemma setfl_flags_access: "setfl_flags arg AND FF_READ = 0" "setfl_flags arg AND FF_WRITE = 0"
  by (simp_all add: setfl_flags_def FF_READ_def FF_WRITE_def IO_APPEND_def IO_NONBLOCK_def)

text \<open>
  C31: \<^verbatim>\<open>F_SETFL\<close> replaces all flags of the file, the access mode included: after it, whatever its argument,
  a descriptor of that file can be neither read nor written.
\<close>

theorem setfl_loses_access:
  assumes "p_fdtable p = Some fdt" and "fdtab_inv fdt" and "refs_inv fs (tab_refs fdt held)" and "held_bound held"
    and "fds fdt fd = Some (f, c)"
  shows "\<exists>fs'. do_fcntl p fs (int fd) F_SETFL arg = Some ((None, 0), p, fs') \<and>
     (\<forall>tbl uio. \<exists>fs1 fs2. do_read tbl p fs' (int fd) uio = Some ((Some EBADF, uio), p, fs1) \<and>
                          do_write tbl p fs' (int fd) uio = Some ((Some EBADF, uio, False), p, fs2))"
proof -
  have ne: "int fd \<noteq> int (fdt_nfiles fdt)"
    using fdtab_inv_size [OF assms(2), of fd] assms(5) by auto
  have bnd: "\<forall>f. tab_refs fdt held f < UINT_MAX"
    using tab_refs_bound [OF assms(2,4)] add_lessD1 by blast
  show ?thesis
  proof (cases rule: get_held [OF assms(2-4) ne, of 0])
    case (1 fs1)
    with fdtab_get_file_ok [OF assms(2) ne assms(3) bnd, of 0] show ?thesis
      using assms(5) by (auto simp: fd_allows_def)
  next
    case good: (2 g c' fs1 fl)
    define fs2 where "fs2 = fs1\<lparr>fs_files := (fs_files fs1)(f \<mapsto> fl\<lparr>f_flags := setfl_flags arg\<rparr>)\<rparr>"
    have g: "g = f"
      using good(3) assms(5) by simp
    have "refs_inv fs2 (tab_refs fdt (held(f := held f + 1)))"
      unfolding fs2_def using refs_inv_pool [OF good(4) pool_eq_flags [OF good(5)]] g by simp
    then obtain fs3 where fs3: "file_drop fs2 f = Some fs3" "refs_inv fs3 (tab_refs fdt held)"
      using drop_held by blast
    have "p\<lparr>p_fdtable := Some fdt\<rparr> = p"
      using assms(1) by (cases p) simp
    then have run: "do_fcntl p fs (int fd) F_SETFL arg = Some ((None, 0), p, fs3)"
      using good(1,5) g assms(1) fs3(1)
      by (simp add: do_fcntl_def F_SETFL_def F_DUPFD_def F_DUPFD_CLOEXEC_def F_SETFD_def F_GETFD_def F_GETFL_def
          flip: fs2_def)
    have pos: "0 < tab_refs fdt held f"
      using nrefs_clear [OF finite_fds assms(5), of f] by (simp add: tab_refs_def)
    obtain fl3 where fl3: "fs_files fs3 f = Some fl3"
      using refs_invD [OF fs3(2) pos] by blast
    then have "f_flags fl3 = setfl_flags arg"
      using same_files_type [OF file_drop_same [OF fs3(1)]] by (fastforce simp: fs2_def)
    then have no: "\<not> fd_allows fl3 FF_READ" "\<not> fd_allows fl3 FF_WRITE"
      using setfl_flags_access [of arg] by (simp_all add: fd_allows_def FF_READ_def FF_WRITE_def)
    have bad: "\<exists>fs'. fdtab_get_file (p_fdtable p) fs3 (int fd) fl = Some (Inl EBADF, fs')" if "\<not> fd_allows fl3 fl" for fl
    proof -
      obtain res fs' where "fdtab_get_file (Some fdt) fs3 (int fd) fl = Some (res, fs')"
        "res = Inl EBADF \<or> (\<exists>g. res = Inr g \<and> g = f \<and> fd_allows (the (fs_files fs3 g)) fl)"
        using fdtab_get_file_ok [OF assms(2) ne fs3(2) bnd, of fl] assms(5)
        by (elim exE conjE) (auto split: sum.split_asm)
      then show ?thesis
        using assms(1) fl3 that by auto
    qed
    have "\<exists>fs1 fs2. do_read tbl p fs3 (int fd) uio = Some ((Some EBADF, uio), p, fs1) \<and>
                    do_write tbl p fs3 (int fd) uio = Some ((Some EBADF, uio, False), p, fs2)" for tbl uio
      using bad [OF no(1)] bad [OF no(2)] by (auto simp: do_read_def do_write_def)
    then show ?thesis
      using run by blast
  qed
qed

theorem setfl_loses_access_witness:
  "\<exists>fs'. do_fcntl proc0 fsys0 (int 0) F_SETFL O_NONBLOCK = Some ((None, 0), proc0, fs') \<and>
     (\<forall>tbl uio. \<exists>fs1 fs2. do_read tbl proc0 fs' (int 0) uio = Some ((Some EBADF, uio), proc0, fs1) \<and>
                          do_write tbl proc0 fs' (int 0) uio = Some ((Some EBADF, uio, False), proc0, fs2))"
  by (rule setfl_loses_access [of proc0 fdtab0 fsys0 "\<lambda>_. 0" 0 7 False])
     (simp_all add: fd_example proc0_def)

end
