(* ===== verification/Vmem.thy ===== *)
theory Vmem
  imports Prelude
begin

text \<open>
  The general-purpose address allocator: \<^verbatim>\<open>sys/kern/vmem.c\<close> and the hash function of
  \<^verbatim>\<open>include/sys/hash.h\<close>.  Boundary tags are structures in a store (\<open>vm_tags\<close>, the part of the pool \<^verbatim>\<open>P_BT\<close>
  that an arena uses) and the queues are lists of their addresses.  An arena is a sequence of spans;
  after the tag of a span come the tags of its segments, in the order of their addresses.
\<close>

section \<open>Boundary tags and arenas\<close>

definition VMEM_MAXORDER :: nat where "VMEM_MAXORDER = 64"
definition VMEM_MAXHASH :: nat where "VMEM_MAXHASH = 512"

datatype bt_type_t = BT_TYPE_FREE | BT_TYPE_BUSY | BT_TYPE_SPAN

record bt =
  bt_start :: nat
  bt_size :: nat
  bt_type :: bt_type_t

record vmem =
  vm_size :: nat
  vm_inuse :: nat
  vm_quantum :: nat
  vm_quantum_shift :: nat
  vm_seglist :: "nat list"
  vm_freelist :: "nat list list"
  vm_hashlist :: "nat list list"
  vm_tags :: "nat \<Rightarrow> bt option"

definition ORDER2SIZE :: "nat \<Rightarrow> nat" where
  "ORDER2SIZE order = 2 ^ order"

definition SIZE2ORDER :: "nat \<Rightarrow> nat" where
  "SIZE2ORDER sz = log2 sz"

fun hash32_loop :: "nat list \<Rightarrow> nat \<Rightarrow> nat" where
  "hash32_loop [] h = h"
| "hash32_loop (c # cs) h = hash32_loop cs (u32 (h * 257 + c))"

definition hash32_buf :: "nat list \<Rightarrow> nat \<Rightarrow> nat" where
  "hash32_buf bf h = u32 (hash32_loop bf h * 257)"

definition HASH32_BUF_INIT :: nat where "HASH32_BUF_INIT = 5381"

text \<open>The bytes of an address in memory, least significant first.\<close>

definition addr_bytes :: "nat \<Rightarrow> nat list" where
  "addr_bytes a = map (\<lambda>i. a div 256 ^ i mod 256) [0..<8]"

definition bt_freehead :: "vmem \<Rightarrow> nat \<Rightarrow> nat option" where
  "bt_freehead vm sz =
     do {
       let qsize = sz div 2 ^ vm_quantum_shift vm;
       kassert (sz \<noteq> 0 \<and> qsize \<noteq> 0);
       let idx = SIZE2ORDER qsize;
       kassert (idx < VMEM_MAXORDER);
       Some idx
     }"

definition bt_end :: "bt \<Rightarrow> nat" where
  "bt_end b = usub (uadd (bt_start b) (bt_size b)) 1"

definition bt_hashhead :: "nat \<Rightarrow> nat" where
  "bt_hashhead addr = hash32_buf (addr_bytes addr) HASH32_BUF_INIT mod VMEM_MAXHASH"

definition bt_insfree :: "vmem \<Rightarrow> nat \<Rightarrow> vmem option" where
  "bt_insfree vm b =
     do {
       tag \<leftarrow> vm_tags vm b;
       kassert (bt_type tag = BT_TYPE_FREE);
       i \<leftarrow> bt_freehead vm (bt_size tag);
       Some (vm\<lparr>vm_freelist := (vm_freelist vm)[i := b # vm_freelist vm ! i]\<rparr>)
     }"

text \<open>\<^verbatim>\<open>LIST_REMOVE\<close> unlinks a tag from the list it is on; being on none is an invalid pointer.\<close>

definition bt_remfree :: "vmem \<Rightarrow> nat \<Rightarrow> vmem option" where
  "bt_remfree vm b =
     do {
       tag \<leftarrow> vm_tags vm b;
       kassert (bt_type tag = BT_TYPE_FREE);
       kassert (b \<in> set (concat (vm_freelist vm)));
       Some (vm\<lparr>vm_freelist := map (remove1 b) (vm_freelist vm)\<rparr>)
     }"

definition bt_insseg_tail :: "vmem \<Rightarrow> nat \<Rightarrow> vmem" where
  "bt_insseg_tail vm b = vm\<lparr>vm_seglist := vm_seglist vm @ [b]\<rparr>"

fun insert_after :: "'a \<Rightarrow> 'a \<Rightarrow> 'a list \<Rightarrow> 'a list" where
  "insert_after b prev [] = []"
| "insert_after b prev (x # xs) = (if x = prev then x # b # xs else x # insert_after b prev xs)"

definition bt_insseg_after :: "vmem \<Rightarrow> nat \<Rightarrow> nat \<Rightarrow> vmem option" where
  "bt_insseg_after vm b prev =
     do {
       kassert (prev \<in> set (vm_seglist vm));
       Some (vm\<lparr>vm_seglist := insert_after b prev (vm_seglist vm)\<rparr>)
     }"

definition bt_remseg :: "vmem \<Rightarrow> nat \<Rightarrow> vmem option" where
  "bt_remseg vm b =
     do {
       kassert (b \<in> set (vm_seglist vm));
       Some (vm\<lparr>vm_seglist := remove1 b (vm_seglist vm)\<rparr>)
     }"

definition bt_insbusy :: "vmem \<Rightarrow> nat \<Rightarrow> vmem option" where
  "bt_insbusy vm b =
     do {
       tag \<leftarrow> vm_tags vm b;
       kassert (bt_type tag = BT_TYPE_BUSY);
       let i = bt_hashhead (bt_start tag);
       Some (vm\<lparr>vm_hashlist := (vm_hashlist vm)[i := b # vm_hashlist vm ! i],
                vm_inuse := uadd (vm_inuse vm) (bt_size tag)\<rparr>)
     }"

definition bt_rembusy :: "vmem \<Rightarrow> nat \<Rightarrow> vmem option" where
  "bt_rembusy vm b =
     do {
       tag \<leftarrow> vm_tags vm b;
       kassert (bt_type tag = BT_TYPE_BUSY);
       kassert (b \<in> set (concat (vm_hashlist vm)));
       Some (vm\<lparr>vm_inuse := usub (vm_inuse vm) (bt_size tag),
                vm_hashlist := map (remove1 b) (vm_hashlist vm)\<rparr>)
     }"

fun lookupbusy_loop :: "vmem \<Rightarrow> nat list \<Rightarrow> nat \<Rightarrow> nat option option" where
  "lookupbusy_loop vm [] addr = Some None"
| "lookupbusy_loop vm (b # bs) addr =
     do {
       tag \<leftarrow> vm_tags vm b;
       kassert (bt_type tag = BT_TYPE_BUSY);
       if bt_start tag = addr then Some (Some b) else lookupbusy_loop vm bs addr
     }"

definition bt_lookupbusy :: "vmem \<Rightarrow> nat \<Rightarrow> nat option option" where
  "bt_lookupbusy vm addr = lookupbusy_loop vm (vm_hashlist vm ! bt_hashhead addr) addr"

fun find_in_list :: "vmem \<Rightarrow> nat list \<Rightarrow> nat \<Rightarrow> nat option option" where
  "find_in_list vm [] sz = Some None"
| "find_in_list vm (b # bs) sz =
     do {
       tag \<leftarrow> vm_tags vm b;
       if bt_size tag \<ge> sz then Some (Some b) else find_in_list vm bs sz
     }"

fun find_in_lists :: "vmem \<Rightarrow> nat list list \<Rightarrow> nat \<Rightarrow> nat option option" where
  "find_in_lists vm [] sz = Some None"
| "find_in_lists vm (l # ls) sz =
     do {
       r \<leftarrow> find_in_list vm l sz;
       case r of Some b \<Rightarrow> Some (Some b) | None \<Rightarrow> find_in_lists vm ls sz
     }"

definition bt_find_freeseg :: "vmem \<Rightarrow> nat \<Rightarrow> nat option option" where
  "bt_find_freeseg vm sz = do { i \<leftarrow> bt_freehead vm sz; find_in_lists vm (drop i (vm_freelist vm)) sz }"

text \<open>The sanity check that debug builds run at every entry and exit.\<close>

definition bt_isspan :: "bt \<Rightarrow> bool" where
  "bt_isspan b \<longleftrightarrow> bt_type b = BT_TYPE_SPAN"

definition tag_of :: "vmem \<Rightarrow> nat \<Rightarrow> bt" where
  "tag_of vm b = the (vm_tags vm b)"

definition vmem_check_sanity :: "vmem \<Rightarrow> bool" where
  "vmem_check_sanity vm \<longleftrightarrow>
     list_all (\<lambda>b. bt_start (tag_of vm b) \<le> bt_end (tag_of vm b) \<and> bt_size (tag_of vm b) \<ge> vm_quantum vm \<and>
                   is_aligned (bt_start (tag_of vm b)) (vm_quantum vm)) (vm_seglist vm) \<and>
     list_all (\<lambda>b1. list_all (\<lambda>b2. b1 = b2 \<or> bt_isspan (tag_of vm b1) \<noteq> bt_isspan (tag_of vm b2) \<or>
                   bt_start (tag_of vm b1) > bt_end (tag_of vm b2) \<or> bt_start (tag_of vm b2) > bt_end (tag_of vm b1))
                (vm_seglist vm)) (vm_seglist vm)"

section \<open>The operations of an arena\<close>

definition vmem_create :: "nat \<Rightarrow> vmem option" where
  "vmem_create quantum =
     do {
       kassert (quantum > 0);
       let shift = SIZE2ORDER quantum;
       kassert (ORDER2SIZE shift = quantum);
       Some \<lparr>vm_size = 0, vm_inuse = 0, vm_quantum = quantum, vm_quantum_shift = shift, vm_seglist = [],
             vm_freelist = replicate VMEM_MAXORDER [], vm_hashlist = replicate VMEM_MAXHASH [],
             vm_tags = Map.empty\<rparr>
     }"

text \<open>A tag from the pool: an address that is not in use.\<close>

definition bt_pool_alloc :: "vmem \<Rightarrow> nat \<Rightarrow> bt \<Rightarrow> vmem option" where
  "bt_pool_alloc vm b tag = do { kassert (vm_tags vm b = None); Some (vm\<lparr>vm_tags := (vm_tags vm)(b \<mapsto> tag)\<rparr>) }"

definition bt_pool_free :: "vmem \<Rightarrow> nat \<Rightarrow> vmem" where
  "bt_pool_free vm b = vm\<lparr>vm_tags := (vm_tags vm)(b := None)\<rparr>"

definition set_tag :: "vmem \<Rightarrow> nat \<Rightarrow> bt \<Rightarrow> vmem" where
  "set_tag vm b tag = vm\<lparr>vm_tags := (vm_tags vm)(b \<mapsto> tag)\<rparr>"

definition vmem_add :: "vmem \<Rightarrow> nat \<Rightarrow> nat \<Rightarrow> nat \<Rightarrow> nat \<Rightarrow> vmem option" where
  "vmem_add vm btspan btfree addr sz =
     do {
       vm \<leftarrow> bt_pool_alloc vm btspan \<lparr>bt_start = addr, bt_size = sz, bt_type = BT_TYPE_SPAN\<rparr>;
       vm \<leftarrow> bt_pool_alloc vm btfree \<lparr>bt_start = addr, bt_size = sz, bt_type = BT_TYPE_FREE\<rparr>;
       let vm = bt_insseg_tail vm btspan;
       vm \<leftarrow> bt_insseg_after vm btfree btspan;
       vm \<leftarrow> bt_insfree vm btfree;
       Some (vm\<lparr>vm_size := uadd (vm_size vm) sz\<rparr>)
     }"

text \<open>
  The tag that \<^verbatim>\<open>pool_alloc\<close> returned is an argument, \<open>None\<close> when it failed.  The result is the error or
  the address.
\<close>

definition vmem_alloc :: "vmem \<Rightarrow> nat option \<Rightarrow> nat \<Rightarrow> ((errno + nat) \<times> vmem) option" where
  "vmem_alloc vm newtag sz0 =
     do {
       let sz = align sz0 (vm_quantum vm);
       kassert (sz > 0);
       case newtag of
         None \<Rightarrow> Some (Inl ENOMEM, vm)
       | Some btnew \<Rightarrow>
           do {
             vm \<leftarrow> bt_pool_alloc vm btnew \<lparr>bt_start = 0, bt_size = 0, bt_type = BT_TYPE_FREE\<rparr>;
             seg \<leftarrow> bt_find_freeseg vm sz;
             case seg of
               None \<Rightarrow> Some (Inl ENOMEM, bt_pool_free vm btnew)
             | Some b \<Rightarrow>
                 do {
                   vm \<leftarrow> bt_remfree vm b;
                   tag \<leftarrow> vm_tags vm b;
                   vm \<leftarrow>
                     (if bt_size tag > sz \<and> usub (bt_size tag) sz \<ge> vm_quantum vm then
                        do {
                          let vm = set_tag vm btnew \<lparr>bt_start = uadd (bt_start tag) sz,
                                     bt_size = usub (bt_size tag) sz, bt_type = BT_TYPE_FREE\<rparr>;
                          let vm = set_tag vm b (tag\<lparr>bt_type := BT_TYPE_BUSY, bt_size := sz\<rparr>);
                          vm \<leftarrow> bt_insfree vm btnew;
                          vm \<leftarrow> bt_insseg_after vm btnew b;
                          bt_insbusy vm b
                        }
                      else do {
                        let vm = set_tag vm b (tag\<lparr>bt_type := BT_TYPE_BUSY\<rparr>);
                        vm \<leftarrow> bt_insbusy vm b;
                        Some (bt_pool_free vm btnew)
                      });
                   tag \<leftarrow> vm_tags vm b;
                   kassert (bt_size tag \<ge> sz);
                   kassert (bt_type tag = BT_TYPE_BUSY);
                   Some (Inr (bt_start tag), vm)
                 }
           }
     }"

fun prev_of :: "'a \<Rightarrow> 'a list \<Rightarrow> 'a option" where
  "prev_of b (x # y # ys) = (if y = b then Some x else prev_of b (y # ys))"
| "prev_of b _ = None"

fun next_of :: "'a \<Rightarrow> 'a list \<Rightarrow> 'a option" where
  "next_of b (x # y # ys) = (if x = b then Some y else next_of b (y # ys))"
| "next_of b _ = None"

text \<open>The neighbour of a tag that is free, if there is one.\<close>

definition free_tag :: "vmem \<Rightarrow> nat option \<Rightarrow> (nat \<times> bt) option option" where
  "free_tag vm ob =
     (case ob of
        None \<Rightarrow> Some None
      | Some b \<Rightarrow> do { tag \<leftarrow> vm_tags vm b; Some (if bt_type tag = BT_TYPE_FREE then Some (b, tag) else None) })"

text \<open>Merging the tag \<open>b\<close> with its free neighbours; the tag that became superfluous is returned.\<close>

definition coalesce_prev :: "vmem \<Rightarrow> nat \<Rightarrow> (vmem \<times> nat list) option" where
  "coalesce_prev vm b =
     do {
       prev \<leftarrow> free_tag vm (prev_of b (vm_seglist vm));
       case prev of
         None \<Rightarrow> Some (vm, [])
       | Some (p, ptag) \<Rightarrow>
           do {
             tag \<leftarrow> vm_tags vm b;
             kassert (uadd (bt_end ptag) 1 = bt_start tag);
             vm \<leftarrow> bt_remfree vm p;
             vm \<leftarrow> bt_remseg vm p;
             Some (set_tag vm b (tag\<lparr>bt_size := uadd (bt_size tag) (bt_size ptag), bt_start := bt_start ptag\<rparr>), [p])
           }
     }"

definition coalesce_next :: "vmem \<Rightarrow> nat \<Rightarrow> (vmem \<times> nat list) option" where
  "coalesce_next vm b =
     do {
       nxt \<leftarrow> free_tag vm (next_of b (vm_seglist vm));
       case nxt of
         None \<Rightarrow> Some (vm, [])
       | Some (n, ntag) \<Rightarrow>
           do {
             tag \<leftarrow> vm_tags vm b;
             kassert (uadd (bt_end tag) 1 = bt_start ntag);
             vm \<leftarrow> bt_remfree vm n;
             vm \<leftarrow> bt_remseg vm n;
             Some (set_tag vm b (tag\<lparr>bt_size := uadd (bt_size tag) (bt_size ntag)\<rparr>), [n])
           }
     }"

definition vmem_free :: "vmem \<Rightarrow> nat \<Rightarrow> nat \<Rightarrow> vmem option" where
  "vmem_free vm addr sz =
     do {
       obt \<leftarrow> bt_lookupbusy vm addr;
       b \<leftarrow> obt;
       tag \<leftarrow> vm_tags vm b;
       kassert (bt_size tag = align sz (vm_quantum vm));
       vm \<leftarrow> bt_rembusy vm b;
       let vm = set_tag vm b (tag\<lparr>bt_type := BT_TYPE_FREE\<rparr>);
       (vm, prev) \<leftarrow> coalesce_prev vm b;
       (vm, nxt) \<leftarrow> coalesce_next vm b;
       vm \<leftarrow> bt_insfree vm b;
       Some (fold (\<lambda>t vm. bt_pool_free vm t) (prev @ nxt) vm)
     }"

text \<open>The checks of \<^verbatim>\<open>vmem_destroy\<close>; the arena and its tags are released when they pass.\<close>

fun destroy_sum :: "bt list \<Rightarrow> nat \<Rightarrow> nat option" where
  "destroy_sum [] acc = Some acc"
| "destroy_sum (b # bs) acc =
     do {
       kassert (bt_type b = BT_TYPE_SPAN \<or> bt_type b = BT_TYPE_FREE);
       destroy_sum bs (if bt_type b = BT_TYPE_SPAN then uadd acc (bt_size b) else acc)
     }"

fun destroy_pairs :: "bt option \<Rightarrow> bt list \<Rightarrow> bool" where
  "destroy_pairs prev [] = True"
| "destroy_pairs prev (b # bs) =
     ((case prev of
         None \<Rightarrow> bt_type b = BT_TYPE_SPAN
       | Some p \<Rightarrow>
           if bt_type b = BT_TYPE_FREE
           then bt_type p = BT_TYPE_SPAN \<and> bt_size p = bt_size b \<and> bt_start p = bt_start b
           else if bt_type b = BT_TYPE_SPAN then bt_type p = BT_TYPE_FREE else True) \<and>
      destroy_pairs (Some b) bs)"

definition segs :: "vmem \<Rightarrow> bt list" where
  "segs vm = map (tag_of vm) (vm_seglist vm)"

definition vmem_destroy :: "vmem \<Rightarrow> vmem option" where
  "vmem_destroy vm =
     do {
       kassert (vm_seglist vm \<noteq> []);
       span_size_sum \<leftarrow> destroy_sum (segs vm) 0;
       kassert (vm_size vm = span_size_sum);
       kassert (vm_inuse vm = 0);
       kassert (destroy_pairs None (segs vm));
       Some (fold (\<lambda>t vm. bt_pool_free vm t) (vm_seglist vm) vm)
     }"

section \<open>The sequence of segments\<close>

text \<open>
  Walking over the tags: the next address, the end of the current span, and whether the previous
  segment is free.  A well-formed arena fills every span with segments, without gaps and without two
  free neighbours.
\<close>

type_synonym seg_state = "nat \<times> nat \<times> bool"

fun seg_step :: "seg_state \<Rightarrow> bt \<Rightarrow> seg_state option" where
  "seg_step (p, e, f) b =
     (if bt_size b = 0 then None
      else case bt_type b of
        BT_TYPE_SPAN \<Rightarrow>
          if p = e \<and> bt_start b + bt_size b < 2 ^ 64 then Some (bt_start b, bt_start b + bt_size b, False) else None
      | BT_TYPE_FREE \<Rightarrow>
          if bt_start b = p \<and> p + bt_size b \<le> e \<and> \<not> f then Some (p + bt_size b, e, True) else None
      | BT_TYPE_BUSY \<Rightarrow>
          if bt_start b = p \<and> p + bt_size b \<le> e then Some (p + bt_size b, e, False) else None)"

fun seg_run :: "seg_state \<Rightarrow> bt list \<Rightarrow> seg_state option" where
  "seg_run st [] = Some st"
| "seg_run st (b # bs) = do { st \<leftarrow> seg_step st b; seg_run st bs }"

definition segs_ok :: "bt list \<Rightarrow> bool" where
  "segs_ok ts \<longleftrightarrow> (\<exists>p f. seg_run (0, 0, False) ts = Some (p, p, f))"

lemma seg_run_append: "seg_run st (xs @ ys) = do { st \<leftarrow> seg_run st xs; seg_run st ys }"
  by (induction xs arbitrary: st) (simp_all add: bind_assoc)

lemma seg_run_splitE:
  assumes "segs_ok (xs @ b # ys)"
  obtains p e f st q g where "seg_run (0, 0, False) xs = Some (p, e, f)" and "seg_step (p, e, f) b = Some st"
    and "seg_run st ys = Some (q, q, g)"
proof -
  obtain q g where "seg_run (0, 0, False) (xs @ b # ys) = Some (q, q, g)"
    using assms by (auto simp: segs_ok_def)
  then obtain st0 st where "seg_run (0, 0, False) xs = Some st0" "seg_step st0 b = Some st" "seg_run st ys = Some (q, q, g)"
    by (auto simp: seg_run_append bind_eq_Some_conv)
  then show thesis
    using that by (cases st0) auto
qed

lemma segs_okI:
  "seg_run (0, 0, False) xs = Some st0 \<Longrightarrow> seg_run st0 zs = Some st \<Longrightarrow> seg_run st ys = Some (q, q, g) \<Longrightarrow>
     segs_ok (xs @ zs @ ys)"
  by (auto simp: segs_ok_def seg_run_append)

text \<open>The flag of the walk only matters for a free segment that follows.\<close>

lemma seg_run_drop_flag: "seg_run (p, e, f) ys = Some (q, q', g) \<Longrightarrow> \<exists>g'. seg_run (p, e, False) ys = Some (q, q', g')"
  by (cases ys) (auto simp: bind_eq_Some_conv split: if_splits bt_type_t.splits)

lemma seg_run_set_flag:
  "ys = [] \<or> bt_type (hd ys) \<noteq> BT_TYPE_FREE \<Longrightarrow> seg_run (p, e, f) ys = Some (q, q', g) \<Longrightarrow>
     \<exists>g'. seg_run (p, e, True) ys = Some (q, q', g')"
  by (cases ys) (auto simp: bind_eq_Some_conv split: if_splits bt_type_t.splits)

lemma seg_run_flag:
  assumes "seg_run (0, 0, False) xs = Some (p, e, f)"
  shows "f \<longleftrightarrow> xs \<noteq> [] \<and> bt_type (last xs) = BT_TYPE_FREE"
proof (cases xs rule: rev_cases)
  case (snoc zs b)
  then obtain st where "seg_step st b = Some (p, e, f)"
    using assms by (auto simp: seg_run_append bind_eq_Some_conv)
  then show ?thesis
    using snoc by (cases st) (auto split: if_splits bt_type_t.splits)
qed (use assms in simp)

lemma seg_run_bounds:
  "seg_run (p, e, f) xs = Some (q, e', g) \<Longrightarrow> p \<le> e \<Longrightarrow> e < 2 ^ 64 \<Longrightarrow> q \<le> e' \<and> e' < 2 ^ 64"
proof (induction xs arbitrary: p e f)
  case (Cons b xs)
  then obtain p1 e1 f1 where st: "seg_step (p, e, f) b = Some (p1, e1, f1)" "seg_run (p1, e1, f1) xs = Some (q, e', g)"
    by (auto simp: bind_eq_Some_conv)
  then have "p1 \<le> e1 \<and> e1 < 2 ^ 64"
    using Cons.prems(2,3) by (auto split: if_splits bt_type_t.splits)
  then show ?case
    using Cons.IH st(2) by blast
qed simp

lemma segs_ok_bounds:
  assumes "segs_ok ts" and "t \<in> set ts"
  shows "0 < bt_size t" and "bt_start t + bt_size t < 2 ^ 64"
proof -
  obtain xs ys where ts: "ts = xs @ t # ys"
    using split_list [OF assms(2)] by blast
  obtain p e f st q g where r: "seg_run (0, 0, False) xs = Some (p, e, f)" "seg_step (p, e, f) t = Some st"
    using seg_run_splitE [OF assms(1) [unfolded ts]] .
  have "p \<le> e \<and> e < 2 ^ 64"
    using seg_run_bounds [OF r(1)] by simp
  then show "0 < bt_size t" "bt_start t + bt_size t < 2 ^ 64"
    using r(2) by (auto split: if_splits bt_type_t.splits)
qed

text \<open>Splitting a free segment, or taking all of it.\<close>

lemma segs_ok_take:
  assumes ok: "segs_ok (xs @ t # ys)" and t: "bt_type t = BT_TYPE_FREE"
  shows "segs_ok (xs @ t\<lparr>bt_type := BT_TYPE_BUSY\<rparr> # ys)"
    and "0 < k \<Longrightarrow> k < bt_size t \<Longrightarrow>
      segs_ok (xs @ t\<lparr>bt_type := BT_TYPE_BUSY, bt_size := k\<rparr> #
        \<lparr>bt_start = bt_start t + k, bt_size = bt_size t - k, bt_type = BT_TYPE_FREE\<rparr> # ys)"
proof -
  obtain p e f st q g where r: "seg_run (0, 0, False) xs = Some (p, e, f)" "seg_step (p, e, f) t = Some st"
    "seg_run st ys = Some (q, q, g)"
    using seg_run_splitE [OF ok] .
  have p: "bt_start t = p" "p + bt_size t \<le> e" "0 < bt_size t" and st: "st = (p + bt_size t, e, True)"
    using r(2) t by (auto split: if_splits)
  obtain g' where g': "seg_run (p + bt_size t, e, False) ys = Some (q, q, g')"
    using seg_run_drop_flag r(3) st by blast
  show "segs_ok (xs @ t\<lparr>bt_type := BT_TYPE_BUSY\<rparr> # ys)"
    using segs_okI [OF r(1) _ g', of "[t\<lparr>bt_type := BT_TYPE_BUSY\<rparr>]"] p by simp
  show "segs_ok (xs @ t\<lparr>bt_type := BT_TYPE_BUSY, bt_size := k\<rparr> #
        \<lparr>bt_start = bt_start t + k, bt_size = bt_size t - k, bt_type = BT_TYPE_FREE\<rparr> # ys)"
    if "0 < k" "k < bt_size t"
    using segs_okI [OF r(1) _ r(3) [unfolded st], of "[t\<lparr>bt_type := BT_TYPE_BUSY, bt_size := k\<rparr>,
        \<lparr>bt_start = bt_start t + k, bt_size = bt_size t - k, bt_type = BT_TYPE_FREE\<rparr>]"] p that
    by simp
qed

text \<open>Freeing a busy segment and merging it with its free neighbours.\<close>

definition free_before :: "bt list \<Rightarrow> bool" where
  "free_before xs \<longleftrightarrow> xs \<noteq> [] \<and> bt_type (last xs) = BT_TYPE_FREE"

definition free_after :: "bt list \<Rightarrow> bool" where
  "free_after ys \<longleftrightarrow> ys \<noteq> [] \<and> bt_type (hd ys) = BT_TYPE_FREE"

definition merge_segs :: "bt list \<Rightarrow> bt \<Rightarrow> bt list \<Rightarrow> bt list" where
  "merge_segs xs t ys =
     (if free_before xs then butlast xs else xs) @
     \<lparr>bt_start = (if free_before xs then bt_start (last xs) else bt_start t),
      bt_size = bt_size t + (if free_before xs then bt_size (last xs) else 0) +
                (if free_after ys then bt_size (hd ys) else 0),
      bt_type = BT_TYPE_FREE\<rparr> # (if free_after ys then tl ys else ys)"

lemma segs_ok_merge:
  assumes ok: "segs_ok (xs @ t # ys)" and t: "bt_type t = BT_TYPE_BUSY"
  shows "segs_ok (merge_segs xs t ys)"
    and "free_before xs \<Longrightarrow> bt_start (last xs) + bt_size (last xs) = bt_start t"
    and "free_after ys \<Longrightarrow> bt_start t + bt_size t = bt_start (hd ys)"
proof -
  obtain p e f st q g where r: "seg_run (0, 0, False) xs = Some (p, e, f)" "seg_step (p, e, f) t = Some st"
    "seg_run st ys = Some (q, q, g)"
    using seg_run_splitE [OF ok] .
  have p: "bt_start t = p" "p + bt_size t \<le> e" "0 < bt_size t" and st: "st = (p + bt_size t, e, False)"
    using r(2) t by (auto split: if_splits)
  have f: "f \<longleftrightarrow> free_before xs"
    using seg_run_flag [OF r(1)] by (simp add: free_before_def)
  define xs' where "xs' = (if free_before xs then butlast xs else xs)"
  define s where "s = (if free_before xs then bt_start (last xs) else bt_start t)"
  define n where "n = (if free_before xs then bt_size (last xs) else 0)"
  have left: "seg_run (0, 0, False) xs' = Some (s, e, False) \<and> s + n = p"
  proof (cases "free_before xs")
    case True
    then obtain zs l where l: "xs = zs @ [l]" "bt_type l = BT_TYPE_FREE"
      by (cases xs rule: rev_cases) (auto simp: free_before_def)
    then obtain p0 e0 f0 where "seg_run (0, 0, False) zs = Some (p0, e0, f0)" "seg_step (p0, e0, f0) l = Some (p, e, f)"
      using r(1) by (auto simp: seg_run_append bind_eq_Some_conv)
    then show ?thesis
      using True l by (auto simp: xs'_def s_def n_def split: if_splits)
  next
    case False
    then show ?thesis
      using r(1) f p(1) by (simp add: xs'_def s_def n_def)
  qed
  then show "free_before xs \<Longrightarrow> bt_start (last xs) + bt_size (last xs) = bt_start t"
    using p(1) by (simp add: s_def n_def)
  define ys' where "ys' = (if free_after ys then tl ys else ys)"
  define m where "m = (if free_after ys then bt_size (hd ys) else 0)"
  have right: "(\<exists>g. seg_run (p + bt_size t + m, e, True) ys' = Some (q, q, g)) \<and> p + bt_size t + m \<le> e \<and>
      (free_after ys \<longrightarrow> p + bt_size t = bt_start (hd ys))"
  proof (cases "free_after ys")
    case True
    then obtain y zs where y: "ys = y # zs" "bt_type y = BT_TYPE_FREE"
      by (cases ys) (auto simp: free_after_def)
    then show ?thesis
      using r(3) st True by (auto simp: ys'_def m_def bind_eq_Some_conv split: if_splits)
  next
    case False
    then have "\<exists>g. seg_run (p + bt_size t, e, True) ys = Some (q, q, g)"
      using seg_run_set_flag [of ys] r(3) st by (auto simp: free_after_def)
    then show ?thesis
      using False p(2) by (simp add: ys'_def m_def)
  qed
  then show "free_after ys \<Longrightarrow> bt_start t + bt_size t = bt_start (hd ys)"
    using p(1) by simp
  obtain g' where g': "seg_run (p + bt_size t + m, e, True) ys' = Some (q, q, g')"
    using right by blast
  have "merge_segs xs t ys = xs' @ [\<lparr>bt_start = s, bt_size = bt_size t + n + m, bt_type = BT_TYPE_FREE\<rparr>] @ ys'"
    by (simp add: merge_segs_def xs'_def ys'_def s_def n_def m_def)
  moreover have "seg_run (s, e, False) [\<lparr>bt_start = s, bt_size = bt_size t + n + m, bt_type = BT_TYPE_FREE\<rparr>] =
      Some (p + bt_size t + m, e, True)"
    using left right p(3) by (auto simp: ac_simps)
  ultimately show "segs_ok (merge_segs xs t ys)"
    using segs_okI [OF _ _ g'] left by metis
qed

section \<open>Ranges of addresses\<close>

definition rng :: "bt \<Rightarrow> nat set" where
  "rng t = {bt_start t..<bt_start t + bt_size t}"

definition spans :: "bt list \<Rightarrow> bt list" where
  "spans ts = filter bt_isspan ts"

definition segments :: "bt list \<Rightarrow> bt list" where
  "segments ts = filter (\<lambda>t. \<not> bt_isspan t) ts"

definition disjoint_rngs :: "bt list \<Rightarrow> bool" where
  "disjoint_rngs ts \<longleftrightarrow> sorted_wrt (\<lambda>a b. rng a \<inter> rng b = {}) ts"

text \<open>Segments lie inside spans and do not overlap, when the spans do not.\<close>

lemma seg_run_disjoint:
  assumes "seg_run (p, e, f) ts = Some st" and "p \<le> e" and "disjoint_rngs (spans ts)"
    and "\<forall>s \<in> set (spans ts). {p..<e} \<inter> rng s = {}"
  shows "disjoint_rngs (segments ts) \<and>
     (\<forall>t \<in> set (segments ts). rng t \<subseteq> {p..<e} \<or> (\<exists>s \<in> set (spans ts). rng t \<subseteq> rng s))"
  using assms
proof (induction ts arbitrary: p e f)
  case Nil
  then show ?case
    by (simp add: disjoint_rngs_def segments_def)
next
  case (Cons b ts)
  obtain p1 e1 f1 where st: "seg_step (p, e, f) b = Some (p1, e1, f1)" "seg_run (p1, e1, f1) ts = Some st"
    using Cons.prems(1) by (auto simp: bind_eq_Some_conv)
  show ?case
  proof (cases "bt_isspan b")
    case True
    have sp: "spans (b # ts) = b # spans ts" "segments (b # ts) = segments ts"
      using True by (simp_all add: spans_def segments_def)
    have b: "p1 = bt_start b" "e1 = bt_start b + bt_size b"
      using st(1) True by (auto simp: bt_isspan_def split: if_splits)
    have "disjoint_rngs (spans ts)" "\<forall>s \<in> set (spans ts). {p1..<e1} \<inter> rng s = {}"
      using Cons.prems(3) sp(1) b by (simp_all add: disjoint_rngs_def rng_def)
    from Cons.IH [OF st(2) _ this] have ih: "disjoint_rngs (segments ts) \<and>
        (\<forall>t \<in> set (segments ts). rng t \<subseteq> {p1..<e1} \<or> (\<exists>s \<in> set (spans ts). rng t \<subseteq> rng s))"
      using b by simp
    have "{p1..<e1} = rng b"
      using b by (simp add: rng_def)
    then show ?thesis
      using ih sp by auto
  next
    case False
    have sp: "spans (b # ts) = spans ts" "segments (b # ts) = b # segments ts"
      using False by (simp_all add: spans_def segments_def)
    have b: "bt_start b = p" "p1 = p + bt_size b" "e1 = e" "p1 \<le> e"
      using st(1) False by (auto simp: bt_isspan_def split: if_splits bt_type_t.splits)
    have "{p1..<e1} \<subseteq> {p..<e}"
      using b by auto
    then have "\<forall>s \<in> set (spans ts). {p1..<e1} \<inter> rng s = {}"
      using Cons.prems(4) sp(1) by fastforce
    from Cons.IH [OF st(2) _ _ this] have ih: "disjoint_rngs (segments ts) \<and>
        (\<forall>t \<in> set (segments ts). rng t \<subseteq> {p1..<e1} \<or> (\<exists>s \<in> set (spans ts). rng t \<subseteq> rng s))"
      using b Cons.prems(3) sp(1) by simp
    have rb: "rng b \<subseteq> {p..<e}" "rng b \<inter> {p1..<e1} = {}"
      using b by (auto simp: rng_def)
    have in_t: "rng t \<subseteq> {p1..<e1} \<or> (\<exists>s \<in> set (spans ts). rng t \<subseteq> rng s)" if "t \<in> set (segments ts)" for t
      using ih that by blast
    have "rng b \<inter> rng t = {}" if "t \<in> set (segments ts)" for t
      using in_t [OF that]
    proof
      assume "rng t \<subseteq> {p1..<e1}"
      then show ?thesis using rb(2) by blast
    next
      assume "\<exists>s \<in> set (spans ts). rng t \<subseteq> rng s"
      then show ?thesis using rb(1) Cons.prems(4) sp(1) by fastforce
    qed
    then have "disjoint_rngs (segments (b # ts))"
      using ih sp(2) by (simp add: disjoint_rngs_def)
    moreover have "rng t \<subseteq> {p..<e} \<or> (\<exists>s \<in> set (spans (b # ts)). rng t \<subseteq> rng s)"
      if "t \<in> set (segments (b # ts))" for t
    proof (cases "t = b")
      case True
      then show ?thesis using rb(1) by simp
    next
      case False
      then show ?thesis
        using in_t [of t] that sp \<open>{p1..<e1} \<subseteq> {p..<e}\<close> by auto
    qed
    ultimately show ?thesis by blast
  qed
qed

lemma segs_ok_disjoint:
  assumes "segs_ok ts" and "disjoint_rngs (spans ts)"
  shows "disjoint_rngs (segments ts)" and "\<forall>t \<in> set (segments ts). \<exists>s \<in> set (spans ts). rng t \<subseteq> rng s"
proof -
  obtain p f where run: "seg_run (0, 0, False) ts = Some (p, p, f)"
    using assms(1) by (auto simp: segs_ok_def)
  from seg_run_disjoint [OF run _ assms(2)]
  have *: "disjoint_rngs (segments ts) \<and>
     (\<forall>t \<in> set (segments ts). rng t \<subseteq> {0..<0} \<or> (\<exists>s \<in> set (spans ts). rng t \<subseteq> rng s))"
    by simp
  then show "disjoint_rngs (segments ts)" by simp
  show "\<forall>t \<in> set (segments ts). \<exists>s \<in> set (spans ts). rng t \<subseteq> rng s"
  proof
    fix t assume t: "t \<in> set (segments ts)"
    then have "0 < bt_size t"
      using segs_ok_bounds(1) [OF assms(1), of t] by (simp add: segments_def)
    then have "rng t \<noteq> {}"
      by (simp add: rng_def)
    then show "\<exists>s \<in> set (spans ts). rng t \<subseteq> rng s"
      using * t by auto
  qed
qed

section \<open>The invariant of an arena\<close>

definition size_order :: "vmem \<Rightarrow> nat \<Rightarrow> nat" where
  "size_order vm b = SIZE2ORDER (bt_size (tag_of vm b) div 2 ^ vm_quantum_shift vm)"

definition start_hash :: "vmem \<Rightarrow> nat \<Rightarrow> nat" where
  "start_hash vm b = bt_hashhead (bt_start (tag_of vm b))"

text \<open>The tags in \<open>F\<close> are on the free lists and those in \<open>B\<close> on the hash chains.\<close>

definition index_ok :: "vmem \<Rightarrow> nat set \<Rightarrow> nat set \<Rightarrow> bool" where
  "index_ok vm F B \<longleftrightarrow>
     vm_quantum vm = 2 ^ vm_quantum_shift vm \<and> vm_quantum_shift vm < 64 \<and>
     buckets (vm_freelist vm) VMEM_MAXORDER F (size_order vm) \<and>
     buckets (vm_hashlist vm) VMEM_MAXHASH B (start_hash vm) \<and>
     (\<forall>b \<in> F. \<exists>t. vm_tags vm b = Some t \<and> bt_type t = BT_TYPE_FREE) \<and>
     (\<forall>b \<in> B. \<exists>t. vm_tags vm b = Some t \<and> bt_type t = BT_TYPE_BUSY)"

definition of_type :: "vmem \<Rightarrow> bt_type_t \<Rightarrow> nat set" where
  "of_type vm ty = {b \<in> set (vm_seglist vm). bt_type (tag_of vm b) = ty}"

definition total :: "bt_type_t \<Rightarrow> bt list \<Rightarrow> nat" where
  "total ty ts = sum_list (map bt_size (filter (\<lambda>t. bt_type t = ty) ts))"

definition quantized :: "nat \<Rightarrow> bt \<Rightarrow> bool" where
  "quantized q t \<longleftrightarrow> q dvd bt_start t \<and> q dvd bt_size t"

definition vmem_inv :: "vmem \<Rightarrow> bool" where
  "vmem_inv vm \<longleftrightarrow>
     index_ok vm (of_type vm BT_TYPE_FREE) (of_type vm BT_TYPE_BUSY) \<and>
     distinct (vm_seglist vm) \<and> dom (vm_tags vm) = set (vm_seglist vm) \<and>
     segs_ok (segs vm) \<and> disjoint_rngs (spans (segs vm)) \<and> (\<forall>t \<in> set (segs vm). quantized (vm_quantum vm) t) \<and>
     vm_size vm = total BT_TYPE_SPAN (segs vm) \<and> vm_inuse vm = total BT_TYPE_BUSY (segs vm) \<and>
     total BT_TYPE_SPAN (segs vm) < 2 ^ 64"

text \<open>What an arena promises: the ranges it manages and those it has handed out.\<close>

definition arena_spans :: "vmem \<Rightarrow> bt set" where
  "arena_spans vm = set (spans (segs vm))"

definition allocated :: "vmem \<Rightarrow> (nat \<times> nat) set" where
  "allocated vm = {(bt_start t, bt_size t) | t. t \<in> set (segs vm) \<and> bt_type t = BT_TYPE_BUSY}"

lemma size_order_bound:
  assumes "quantized (2 ^ sh) t" and "0 < bt_size t" and "bt_size t < 2 ^ 64"
  shows "bt_size t div 2 ^ sh \<noteq> 0" and "SIZE2ORDER (bt_size t div 2 ^ sh) < VMEM_MAXORDER"
proof -
  have "2 ^ sh \<le> bt_size t"
    using assms(1,2) by (auto simp: quantized_def dvd_imp_le)
  then have pos: "0 < bt_size t div 2 ^ sh"
    by (simp add: div_greater_zero_iff)
  have "bt_size t div 2 ^ sh < 2 ^ 64"
    using assms(3) div_le_dividend le_less_trans by blast
  then show "SIZE2ORDER (bt_size t div 2 ^ sh) < VMEM_MAXORDER"
    unfolding SIZE2ORDER_def VMEM_MAXORDER_def by (rule log2_bound [OF pos])
  show "bt_size t div 2 ^ sh \<noteq> 0"
    using pos by simp
qed

lemma bt_freehead_ok:
  assumes "quantized (2 ^ vm_quantum_shift vm) t" and "0 < bt_size t" and "bt_size t < 2 ^ 64"
  shows "bt_freehead vm (bt_size t) = Some (SIZE2ORDER (bt_size t div 2 ^ vm_quantum_shift vm))"
  using size_order_bound [OF assms] assms(2) by (simp add: bt_freehead_def Let_def)

lemma index_ok_sets:
  assumes "index_ok vm F B"
  shows "set (concat (vm_freelist vm)) = F" and "set (concat (vm_hashlist vm)) = B"
  using assms unfolding index_ok_def by (blast dest: buckets_set)+

lemma bt_insfree_ok:
  assumes ix: "index_ok vm F B" and b: "b \<notin> F" "b \<notin> B" and t: "vm_tags vm b = Some t" "bt_type t = BT_TYPE_FREE"
    and sz: "quantized (vm_quantum vm) t" "0 < bt_size t" "bt_size t < 2 ^ 64"
  shows "\<exists>fl. bt_insfree vm b = Some (vm\<lparr>vm_freelist := fl\<rparr>) \<and> index_ok (vm\<lparr>vm_freelist := fl\<rparr>) (insert b F) B"
proof -
  have q: "quantized (2 ^ vm_quantum_shift vm) t"
    using sz(1) ix by (simp add: index_ok_def)
  let ?i = "SIZE2ORDER (bt_size t div 2 ^ vm_quantum_shift vm)"
  have i: "size_order vm b = ?i"
    using t by (simp add: size_order_def tag_of_def)
  let ?fl = "(vm_freelist vm)[?i := b # vm_freelist vm ! ?i]"
  have "buckets ?fl VMEM_MAXORDER (insert b F) (size_order vm)"
    using buckets_insert [of "vm_freelist vm" VMEM_MAXORDER F "size_order vm" b] ix b(1) i
      size_order_bound(2) [OF q sz(2,3)] by (simp add: index_ok_def)
  then have "buckets ?fl VMEM_MAXORDER (insert b F) (size_order (vm\<lparr>vm_freelist := ?fl\<rparr>))"
    by (rule buckets_cong) (simp add: size_order_def tag_of_def)
  moreover have "buckets (vm_hashlist vm) VMEM_MAXHASH B (start_hash (vm\<lparr>vm_freelist := ?fl\<rparr>))"
    using ix by (auto simp: index_ok_def start_hash_def tag_of_def elim!: buckets_cong)
  ultimately have "index_ok (vm\<lparr>vm_freelist := ?fl\<rparr>) (insert b F) B"
    using ix t by (simp add: index_ok_def)
  then show ?thesis
    using t bt_freehead_ok [OF q sz(2,3)] by (auto simp: bt_insfree_def)
qed

lemma bt_remfree_ok:
  assumes ix: "index_ok vm F B" and b: "b \<in> F"
  shows "\<exists>fl. bt_remfree vm b = Some (vm\<lparr>vm_freelist := fl\<rparr>) \<and> index_ok (vm\<lparr>vm_freelist := fl\<rparr>) (F - {b}) B"
proof -
  let ?fl = "map (remove1 b) (vm_freelist vm)"
  have "buckets ?fl VMEM_MAXORDER (F - {b}) (size_order vm)"
    using buckets_remove ix by (auto simp: index_ok_def)
  then have "buckets ?fl VMEM_MAXORDER (F - {b}) (size_order (vm\<lparr>vm_freelist := ?fl\<rparr>))"
    by (rule buckets_cong) (simp add: size_order_def tag_of_def)
  moreover have "buckets (vm_hashlist vm) VMEM_MAXHASH B (start_hash (vm\<lparr>vm_freelist := ?fl\<rparr>))"
    using ix by (auto simp: index_ok_def start_hash_def tag_of_def elim!: buckets_cong)
  ultimately have "index_ok (vm\<lparr>vm_freelist := ?fl\<rparr>) (F - {b}) B"
    using ix by (simp add: index_ok_def)
  moreover have "b \<in> set (concat (vm_freelist vm))"
    using b index_ok_sets(1) [OF ix] by simp
  moreover obtain t where "vm_tags vm b = Some t" "bt_type t = BT_TYPE_FREE"
    using ix b by (auto simp: index_ok_def)
  ultimately show ?thesis
    by (auto simp: bt_remfree_def simp del: set_concat)
qed

lemma hash_bound: "bt_hashhead a < VMEM_MAXHASH"
  by (simp add: bt_hashhead_def VMEM_MAXHASH_def)

lemma bt_insbusy_ok:
  assumes ix: "index_ok vm F B" and b: "b \<notin> F" "b \<notin> B" and t: "vm_tags vm b = Some t" "bt_type t = BT_TYPE_BUSY"
    and sz: "vm_inuse vm + bt_size t < 2 ^ 64"
  shows "\<exists>hl. bt_insbusy vm b = Some (vm\<lparr>vm_hashlist := hl, vm_inuse := vm_inuse vm + bt_size t\<rparr>) \<and>
           index_ok (vm\<lparr>vm_hashlist := hl, vm_inuse := vm_inuse vm + bt_size t\<rparr>) F (insert b B)"
proof -
  let ?i = "bt_hashhead (bt_start t)"
  have i: "start_hash vm b = ?i"
    using t by (simp add: start_hash_def tag_of_def)
  let ?hl = "(vm_hashlist vm)[?i := b # vm_hashlist vm ! ?i]"
  let ?vm = "vm\<lparr>vm_hashlist := ?hl, vm_inuse := vm_inuse vm + bt_size t\<rparr>"
  have "buckets ?hl VMEM_MAXHASH (insert b B) (start_hash vm)"
    using buckets_insert [of "vm_hashlist vm" VMEM_MAXHASH B "start_hash vm" b] ix b(2) i hash_bound
    by (simp add: index_ok_def)
  then have "buckets ?hl VMEM_MAXHASH (insert b B) (start_hash ?vm)"
    by (rule buckets_cong) (simp add: start_hash_def tag_of_def)
  moreover have "buckets (vm_freelist vm) VMEM_MAXORDER F (size_order ?vm)"
    using ix by (auto simp: index_ok_def size_order_def tag_of_def elim!: buckets_cong)
  ultimately have "index_ok ?vm F (insert b B)"
    using ix t by (simp add: index_ok_def)
  then show ?thesis
    using t uadd_exact [OF sz] by (auto simp: bt_insbusy_def Let_def)
qed

lemma bt_rembusy_ok:
  assumes ix: "index_ok vm F B" and b: "b \<in> B" and t: "vm_tags vm b = Some t"
    and sz: "bt_size t \<le> vm_inuse vm" "vm_inuse vm < 2 ^ 64"
  shows "\<exists>hl. bt_rembusy vm b = Some (vm\<lparr>vm_inuse := vm_inuse vm - bt_size t, vm_hashlist := hl\<rparr>) \<and>
           index_ok (vm\<lparr>vm_inuse := vm_inuse vm - bt_size t, vm_hashlist := hl\<rparr>) F (B - {b})"
proof -
  let ?hl = "map (remove1 b) (vm_hashlist vm)"
  let ?vm = "vm\<lparr>vm_inuse := vm_inuse vm - bt_size t, vm_hashlist := ?hl\<rparr>"
  have "buckets ?hl VMEM_MAXHASH (B - {b}) (start_hash vm)"
    using buckets_remove ix by (auto simp: index_ok_def)
  then have "buckets ?hl VMEM_MAXHASH (B - {b}) (start_hash ?vm)"
    by (rule buckets_cong) (simp add: start_hash_def tag_of_def)
  moreover have "buckets (vm_freelist vm) VMEM_MAXORDER F (size_order ?vm)"
    using ix by (auto simp: index_ok_def size_order_def tag_of_def elim!: buckets_cong)
  ultimately have "index_ok ?vm F (B - {b})"
    using ix by (simp add: index_ok_def)
  moreover have "b \<in> set (concat (vm_hashlist vm))" "bt_type t = BT_TYPE_BUSY"
    using b index_ok_sets(2) [OF ix] ix t by (auto simp: index_ok_def simp del: set_concat)
  ultimately show ?thesis
    using t usub_exact [OF sz] by (auto simp: bt_rembusy_def simp del: set_concat)
qed

text \<open>Changes to tags that are on no list, and to the segment list, keep the indices.\<close>

lemma index_ok_tags:
  assumes ix: "index_ok vm F B" and same: "\<And>b. b \<in> F \<union> B \<Longrightarrow> vm_tags vm' b = vm_tags vm b"
    and eq: "vm_freelist vm' = vm_freelist vm" "vm_hashlist vm' = vm_hashlist vm" "vm_quantum vm' = vm_quantum vm"
      "vm_quantum_shift vm' = vm_quantum_shift vm"
  shows "index_ok vm' F B"
proof -
  have "buckets (vm_freelist vm') VMEM_MAXORDER F (size_order vm')"
    using ix eq same by (auto simp: index_ok_def size_order_def tag_of_def elim!: buckets_cong)
  moreover have "buckets (vm_hashlist vm') VMEM_MAXHASH B (start_hash vm')"
    using ix eq same by (auto simp: index_ok_def start_hash_def tag_of_def elim!: buckets_cong)
  ultimately show ?thesis
    using ix eq same by (simp add: index_ok_def)
qed

lemma find_in_list_find:
  "\<forall>b \<in> set l. vm_tags vm b \<noteq> None \<Longrightarrow> find_in_list vm l sz = Some (List.find (\<lambda>b. bt_size (tag_of vm b) \<ge> sz) l)"
  by (induction l) (auto simp: tag_of_def)

lemma find_in_lists_find:
  "\<forall>b \<in> set (concat ls). vm_tags vm b \<noteq> None \<Longrightarrow>
     find_in_lists vm ls sz = Some (List.find (\<lambda>b. bt_size (tag_of vm b) \<ge> sz) (concat ls))"
proof (induction ls)
  case (Cons l ls)
  have f: "List.find P (xs @ ys) = (case List.find P xs of Some x \<Rightarrow> Some x | None \<Rightarrow> List.find P ys)"
    for P and xs ys :: "nat list"
    by (induction xs) auto
  show ?case
    using Cons find_in_list_find [of l vm sz] by (auto simp: f split: option.splits)
qed simp

text \<open>
  The search starts at the list for the order of the request; every free segment that is large enough
  is on that list or a later one, so the search fails only when there is none.
\<close>

lemma bt_find_freeseg_ok:
  assumes ix: "index_ok vm F B" and sz: "0 < sz" "sz < 2 ^ 64" "vm_quantum vm dvd sz"
    and F: "\<And>b. b \<in> F \<Longrightarrow> bt_size (tag_of vm b) < 2 ^ 64"
  shows "\<exists>r. bt_find_freeseg vm sz = Some r \<and>
           (case r of None \<Rightarrow> \<forall>b \<in> F. bt_size (tag_of vm b) < sz | Some b \<Rightarrow> b \<in> F \<and> sz \<le> bt_size (tag_of vm b))"
proof -
  let ?t = "\<lparr>bt_start = 0, bt_size = sz, bt_type = BT_TYPE_FREE\<rparr>"
  let ?i = "SIZE2ORDER (sz div 2 ^ vm_quantum_shift vm)" and ?P = "\<lambda>b. bt_size (tag_of vm b) \<ge> sz"
  have q: "quantized (2 ^ vm_quantum_shift vm) ?t"
    using sz(3) ix by (simp add: quantized_def index_ok_def)
  have i: "bt_freehead vm sz = Some ?i" "?i < VMEM_MAXORDER"
    using bt_freehead_ok [OF q] size_order_bound(2) [OF q] sz by simp_all
  have bk: "buckets (vm_freelist vm) VMEM_MAXORDER F (size_order vm)"
    using ix by (simp add: index_ok_def)
  have "set (concat (drop ?i (vm_freelist vm))) \<subseteq> set (concat (vm_freelist vm))"
    using set_drop_subset by fastforce
  then have sub: "set (concat (drop ?i (vm_freelist vm))) \<subseteq> F"
    using index_ok_sets(1) [OF ix] by simp
  have late: "b \<in> set (concat (drop ?i (vm_freelist vm)))" if b: "b \<in> F" "sz \<le> bt_size (tag_of vm b)" for b
  proof -
    let ?j = "size_order vm b"
    have "?i \<le> ?j"
      unfolding size_order_def SIZE2ORDER_def using b(2) by (intro log2_mono div_le_mono)
    moreover have "?j < VMEM_MAXORDER" "b \<in> set (vm_freelist vm ! ?j)"
      using bk b(1) by (auto simp: buckets_def)
    ultimately have "vm_freelist vm ! ?j \<in> set (drop ?i (vm_freelist vm))"
      using bk by (auto simp: buckets_def in_set_conv_nth intro!: exI [of _ "?j - ?i"])
    then show ?thesis
      using \<open>b \<in> set (vm_freelist vm ! ?j)\<close> by auto
  qed
  have tags: "\<forall>b \<in> set (concat (drop ?i (vm_freelist vm))). vm_tags vm b \<noteq> None"
  proof
    fix b assume "b \<in> set (concat (drop ?i (vm_freelist vm)))"
    then have "b \<in> F"
      using sub by (rule subsetD [rotated])
    then show "vm_tags vm b \<noteq> None"
      using ix by (auto simp: index_ok_def)
  qed
  have "bt_find_freeseg vm sz = Some (List.find ?P (concat (drop ?i (vm_freelist vm))))"
    using i find_in_lists_find [OF tags] by (simp add: bt_find_freeseg_def)
  moreover have "case List.find ?P (concat (drop ?i (vm_freelist vm))) of
      None \<Rightarrow> \<forall>b \<in> F. bt_size (tag_of vm b) < sz | Some b \<Rightarrow> b \<in> F \<and> sz \<le> bt_size (tag_of vm b)"
  proof (cases "List.find ?P (concat (drop ?i (vm_freelist vm)))")
    case None
    then have "\<forall>b \<in> set (concat (drop ?i (vm_freelist vm))). \<not> sz \<le> bt_size (tag_of vm b)"
      by (simp only: find_None_iff) blast
    then show ?thesis
      using late None by (simp only: option.case) (meson not_le)
  next
    case (Some b)
    then have "b \<in> set (concat (drop ?i (vm_freelist vm)))" "sz \<le> bt_size (tag_of vm b)"
      by (auto simp: find_Some_iff simp del: set_concat)
    then show ?thesis
      using subsetD [OF sub] Some by simp
  qed
  ultimately show ?thesis
    by blast
qed

lemma lookupbusy_find:
  "\<forall>b \<in> set l. \<exists>t. vm_tags vm b = Some t \<and> bt_type t = BT_TYPE_BUSY \<Longrightarrow>
     lookupbusy_loop vm l addr = Some (List.find (\<lambda>b. bt_start (tag_of vm b) = addr) l)"
  by (induction l) (auto simp: tag_of_def)

lemma bt_lookupbusy_ok:
  assumes ix: "index_ok vm F B" and b: "b \<in> B" "bt_start (tag_of vm b) = addr"
    and inj: "\<And>b'. b' \<in> B \<Longrightarrow> bt_start (tag_of vm b') = addr \<Longrightarrow> b' = b"
  shows "bt_lookupbusy vm addr = Some (Some b)"
proof -
  have bk: "buckets (vm_hashlist vm) VMEM_MAXHASH B (start_hash vm)"
    using ix by (simp add: index_ok_def)
  have l: "set (vm_hashlist vm ! bt_hashhead addr) = {b \<in> B. start_hash vm b = bt_hashhead addr}"
    using bk hash_bound [of addr] by (simp add: buckets_def)
  then have "b \<in> set (vm_hashlist vm ! bt_hashhead addr)"
    using b by (simp add: start_hash_def)
  then have "List.find (\<lambda>b. bt_start (tag_of vm b) = addr) (vm_hashlist vm ! bt_hashhead addr) = Some b"
    using inj l b(2) by (cases "List.find (\<lambda>b. bt_start (tag_of vm b) = addr) (vm_hashlist vm ! bt_hashhead addr)")
      (auto simp: find_None_iff find_Some_iff, metis (no_types, lifting) mem_Collect_eq nth_mem)
  moreover have "\<forall>b \<in> set (vm_hashlist vm ! bt_hashhead addr). \<exists>t. vm_tags vm b = Some t \<and> bt_type t = BT_TYPE_BUSY"
    using l ix by (auto simp: index_ok_def)
  ultimately show ?thesis
    using lookupbusy_find by (simp add: bt_lookupbusy_def)
qed

section \<open>Allocation\<close>

lemma total_simps [simp]:
  "total ty [] = 0"
  "total ty (t # ts) = (if bt_type t = ty then bt_size t else 0) + total ty ts"
  "total ty (xs @ ys) = total ty xs + total ty ys"
  by (simp_all add: total_def)

lemma spans_simps [simp]:
  "spans [] = []"
  "spans (t # ts) = (if bt_type t = BT_TYPE_SPAN then t # spans ts else spans ts)"
  "spans (xs @ ys) = spans xs @ spans ys"
  by (simp_all add: spans_def bt_isspan_def)

lemma total_mem: "t \<in> set ts \<Longrightarrow> bt_type t = ty \<Longrightarrow> bt_size t \<le> total ty ts"
  by (induction ts) auto

lemma vmem_invD:
  assumes "vmem_inv vm"
  shows "index_ok vm (of_type vm BT_TYPE_FREE) (of_type vm BT_TYPE_BUSY)" and "distinct (vm_seglist vm)"
    and "dom (vm_tags vm) = set (vm_seglist vm)" and "segs_ok (segs vm)" and "disjoint_rngs (spans (segs vm))"
    and "\<And>t. t \<in> set (segs vm) \<Longrightarrow> quantized (vm_quantum vm) t" and "vm_size vm = total BT_TYPE_SPAN (segs vm)"
    and "vm_inuse vm = total BT_TYPE_BUSY (segs vm)" and "total BT_TYPE_SPAN (segs vm) < 2 ^ 64"
  using assms unfolding vmem_inv_def by blast+

lemma vmem_quantum: "vmem_inv vm \<Longrightarrow> vm_quantum vm = 2 ^ vm_quantum_shift vm" "vmem_inv vm \<Longrightarrow> vm_quantum_shift vm < 64"
  using vmem_invD(1) unfolding index_ok_def by blast+

lemma vmem_tag:
  assumes "vmem_inv vm" and "b \<in> set (vm_seglist vm)"
  shows "vm_tags vm b = Some (tag_of vm b)" and "tag_of vm b \<in> set (segs vm)"
proof -
  have "b \<in> dom (vm_tags vm)"
    using assms vmem_invD(3) [OF assms(1)] by simp
  then show "vm_tags vm b = Some (tag_of vm b)"
    by (auto simp: tag_of_def)
  show "tag_of vm b \<in> set (segs vm)"
    using assms(2) by (simp add: segs_def)
qed

text \<open>The segments in use fit into the spans.\<close>

lemma busy_le_spans:
  assumes "segs_ok ts"
  shows "total BT_TYPE_BUSY ts + total BT_TYPE_FREE ts = total BT_TYPE_SPAN ts"
proof -
  have "seg_run (p, e, f) ts = Some (q, q, g) \<Longrightarrow> p \<le> e \<Longrightarrow>
      total BT_TYPE_BUSY ts + total BT_TYPE_FREE ts = total BT_TYPE_SPAN ts + (e - p)" for p e f q g
  proof (induction ts arbitrary: p e f)
    case (Cons b ts)
    then obtain p1 e1 f1 where st: "seg_step (p, e, f) b = Some (p1, e1, f1)" "seg_run (p1, e1, f1) ts = Some (q, q, g)"
      by (auto simp: bind_eq_Some_conv)
    have "p1 \<le> e1"
      using st(1) by (auto split: if_splits bt_type_t.splits)
    then have "total BT_TYPE_BUSY ts + total BT_TYPE_FREE ts = total BT_TYPE_SPAN ts + (e1 - p1)"
      using Cons.IH [OF st(2)] by simp
    then show ?case
      using st(1) by (auto split: if_splits bt_type_t.splits)
  qed simp
  then show ?thesis
    using assms by (fastforce simp: segs_ok_def)
qed

lemma seg_free_range:
  assumes inv: "vmem_inv vm" and b: "b \<in> of_type vm BT_TYPE_FREE" and s: "s \<in> allocated vm"
  shows "rng (tag_of vm b) \<inter> {fst s..<fst s + snd s} = {}"
proof -
  have sb: "b \<in> set (vm_seglist vm)" and fb: "bt_type (tag_of vm b) = BT_TYPE_FREE"
    using b by (simp_all add: of_type_def)
  obtain t where t: "t \<in> set (segs vm)" "bt_type t = BT_TYPE_BUSY" "s = (bt_start t, bt_size t)"
    using s by (auto simp: allocated_def)
  have "sorted_wrt (\<lambda>a b. rng a \<inter> rng b = {}) (segments (segs vm))"
    using segs_ok_disjoint(1) [OF vmem_invD(4,5) [OF inv]] by (simp add: disjoint_rngs_def)
  moreover have "tag_of vm b \<in> set (segments (segs vm))" "t \<in> set (segments (segs vm))"
    using vmem_tag(2) [OF inv sb] t fb by (auto simp: segments_def bt_isspan_def)
  moreover have "tag_of vm b \<noteq> t"
    using fb t(2) by auto
  ultimately have "rng (tag_of vm b) \<inter> rng t = {}"
    unfolding sorted_wrt_iff_nth_less in_set_conv_nth by (metis inf_commute linorder_neqE_nat)
  then show ?thesis
    using t(3) by (simp add: rng_def)
qed

lemma seg_in_span:
  assumes inv: "vmem_inv vm" and b: "b \<in> set (vm_seglist vm)" "bt_type (tag_of vm b) \<noteq> BT_TYPE_SPAN"
  shows "\<exists>s \<in> arena_spans vm. rng (tag_of vm b) \<subseteq> rng s"
  using segs_ok_disjoint(2) [OF vmem_invD(4,5) [OF inv]] vmem_tag(2) [OF inv b(1)] b(2)
  by (auto simp: arena_spans_def segments_def bt_isspan_def)

lemma insert_after_split: "b \<notin> set xs \<Longrightarrow> insert_after n b (xs @ b # ys) = xs @ b # n # ys"
  by (induction xs) auto

text \<open>What changes when the free tag \<open>b\<close> becomes busy, in whole or up to the size \<open>sz\<close>.\<close>

lemma take_tag_inv:
  assumes inv: "vmem_inv vm" and b: "b \<in> of_type vm BT_TYPE_FREE"
    and ix: "index_ok vm' (of_type vm BT_TYPE_FREE - {b}) (insert b (of_type vm BT_TYPE_BUSY))"
    and vm': "vm_seglist vm' = vm_seglist vm" "vm_tags vm' = (vm_tags vm)(b \<mapsto> (tag_of vm b)\<lparr>bt_type := BT_TYPE_BUSY\<rparr>)"
      "vm_size vm' = vm_size vm" "vm_inuse vm' = vm_inuse vm + bt_size (tag_of vm b)" "vm_quantum vm' = vm_quantum vm"
  shows "vmem_inv vm'" and "arena_spans vm' = arena_spans vm"
    and "allocated vm' = insert (bt_start (tag_of vm b), bt_size (tag_of vm b)) (allocated vm)"
proof -
  let ?t = "tag_of vm b" and ?t' = "(tag_of vm b)\<lparr>bt_type := BT_TYPE_BUSY\<rparr>"
  have sb: "b \<in> set (vm_seglist vm)" and fb: "bt_type ?t = BT_TYPE_FREE"
    using b by (simp_all add: of_type_def)
  obtain xs ys where split: "vm_seglist vm = xs @ b # ys" and nin: "b \<notin> set xs" "b \<notin> set ys"
    using split_list [OF sb] vmem_invD(2) [OF inv] by fastforce
  define XS YS where "XS = map (tag_of vm) xs" and "YS = map (tag_of vm) ys"
  have same: "tag_of vm' x = (if x = b then ?t' else tag_of vm x)" for x
    by (simp add: tag_of_def vm'(2))
  have S: "segs vm = XS @ ?t # YS"
    by (simp add: segs_def split XS_def YS_def)
  have S': "segs vm' = XS @ ?t' # YS"
    using nin by (simp add: segs_def vm'(1) split XS_def YS_def same)
  have "of_type vm' BT_TYPE_FREE = of_type vm BT_TYPE_FREE - {b}"
    "of_type vm' BT_TYPE_BUSY = insert b (of_type vm BT_TYPE_BUSY)"
    using sb fb by (auto simp: of_type_def vm'(1) same)
  moreover have "dom (vm_tags vm') = set (vm_seglist vm')"
    using vmem_invD(3) [OF inv] sb by (auto simp: vm')
  moreover have "segs_ok (segs vm')"
    using segs_ok_take(1) vmem_invD(4) [OF inv] fb unfolding S S' by blast
  moreover have sp: "spans (segs vm') = spans (segs vm)" "total BT_TYPE_SPAN (segs vm') = total BT_TYPE_SPAN (segs vm)"
    using fb by (simp_all add: S S')
  moreover have "\<forall>t \<in> set (segs vm'). quantized (vm_quantum vm') t"
    using vmem_invD(6) [OF inv] by (auto simp: S S' vm'(5) quantized_def)
  ultimately show "vmem_inv vm'"
    using ix vmem_invD [OF inv] vm' fb unfolding vmem_inv_def by (simp add: S S')
  show "arena_spans vm' = arena_spans vm"
    by (simp add: arena_spans_def sp)
  show "allocated vm' = insert (bt_start ?t, bt_size ?t) (allocated vm)"
    using fb by (auto simp: allocated_def S S' intro: exI [of _ ?t'])
qed

lemma split_tag_inv:
  assumes inv: "vmem_inv vm" and b: "b \<in> of_type vm BT_TYPE_FREE" and n: "vm_tags vm n = None"
    and sz: "0 < sz" "sz < bt_size (tag_of vm b)" "vm_quantum vm dvd sz"
    and ix: "index_ok vm' (insert n (of_type vm BT_TYPE_FREE - {b})) (insert b (of_type vm BT_TYPE_BUSY))"
    and vm': "vm_seglist vm' = insert_after n b (vm_seglist vm)"
      "vm_tags vm' = (vm_tags vm)(n \<mapsto> \<lparr>bt_start = bt_start (tag_of vm b) + sz, bt_size = bt_size (tag_of vm b) - sz,
         bt_type = BT_TYPE_FREE\<rparr>, b \<mapsto> (tag_of vm b)\<lparr>bt_type := BT_TYPE_BUSY, bt_size := sz\<rparr>)"
      "vm_size vm' = vm_size vm" "vm_inuse vm' = vm_inuse vm + sz" "vm_quantum vm' = vm_quantum vm"
  shows "vmem_inv vm'" and "arena_spans vm' = arena_spans vm"
    and "allocated vm' = insert (bt_start (tag_of vm b), sz) (allocated vm)"
proof -
  let ?t = "tag_of vm b" and ?t' = "(tag_of vm b)\<lparr>bt_type := BT_TYPE_BUSY, bt_size := sz\<rparr>"
  let ?n = "\<lparr>bt_start = bt_start ?t + sz, bt_size = bt_size ?t - sz, bt_type = BT_TYPE_FREE\<rparr>"
  have sb: "b \<in> set (vm_seglist vm)" and fb: "bt_type ?t = BT_TYPE_FREE"
    using b by (simp_all add: of_type_def)
  have nn: "n \<notin> set (vm_seglist vm)" "n \<noteq> b"
    using n vmem_invD(3) [OF inv] sb by auto
  obtain xs ys where split: "vm_seglist vm = xs @ b # ys" and nin: "b \<notin> set xs" "b \<notin> set ys"
    using split_list [OF sb] vmem_invD(2) [OF inv] by fastforce
  have seg': "vm_seglist vm' = xs @ b # n # ys"
    using insert_after_split [OF nin(1)] by (simp add: vm'(1) split)
  define XS YS where "XS = map (tag_of vm) xs" and "YS = map (tag_of vm) ys"
  have same: "tag_of vm' x = (if x = b then ?t' else if x = n then ?n else tag_of vm x)" for x
    by (simp add: tag_of_def vm'(2))
  have S: "segs vm = XS @ ?t # YS"
    by (simp add: segs_def split XS_def YS_def)
  have "map (tag_of vm') xs = XS" "map (tag_of vm') ys = YS"
    using nin nn(1) split by (auto simp: XS_def YS_def same)
  then have S': "segs vm' = XS @ ?t' # ?n # YS"
    using nn(2) by (simp add: segs_def seg' same)
  have tin: "?t \<in> set (segs vm)"
    by (simp add: S)
  have "of_type vm' BT_TYPE_FREE = insert n (of_type vm BT_TYPE_FREE - {b})"
    "of_type vm' BT_TYPE_BUSY = insert b (of_type vm BT_TYPE_BUSY)"
    using nn fb nin split by (auto simp: of_type_def seg' same)
  moreover have "distinct (vm_seglist vm')" "dom (vm_tags vm') = set (vm_seglist vm')"
    using vmem_invD(2,3) [OF inv] nn by (auto simp: vm'(2) seg' split)
  moreover have "segs_ok (segs vm')"
    using segs_ok_take(2) [of XS ?t YS sz] vmem_invD(4) [OF inv] fb sz(1,2) unfolding S S' by blast
  moreover have sp: "spans (segs vm') = spans (segs vm)" "total BT_TYPE_SPAN (segs vm') = total BT_TYPE_SPAN (segs vm)"
    using fb by (simp_all add: S S')
  moreover have "quantized (vm_quantum vm) ?t"
    using vmem_invD(6) [OF inv tin] .
  then have "quantized (vm_quantum vm) ?t'" "quantized (vm_quantum vm) ?n"
    using sz by (simp_all add: quantized_def)
  then have "\<forall>t \<in> set (segs vm'). quantized (vm_quantum vm') t"
    using vmem_invD(6) [OF inv] by (auto simp: S S' vm'(5))
  ultimately show "vmem_inv vm'"
    using ix vmem_invD [OF inv] vm' fb unfolding vmem_inv_def by (simp add: S S')
  show "arena_spans vm' = arena_spans vm"
    by (simp add: arena_spans_def sp)
  show "allocated vm' = insert (bt_start ?t, sz) (allocated vm)"
    using fb by (auto simp: allocated_def S S' intro: exI [of _ ?t'])
qed

lemma free_tag_inuse:
  assumes inv: "vmem_inv vm" and b: "b \<in> of_type vm BT_TYPE_FREE"
  shows "vm_inuse vm + bt_size (tag_of vm b) < 2 ^ 64"
proof -
  have "tag_of vm b \<in> set (segs vm)" "bt_type (tag_of vm b) = BT_TYPE_FREE"
    using vmem_tag(2) [OF inv] b by (auto simp: of_type_def)
  then have "bt_size (tag_of vm b) \<le> total BT_TYPE_FREE (segs vm)"
    by (rule total_mem)
  then show ?thesis
    using busy_le_spans [OF vmem_invD(4) [OF inv]] vmem_invD(8,9) [OF inv] by linarith
qed

lemma vmem_take:
  assumes inv: "vmem_inv vm" and b: "b \<in> of_type vm BT_TYPE_FREE" and n: "vm_tags vm n = None"
    and ix: "index_ok vm1 (of_type vm BT_TYPE_FREE - {b}) (of_type vm BT_TYPE_BUSY)"
    and vm1: "vm1 = vm\<lparr>vm_tags := (vm_tags vm)(n \<mapsto> z), vm_freelist := fl\<rparr>"
  shows "\<exists>vm'. bt_insbusy (set_tag vm1 b ((tag_of vm b)\<lparr>bt_type := BT_TYPE_BUSY\<rparr>)) b = Some vm' \<and>
           vmem_inv (bt_pool_free vm' n) \<and> arena_spans (bt_pool_free vm' n) = arena_spans vm \<and>
           allocated (bt_pool_free vm' n) = insert (bt_start (tag_of vm b), bt_size (tag_of vm b)) (allocated vm) \<and>
           vm_tags vm' b = Some ((tag_of vm b)\<lparr>bt_type := BT_TYPE_BUSY\<rparr>) \<and> n \<noteq> b"
proof -
  let ?F = "of_type vm BT_TYPE_FREE" and ?B = "of_type vm BT_TYPE_BUSY" and ?t = "tag_of vm b"
  let ?vm2 = "set_tag vm1 b (?t\<lparr>bt_type := BT_TYPE_BUSY\<rparr>)"
  have nb: "n \<noteq> b" "n \<notin> ?F" "n \<notin> ?B" "b \<notin> ?B"
    using n b vmem_invD(3) [OF inv] by (auto simp: of_type_def)
  have "index_ok ?vm2 (?F - {b}) ?B"
    by (rule index_ok_tags [OF ix]) (use nb in \<open>auto simp: set_tag_def vm1\<close>)
  then obtain hl where hl: "bt_insbusy ?vm2 b = Some (?vm2\<lparr>vm_hashlist := hl, vm_inuse := vm_inuse ?vm2 + bt_size ?t\<rparr>)"
    "index_ok (?vm2\<lparr>vm_hashlist := hl, vm_inuse := vm_inuse ?vm2 + bt_size ?t\<rparr>) (?F - {b}) (insert b ?B)"
    using bt_insbusy_ok [of ?vm2 "?F - {b}" ?B b "?t\<lparr>bt_type := BT_TYPE_BUSY\<rparr>"] nb free_tag_inuse [OF inv b]
    by (auto simp: set_tag_def vm1)
  let ?vm3 = "?vm2\<lparr>vm_hashlist := hl, vm_inuse := vm_inuse ?vm2 + bt_size ?t\<rparr>"
  let ?vm' = "bt_pool_free ?vm3 n"
  have ix': "index_ok ?vm' (?F - {b}) (insert b ?B)"
    by (rule index_ok_tags [OF hl(2)]) (use nb in \<open>auto simp: bt_pool_free_def\<close>)
  have tags: "vm_tags ?vm' = (vm_tags vm)(b \<mapsto> ?t\<lparr>bt_type := BT_TYPE_BUSY\<rparr>)"
    using nb(1) n by (auto simp: bt_pool_free_def set_tag_def vm1 fun_eq_iff)
  note res = take_tag_inv [OF inv b ix' _ tags]
  show ?thesis
    using res hl(1) nb(1) by (auto simp: bt_pool_free_def set_tag_def vm1)
qed

lemma vmem_split:
  assumes inv: "vmem_inv vm" and b: "b \<in> of_type vm BT_TYPE_FREE" and n: "vm_tags vm n = None"
    and sz: "0 < sz" "sz < bt_size (tag_of vm b)" "vm_quantum vm dvd sz"
    and ix: "index_ok vm1 (of_type vm BT_TYPE_FREE - {b}) (of_type vm BT_TYPE_BUSY)"
    and vm1: "vm1 = vm\<lparr>vm_tags := (vm_tags vm)(n \<mapsto> z), vm_freelist := fl\<rparr>"
  defines "free \<equiv> \<lparr>bt_start = uadd (bt_start (tag_of vm b)) sz, bt_size = usub (bt_size (tag_of vm b)) sz,
                    bt_type = BT_TYPE_FREE\<rparr>"
    and "busy \<equiv> (tag_of vm b)\<lparr>bt_type := BT_TYPE_BUSY, bt_size := sz\<rparr>"
  shows "\<exists>vm'. do {
             vm \<leftarrow> bt_insfree (set_tag (set_tag vm1 n free) b busy) n;
             vm \<leftarrow> bt_insseg_after vm n b;
             bt_insbusy vm b } = Some vm' \<and>
           vmem_inv vm' \<and> arena_spans vm' = arena_spans vm \<and>
           allocated vm' = insert (bt_start (tag_of vm b), sz) (allocated vm) \<and> vm_tags vm' b = Some busy"
proof -
  let ?F = "of_type vm BT_TYPE_FREE" and ?B = "of_type vm BT_TYPE_BUSY" and ?t = "tag_of vm b"
  let ?vm2 = "set_tag (set_tag vm1 n free) b busy"
  have sb: "b \<in> set (vm_seglist vm)" and fb: "bt_type ?t = BT_TYPE_FREE"
    using b by (simp_all add: of_type_def)
  have nb: "n \<noteq> b" "n \<notin> ?F" "n \<notin> ?B" "b \<notin> ?B"
    using n b vmem_invD(3) [OF inv] by (auto simp: of_type_def)
  have tin: "?t \<in> set (segs vm)"
    by (rule vmem_tag(2) [OF inv sb])
  note bnd = segs_ok_bounds [OF vmem_invD(4) [OF inv] tin]
  have free: "free = \<lparr>bt_start = bt_start ?t + sz, bt_size = bt_size ?t - sz, bt_type = BT_TYPE_FREE\<rparr>"
    using bnd sz unfolding free_def by (simp add: uadd_exact usub_exact)
  have qt: "quantized (vm_quantum vm) ?t"
    by (rule vmem_invD(6) [OF inv tin])
  have ix2: "index_ok ?vm2 (?F - {b}) ?B"
    by (rule index_ok_tags [OF ix]) (use nb in \<open>auto simp: set_tag_def vm1\<close>)
  have "vm_tags ?vm2 n = Some free" "bt_type free = BT_TYPE_FREE" "quantized (vm_quantum ?vm2) free"
    "0 < bt_size free" "bt_size free < 2 ^ 64"
    using nb(1) qt sz bnd by (auto simp: set_tag_def vm1 free quantized_def)
  then obtain fl' where fl': "bt_insfree ?vm2 n = Some (?vm2\<lparr>vm_freelist := fl'\<rparr>)"
    "index_ok (?vm2\<lparr>vm_freelist := fl'\<rparr>) (insert n (?F - {b})) ?B"
    using bt_insfree_ok [OF ix2, of n free] nb by auto
  let ?vm3 = "?vm2\<lparr>vm_freelist := fl', vm_seglist := insert_after n b (vm_seglist vm)\<rparr>"
  have after: "bt_insseg_after (?vm2\<lparr>vm_freelist := fl'\<rparr>) n b = Some ?vm3"
    using sb by (simp add: bt_insseg_after_def set_tag_def vm1)
  have ix3: "index_ok ?vm3 (insert n (?F - {b})) ?B"
    by (rule index_ok_tags [OF fl'(2)]) auto
  have "vm_tags ?vm3 b = Some busy" "bt_type busy = BT_TYPE_BUSY" "bt_size busy = sz" "vm_inuse ?vm3 = vm_inuse vm"
    by (simp_all add: set_tag_def busy_def vm1)
  moreover have "vm_inuse vm + sz < 2 ^ 64"
    using free_tag_inuse [OF inv b] sz(2) by linarith
  ultimately obtain hl where hl: "bt_insbusy ?vm3 b = Some (?vm3\<lparr>vm_hashlist := hl, vm_inuse := vm_inuse vm + sz\<rparr>)"
    "index_ok (?vm3\<lparr>vm_hashlist := hl, vm_inuse := vm_inuse vm + sz\<rparr>) (insert n (?F - {b})) (insert b ?B)"
    using bt_insbusy_ok [OF ix3, of b busy] nb by auto
  let ?vm' = "?vm3\<lparr>vm_hashlist := hl, vm_inuse := vm_inuse vm + sz\<rparr>"
  have tags: "vm_tags ?vm' = (vm_tags vm)(n \<mapsto> \<lparr>bt_start = bt_start ?t + sz, bt_size = bt_size ?t - sz,
       bt_type = BT_TYPE_FREE\<rparr>, b \<mapsto> ?t\<lparr>bt_type := BT_TYPE_BUSY, bt_size := sz\<rparr>)"
    using nb(1) by (auto simp: set_tag_def busy_def free vm1 fun_eq_iff)
  note res = split_tag_inv [OF inv b n sz hl(2) _ tags]
  show ?thesis
    using res fl'(1) after hl(1) by (auto simp: set_tag_def vm1 busy_def)
qed

lemma vmem_found:
  assumes inv: "vmem_inv vm" and n: "vm_tags vm n = None" and b: "b \<in> of_type vm BT_TYPE_FREE"
    and sz: "0 < sz" "vm_quantum vm dvd sz" "sz \<le> bt_size (tag_of vm b)" and tag: "tag = tag_of vm b"
    and ix: "index_ok vm2 (of_type vm BT_TYPE_FREE - {b}) (of_type vm BT_TYPE_BUSY)"
    and vm2: "vm2 = vm\<lparr>vm_tags := (vm_tags vm)(n \<mapsto> z), vm_freelist := fl\<rparr>"
  obtains vm' tag' where
    "(if bt_size tag > sz \<and> usub (bt_size tag) sz \<ge> vm_quantum vm2 then
        do {
          let vm = set_tag vm2 n \<lparr>bt_start = uadd (bt_start tag) sz, bt_size = usub (bt_size tag) sz, bt_type = BT_TYPE_FREE\<rparr>;
          let vm = set_tag vm b (tag\<lparr>bt_type := BT_TYPE_BUSY, bt_size := sz\<rparr>);
          vm \<leftarrow> bt_insfree vm n;
          vm \<leftarrow> bt_insseg_after vm n b;
          bt_insbusy vm b
        }
      else do {
        let vm = set_tag vm2 b (tag\<lparr>bt_type := BT_TYPE_BUSY\<rparr>);
        vm \<leftarrow> bt_insbusy vm b;
        Some (bt_pool_free vm n)
      }) = Some vm'"
    and "vmem_inv vm'" and "arena_spans vm' = arena_spans vm" and "allocated vm' = insert (bt_start tag, sz) (allocated vm)"
    and "vm_tags vm' b = Some tag'" and "bt_size tag' = sz" and "bt_type tag' = BT_TYPE_BUSY" and "bt_start tag' = bt_start tag"
proof (cases "sz < bt_size tag")
  case True
  have "tag_of vm b \<in> set (segs vm)"
    using vmem_tag(2) [OF inv] b by (simp add: of_type_def)
  then have q: "quantized (vm_quantum vm) tag" "bt_size tag < 2 ^ 64"
    using vmem_invD(6) [OF inv] segs_ok_bounds(2) [OF vmem_invD(4) [OF inv], of tag] tag by auto
  then have "vm_quantum vm \<le> bt_size tag - sz"
    using True sz(2) by (intro dvd_imp_le) (simp_all add: quantized_def)
  then have cond: "bt_size tag > sz \<and> usub (bt_size tag) sz \<ge> vm_quantum vm2"
    using True q(2) by (simp add: usub_exact vm2)
  show thesis
    using vmem_split [OF inv b n sz(1) _ sz(2) ix vm2] True that cond unfolding tag by auto
next
  case False
  then have eq: "bt_size tag = sz"
    using sz(3) tag by simp
  have bn: "b \<noteq> n"
    using b n vmem_tag(1) [OF inv, of b] by (auto simp: of_type_def)
  obtain vm3 where v: "bt_insbusy (set_tag vm2 b (tag\<lparr>bt_type := BT_TYPE_BUSY\<rparr>)) b = Some vm3"
    "vmem_inv (bt_pool_free vm3 n)" "arena_spans (bt_pool_free vm3 n) = arena_spans vm"
    "allocated (bt_pool_free vm3 n) = insert (bt_start tag, bt_size tag) (allocated vm)"
    "vm_tags vm3 b = Some (tag\<lparr>bt_type := BT_TYPE_BUSY\<rparr>)"
    using vmem_take [OF inv b n ix vm2] unfolding tag by blast
  have "vm_tags (bt_pool_free vm3 n) b = Some (tag\<lparr>bt_type := BT_TYPE_BUSY\<rparr>)"
    using v(5) bn by (simp add: bt_pool_free_def)
  then show thesis
    using v eq False by (intro that [where tag' = "tag\<lparr>bt_type := BT_TYPE_BUSY\<rparr>" and vm' = "bt_pool_free vm3 n"]) simp_all
qed

lemma align_quantum:
  assumes inv: "vmem_inv vm" and sz0: "0 < sz0" "sz0 + vm_quantum vm \<le> 2 ^ 63"
  shows "0 < align sz0 (vm_quantum vm)" and "vm_quantum vm dvd align sz0 (vm_quantum vm)" and "align sz0 (vm_quantum vm) < 2 ^ 64"
proof -
  have q: "vm_quantum vm = 2 ^ vm_quantum_shift vm" "sz0 + vm_quantum vm \<le> 2 ^ 64"
    using vmem_quantum(1) [OF inv] sz0(2) by simp_all
  show "0 < align sz0 (vm_quantum vm)" "vm_quantum vm dvd align sz0 (vm_quantum vm)"
    using align_le [OF q] align_dvd [OF q] sz0(1) by linarith+
  have "align sz0 (vm_quantum vm) < sz0 + vm_quantum vm"
    unfolding align_power2 [OF q] using sz0(1) q(1)
    by (metis add_diff_cancel_left' diff_less div_times_less_eq_dividend le_less_trans less_numeral_extra(1)
        add_pos_pos zero_less_power zero_less_numeral)
  then show "align sz0 (vm_quantum vm) < 2 ^ 64"
    using sz0(2) by simp
qed

text \<open>The search for a free segment, with the fresh tag \<open>n\<close> already taken from the pool.\<close>

lemma vmem_search:
  assumes inv: "vmem_inv vm" and n: "vm_tags vm n = None" and sz: "0 < sz" "vm_quantum vm dvd sz" "sz < 2 ^ 64"
    and vm1: "vm1 = vm\<lparr>vm_tags := (vm_tags vm)(n \<mapsto> z)\<rparr>"
  shows "index_ok vm1 (of_type vm BT_TYPE_FREE) (of_type vm BT_TYPE_BUSY)"
    and "\<exists>r. bt_find_freeseg vm1 sz = Some r \<and>
      (case r of None \<Rightarrow> \<forall>b \<in> of_type vm BT_TYPE_FREE. bt_size (tag_of vm b) < sz
               | Some b \<Rightarrow> b \<in> of_type vm BT_TYPE_FREE \<and> sz \<le> bt_size (tag_of vm b))"
proof -
  let ?F = "of_type vm BT_TYPE_FREE" and ?B = "of_type vm BT_TYPE_BUSY"
  have nn: "n \<notin> ?F" "n \<notin> ?B"
    using n vmem_invD(3) [OF inv] by (auto simp: of_type_def)
  show ix1: "index_ok vm1 ?F ?B"
    by (rule index_ok_tags [OF vmem_invD(1) [OF inv]]) (use nn in \<open>auto simp: vm1\<close>)
  have tag1: "tag_of vm1 b = tag_of vm b" if "b \<in> ?F" for b
    using that nn(1) by (auto simp: tag_of_def vm1)
  have bnd: "bt_size (tag_of vm b) < 2 ^ 64" if "b \<in> ?F" for b
    using that segs_ok_bounds [OF vmem_invD(4) [OF inv], of "tag_of vm b"] vmem_tag(2) [OF inv, of b]
    by (auto simp: of_type_def)
  obtain r where r: "bt_find_freeseg vm1 sz = Some r"
    "case r of None \<Rightarrow> \<forall>b \<in> ?F. bt_size (tag_of vm1 b) < sz | Some b \<Rightarrow> b \<in> ?F \<and> sz \<le> bt_size (tag_of vm1 b)"
    using bt_find_freeseg_ok [OF ix1 sz(1,3)] sz(2) bnd tag1 by (auto simp: vm1)
  then show "\<exists>r. bt_find_freeseg vm1 sz = Some r \<and>
      (case r of None \<Rightarrow> \<forall>b \<in> ?F. bt_size (tag_of vm b) < sz | Some b \<Rightarrow> b \<in> ?F \<and> sz \<le> bt_size (tag_of vm b))"
    using tag1 by (auto split: option.splits)
qed

lemma vmem_alloc_ok:
  assumes inv: "vmem_inv vm" and n: "vm_tags vm n = None"
    and sz0: "0 < sz0" "sz0 + vm_quantum vm \<le> 2 ^ 63" and sz_def: "sz = align sz0 (vm_quantum vm)"
  shows "(vmem_alloc vm (Some n) sz0 = Some (Inl ENOMEM, vm) \<and> (\<forall>b \<in> of_type vm BT_TYPE_FREE. bt_size (tag_of vm b) < sz)) \<or>
    (\<exists>b vm'. vmem_alloc vm (Some n) sz0 = Some (Inr (bt_start (tag_of vm b)), vm') \<and> vmem_inv vm' \<and>
       arena_spans vm' = arena_spans vm \<and> allocated vm' = insert (bt_start (tag_of vm b), sz) (allocated vm) \<and>
       b \<in> of_type vm BT_TYPE_FREE \<and> sz \<le> bt_size (tag_of vm b))"
proof -
  note sz = align_quantum [OF inv sz0, folded sz_def]
  define z where "z = \<lparr>bt_start = 0, bt_size = 0, bt_type = BT_TYPE_FREE\<rparr>"
  define vm1 where "vm1 = vm\<lparr>vm_tags := (vm_tags vm)(n \<mapsto> z)\<rparr>"
  have pool: "bt_pool_alloc vm n z = Some vm1" "bt_pool_free vm1 n = vm"
    using n by (simp_all add: bt_pool_alloc_def bt_pool_free_def vm1_def fun_upd_idem)
  note search = vmem_search [OF inv n sz vm1_def]
  obtain r where r: "bt_find_freeseg vm1 sz = Some r"
    "case r of None \<Rightarrow> \<forall>b \<in> of_type vm BT_TYPE_FREE. bt_size (tag_of vm b) < sz
             | Some b \<Rightarrow> b \<in> of_type vm BT_TYPE_FREE \<and> sz \<le> bt_size (tag_of vm b)"
    using search(2) by blast
  show ?thesis
  proof (cases r)
    case None
    then show ?thesis
      using r sz(1) pool by (simp add: vmem_alloc_def flip: sz_def z_def)
  next
    case (Some b)
    then have b: "b \<in> of_type vm BT_TYPE_FREE" "sz \<le> bt_size (tag_of vm b)"
      using r(2) by auto
    obtain fl where fl: "bt_remfree vm1 b = Some (vm1\<lparr>vm_freelist := fl\<rparr>)"
      "index_ok (vm1\<lparr>vm_freelist := fl\<rparr>) (of_type vm BT_TYPE_FREE - {b}) (of_type vm BT_TYPE_BUSY)"
      using bt_remfree_ok [OF search(1) b(1)] by auto
    define vm2 where "vm2 = vm1\<lparr>vm_freelist := fl\<rparr>"
    have vm2: "vm2 = vm\<lparr>vm_tags := (vm_tags vm)(n \<mapsto> z), vm_freelist := fl\<rparr>"
      by (simp add: vm2_def vm1_def)
    have tb: "vm_tags vm2 b = Some (tag_of vm b)"
      using vmem_tag(1) [OF inv, of b] b(1) n by (auto simp: vm2 of_type_def)
    show ?thesis
      by (rule vmem_found [OF inv n b(1) sz(1,2) b(2) refl fl(2) [folded vm2_def] vm2])
        (use sz(1) pool r(1) Some fl(1) tb b in \<open>auto simp: vmem_alloc_def simp flip: sz_def z_def vm2_def\<close>)
  qed
qed

end
