(* ===== verification/Regions.thy ===== *)
theory Regions
  imports Prelude
begin

text \<open>
  The contract that an allocator of ranges of addresses offers to its clients.  The allocators of the
  kernel provide it; what a client may conclude from it is proved here once.
\<close>

datatype region_event =
    Taken nat nat
  | Released nat nat
  | Refused

definition region :: "nat \<times> nat \<Rightarrow> nat set" where
  "region r = {fst r..<fst r + snd r}"

definition separated :: "(nat \<times> nat) set \<Rightarrow> bool" where
  "separated R \<longleftrightarrow> (\<forall>r \<in> R. \<forall>r' \<in> R. r \<noteq> r' \<longrightarrow> region r \<inter> region r' = {})"

locale region_allocator =
  fixes inv :: "'s \<Rightarrow> bool" and space :: "'s \<Rightarrow> nat set" and used :: "'s \<Rightarrow> (nat \<times> nat) set"
    and step :: "'s \<Rightarrow> region_event \<Rightarrow> 's \<Rightarrow> bool"
  assumes step_inv: "inv s \<Longrightarrow> step s e s' \<Longrightarrow> inv s' \<and> space s' = space s"
    and taken: "inv s \<Longrightarrow> step s (Taken a n) s' \<Longrightarrow>
      0 < n \<and> region (a, n) \<subseteq> space s \<and> (\<forall>r \<in> used s. region (a, n) \<inter> region r = {}) \<and> used s' = insert (a, n) (used s)"
    and released: "inv s \<Longrightarrow> step s (Released a n) s' \<Longrightarrow> (a, n) \<in> used s \<and> used s' = used s - {(a, n)}"
    and refused: "inv s \<Longrightarrow> step s Refused s' \<Longrightarrow> used s' = used s"
begin

inductive trace :: "'s \<Rightarrow> region_event list \<Rightarrow> 's \<Rightarrow> bool" where
  trace_nil: "trace s [] s"
| trace_cons: "step s e s1 \<Longrightarrow> trace s1 es s' \<Longrightarrow> trace s (e # es) s'"

inductive_cases trace_consE: "trace s (e # es) s'"

lemma trace_appendE:
  assumes "trace s (xs @ ys) s'"
  obtains t where "trace s xs t" and "trace t ys s'"
  using assms
proof (induction xs arbitrary: s thesis)
  case Nil
  then show ?case
    by (auto intro: trace_nil)
next
  case (Cons e es)
  from Cons.prems(2) obtain s1 where "step s e s1" "trace s1 (es @ ys) s'"
    by (auto elim: trace_consE)
  then show ?case
    using Cons.IH [of s1] Cons.prems(1) by (blast intro: trace_cons)
qed

lemma trace_inv: "trace s es s' \<Longrightarrow> inv s \<Longrightarrow> inv s' \<and> space s' = space s"
  by (induction rule: trace.induct) (auto dest: step_inv)

lemma step_separated:
  assumes "inv s" and "step s e s'" and "separated (used s)" and "\<forall>r \<in> used s. region r \<subseteq> space s"
  shows "separated (used s')" and "\<forall>r \<in> used s'. region r \<subseteq> space s'"
proof -
  have *: "separated (used s') \<and> (\<forall>r \<in> used s'. region r \<subseteq> space s')"
  proof (cases e)
    case (Taken a n)
    then show ?thesis
      using taken [of s a n s'] step_inv [OF assms(1,2)] assms by (auto simp: separated_def disjoint_iff)
  next
    case (Released a n)
    then show ?thesis
      using released [of s a n s'] step_inv [OF assms(1,2)] assms by (auto simp: separated_def)
  next
    case Refused
    then show ?thesis
      using refused [of s s'] step_inv [OF assms(1,2)] assms by simp
  qed
  show "separated (used s')"
    using * by blast
  show "\<forall>r \<in> used s'. region r \<subseteq> space s'"
    using * by blast
qed

lemma trace_separated:
  "trace s es s' \<Longrightarrow> inv s \<Longrightarrow> separated (used s) \<Longrightarrow> \<forall>r \<in> used s. region r \<subseteq> space s \<Longrightarrow>
     separated (used s') \<and> (\<forall>r \<in> used s'. region r \<subseteq> space s')"
proof (induction rule: trace.induct)
  case (trace_cons s e s1 es s')
  have "inv s1"
    using step_inv [OF trace_cons.prems(1) trace_cons.hyps(1)] by simp
  then show ?case
    using trace_cons.IH step_separated [OF trace_cons.prems(1) trace_cons.hyps(1) trace_cons.prems(2,3)] by blast
qed simp

lemma trace_keeps:
  "trace s es s' \<Longrightarrow> inv s \<Longrightarrow> (a, n) \<in> used s \<Longrightarrow> Released a n \<notin> set es \<Longrightarrow> (a, n) \<in> used s'"
proof (induction rule: trace.induct)
  case (trace_cons s e s1 es s')
  have "inv s1" "(a, n) \<in> used s1"
    using step_inv [OF trace_cons.prems(1) trace_cons.hyps(1)] taken [OF trace_cons.prems(1)]
      released [OF trace_cons.prems(1)] refused [OF trace_cons.prems(1)] trace_cons.hyps(1) trace_cons.prems(2,3)
    by (cases e; fastforce)+
  then show ?case
    using trace_cons by simp
qed simp

text \<open>A range is not handed out again, not even in part, before it was released.\<close>

lemma no_double_allocation:
  assumes tr: "trace s (es @ Taken a n # mid @ Taken b m # rest) s'" and inv: "inv s"
    and overlap: "region (a, n) \<inter> region (b, m) \<noteq> {}"
  shows "Released a n \<in> set mid"
proof (rule ccontr)
  assume nr: "Released a n \<notin> set mid"
  obtain s1 s2 s3 s4 where s: "trace s es s1" "step s1 (Taken a n) s2" "trace s2 mid s3" "step s3 (Taken b m) s4"
    using tr by (elim trace_appendE trace_consE) blast
  have i1: "inv s1"
    using trace_inv [OF s(1) inv] by simp
  then have i2: "inv s2" "(a, n) \<in> used s2"
    using step_inv [OF i1 s(2)] taken [OF i1 s(2)] by auto
  have "inv s3" "(a, n) \<in> used s3"
    using trace_inv [OF s(3) i2(1)] trace_keeps [OF s(3) i2 nr] by simp_all
  then show False
    using taken [OF _ s(4)] overlap by (auto simp: Int_commute)
qed

end

end
