(* ===== verification/VmemArena.thy ===== *)
theory VmemArena
  imports Vmem Regions "HOL-Library.Code_Target_Numeral"
begin

text \<open>
  The rest of the address allocator (\<^verbatim>\<open>sys/kern/vmem.c\<close>): releasing a segment, creating, extending and
  destroying an arena, and the allocator as a client sees it.
\<close>

section \<open>Release\<close>

lemma prev_of_notin: "b \<notin> set (tl l) \<Longrightarrow> prev_of b l = None"
  by (induction l rule: induct_list012) auto

lemma prev_of_split:
  "b \<notin> set xs \<Longrightarrow> b \<notin> set ys \<Longrightarrow> prev_of b (xs @ b # ys) = (if xs = [] then None else Some (last xs))"
proof (induction xs rule: induct_list012)
  case 1
  then show ?case
    by (simp add: prev_of_notin)
qed auto

lemma next_of_split:
  "b \<notin> set xs \<Longrightarrow> next_of b (xs @ b # ys) = (if ys = [] then None else Some (hd ys))"
proof (induction xs rule: induct_list012)
  case 1
  then show ?case
    by (cases ys) auto
next
  case (2 x)
  then show ?case
    by (cases ys) auto
qed auto

lemma coalesce_prev_ok:
  assumes ix: "index_ok vm F B" and seg: "vm_seglist vm = xs @ b # ys" and d: "distinct (vm_seglist vm)"
    and b: "vm_tags vm b = Some t" "b \<notin> F" "b \<notin> B" and xs: "\<And>x. x \<in> set xs \<Longrightarrow> vm_tags vm x \<noteq> None"
    and F: "\<And>x. x \<in> set xs \<Longrightarrow> x \<in> F \<longleftrightarrow> bt_type (tag_of vm x) = BT_TYPE_FREE"
    and adj: "free_before (map (tag_of vm) xs) \<Longrightarrow>
      bt_start (tag_of vm (last xs)) + bt_size (tag_of vm (last xs)) = bt_start t"
    and bnd: "bt_start t + bt_size t < 2 ^ 64" "free_before (map (tag_of vm) xs) \<Longrightarrow> 0 < bt_size (tag_of vm (last xs))"
  shows "\<exists>fl. coalesce_prev vm b =
      Some (if free_before (map (tag_of vm) xs)
            then (vm\<lparr>vm_freelist := fl, vm_seglist := butlast xs @ b # ys,
                     vm_tags := (vm_tags vm)(b \<mapsto> t\<lparr>bt_size := bt_size t + bt_size (tag_of vm (last xs)),
                       bt_start := bt_start (tag_of vm (last xs))\<rparr>)\<rparr>, [last xs])
            else (vm, [])) \<and>
      (free_before (map (tag_of vm) xs) \<longrightarrow> index_ok (vm\<lparr>vm_freelist := fl\<rparr>) (F - {last xs}) B)"
proof (cases "free_before (map (tag_of vm) xs)")
  case False
  have nin: "b \<notin> set xs" "b \<notin> set ys"
    using d seg by auto
  have "free_tag vm (prev_of b (vm_seglist vm)) = Some None"
    using False xs [of "last xs"] unfolding seg prev_of_split [OF nin]
    by (auto simp: free_tag_def free_before_def last_map tag_of_def)
  then show ?thesis
    using False by (simp add: coalesce_prev_def)
next
  case True
  let ?p = "last xs" and ?pt = "tag_of vm (last xs)"
  have nin: "b \<notin> set xs" "b \<notin> set ys" and ne: "xs \<noteq> []"
    using d seg True by (auto simp: free_before_def)
  have p: "?p \<in> set xs" "vm_tags vm ?p = Some ?pt" "bt_type ?pt = BT_TYPE_FREE" "?p \<in> F" "?p \<noteq> b"
    using ne True xs [of ?p] F [of ?p] nin by (auto simp: free_before_def last_map tag_of_def)
  have prev: "free_tag vm (prev_of b (vm_seglist vm)) = Some (Some (?p, ?pt))"
    using ne p(2,3) unfolding seg prev_of_split [OF nin] by (simp add: free_tag_def)
  have 1: "uadd (bt_end ?pt) 1 = bt_start t"
    using adj [OF True] bnd bnd(2) [OF True] by (simp add: bt_end_def uadd_exact usub_exact)
  obtain fl where fl: "bt_remfree vm ?p = Some (vm\<lparr>vm_freelist := fl\<rparr>)" "index_ok (vm\<lparr>vm_freelist := fl\<rparr>) (F - {?p}) B"
    using bt_remfree_ok [OF ix p(4)] by auto
  have "remove1 ?p (butlast xs @ [?p] @ b # ys) = butlast xs @ b # ys"
  proof -
    have "(butlast xs @ [?p]) @ b # ys = xs @ b # ys"
      using ne by simp
    then have "distinct (butlast xs @ [?p] @ b # ys)"
      using d seg by (metis append_assoc)
    then show ?thesis
      by (simp add: remove1_append)
  qed
  moreover have "butlast xs @ [?p] @ b # ys = xs @ b # ys"
    using ne by (metis append_assoc append_butlast_last_id)
  ultimately have rem: "remove1 ?p (vm_seglist vm) = butlast xs @ b # ys"
    by (simp only: seg)
  have 2: "uadd (bt_size t) (bt_size ?pt) = bt_size t + bt_size ?pt"
    using adj [OF True] bnd(1) by (intro uadd_exact) linarith
  have "coalesce_prev vm b = Some (set_tag (vm\<lparr>vm_freelist := fl, vm_seglist := butlast xs @ b # ys\<rparr>) b
      (t\<lparr>bt_size := bt_size t + bt_size ?pt, bt_start := bt_start ?pt\<rparr>), [?p])"
    using prev b(1) 1 fl(1) p(1) rem 2 by (simp add: coalesce_prev_def bt_remseg_def seg)
  then show ?thesis
    using True fl(2) by (auto simp: set_tag_def)
qed

lemma coalesce_next_ok:
  assumes ix: "index_ok vm F B" and seg: "vm_seglist vm = xs @ b # ys" and d: "distinct (vm_seglist vm)"
    and b: "vm_tags vm b = Some t" "b \<notin> F" "b \<notin> B" and ys: "\<And>x. x \<in> set ys \<Longrightarrow> vm_tags vm x \<noteq> None"
    and F: "\<And>x. x \<in> set ys \<Longrightarrow> x \<in> F \<longleftrightarrow> bt_type (tag_of vm x) = BT_TYPE_FREE"
    and adj: "free_after (map (tag_of vm) ys) \<Longrightarrow> bt_start t + bt_size t = bt_start (tag_of vm (hd ys))"
    and bnd: "bt_start t + bt_size t < 2 ^ 64" "0 < bt_size t"
      "free_after (map (tag_of vm) ys) \<Longrightarrow> bt_start (tag_of vm (hd ys)) + bt_size (tag_of vm (hd ys)) < 2 ^ 64"
  shows "\<exists>fl. coalesce_next vm b =
      Some (if free_after (map (tag_of vm) ys)
            then (vm\<lparr>vm_freelist := fl, vm_seglist := xs @ b # tl ys,
                     vm_tags := (vm_tags vm)(b \<mapsto> t\<lparr>bt_size := bt_size t + bt_size (tag_of vm (hd ys))\<rparr>)\<rparr>, [hd ys])
            else (vm, [])) \<and>
      (free_after (map (tag_of vm) ys) \<longrightarrow> index_ok (vm\<lparr>vm_freelist := fl\<rparr>) (F - {hd ys}) B)"
proof (cases "free_after (map (tag_of vm) ys)")
  case False
  have nin: "b \<notin> set xs"
    using d seg by auto
  have "free_tag vm (next_of b (vm_seglist vm)) = Some None"
    using False ys [of "hd ys"] unfolding seg next_of_split [OF nin]
    by (auto simp: free_tag_def free_after_def hd_map tag_of_def)
  then show ?thesis
    using False by (simp add: coalesce_next_def)
next
  case True
  let ?n = "hd ys" and ?nt = "tag_of vm (hd ys)"
  have nin: "b \<notin> set xs" "b \<notin> set ys" and ne: "ys \<noteq> []"
    using d seg True by (auto simp: free_after_def)
  have n: "?n \<in> set ys" "vm_tags vm ?n = Some ?nt" "bt_type ?nt = BT_TYPE_FREE" "?n \<in> F" "?n \<noteq> b"
    using ne True ys [of ?n] F [of ?n] nin by (auto simp: free_after_def hd_map tag_of_def)
  have nxt: "free_tag vm (next_of b (vm_seglist vm)) = Some (Some (?n, ?nt))"
    using ne n(2,3) unfolding seg next_of_split [OF nin(1)] by (simp add: free_tag_def)
  have 1: "uadd (bt_end t) 1 = bt_start ?nt"
    using adj [OF True] bnd(1,2) by (simp add: bt_end_def uadd_exact usub_exact)
  obtain fl where fl: "bt_remfree vm ?n = Some (vm\<lparr>vm_freelist := fl\<rparr>)" "index_ok (vm\<lparr>vm_freelist := fl\<rparr>) (F - {?n}) B"
    using bt_remfree_ok [OF ix n(4)] by auto
  have "?n \<notin> set xs"
    using d n(1) by (auto simp: seg)
  then have rem: "remove1 ?n (vm_seglist vm) = xs @ b # tl ys"
    using ne n(5) by (cases ys) (auto simp: seg remove1_append)
  have 2: "uadd (bt_size t) (bt_size ?nt) = bt_size t + bt_size ?nt"
    using adj [OF True] bnd(3) [OF True] by (intro uadd_exact) linarith
  have "coalesce_next vm b = Some (set_tag (vm\<lparr>vm_freelist := fl, vm_seglist := xs @ b # tl ys\<rparr>) b
      (t\<lparr>bt_size := bt_size t + bt_size ?nt\<rparr>), [?n])"
    using nxt b(1) 1 fl(1) n(1) rem 2 by (simp add: coalesce_next_def bt_remseg_def seg)
  then show ?thesis
    using True fl(2) by (auto simp: set_tag_def)
qed

lemma kind_disjoint:
  assumes d: "disjoint_rngs (filter (\<lambda>t. K (bt_type t)) (segs vm))" and x: "x \<in> set (vm_seglist vm)" "K (bt_type (tag_of vm x))"
    and y: "y \<in> set (vm_seglist vm)" "K (bt_type (tag_of vm y))" and ne: "x \<noteq> y"
  shows "rng (tag_of vm x) \<inter> rng (tag_of vm y) = {}"
proof -
  let ?l = "filter (\<lambda>b. K (bt_type (tag_of vm b))) (vm_seglist vm)"
  have "filter (\<lambda>t. K (bt_type t)) (segs vm) = map (tag_of vm) ?l"
    by (simp add: segs_def filter_map comp_def)
  then have "sorted_wrt (\<lambda>a b. rng (tag_of vm a) \<inter> rng (tag_of vm b) = {}) ?l"
    using d by (simp add: disjoint_rngs_def sorted_wrt_map)
  moreover have "x \<in> set ?l" "y \<in> set ?l"
    using x y by simp_all
  then obtain i j where "i < length ?l" "?l ! i = x" "j < length ?l" "?l ! j = y"
    by (meson in_set_conv_nth)
  moreover have "i \<noteq> j"
    using ne calculation by auto
  then have "i < j \<or> j < i"
    by (rule nat_neq_iff [THEN iffD1])
  ultimately show ?thesis
    unfolding sorted_wrt_iff_nth_less by blast
qed

lemma tags_disjoint:
  assumes inv: "vmem_inv vm" and "x \<in> set (vm_seglist vm)" "bt_type (tag_of vm x) \<noteq> BT_TYPE_SPAN"
    and "y \<in> set (vm_seglist vm)" "bt_type (tag_of vm y) \<noteq> BT_TYPE_SPAN" and "x \<noteq> y"
  shows "rng (tag_of vm x) \<inter> rng (tag_of vm y) = {}"
  using kind_disjoint [of "\<lambda>ty. ty \<noteq> BT_TYPE_SPAN", OF _ assms(2-)] segs_ok_disjoint(1) [OF vmem_invD(4,5) [OF inv]]
  by (simp add: segments_def bt_isspan_def)

lemma spans_disjoint:
  assumes inv: "vmem_inv vm" and "x \<in> set (vm_seglist vm)" "bt_type (tag_of vm x) = BT_TYPE_SPAN"
    and "y \<in> set (vm_seglist vm)" "bt_type (tag_of vm y) = BT_TYPE_SPAN" and "x \<noteq> y"
  shows "rng (tag_of vm x) \<inter> rng (tag_of vm y) = {}"
  using kind_disjoint [of "\<lambda>ty. ty = BT_TYPE_SPAN", OF _ assms(2-)] vmem_invD(5) [OF inv]
  by (simp add: spans_def bt_isspan_def [abs_def])

lemma disjoint_rng_iff:
  "0 < bt_size a \<Longrightarrow> 0 < bt_size b \<Longrightarrow> rng a \<inter> rng b = {} \<longleftrightarrow>
     bt_start a + bt_size a \<le> bt_start b \<or> bt_start b + bt_size b \<le> bt_start a"
  by (auto simp: rng_def)

lemma busy_inj:
  assumes inv: "vmem_inv vm" and b: "b \<in> of_type vm BT_TYPE_BUSY" "b' \<in> of_type vm BT_TYPE_BUSY"
    and eq: "bt_start (tag_of vm b') = bt_start (tag_of vm b)"
  shows "b' = b"
proof (rule ccontr)
  assume "b' \<noteq> b"
  then have "rng (tag_of vm b') \<inter> rng (tag_of vm b) = {}"
    using tags_disjoint [OF inv] b by (simp add: of_type_def)
  moreover have "0 < bt_size (tag_of vm b)" "0 < bt_size (tag_of vm b')"
    using segs_ok_bounds(1) [OF vmem_invD(4) [OF inv]] vmem_tag(2) [OF inv] b by (auto simp: of_type_def)
  ultimately show False
    using eq by (auto simp: rng_def disjoint_iff)
qed

text \<open>
  The effect of freeing the tag \<open>b\<close>, whose free neighbours are \<open>P\<close> and \<open>N\<close> (lists of at most one tag):
  they are merged into \<open>b\<close>.
\<close>

lemma release_tag_inv:
  assumes inv: "vmem_inv vm" and b: "b \<in> of_type vm BT_TYPE_BUSY" and seg: "vm_seglist vm = xs @ P @ b # N @ ys"
    and ix: "index_ok vm' (insert b (of_type vm BT_TYPE_FREE - set (P @ N))) (of_type vm BT_TYPE_BUSY - {b})"
    and seg': "vm_seglist vm' = xs @ b # ys"
    and tags': "\<And>x. vm_tags vm' x = (if x \<in> set (P @ N) then None else if x = b then Some t' else vm_tags vm x)"
    and free: "\<forall>x \<in> set (P @ N). bt_type (tag_of vm x) = BT_TYPE_FREE" "bt_type t' = BT_TYPE_FREE"
    and ok: "segs_ok (map (tag_of vm) xs @ t' # map (tag_of vm) ys)" "quantized (vm_quantum vm) t'"
    and vm': "vm_size vm' = vm_size vm" "vm_inuse vm' = vm_inuse vm - bt_size (tag_of vm b)" "vm_quantum vm' = vm_quantum vm"
  shows "vmem_inv vm'" and "arena_spans vm' = arena_spans vm"
    and "allocated vm' = allocated vm - {(bt_start (tag_of vm b), bt_size (tag_of vm b))}"
    and "segs vm' = map (tag_of vm) xs @ t' # map (tag_of vm) ys"
proof -
  let ?t = "tag_of vm b"
  define XS YS where XY: "XS = map (tag_of vm) xs" "YS = map (tag_of vm) ys"
  define PS NS where PN: "PS = map (tag_of vm) P" "NS = map (tag_of vm) N"
  have d: "distinct (xs @ P @ b # N @ ys)"
    using vmem_invD(2) [OF inv] seg by simp
  have same: "tag_of vm' x = (if x = b then t' else tag_of vm x)" if "x \<notin> set (P @ N)" for x
    using that by (simp add: tag_of_def tags')
  have sm: "tag_of vm' x = tag_of vm x" if "x \<in> set xs \<or> x \<in> set ys" for x
    using d that by (subst same) auto
  moreover have tb': "tag_of vm' b = t'"
    using d by (subst same) auto
  ultimately have "map (tag_of vm') xs = XS" "map (tag_of vm') ys = YS" "tag_of vm' b = t'"
    by (simp_all add: XY)
  then show S': "segs vm' = map (tag_of vm) xs @ t' # map (tag_of vm) ys"
    by (simp add: segs_def seg' XY)
  have S: "segs vm = XS @ PS @ ?t # NS @ YS"
    by (simp add: segs_def seg XY PN)
  have tb: "bt_type ?t = BT_TYPE_BUSY"
    using b by (simp add: of_type_def)
  have fr: "\<forall>t \<in> set PS \<union> set NS. bt_type t = BT_TYPE_FREE"
    using free(1) by (auto simp: PN)
  have no: "total ty PS = 0" "total ty NS = 0" if "ty \<noteq> BT_TYPE_FREE" for ty
    using fr that by (auto simp: total_def sum_list_eq_0_iff)
  have nosp: "spans PS = []" "spans NS = []"
    using fr by (auto simp: spans_def bt_isspan_def filter_empty_conv)
  have sp: "spans (segs vm') = spans (segs vm)" "total BT_TYPE_SPAN (segs vm') = total BT_TYPE_SPAN (segs vm)"
    "total BT_TYPE_BUSY (segs vm') = total BT_TYPE_BUSY (segs vm) - bt_size ?t"
    using nosp no tb free(2) by (simp_all add: S S' XY)
  have ty: "of_type vm' ty = {x \<in> set xs \<union> set ys. bt_type (tag_of vm x) = ty} \<union> (if ty = BT_TYPE_FREE then {b} else {})" for ty
    using sm tb' free(2) by (auto simp: of_type_def seg')
  have "of_type vm' BT_TYPE_FREE = insert b (of_type vm BT_TYPE_FREE - set (P @ N))"
    "of_type vm' BT_TYPE_BUSY = of_type vm BT_TYPE_BUSY - {b}"
    unfolding ty using d free tb by (auto simp: of_type_def seg)
  moreover have "dom (vm_tags vm') = insert b (dom (vm_tags vm)) - set (P @ N)"
    using d by (auto simp: tags' split: if_splits)
  then have "distinct (vm_seglist vm')" "dom (vm_tags vm') = set (vm_seglist vm')"
    using d vmem_invD(3) [OF inv] by (auto simp: seg seg')
  moreover have "\<forall>t \<in> set (segs vm'). quantized (vm_quantum vm') t"
    using vmem_invD(6) [OF inv] ok(2) by (auto simp: S S' XY vm'(3))
  ultimately show "vmem_inv vm'"
    using ix ok(1) vmem_invD [OF inv] sp vm' unfolding vmem_inv_def by (simp add: S')
  show "arena_spans vm' = arena_spans vm"
    by (simp add: arena_spans_def sp)
  have "t \<noteq> ?t \<and> (bt_start t, bt_size t) \<noteq> (bt_start ?t, bt_size ?t)"
    if t: "t \<in> set XS \<union> set YS" "bt_type t = BT_TYPE_BUSY" for t
  proof -
    obtain x where x: "x \<in> set xs \<union> set ys" "t = tag_of vm x"
      using t(1) by (auto simp: XY)
    then have "x \<in> of_type vm BT_TYPE_BUSY" "x \<noteq> b"
      using t(2) d by (auto simp: of_type_def seg)
    then have "bt_start t \<noteq> bt_start ?t"
      using busy_inj [OF inv b] x(2) by auto
    then show ?thesis by auto
  qed
  then show "allocated vm' = allocated vm - {(bt_start ?t, bt_size ?t)}"
    using fr free(2) unfolding allocated_def S S' XY [symmetric] by (auto 4 4)
qed

text \<open>Both steps in one form: the neighbours \<open>P\<close> and \<open>N\<close> that are merged, empty if there are none.\<close>

definition prev_merge :: "bt list \<Rightarrow> bt \<Rightarrow> bt" where
  "prev_merge xs t =
     (if free_before xs then t\<lparr>bt_size := bt_size t + bt_size (last xs), bt_start := bt_start (last xs)\<rparr> else t)"

definition next_merge :: "bt \<Rightarrow> bt list \<Rightarrow> bt" where
  "next_merge t ys = (if free_after ys then t\<lparr>bt_size := bt_size t + bt_size (hd ys)\<rparr> else t)"

lemma coalesce_prev_merge:
  assumes ix: "index_ok vm F B" and seg: "vm_seglist vm = xs @ b # ys" and d: "distinct (vm_seglist vm)"
    and b: "vm_tags vm b = Some t" "b \<notin> F" "b \<notin> B" and xs: "\<And>x. x \<in> set xs \<Longrightarrow> vm_tags vm x \<noteq> None"
    and F: "\<And>x. x \<in> set xs \<Longrightarrow> x \<in> F \<longleftrightarrow> bt_type (tag_of vm x) = BT_TYPE_FREE"
    and adj: "free_before (map (tag_of vm) xs) \<Longrightarrow>
      bt_start (tag_of vm (last xs)) + bt_size (tag_of vm (last xs)) = bt_start t"
    and bnd: "bt_start t + bt_size t < 2 ^ 64" "free_before (map (tag_of vm) xs) \<Longrightarrow> 0 < bt_size (tag_of vm (last xs))"
  obtains fl xs' P where "coalesce_prev vm b =
      Some (vm\<lparr>vm_freelist := fl, vm_seglist := xs' @ b # ys,
               vm_tags := (vm_tags vm)(b \<mapsto> prev_merge (map (tag_of vm) xs) t)\<rparr>, P)"
    and "xs = xs' @ P" and "P = (if free_before (map (tag_of vm) xs) then [last xs] else [])"
    and "index_ok (vm\<lparr>vm_freelist := fl\<rparr>) (F - set P) B"
proof (cases "free_before (map (tag_of vm) xs)")
  case True
  then have "xs \<noteq> []"
    by (auto simp: free_before_def)
  then have m: "last (map (tag_of vm) xs) = tag_of vm (last xs)" "xs = butlast xs @ [last xs]"
    by (simp_all add: last_map)
  obtain fl where "coalesce_prev vm b = Some (vm\<lparr>vm_freelist := fl, vm_seglist := butlast xs @ b # ys,
        vm_tags := (vm_tags vm)(b \<mapsto> prev_merge (map (tag_of vm) xs) t)\<rparr>, [last xs])"
    "index_ok (vm\<lparr>vm_freelist := fl\<rparr>) (F - {last xs}) B"
    using coalesce_prev_ok [OF ix seg d b xs F adj bnd] True m by (auto simp: prev_merge_def)
  then show thesis
    using True m by (intro that [where fl = fl and xs' = "butlast xs" and P = "[last xs]"]) auto
next
  case False
  have "vm = vm\<lparr>vm_freelist := vm_freelist vm, vm_seglist := xs @ b # ys, vm_tags := (vm_tags vm)(b \<mapsto> t)\<rparr>"
    using b(1) seg by (simp add: fun_upd_idem)
  then show thesis
    using coalesce_prev_ok [OF ix seg d b xs F adj bnd] False ix
    by (intro that [where fl = "vm_freelist vm" and xs' = xs and P = "[]"]) (auto simp: prev_merge_def)
qed

lemma coalesce_next_merge:
  assumes ix: "index_ok vm F B" and seg: "vm_seglist vm = xs @ b # ys" and d: "distinct (vm_seglist vm)"
    and b: "vm_tags vm b = Some t" "b \<notin> F" "b \<notin> B" and ys: "\<And>x. x \<in> set ys \<Longrightarrow> vm_tags vm x \<noteq> None"
    and F: "\<And>x. x \<in> set ys \<Longrightarrow> x \<in> F \<longleftrightarrow> bt_type (tag_of vm x) = BT_TYPE_FREE"
    and adj: "free_after (map (tag_of vm) ys) \<Longrightarrow> bt_start t + bt_size t = bt_start (tag_of vm (hd ys))"
    and bnd: "bt_start t + bt_size t < 2 ^ 64" "0 < bt_size t"
      "free_after (map (tag_of vm) ys) \<Longrightarrow> bt_start (tag_of vm (hd ys)) + bt_size (tag_of vm (hd ys)) < 2 ^ 64"
  obtains fl ys' N where "coalesce_next vm b =
      Some (vm\<lparr>vm_freelist := fl, vm_seglist := xs @ b # ys',
               vm_tags := (vm_tags vm)(b \<mapsto> next_merge t (map (tag_of vm) ys))\<rparr>, N)"
    and "ys = N @ ys'" and "N = (if free_after (map (tag_of vm) ys) then [hd ys] else [])"
    and "index_ok (vm\<lparr>vm_freelist := fl\<rparr>) (F - set N) B"
proof (cases "free_after (map (tag_of vm) ys)")
  case True
  then have "ys \<noteq> []"
    by (auto simp: free_after_def)
  then have m: "hd (map (tag_of vm) ys) = tag_of vm (hd ys)" "ys = [hd ys] @ tl ys"
    by (simp_all add: hd_map)
  obtain fl where "coalesce_next vm b = Some (vm\<lparr>vm_freelist := fl, vm_seglist := xs @ b # tl ys,
        vm_tags := (vm_tags vm)(b \<mapsto> next_merge t (map (tag_of vm) ys))\<rparr>, [hd ys])"
    "index_ok (vm\<lparr>vm_freelist := fl\<rparr>) (F - {hd ys}) B"
    using coalesce_next_ok [OF ix seg d b ys F adj bnd] True m by (auto simp: next_merge_def)
  then show thesis
    using True m by (intro that [where fl = fl and ys' = "tl ys" and N = "[hd ys]"]) auto
next
  case False
  have "vm = vm\<lparr>vm_freelist := vm_freelist vm, vm_seglist := xs @ b # ys, vm_tags := (vm_tags vm)(b \<mapsto> t)\<rparr>"
    using b(1) seg by (simp add: fun_upd_idem)
  then show thesis
    using coalesce_next_ok [OF ix seg d b ys F adj bnd] False ix
    by (intro that [where fl = "vm_freelist vm" and ys' = ys and N = "[]"]) (auto simp: next_merge_def)
qed

lemma merge_segs_map:
  assumes "xs = xs' @ P" and "P = (if free_before (map g xs) then [last xs] else [])"
    and "ys = N @ ys'" and "N = (if free_after (map g ys) then [hd ys] else [])"
  shows "merge_segs (map g xs) t (map g ys) =
    map g xs' @ next_merge (prev_merge (map g xs) (t\<lparr>bt_type := BT_TYPE_FREE\<rparr>)) (map g ys) # map g ys'"
proof -
  have "(if free_before (map g xs) then butlast (map g xs) else map g xs) = map g xs'"
    using assms(1,2) by (cases xs rule: rev_cases) (auto split: if_splits)
  moreover have "(if free_after (map g ys) then tl (map g ys) else map g ys) = map g ys'"
    using assms(3,4) by (cases ys) (auto split: if_splits)
  ultimately show ?thesis
    by (cases t) (simp add: merge_segs_def prev_merge_def next_merge_def)
qed

lemma fold_pool_free:
  "fold (\<lambda>t vm. bt_pool_free vm t) ts vm = vm\<lparr>vm_tags := (\<lambda>x. if x \<in> set ts then None else vm_tags vm x)\<rparr>"
  by (induction ts arbitrary: vm) (auto simp: bt_pool_free_def fun_eq_iff)

lemma tag_of_upd: "tag_of (vm\<lparr>vm_tags := f\<rparr>) b = the (f b)"
  by (simp add: tag_of_def)

lemma prev_merge_props:
  assumes "bt_type t = BT_TYPE_FREE" and "\<forall>x \<in> set (map g xs). quantized q x" and "quantized q t"
    and "free_before (map g xs) \<Longrightarrow> bt_start (last (map g xs)) + bt_size (last (map g xs)) = bt_start t"
  shows "bt_type (prev_merge (map g xs) t) = BT_TYPE_FREE" and "quantized q (prev_merge (map g xs) t)"
    and "bt_start (prev_merge (map g xs) t) + bt_size (prev_merge (map g xs) t) = bt_start t + bt_size t"
    and "bt_size t \<le> bt_size (prev_merge (map g xs) t)"
proof -
  have "free_before (map g xs) \<Longrightarrow> last (map g xs) \<in> set (map g xs)"
    unfolding free_before_def by (intro last_in_set) simp
  then show "quantized q (prev_merge (map g xs) t)"
    using assms(2,3) by (auto simp: prev_merge_def quantized_def)
qed (use assms in \<open>auto simp: prev_merge_def\<close>)

lemma next_merge_props:
  assumes "bt_type t = BT_TYPE_FREE" and "\<forall>x \<in> set (map g ys). quantized q x" and "quantized q t"
  shows "bt_type (next_merge t (map g ys)) = BT_TYPE_FREE" and "quantized q (next_merge t (map g ys))"
proof -
  have "free_after (map g ys) \<Longrightarrow> hd (map g ys) \<in> set (map g ys)"
    unfolding free_after_def by (intro hd_in_set) simp
  then show "quantized q (next_merge t (map g ys))"
    using assms(2,3) by (auto simp: next_merge_def quantized_def)
qed (use assms in \<open>auto simp: next_merge_def\<close>)

text \<open>The arena while the tag \<open>b\<close>, which is on no list, is merged with its neighbours.\<close>

definition releasing :: "vmem \<Rightarrow> nat set \<Rightarrow> nat set \<Rightarrow> nat list \<Rightarrow> nat \<Rightarrow> nat list \<Rightarrow> bt \<Rightarrow> bool" where
  "releasing vm F B xs b ys t \<longleftrightarrow>
     index_ok vm F B \<and> vm_seglist vm = xs @ b # ys \<and> distinct (xs @ b # ys) \<and> vm_tags vm b = Some t \<and> b \<notin> F \<and> b \<notin> B \<and>
     (\<forall>x \<in> set xs \<union> set ys. vm_tags vm x \<noteq> None \<and> (x \<in> F \<longleftrightarrow> bt_type (tag_of vm x) = BT_TYPE_FREE)) \<and>
     bt_start t + bt_size t < 2 ^ 64 \<and> 0 < bt_size t"

lemma releasing_upd:
  assumes R: "releasing vm F B xs b ys t" and ix: "index_ok (vm\<lparr>vm_freelist := fl\<rparr>) F' B"
    and sub: "set xs' \<subseteq> set xs" "set ys' \<subseteq> set ys" "distinct (xs' @ b # ys')"
    and F': "F' \<subseteq> F" "\<And>x. x \<in> set xs' \<union> set ys' \<Longrightarrow> x \<in> F \<Longrightarrow> x \<in> F'"
    and t': "bt_start t' + bt_size t' < 2 ^ 64" "0 < bt_size t'"
  shows "releasing (vm\<lparr>vm_freelist := fl, vm_seglist := xs' @ b # ys', vm_tags := (vm_tags vm)(b \<mapsto> t')\<rparr>) F' B xs' b ys' t'"
proof -
  let ?vm = "vm\<lparr>vm_freelist := fl, vm_seglist := xs' @ b # ys', vm_tags := (vm_tags vm)(b \<mapsto> t')\<rparr>"
  have bF: "b \<notin> F" "b \<notin> B" "b \<notin> F'"
    using R F' by (auto simp: releasing_def)
  have "index_ok ?vm F' B"
    by (rule index_ok_tags [OF ix]) (use bF in auto)
  moreover have "vm_tags ?vm x \<noteq> None \<and> (x \<in> F' \<longleftrightarrow> bt_type (tag_of ?vm x) = BT_TYPE_FREE)"
    if x: "x \<in> set xs' \<union> set ys'" for x
  proof -
    have "x \<in> set xs \<union> set ys" "x \<noteq> b"
      using x sub by auto
    then have "vm_tags vm x \<noteq> None" "x \<in> F \<longleftrightarrow> bt_type (tag_of vm x) = BT_TYPE_FREE" "vm_tags ?vm x = vm_tags vm x"
      using R by (simp_all add: releasing_def)
    moreover have "x \<in> F' \<longleftrightarrow> x \<in> F"
      using F' x by blast
    ultimately show ?thesis
      by (simp add: tag_of_def)
  qed
  ultimately show ?thesis
    using bF sub(3) t' by (simp add: releasing_def)
qed

lemma releasing_prev:
  assumes R: "releasing vm F B xs b ys t" and XS: "XS = map (tag_of vm) xs"
    and adj: "free_before XS \<Longrightarrow> bt_start (last XS) + bt_size (last XS) = bt_start t" "free_before XS \<Longrightarrow> 0 < bt_size (last XS)"
  obtains fl xs' P where "coalesce_prev vm b =
      Some (vm\<lparr>vm_freelist := fl, vm_seglist := xs' @ b # ys, vm_tags := (vm_tags vm)(b \<mapsto> prev_merge XS t)\<rparr>, P)"
    and "xs = xs' @ P" and "P = (if free_before XS then [last xs] else [])"
    and "releasing (vm\<lparr>vm_freelist := fl, vm_seglist := xs' @ b # ys, vm_tags := (vm_tags vm)(b \<mapsto> prev_merge XS t)\<rparr>)
           (F - set P) B xs' b ys (prev_merge XS t)"
proof -
  have lst: "last XS = tag_of vm (last xs)" if "free_before XS"
    using that by (auto simp: free_before_def XS last_map)
  note r = R [unfolded releasing_def]
  have d: "distinct (vm_seglist vm)" and ix: "index_ok vm F B" and seg: "vm_seglist vm = xs @ b # ys"
    and b: "vm_tags vm b = Some t" "b \<notin> F" "b \<notin> B" and bt: "bt_start t + bt_size t < 2 ^ 64"
    using r by simp_all
  have x: "\<And>x. x \<in> set xs \<Longrightarrow> vm_tags vm x \<noteq> None"
    "\<And>x. x \<in> set xs \<Longrightarrow> x \<in> F \<longleftrightarrow> bt_type (tag_of vm x) = BT_TYPE_FREE"
    using r by blast+
  have a: "free_before (map (tag_of vm) xs) \<Longrightarrow>
      bt_start (tag_of vm (last xs)) + bt_size (tag_of vm (last xs)) = bt_start t"
    "free_before (map (tag_of vm) xs) \<Longrightarrow> 0 < bt_size (tag_of vm (last xs))"
    using adj lst by (simp_all add: XS)
  obtain fl xs' P where cp: "coalesce_prev vm b =
      Some (vm\<lparr>vm_freelist := fl, vm_seglist := xs' @ b # ys, vm_tags := (vm_tags vm)(b \<mapsto> prev_merge XS t)\<rparr>, P)"
    and P: "xs = xs' @ P" "P = (if free_before XS then [last xs] else [])"
    and ix': "index_ok (vm\<lparr>vm_freelist := fl\<rparr>) (F - set P) B"
    by (rule coalesce_prev_merge [OF ix seg d b x a(1) bt a(2), folded XS])
  have "bt_start (prev_merge XS t) + bt_size (prev_merge XS t) < 2 ^ 64 \<and> 0 < bt_size (prev_merge XS t)"
    using adj r by (auto simp: prev_merge_def)
  then have "releasing (vm\<lparr>vm_freelist := fl, vm_seglist := xs' @ b # ys, vm_tags := (vm_tags vm)(b \<mapsto> prev_merge XS t)\<rparr>)
           (F - set P) B xs' b ys (prev_merge XS t)"
    using r P(1) by (intro releasing_upd [OF R ix']) auto
  then show thesis
    by (rule that [OF cp P])
qed

lemma releasing_next:
  assumes R: "releasing vm F B xs b ys t" and YS: "YS = map (tag_of vm) ys"
    and adj: "free_after YS \<Longrightarrow> bt_start t + bt_size t = bt_start (hd YS)"
      "free_after YS \<Longrightarrow> bt_start (hd YS) + bt_size (hd YS) < 2 ^ 64"
  obtains fl ys' N where "coalesce_next vm b =
      Some (vm\<lparr>vm_freelist := fl, vm_seglist := xs @ b # ys', vm_tags := (vm_tags vm)(b \<mapsto> next_merge t YS)\<rparr>, N)"
    and "ys = N @ ys'" and "N = (if free_after YS then [hd ys] else [])"
    and "releasing (vm\<lparr>vm_freelist := fl, vm_seglist := xs @ b # ys', vm_tags := (vm_tags vm)(b \<mapsto> next_merge t YS)\<rparr>)
           (F - set N) B xs b ys' (next_merge t YS)"
proof -
  have hdy: "hd YS = tag_of vm (hd ys)" if "free_after YS"
    using that by (auto simp: free_after_def YS hd_map)
  note r = R [unfolded releasing_def]
  have d: "distinct (vm_seglist vm)" and ix: "index_ok vm F B" and seg: "vm_seglist vm = xs @ b # ys"
    and b: "vm_tags vm b = Some t" "b \<notin> F" "b \<notin> B" and bt: "bt_start t + bt_size t < 2 ^ 64" "0 < bt_size t"
    using r by simp_all
  have y: "\<And>x. x \<in> set ys \<Longrightarrow> vm_tags vm x \<noteq> None"
    "\<And>x. x \<in> set ys \<Longrightarrow> x \<in> F \<longleftrightarrow> bt_type (tag_of vm x) = BT_TYPE_FREE"
    using r by blast+
  have a: "free_after (map (tag_of vm) ys) \<Longrightarrow> bt_start t + bt_size t = bt_start (tag_of vm (hd ys))"
    "free_after (map (tag_of vm) ys) \<Longrightarrow> bt_start (tag_of vm (hd ys)) + bt_size (tag_of vm (hd ys)) < 2 ^ 64"
    using adj hdy by (simp_all add: YS)
  obtain fl ys' N where cn: "coalesce_next vm b =
      Some (vm\<lparr>vm_freelist := fl, vm_seglist := xs @ b # ys', vm_tags := (vm_tags vm)(b \<mapsto> next_merge t YS)\<rparr>, N)"
    and N: "ys = N @ ys'" "N = (if free_after YS then [hd ys] else [])"
    and ix': "index_ok (vm\<lparr>vm_freelist := fl\<rparr>) (F - set N) B"
    by (rule coalesce_next_merge [OF ix seg d b y a(1) bt a(2), folded YS])
  have "bt_start (next_merge t YS) + bt_size (next_merge t YS) < 2 ^ 64 \<and> 0 < bt_size (next_merge t YS)"
    using adj r by (auto simp: next_merge_def)
  then have "releasing (vm\<lparr>vm_freelist := fl, vm_seglist := xs @ b # ys', vm_tags := (vm_tags vm)(b \<mapsto> next_merge t YS)\<rparr>)
           (F - set N) B xs b ys' (next_merge t YS)"
    using r N(1) by (intro releasing_upd [OF R ix']) auto
  then show thesis
    by (rule that [OF cn N])
qed

text \<open>\<^verbatim>\<open>bt_rembusy\<close> and the change of the type, which start the release.\<close>

lemma releasing_start:
  assumes inv: "vmem_inv vm" and b: "b \<in> of_type vm BT_TYPE_BUSY" and seg: "vm_seglist vm = xs @ b # ys"
    and tag: "vm_tags vm b = Some tag"
  obtains hl where "bt_rembusy vm b = Some (vm\<lparr>vm_inuse := vm_inuse vm - bt_size tag, vm_hashlist := hl\<rparr>)"
    and "releasing (vm\<lparr>vm_inuse := vm_inuse vm - bt_size tag, vm_hashlist := hl,
           vm_tags := (vm_tags vm)(b \<mapsto> tag\<lparr>bt_type := BT_TYPE_FREE\<rparr>)\<rparr>)
           (of_type vm BT_TYPE_FREE) (of_type vm BT_TYPE_BUSY - {b}) xs b ys (tag\<lparr>bt_type := BT_TYPE_FREE\<rparr>)"
proof -
  let ?F = "of_type vm BT_TYPE_FREE" and ?B = "of_type vm BT_TYPE_BUSY"
  have tb: "bt_type tag = BT_TYPE_BUSY" and tin: "tag \<in> set (segs vm)" and d: "distinct (xs @ b # ys)"
    using b tag vmem_tag(2) [OF inv, of b] vmem_invD(2) [OF inv] seg by (auto simp: of_type_def tag_of_def)
  have "bt_size tag \<le> vm_inuse vm" "vm_inuse vm < 2 ^ 64"
    using total_mem [OF tin tb] vmem_invD(8,9) [OF inv] busy_le_spans [OF vmem_invD(4) [OF inv]] by linarith+
  then obtain hl where hl: "bt_rembusy vm b = Some (vm\<lparr>vm_inuse := vm_inuse vm - bt_size tag, vm_hashlist := hl\<rparr>)"
    "index_ok (vm\<lparr>vm_inuse := vm_inuse vm - bt_size tag, vm_hashlist := hl\<rparr>) ?F (?B - {b})"
    using bt_rembusy_ok [OF vmem_invD(1) [OF inv] b tag] by blast
  let ?vm = "vm\<lparr>vm_inuse := vm_inuse vm - bt_size tag, vm_hashlist := hl,
           vm_tags := (vm_tags vm)(b \<mapsto> tag\<lparr>bt_type := BT_TYPE_FREE\<rparr>)\<rparr>"
  have bF: "b \<notin> ?F"
    using tb tag by (simp add: of_type_def tag_of_def)
  have "index_ok ?vm ?F (?B - {b})"
    by (rule index_ok_tags [OF hl(2)]) (use bF in auto)
  moreover have "vm_tags ?vm x \<noteq> None \<and> (x \<in> ?F \<longleftrightarrow> bt_type (tag_of ?vm x) = BT_TYPE_FREE)"
    if "x \<in> set xs \<union> set ys" for x
    using that d vmem_tag(1) [OF inv, of x] by (auto simp: tag_of_def of_type_def seg)
  ultimately have "releasing ?vm ?F (?B - {b}) xs b ys (tag\<lparr>bt_type := BT_TYPE_FREE\<rparr>)"
    using bF d seg segs_ok_bounds [OF vmem_invD(4) [OF inv] tin] by (simp add: releasing_def)
  then show thesis
    by (rule that [OF hl(1)])
qed

lemma releasing_merge:
  assumes R: "releasing vm F B xs b ys t0" and t0: "t0 = t\<lparr>bt_type := BT_TYPE_FREE\<rparr>" "bt_type t = BT_TYPE_BUSY"
    and ok: "segs_ok (XS @ t # YS)" and XS: "XS = map (tag_of vm) xs" and YS: "YS = map (tag_of vm) ys"
  obtains vmp fl xs' ys' P N where "coalesce_prev vm b = Some (vmp, P)"
    and "coalesce_next vmp b =
      Some (vm\<lparr>vm_freelist := fl, vm_seglist := xs' @ b # ys',
               vm_tags := (vm_tags vm)(b \<mapsto> next_merge (prev_merge XS t0) YS)\<rparr>, N)"
    and "xs = xs' @ P" and "P = (if free_before XS then [last xs] else [])"
    and "ys = N @ ys'" and "N = (if free_after YS then [hd ys] else [])"
    and "releasing (vm\<lparr>vm_freelist := fl, vm_seglist := xs' @ b # ys',
               vm_tags := (vm_tags vm)(b \<mapsto> next_merge (prev_merge XS t0) YS)\<rparr>)
           (F - set P - set N) B xs' b ys' (next_merge (prev_merge XS t0) YS)"
proof -
  have d: "distinct (xs @ b # ys)"
    using R by (simp add: releasing_def)
  note mg = segs_ok_merge(2,3) [OF ok t0(2)]
  have adjp: "free_before XS \<Longrightarrow> bt_start (last XS) + bt_size (last XS) = bt_start t0" "free_before XS \<Longrightarrow> 0 < bt_size (last XS)"
    using mg(1) segs_ok_bounds(1) [OF ok] by (auto simp: t0 free_before_def)
  define tp where "tp = prev_merge XS t0"
  obtain fl xs' P where cp: "coalesce_prev vm b =
      Some (vm\<lparr>vm_freelist := fl, vm_seglist := xs' @ b # ys, vm_tags := (vm_tags vm)(b \<mapsto> tp)\<rparr>, P)"
    and P: "xs = xs' @ P" "P = (if free_before XS then [last xs] else [])"
    and Rp: "releasing (vm\<lparr>vm_freelist := fl, vm_seglist := xs' @ b # ys, vm_tags := (vm_tags vm)(b \<mapsto> tp)\<rparr>)
           (F - set P) B xs' b ys tp"
    unfolding tp_def by (rule releasing_prev [OF R XS adjp])
  define vm2 where "vm2 = vm\<lparr>vm_freelist := fl, vm_seglist := xs' @ b # ys, vm_tags := (vm_tags vm)(b \<mapsto> tp)\<rparr>"
  have YS2: "YS = map (tag_of vm2) ys"
    using d by (auto simp: YS vm2_def tag_of_def)
  have "bt_start tp + bt_size tp = bt_start t + bt_size t"
    using adjp by (auto simp: tp_def prev_merge_def t0(1))
  then have adjn: "free_after YS \<Longrightarrow> bt_start tp + bt_size tp = bt_start (hd YS)"
    "free_after YS \<Longrightarrow> bt_start (hd YS) + bt_size (hd YS) < 2 ^ 64"
    using mg(2) segs_ok_bounds(2) [OF ok] by (auto simp: free_after_def)
  define t' where "t' = next_merge tp YS"
  obtain fl' ys' N where cn: "coalesce_next vm2 b =
      Some (vm2\<lparr>vm_freelist := fl', vm_seglist := xs' @ b # ys', vm_tags := (vm_tags vm2)(b \<mapsto> t')\<rparr>, N)"
    and N: "ys = N @ ys'" "N = (if free_after YS then [hd ys] else [])"
    and Rn: "releasing (vm2\<lparr>vm_freelist := fl', vm_seglist := xs' @ b # ys', vm_tags := (vm_tags vm2)(b \<mapsto> t')\<rparr>)
           (F - set P - set N) B xs' b ys' t'"
    unfolding t'_def by (rule releasing_next [OF Rp [folded vm2_def] YS2 adjn])
  have "vm2\<lparr>vm_freelist := fl', vm_seglist := xs' @ b # ys', vm_tags := (vm_tags vm2)(b \<mapsto> t')\<rparr> =
      vm\<lparr>vm_freelist := fl', vm_seglist := xs' @ b # ys', vm_tags := (vm_tags vm)(b \<mapsto> next_merge (prev_merge XS t0) YS)\<rparr>"
    by (simp add: vm2_def t'_def tp_def)
  then show thesis
    using that [OF cp [folded vm2_def] _ P N] cn Rn by (simp add: t'_def tp_def)
qed

text \<open>\<^verbatim>\<open>bt_insfree\<close> and the return of the superfluous tags to their pool, which end it.\<close>

lemma releasing_finish:
  assumes R: "releasing vm F B xs b ys t" and t: "bt_type t = BT_TYPE_FREE" "quantized (vm_quantum vm) t"
    and ts: "set ts \<inter> insert b (F \<union> B) = {}"
  obtains fl where "do { vm \<leftarrow> bt_insfree vm b; Some (fold (\<lambda>t vm. bt_pool_free vm t) ts vm) } =
      Some (vm\<lparr>vm_freelist := fl, vm_tags := (\<lambda>x. if x \<in> set ts then None else vm_tags vm x)\<rparr>)"
    and "index_ok (vm\<lparr>vm_freelist := fl, vm_tags := (\<lambda>x. if x \<in> set ts then None else vm_tags vm x)\<rparr>) (insert b F) B"
proof -
  have "bt_size t < 2 ^ 64"
    using R unfolding releasing_def by linarith
  then obtain fl where fl: "bt_insfree vm b = Some (vm\<lparr>vm_freelist := fl\<rparr>)" "index_ok (vm\<lparr>vm_freelist := fl\<rparr>) (insert b F) B"
    using bt_insfree_ok [of vm F B b t] R t by (auto simp: releasing_def)
  have "index_ok (vm\<lparr>vm_freelist := fl, vm_tags := (\<lambda>x. if x \<in> set ts then None else vm_tags vm x)\<rparr>) (insert b F) B"
    by (rule index_ok_tags [OF fl(2)]) (use ts in auto)
  moreover have "do { vm \<leftarrow> bt_insfree vm b; Some (fold (\<lambda>t vm. bt_pool_free vm t) ts vm) } =
      Some (vm\<lparr>vm_freelist := fl, vm_tags := (\<lambda>x. if x \<in> set ts then None else vm_tags vm x)\<rparr>)"
    using fl(1) by (simp add: fold_pool_free cong: if_cong)
  ultimately show thesis
    by (rule that [rotated])
qed

text \<open>Everything that \<^verbatim>\<open>vmem_free\<close> does once the tag is found.\<close>

lemma vmem_release:
  assumes inv: "vmem_inv vm" and b: "b \<in> of_type vm BT_TYPE_BUSY" and tag: "vm_tags vm b = Some tag"
  shows "\<exists>vm'. do {
       vm \<leftarrow> bt_rembusy vm b;
       let vm = set_tag vm b (tag\<lparr>bt_type := BT_TYPE_FREE\<rparr>);
       (vm, prev) \<leftarrow> coalesce_prev vm b;
       (vm, nxt) \<leftarrow> coalesce_next vm b;
       vm \<leftarrow> bt_insfree vm b;
       Some (fold (\<lambda>t vm. bt_pool_free vm t) (prev @ nxt) vm) } = Some vm' \<and>
     vmem_inv vm' \<and> arena_spans vm' = arena_spans vm \<and> allocated vm' = allocated vm - {(bt_start tag, bt_size tag)} \<and>
     (\<exists>XS YS. segs vm = XS @ tag # YS \<and> segs vm' = merge_segs XS tag YS)"
proof -
  let ?F = "of_type vm BT_TYPE_FREE" and ?B = "of_type vm BT_TYPE_BUSY - {b}" and ?q = "vm_quantum vm"
  have to: "tag_of vm b = tag" and tb: "bt_type tag = BT_TYPE_BUSY" and sb: "b \<in> set (vm_seglist vm)"
    using b tag by (auto simp: tag_of_def of_type_def)
  obtain xs ys where seg: "vm_seglist vm = xs @ b # ys"
    using split_list [OF sb] by blast
  have d: "distinct (xs @ b # ys)"
    using vmem_invD(2) [OF inv] seg by simp
  define XS YS where XY: "XS = map (tag_of vm) xs" "YS = map (tag_of vm) ys"
  have S: "segs vm = XS @ tag # YS"
    by (simp add: segs_def seg XY to)
  have ok: "segs_ok (XS @ tag # YS)"
    using vmem_invD(4) [OF inv] S by simp
  have q: "\<forall>t \<in> set XS. quantized ?q t" "\<forall>t \<in> set YS. quantized ?q t" "quantized ?q tag"
    using vmem_invD(6) [OF inv] by (auto simp: S)
  define t0 where "t0 = tag\<lparr>bt_type := BT_TYPE_FREE\<rparr>"
  obtain hl where rb: "bt_rembusy vm b = Some (vm\<lparr>vm_inuse := vm_inuse vm - bt_size tag, vm_hashlist := hl\<rparr>)"
    and R: "releasing (vm\<lparr>vm_inuse := vm_inuse vm - bt_size tag, vm_hashlist := hl, vm_tags := (vm_tags vm)(b \<mapsto> t0)\<rparr>)
      ?F ?B xs b ys t0"
    using releasing_start [OF inv b seg tag] unfolding t0_def by blast
  define vm1 where "vm1 = vm\<lparr>vm_inuse := vm_inuse vm - bt_size tag, vm_hashlist := hl, vm_tags := (vm_tags vm)(b \<mapsto> t0)\<rparr>"
  have m: "XS = map (tag_of vm1) xs" "YS = map (tag_of vm1) ys"
    using d by (auto simp: XY vm1_def tag_of_def)
  define t' where "t' = next_merge (prev_merge XS t0) YS"
  obtain vmp fl xs' ys' P N where cp: "coalesce_prev vm1 b = Some (vmp, P)"
    and cn: "coalesce_next vmp b =
      Some (vm1\<lparr>vm_freelist := fl, vm_seglist := xs' @ b # ys', vm_tags := (vm_tags vm1)(b \<mapsto> t')\<rparr>, N)"
    and P: "xs = xs' @ P" "P = (if free_before XS then [last xs] else [])"
    and N: "ys = N @ ys'" "N = (if free_after YS then [hd ys] else [])"
    and Rn: "releasing (vm1\<lparr>vm_freelist := fl, vm_seglist := xs' @ b # ys', vm_tags := (vm_tags vm1)(b \<mapsto> t')\<rparr>)
           (?F - set P - set N) ?B xs' b ys' t'"
    unfolding t'_def by (rule releasing_merge [OF R [folded vm1_def] t0_def tb ok m])
  have adj: "free_before XS \<Longrightarrow> bt_start (last XS) + bt_size (last XS) = bt_start t0"
    using segs_ok_merge(2) [OF ok tb] by (simp add: t0_def)
  have t': "bt_type t' = BT_TYPE_FREE" "quantized ?q t'"
    using prev_merge_props(1,2) [of t0 "tag_of vm" xs ?q, folded XY]
      next_merge_props [of "prev_merge XS t0" "tag_of vm" ys ?q, folded XY] q adj
    by (simp_all add: t0_def t'_def quantized_def)
  have free: "\<forall>x \<in> set (P @ N). bt_type (tag_of vm x) = BT_TYPE_FREE"
    unfolding P(2) N(2) by (auto simp: free_before_def free_after_def XY last_map hd_map)
  have dis: "set (P @ N) \<inter> insert b ((?F - set P - set N) \<union> ?B) = {}"
    using d free by (auto simp: P(1) N(1) of_type_def)
  define vm3 where "vm3 = vm1\<lparr>vm_freelist := fl, vm_seglist := xs' @ b # ys', vm_tags := (vm_tags vm1)(b \<mapsto> t')\<rparr>"
  have q3: "quantized (vm_quantum vm3) t'"
    using t'(2) by (simp add: vm3_def vm1_def)
  obtain fl' where fin: "do { vm \<leftarrow> bt_insfree vm3 b; Some (fold (\<lambda>t vm. bt_pool_free vm t) (P @ N) vm) } =
      Some (vm3\<lparr>vm_freelist := fl', vm_tags := (\<lambda>x. if x \<in> set (P @ N) then None else vm_tags vm3 x)\<rparr>)"
    and ix: "index_ok (vm3\<lparr>vm_freelist := fl', vm_tags := (\<lambda>x. if x \<in> set (P @ N) then None else vm_tags vm3 x)\<rparr>)
      (insert b (?F - set P - set N)) ?B"
    by (rule releasing_finish [OF Rn [folded vm3_def] t'(1) q3 dis])
  define vm' where "vm' = vm3\<lparr>vm_freelist := fl', vm_tags := (\<lambda>x. if x \<in> set (P @ N) then None else vm_tags vm3 x)\<rparr>"
  have ms: "merge_segs XS tag YS = map (tag_of vm) xs' @ t' # map (tag_of vm) ys'"
    unfolding XY t'_def t0_def by (rule merge_segs_map [OF P(1) P(2) [unfolded XY] N(1) N(2) [unfolded XY]])
  have "?F - set P - set N = ?F - set (P @ N)"
    by auto
  then have ix': "index_ok vm' (insert b (?F - set (P @ N))) ?B"
    using ix [folded vm'_def] by (simp only:)
  have seg': "vm_seglist vm = xs' @ P @ b # N @ ys'" "vm_seglist vm' = xs' @ b # ys'"
    using seg by (simp_all add: P(1) N(1) vm'_def vm3_def)
  have "vm_tags vm' x = (if x \<in> set (P @ N) then None else if x = b then Some t' else vm_tags vm x)" for x
    by (simp add: vm'_def vm3_def vm1_def)
  note rel = release_tag_inv [OF inv b seg'(1) ix' seg'(2) this free t'(1)]
  have "vmem_inv vm'" "arena_spans vm' = arena_spans vm" "allocated vm' = allocated vm - {(bt_start tag, bt_size tag)}"
    "segs vm' = map (tag_of vm) xs' @ t' # map (tag_of vm) ys'"
    using rel [OF _ t'(2)] segs_ok_merge(1) [OF ok tb] unfolding ms by (simp_all add: vm'_def vm3_def vm1_def to)
  moreover have "coalesce_next vmp b = Some (vm3, N)" "set_tag (vm\<lparr>vm_inuse := vm_inuse vm - bt_size tag, vm_hashlist := hl\<rparr>) b t0 = vm1"
    using cn by (simp_all add: vm3_def vm1_def set_tag_def)
  moreover have "segs vm = XS @ tag # YS \<and> segs vm' = merge_segs XS tag YS"
    using calculation(4) S ms by simp
  ultimately show ?thesis
    using rb cp fin [folded vm'_def] by (intro exI [of _ vm'] conjI exI [of _ YS, THEN exI [of _ XS]]) (simp_all flip: t0_def)
qed

lemma lookupbusy_loop_sound:
  assumes "\<forall>b \<in> set bs. \<exists>t. vm_tags vm b = Some t \<and> bt_type t = BT_TYPE_BUSY"
  shows "\<exists>r. lookupbusy_loop vm bs addr = Some r \<and> (\<forall>b. r = Some b \<longrightarrow> b \<in> set bs \<and> bt_start (tag_of vm b) = addr)"
  using assms by (induction bs) (auto simp: tag_of_def)

lemma allocated_iff:
  "(a, n) \<in> allocated vm \<longleftrightarrow> (\<exists>b \<in> of_type vm BT_TYPE_BUSY. bt_start (tag_of vm b) = a \<and> bt_size (tag_of vm b) = n)"
  by (auto simp: allocated_def of_type_def segs_def)

text \<open>The hash chains find exactly the segments in use.\<close>

lemma bt_lookupbusy_spec:
  assumes inv: "vmem_inv vm"
  obtains r where "bt_lookupbusy vm addr = Some r"
    and "\<forall>b. r = Some b \<longleftrightarrow> b \<in> of_type vm BT_TYPE_BUSY \<and> bt_start (tag_of vm b) = addr"
proof -
  let ?B = "of_type vm BT_TYPE_BUSY"
  have bk: "buckets (vm_hashlist vm) VMEM_MAXHASH ?B (start_hash vm)"
    and busy: "\<forall>b \<in> ?B. \<exists>t. vm_tags vm b = Some t \<and> bt_type t = BT_TYPE_BUSY"
    using vmem_invD(1) [OF inv] by (simp_all add: index_ok_def)
  have l: "set (vm_hashlist vm ! bt_hashhead addr) = {b \<in> ?B. start_hash vm b = bt_hashhead addr}"
    using bk hash_bound [of addr] by (simp add: buckets_def)
  then obtain r where r: "bt_lookupbusy vm addr = Some r"
    "\<forall>b. r = Some b \<longrightarrow> b \<in> ?B \<and> bt_start (tag_of vm b) = addr"
    using lookupbusy_loop_sound [of "vm_hashlist vm ! bt_hashhead addr" vm addr] busy by (auto simp: bt_lookupbusy_def)
  moreover have "r = Some b" if "b \<in> ?B" "bt_start (tag_of vm b) = addr" for b
    using bt_lookupbusy_ok [OF vmem_invD(1) [OF inv] that] busy_inj [OF inv that(1)] that(2) r(1) by auto
  ultimately show thesis
    using that by blast
qed

lemma vmem_free_ok:
  assumes inv: "vmem_inv vm"
  shows "(addr, align sz (vm_quantum vm)) \<notin> allocated vm \<Longrightarrow> vmem_free vm addr sz = None"
    and "(addr, align sz (vm_quantum vm)) \<in> allocated vm \<Longrightarrow>
      \<exists>vm' XS tag YS. vmem_free vm addr sz = Some vm' \<and> vmem_inv vm' \<and> arena_spans vm' = arena_spans vm \<and>
        allocated vm' = allocated vm - {(addr, align sz (vm_quantum vm))} \<and>
        segs vm = XS @ tag # YS \<and> bt_start tag = addr \<and> segs vm' = merge_segs XS tag YS"
proof -
  obtain r where r: "bt_lookupbusy vm addr = Some r"
    "\<forall>b. r = Some b \<longleftrightarrow> b \<in> of_type vm BT_TYPE_BUSY \<and> bt_start (tag_of vm b) = addr"
    by (rule bt_lookupbusy_spec [OF inv, of addr])
  have tag: "vm_tags vm b = Some (tag_of vm b)" if "b \<in> of_type vm BT_TYPE_BUSY" for b
    using vmem_tag(1) [OF inv] that by (simp add: of_type_def)
  {
    assume na: "(addr, align sz (vm_quantum vm)) \<notin> allocated vm"
    show "vmem_free vm addr sz = None"
    proof (cases r)
      case (Some b)
      then have "b \<in> of_type vm BT_TYPE_BUSY" "bt_start (tag_of vm b) = addr"
        using r(2) by simp_all
      then show ?thesis
        using r(1) Some na tag by (auto simp: vmem_free_def allocated_iff)
    qed (use r(1) in \<open>simp add: vmem_free_def\<close>)
  next
    assume "(addr, align sz (vm_quantum vm)) \<in> allocated vm"
    then obtain b where b: "b \<in> of_type vm BT_TYPE_BUSY" "bt_start (tag_of vm b) = addr"
      "bt_size (tag_of vm b) = align sz (vm_quantum vm)"
      by (auto simp: allocated_iff)
    then have "r = Some b"
      using r(2) by simp
    with vmem_release [OF inv b(1) tag [OF b(1)]] b r(1) tag [OF b(1)]
    show "\<exists>vm' XS tag YS. vmem_free vm addr sz = Some vm' \<and> vmem_inv vm' \<and> arena_spans vm' = arena_spans vm \<and>
        allocated vm' = allocated vm - {(addr, align sz (vm_quantum vm))} \<and>
        segs vm = XS @ tag # YS \<and> bt_start tag = addr \<and> segs vm' = merge_segs XS tag YS"
      by (fastforce simp: vmem_free_def)
  }
qed

section \<open>Creating, extending and destroying an arena\<close>

lemma vmem_create_ok:
  assumes "vmem_create q = Some vm" and q64: "q < 2 ^ 64"
  shows "vmem_inv vm" and "arena_spans vm = {}" and "allocated vm = {}" and "vm_quantum vm = q" and "segs vm = []"
proof -
  let ?sh = "SIZE2ORDER q"
  have q: "0 < q" "2 ^ ?sh = q" and vm: "vm = \<lparr>vm_size = 0, vm_inuse = 0, vm_quantum = q,
      vm_quantum_shift = ?sh, vm_seglist = [], vm_freelist = replicate VMEM_MAXORDER [],
      vm_hashlist = replicate VMEM_MAXHASH [], vm_tags = Map.empty\<rparr>"
    using assms(1) by (auto simp: vmem_create_def ORDER2SIZE_def Let_def kassert_def bind_eq_Some_conv split: if_splits)
  show "segs vm = []" "arena_spans vm = {}" "allocated vm = {}" "vm_quantum vm = q"
    by (simp_all add: vm segs_def arena_spans_def allocated_def)
  have "?sh < 64"
    using q q64 by (metis power_strict_increasing_iff one_less_numeral_iff semiring_norm(76))
  then have "index_ok vm {} {}"
    using q by (simp add: index_ok_def vm buckets_empty)
  then show "vmem_inv vm"
    by (auto simp: vmem_inv_def vm of_type_def segs_def segs_ok_def disjoint_rngs_def)
qed

text \<open>A new span: aligned, not empty, apart from the spans that are there, and its end is an address.\<close>

definition span_ok :: "vmem \<Rightarrow> nat \<Rightarrow> nat \<Rightarrow> bool" where
  "span_ok vm addr sz \<longleftrightarrow>
     0 < sz \<and> addr + sz < 2 ^ 64 \<and> vm_quantum vm dvd addr \<and> vm_quantum vm dvd sz \<and> vm_size vm + sz < 2 ^ 64 \<and>
     list_all (\<lambda>s. bt_start s + bt_size s \<le> addr \<or> addr + sz \<le> bt_start s) (spans (segs vm))"

lemma vmem_add_ok:
  assumes inv: "vmem_inv vm" and n: "vm_tags vm s = None" "vm_tags vm f = None" "s \<noteq> f" and sp: "span_ok vm addr sz"
  shows "\<exists>vm'. vmem_add vm s f addr sz = Some vm' \<and> vmem_inv vm' \<and> allocated vm' = allocated vm \<and>
     arena_spans vm' = insert \<lparr>bt_start = addr, bt_size = sz, bt_type = BT_TYPE_SPAN\<rparr> (arena_spans vm) \<and>
     vm_quantum vm' = vm_quantum vm"
proof -
  let ?F = "of_type vm BT_TYPE_FREE" and ?B = "of_type vm BT_TYPE_BUSY"
  define S where "S = \<lparr>bt_start = addr, bt_size = sz, bt_type = BT_TYPE_SPAN\<rparr>"
  define T where "T = \<lparr>bt_start = addr, bt_size = sz, bt_type = BT_TYPE_FREE\<rparr>"
  define vm1 where "vm1 = vm\<lparr>vm_tags := (vm_tags vm)(s \<mapsto> S, f \<mapsto> T), vm_seglist := vm_seglist vm @ [s, f]\<rparr>"
  have nn: "s \<notin> set (vm_seglist vm)" "f \<notin> set (vm_seglist vm)"
    using n vmem_invD(3) [OF inv] by (auto simp flip: vmem_invD(3) [OF inv])
  have ix1: "index_ok vm1 ?F ?B"
    by (rule index_ok_tags [OF vmem_invD(1) [OF inv]]) (use nn in \<open>auto simp: vm1_def of_type_def\<close>)
  have T: "bt_type T = BT_TYPE_FREE" "quantized (vm_quantum vm1) T" "0 < bt_size T" "bt_size T < 2 ^ 64" "vm_tags vm1 f = Some T"
    using sp by (simp_all add: T_def vm1_def quantized_def span_ok_def)
  have "f \<notin> ?F" "f \<notin> ?B"
    using nn by (auto simp: of_type_def)
  then obtain fl where fl: "bt_insfree vm1 f = Some (vm1\<lparr>vm_freelist := fl\<rparr>)" "index_ok (vm1\<lparr>vm_freelist := fl\<rparr>) (insert f ?F) ?B"
    using bt_insfree_ok [OF ix1 _ _ T(5,1,2,3,4)] by blast
  define vm' where "vm' = vm1\<lparr>vm_freelist := fl, vm_size := vm_size vm + sz\<rparr>"
  have ins: "insert_after f s (vm_seglist vm @ [s]) = vm_seglist vm @ [s, f]"
    using insert_after_split [OF nn(1), of f "[]"] by simp
  have add: "vmem_add vm s f addr sz = Some vm'"
    using n ins fl(1) sp
    by (simp add: vmem_add_def bt_pool_alloc_def bt_insseg_tail_def bt_insseg_after_def S_def T_def vm1_def vm'_def
        fun_upd_twist uadd_exact span_ok_def)
  have tg: "map (tag_of vm') (vm_seglist vm) = segs vm" "tag_of vm' s = S" "tag_of vm' f = T"
    using nn n(3) by (auto simp: segs_def tag_of_def vm'_def vm1_def)
  have sl: "vm_seglist vm' = vm_seglist vm @ [s, f]"
    by (simp add: vm'_def vm1_def)
  then have segs': "segs vm' = segs vm @ [S, T]"
    using tg by (simp add: segs_def [of vm'])
  have ok': "segs_ok (segs vm @ [S, T])"
    using vmem_invD(4) [OF inv] sp by (auto simp: segs_ok_def seg_run_append S_def T_def span_ok_def)
  have dj': "disjoint_rngs (spans (segs vm @ [S, T]))"
    using vmem_invD(5) [OF inv] sp
    by (fastforce simp: disjoint_rngs_def sorted_wrt_append S_def T_def span_ok_def list_all_iff rng_def)
  have "bt_type (tag_of vm' b) = bt_type (tag_of vm b)" if "b \<in> set (vm_seglist vm)" for b
    using that nn by (auto simp: tag_of_def vm'_def vm1_def)
  then have "of_type vm' BT_TYPE_FREE = insert f ?F" "of_type vm' BT_TYPE_BUSY = ?B"
    using tg(2,3) by (auto simp: of_type_def sl S_def T_def)
  moreover have "index_ok vm' (insert f ?F) ?B"
    by (rule index_ok_tags [OF fl(2)]) (auto simp: vm'_def)
  moreover have "dom (vm_tags vm') = set (vm_seglist vm')" "distinct (vm_seglist vm')"
    using vmem_invD(2,3) [OF inv] nn n(3) sl by (auto simp: vm'_def vm1_def)
  moreover have "\<forall>t \<in> set (segs vm @ [S, T]). quantized (vm_quantum vm') t"
    using vmem_invD(6) [OF inv] sp by (auto simp: S_def T_def span_ok_def quantized_def vm'_def vm1_def)
  ultimately have "vmem_inv vm'"
    using ok' dj' vmem_invD(7,8) [OF inv] sp unfolding vmem_inv_def segs'
    by (simp add: S_def T_def vm'_def vm1_def span_ok_def)
  moreover have "allocated vm' = allocated vm" "arena_spans vm' = insert S (arena_spans vm)"
    unfolding allocated_def arena_spans_def segs' by (auto simp: S_def T_def)
  ultimately show ?thesis
    using add by (auto simp: S_def vm'_def vm1_def)
qed

lemma destroy_sum_total:
  assumes "\<forall>t \<in> set ts. bt_type t \<noteq> BT_TYPE_BUSY" and "acc + total BT_TYPE_SPAN ts < 2 ^ 64"
  shows "destroy_sum ts acc = Some (acc + total BT_TYPE_SPAN ts)"
  using assms
proof (induction ts arbitrary: acc)
  case (Cons t ts)
  then have "bt_type t = BT_TYPE_SPAN \<or> bt_type t = BT_TYPE_FREE"
    by (cases "bt_type t") auto
  then show ?case
    using Cons by (auto simp: uadd_exact)
qed simp

text \<open>Without busy segments, every span is followed by one free segment of the same extent.\<close>

lemma destroy_pairs_walk:
  assumes "seg_run (p, e, f) ts = Some (q, q, g)" and "\<forall>t \<in> set ts. bt_type t \<noteq> BT_TYPE_BUSY"
    and "(prev = None \<and> p = e) \<or> (\<exists>t. prev = Some t \<and> bt_type t = BT_TYPE_FREE \<and> p = e) \<or>
         (\<exists>t. prev = Some t \<and> bt_type t = BT_TYPE_SPAN \<and> bt_start t = p \<and> p + bt_size t = e \<and> 0 < bt_size t \<and> \<not> f)"
  shows "destroy_pairs prev ts"
  using assms
proof (induction ts arbitrary: p e f prev)
  case (Cons t ts)
  obtain p1 e1 f1 where st: "seg_step (p, e, f) t = Some (p1, e1, f1)" "seg_run (p1, e1, f1) ts = Some (q, q, g)"
    using Cons.prems(1) by (auto simp: bind_eq_Some_conv)
  have nb: "\<forall>t \<in> set ts. bt_type t \<noteq> BT_TYPE_BUSY"
    using Cons.prems(2) by simp
  have full: "p1 = e1" if "f1"
    using st(2) nb that by (cases ts) (auto simp: bind_eq_Some_conv split: if_splits bt_type_t.splits)
  have "destroy_pairs (Some t) ts"
    using st(1) full Cons.prems(2) by (intro Cons.IH [OF st(2) nb]) (auto split: if_splits bt_type_t.splits)
  moreover have "case prev of
         None \<Rightarrow> bt_type t = BT_TYPE_SPAN
       | Some p \<Rightarrow>
           if bt_type t = BT_TYPE_FREE
           then bt_type p = BT_TYPE_SPAN \<and> bt_size p = bt_size t \<and> bt_start p = bt_start t
           else if bt_type t = BT_TYPE_SPAN then bt_type p = BT_TYPE_FREE else True"
    using st(1) full Cons.prems(2,3) by (auto split: if_splits bt_type_t.splits option.splits)
  ultimately show ?case
    by simp
qed simp

lemma tag_sane:
  assumes "segs_ok ts" and "t \<in> set ts" and "quantized q t" and "q = 2 ^ sh"
  shows "bt_end t = bt_start t + bt_size t - 1" and "bt_start t \<le> bt_end t" and "q \<le> bt_size t" and "is_aligned (bt_start t) q"
proof -
  have b: "0 < bt_size t" "bt_start t + bt_size t < 2 ^ 64"
    using segs_ok_bounds [OF assms(1,2)] by simp_all
  then show e: "bt_end t = bt_start t + bt_size t - 1"
    by (simp add: bt_end_def uadd_exact usub_exact)
  show "bt_start t \<le> bt_end t"
    using b by (simp add: e)
  show "q \<le> bt_size t"
    using b assms(3) by (simp add: quantized_def dvd_imp_le)
  show "is_aligned (bt_start t) q"
    using assms(3,4) by (simp add: quantized_def is_aligned_power2)
qed

lemma vmem_sane:
  assumes inv: "vmem_inv vm"
  shows "vmem_check_sanity vm"
proof -
  have e: "bt_end (tag_of vm b) = bt_start (tag_of vm b) + bt_size (tag_of vm b) - 1" "0 < bt_size (tag_of vm b)"
    "bt_start (tag_of vm b) \<le> bt_end (tag_of vm b)" "vm_quantum vm \<le> bt_size (tag_of vm b)"
    "is_aligned (bt_start (tag_of vm b)) (vm_quantum vm)" if "b \<in> set (vm_seglist vm)" for b
    using tag_sane [OF vmem_invD(4) [OF inv] _ _ vmem_quantum(1) [OF inv], of "tag_of vm b"]
      segs_ok_bounds(1) [OF vmem_invD(4) [OF inv], of "tag_of vm b"] vmem_tag(2) [OF inv that] vmem_invD(6) [OF inv] by auto
  have dj: "rng (tag_of vm b1) \<inter> rng (tag_of vm b2) = {}"
    if "b1 \<in> set (vm_seglist vm)" "b2 \<in> set (vm_seglist vm)" "b1 \<noteq> b2"
      "bt_isspan (tag_of vm b1) \<longleftrightarrow> bt_isspan (tag_of vm b2)" for b1 b2
  proof (cases "bt_isspan (tag_of vm b1)")
    case True
    then show ?thesis
      using spans_disjoint [OF inv] that by (simp add: bt_isspan_def)
  next
    case False
    then show ?thesis
      using tags_disjoint [OF inv] that by (simp add: bt_isspan_def)
  qed
  have "bt_start (tag_of vm b1) > bt_end (tag_of vm b2) \<or> bt_start (tag_of vm b2) > bt_end (tag_of vm b1)"
    if "b1 \<in> set (vm_seglist vm)" "b2 \<in> set (vm_seglist vm)" "b1 \<noteq> b2"
      "bt_isspan (tag_of vm b1) \<longleftrightarrow> bt_isspan (tag_of vm b2)" for b1 b2
    using disjoint_rng_iff [of "tag_of vm b1" "tag_of vm b2"] dj [OF that] e [OF that(1)] e [OF that(2)] by linarith
  then show ?thesis
    using e by (auto simp: vmem_check_sanity_def list_all_iff)
qed

section \<open>The allocator as its clients see it\<close>

text \<open>
  A request with the tag that the pool has ready for it.  The size is below \<open>2 ^ 63\<close>, so that rounding it
  up to the quantum does not wrap.
\<close>

datatype vmem_op = VAlloc nat nat | VFree nat nat

fun vmem_op_ok :: "vmem \<Rightarrow> vmem_op \<Rightarrow> bool" where
  "vmem_op_ok vm (VAlloc n sz) \<longleftrightarrow> vm_tags vm n = None \<and> 0 < sz \<and> sz + vm_quantum vm \<le> 2 ^ 63"
| "vmem_op_ok vm (VFree a sz) \<longleftrightarrow> True"

fun vmem_exec :: "vmem \<Rightarrow> vmem_op \<Rightarrow> (region_event \<times> vmem) option" where
  "vmem_exec vm (VAlloc n sz) =
     do {
       (r, vm') \<leftarrow> vmem_alloc vm (Some n) sz;
       Some (case r of Inl e \<Rightarrow> Refused | Inr a \<Rightarrow> Taken a (align sz (vm_quantum vm)), vm')
     }"
| "vmem_exec vm (VFree a sz) = do { vm' \<leftarrow> vmem_free vm a sz; Some (Released a (align sz (vm_quantum vm)), vm') }"

fun vmem_run :: "vmem \<Rightarrow> vmem_op list \<Rightarrow> (region_event list \<times> vmem) option" where
  "vmem_run vm [] = Some ([], vm)"
| "vmem_run vm (op # ops) =
     do {
       kassert (vmem_op_ok vm op);
       (e, vm) \<leftarrow> vmem_exec vm op;
       (es, vm) \<leftarrow> vmem_run vm ops;
       Some (e # es, vm)
     }"

definition vmem_space :: "vmem \<Rightarrow> nat set" where
  "vmem_space vm = \<Union> (rng ` arena_spans vm)"

definition vmem_step :: "vmem \<Rightarrow> region_event \<Rightarrow> vmem \<Rightarrow> bool" where
  "vmem_step vm e vm' \<longleftrightarrow> (\<exists>op. vmem_op_ok vm op \<and> vmem_exec vm op = Some (e, vm'))"

lemma vmem_stepE:
  assumes "vmem_step vm e vm'"
  obtains n sz a where "vmem_op_ok vm (VAlloc n sz)" and "vmem_alloc vm (Some n) sz = Some (Inr a, vm')"
      and "e = Taken a (align sz (vm_quantum vm))"
    | n sz err where "vmem_op_ok vm (VAlloc n sz)" and "vmem_alloc vm (Some n) sz = Some (Inl err, vm')" and "e = Refused"
    | a sz where "vmem_free vm a sz = Some vm'" and "e = Released a (align sz (vm_quantum vm))"
proof -
  obtain op where op: "vmem_op_ok vm op" "vmem_exec vm op = Some (e, vm')"
    using assms by (auto simp: vmem_step_def)
  show thesis
  proof (cases op)
    case (VAlloc n sz)
    then obtain r where "vmem_alloc vm (Some n) sz = Some (r, vm')"
      "e = (case r of Inl e \<Rightarrow> Refused | Inr a \<Rightarrow> Taken a (align sz (vm_quantum vm)))"
      using op(2) by (auto simp: bind_eq_Some_conv)
    then show thesis
      using that(1,2) op(1) VAlloc by (cases r) auto
  qed (use op that(3) in \<open>auto simp: bind_eq_Some_conv\<close>)
qed

lemma vmem_alloc_taken:
  assumes inv: "vmem_inv vm" and ok: "vmem_op_ok vm (VAlloc n sz)" and ex: "vmem_alloc vm (Some n) sz = Some (Inr a, vm')"
  defines "m \<equiv> align sz (vm_quantum vm)"
  shows "vmem_inv vm'" and "arena_spans vm' = arena_spans vm" and "allocated vm' = insert (a, m) (allocated vm)"
    and "0 < m" and "\<exists>s \<in> arena_spans vm. region (a, m) \<subseteq> rng s" and "\<forall>r \<in> allocated vm. region (a, m) \<inter> region r = {}"
    and "vm_quantum vm dvd a"
proof -
  obtain b where b: "a = bt_start (tag_of vm b)" "b \<in> of_type vm BT_TYPE_FREE" "m \<le> bt_size (tag_of vm b)"
    and v: "vmem_inv vm'" "arena_spans vm' = arena_spans vm" "allocated vm' = insert (a, m) (allocated vm)"
    using vmem_alloc_ok [OF inv _ _ _ refl, of n sz] ok ex by (auto simp: m_def)
  then show "vmem_inv vm'" "arena_spans vm' = arena_spans vm" "allocated vm' = insert (a, m) (allocated vm)"
    by simp_all
  show "0 < m"
    using align_quantum(1) [OF inv] ok by (simp add: m_def)
  have sb: "b \<in> set (vm_seglist vm)" "bt_type (tag_of vm b) \<noteq> BT_TYPE_SPAN"
    using b(2) by (auto simp: of_type_def)
  have sub: "region (a, m) \<subseteq> rng (tag_of vm b)"
    using b(1,3) by (auto simp: region_def rng_def)
  then show "\<exists>s \<in> arena_spans vm. region (a, m) \<subseteq> rng s"
    using seg_in_span [OF inv sb] by blast
  show "\<forall>r \<in> allocated vm. region (a, m) \<inter> region r = {}"
    using seg_free_range [OF inv b(2)] sub by (fastforce simp: region_def)
  show "vm_quantum vm dvd a"
    using vmem_invD(6) [OF inv vmem_tag(2) [OF inv sb(1)]] b(1) by (simp add: quantized_def)
qed

interpretation va: region_allocator vmem_inv vmem_space allocated vmem_step
proof unfold_locales
  fix vm e vm' a n
  assume inv: "vmem_inv vm"
  {
    assume "vmem_step vm e vm'"
    then have "vmem_inv vm' \<and> arena_spans vm' = arena_spans vm"
    proof (cases rule: vmem_stepE)
      case (1 m sz b)
      then show ?thesis
        using vmem_alloc_taken(1,2) [OF inv] by blast
    next
      case (2 m sz err)
      then show ?thesis
        using vmem_alloc_ok [OF inv _ _ _ refl, of m sz] inv by auto
    next
      case (3 b sz)
      then show ?thesis
        using vmem_free_ok [OF inv, of b sz] by (cases "(b, align sz (vm_quantum vm)) \<in> allocated vm") auto
    qed
    then show "vmem_inv vm' \<and> vmem_space vm' = vmem_space vm"
      by (simp add: vmem_space_def)
  next
    assume "vmem_step vm (Taken a n) vm'"
    then obtain t sz where al: "vmem_op_ok vm (VAlloc t sz)" "vmem_alloc vm (Some t) sz = Some (Inr a, vm')"
      and n: "n = align sz (vm_quantum vm)"
      by (auto elim: vmem_stepE)
    show "0 < n \<and> region (a, n) \<subseteq> vmem_space vm \<and> (\<forall>r \<in> allocated vm. region (a, n) \<inter> region r = {}) \<and>
        allocated vm' = insert (a, n) (allocated vm)"
      using vmem_alloc_taken [OF inv al] unfolding vmem_space_def n by blast
  next
    assume "vmem_step vm (Released a n) vm'"
    then obtain sz where "vmem_free vm a sz = Some vm'" "n = align sz (vm_quantum vm)"
      by (auto elim: vmem_stepE)
    then show "(a, n) \<in> allocated vm \<and> allocated vm' = allocated vm - {(a, n)}"
      using vmem_free_ok [OF inv, of a sz] by (cases "(a, n) \<in> allocated vm") auto
  next
    assume "vmem_step vm Refused vm'"
    then obtain t sz e where "vmem_op_ok vm (VAlloc t sz)" "vmem_alloc vm (Some t) sz = Some (Inl e, vm')"
      by (auto elim: vmem_stepE)
    then show "allocated vm' = allocated vm"
      using vmem_alloc_ok [OF inv _ _ _ refl, of t sz] by auto
  }
qed

lemma vmem_run_trace: "vmem_run vm ops = Some (es, vm') \<Longrightarrow> va.trace vm es vm'"
  by (induction ops arbitrary: vm es)
    (auto simp: bind_eq_Some_conv vmem_step_def split: prod.splits intro!: va.trace_nil va.trace_cons)

text \<open>Every way to get at an arena.\<close>

inductive vmem_reach :: "vmem \<Rightarrow> bool" where
  reach_create: "q < 2 ^ 64 \<Longrightarrow> vmem_create q = Some vm \<Longrightarrow> vmem_reach vm"
| reach_add: "vmem_reach vm \<Longrightarrow> vm_tags vm s = None \<Longrightarrow> vm_tags vm f = None \<Longrightarrow> s \<noteq> f \<Longrightarrow> span_ok vm addr sz \<Longrightarrow>
    vmem_add vm s f addr sz = Some vm' \<Longrightarrow> vmem_reach vm'"
| reach_step: "vmem_reach vm \<Longrightarrow> vmem_op_ok vm op \<Longrightarrow> vmem_exec vm op = Some (e, vm') \<Longrightarrow> vmem_reach vm'"

lemma vmem_reach_inv: "vmem_reach vm \<Longrightarrow> vmem_inv vm"
proof (induction rule: vmem_reach.induct)
  case (reach_add vm s f addr sz vm')
  then show ?case
    using vmem_add_ok [of vm s f addr sz] by auto
next
  case (reach_step vm op e vm')
  then have "vmem_step vm e vm'"
    by (auto simp: vmem_step_def)
  then show ?case
    using va.step_inv [OF reach_step.IH] by blast
qed (rule vmem_create_ok)

section \<open>Properties\<close>

text \<open>An arena with one span of four quanta, for the examples.\<close>

definition arena0 :: vmem where
  "arena0 = the (do { vm \<leftarrow> vmem_create 16; vmem_add vm 0 1 4096 64 })"

lemma arena0: "vmem_inv arena0" "allocated arena0 = {}" "vm_quantum arena0 = 16"
  "arena_spans arena0 = {\<lparr>bt_start = 4096, bt_size = 64, bt_type = BT_TYPE_SPAN\<rparr>}" "vmem_reach arena0"
proof -
  have "Option.is_none (vmem_create 16) = False"
    by code_simp
  then obtain vm where vm: "vmem_create 16 = Some vm"
    by (auto simp: Option.is_none_def)
  note c = vmem_create_ok [OF vm]
  have t: "vm_tags vm = Map.empty" "vm_size vm = 0"
    using vm by (auto simp: vmem_create_def Let_def kassert_def bind_eq_Some_conv split: if_splits)
  have sp: "span_ok vm 4096 64"
    using c(4,5) t(2) by (simp add: span_ok_def)
  then obtain vm' where v: "vmem_add vm 0 1 4096 64 = Some vm'" "vmem_inv vm'" "allocated vm' = allocated vm"
    "arena_spans vm' = insert \<lparr>bt_start = 4096, bt_size = 64, bt_type = BT_TYPE_SPAN\<rparr> (arena_spans vm)"
    "vm_quantum vm' = vm_quantum vm"
    using vmem_add_ok [of vm 0 1 4096 64] c(1) t by auto
  then show "vmem_inv arena0" "allocated arena0 = {}" "vm_quantum arena0 = 16"
    "arena_spans arena0 = {\<lparr>bt_start = 4096, bt_size = 64, bt_type = BT_TYPE_SPAN\<rparr>}"
    using c vm by (simp_all add: arena0_def)
  show "vmem_reach arena0"
    using reach_add [OF reach_create [OF _ vm], of 0 1 4096 64 vm'] t sp v(1) vm by (simp add: arena0_def)
qed

text \<open>
  C17: \<^verbatim>\<open>vmem_alloc\<close> keeps the invariant of the arena and passes all its assertions.  It either returns an aligned
  range of the rounded size that lies inside one span and overlaps no range in use, which is then in
  use in addition to those before, or fails with \<^verbatim>\<open>ENOMEM\<close>, leaving the arena as it was, and only if no
  free segment is large enough.
\<close>
theorem vmem_alloc_spec:
  assumes "vmem_inv vm" and "vm_tags vm n = None" and "0 < sz" and "sz + vm_quantum vm \<le> 2 ^ 63"
  defines "m \<equiv> align sz (vm_quantum vm)"
  shows "\<exists>r vm'. vmem_alloc vm (Some n) sz = Some (r, vm') \<and> vmem_inv vm' \<and> arena_spans vm' = arena_spans vm \<and>
     (case r of
        Inl e \<Rightarrow> e = ENOMEM \<and> vm' = vm \<and> (\<forall>t \<in> set (segs vm). bt_type t = BT_TYPE_FREE \<longrightarrow> bt_size t < m)
      | Inr addr \<Rightarrow> vm_quantum vm dvd addr \<and> (\<exists>s \<in> arena_spans vm. region (addr, m) \<subseteq> rng s) \<and>
          (\<forall>r \<in> allocated vm. region (addr, m) \<inter> region r = {}) \<and> allocated vm' = insert (addr, m) (allocated vm))"
proof -
  have ok: "vmem_op_ok vm (VAlloc n sz)"
    using assms by simp
  have free: "\<forall>t \<in> set (segs vm). bt_type t = BT_TYPE_FREE \<longrightarrow> bt_size t < m"
    if "\<forall>b \<in> of_type vm BT_TYPE_FREE. bt_size (tag_of vm b) < m"
    using that by (auto simp: segs_def of_type_def)
  consider "vmem_alloc vm (Some n) sz = Some (Inl ENOMEM, vm)" "\<forall>b \<in> of_type vm BT_TYPE_FREE. bt_size (tag_of vm b) < m"
    | a vm' where "vmem_alloc vm (Some n) sz = Some (Inr a, vm')"
    using vmem_alloc_ok [OF assms(1-4) refl] unfolding m_def by blast
  then show ?thesis
  proof cases
    case 1
    then show ?thesis
      using free assms(1) by auto
  next
    case 2
    then show ?thesis
      using vmem_alloc_taken [OF assms(1) ok 2] by (simp add: m_def)
  qed
qed

theorem vmem_alloc_spec_witness:
  "\<exists>vm'. vmem_alloc arena0 (Some 2) 20 = Some (Inr 4096, vm') \<and> vmem_inv vm' \<and> allocated vm' = {(4096, 32)}"
proof -
  have "vm_tags arena0 2 = None" "map_option fst (vmem_alloc arena0 (Some 2) 20) = Some (Inr 4096)" "align 20 16 = 32"
    by code_simp+
  then show ?thesis
    using vmem_alloc_spec [of arena0 2 20] by (auto simp: arena0)
qed

text \<open>
  C18: \<^verbatim>\<open>vmem_free\<close> accepts exactly the ranges in use: any other address or size is a panic.  For a range
  in use it keeps the invariant, takes just this range out of use, and merges the segment with its
  free neighbours, so that no two free segments are adjacent.
\<close>
theorem vmem_free_spec:
  assumes "vmem_inv vm"
  shows "case vmem_free vm addr sz of
      None \<Rightarrow> (addr, align sz (vm_quantum vm)) \<notin> allocated vm
    | Some vm' \<Rightarrow> (addr, align sz (vm_quantum vm)) \<in> allocated vm \<and> vmem_inv vm' \<and> arena_spans vm' = arena_spans vm \<and>
        allocated vm' = allocated vm - {(addr, align sz (vm_quantum vm))} \<and>
        (\<exists>XS tag YS. segs vm = XS @ tag # YS \<and> bt_start tag = addr \<and> segs vm' = merge_segs XS tag YS)"
proof (cases "(addr, align sz (vm_quantum vm)) \<in> allocated vm")
  case True
  then obtain vm' XS tag YS where "vmem_free vm addr sz = Some vm'" "vmem_inv vm'" "arena_spans vm' = arena_spans vm"
    "allocated vm' = allocated vm - {(addr, align sz (vm_quantum vm))}"
    "segs vm = XS @ tag # YS" "bt_start tag = addr" "segs vm' = merge_segs XS tag YS"
    using vmem_free_ok(2) [OF assms, of addr sz] by blast
  then show ?thesis
    using True by (simp, blast)
next
  case False
  then show ?thesis
    using vmem_free_ok(1) [OF assms, of addr sz] by simp
qed

theorem vmem_free_spec_witness: "vmem_free arena0 4096 16 = None \<and>
   (case vmem_free arena0 4096 16 of
      None \<Rightarrow> (4096, align 16 (vm_quantum arena0)) \<notin> allocated arena0
    | Some vm' \<Rightarrow> False)"
  using vmem_free_spec [OF arena0(1), of 4096 16] by (auto simp: arena0 split: option.splits)

text \<open>
  C4: In any history of requests, a range that \<^verbatim>\<open>vmem_alloc\<close> returned is not returned again, not even in
  part, before it was given back with \<^verbatim>\<open>vmem_free\<close>.
\<close>
theorem vmem_no_double_allocation:
  assumes "vmem_inv vm" and "vmem_run vm ops = Some (es @ Taken a n # mid @ Taken b m # rest, vm')"
    and "region (a, n) \<inter> region (b, m) \<noteq> {}"
  shows "Released a n \<in> set mid"
  using va.no_double_allocation [OF vmem_run_trace [OF assms(2)] assms(1,3)] .

theorem vmem_no_double_allocation_witness:
  "map_option fst (vmem_run arena0 [VAlloc 2 20, VFree 4096 20, VAlloc 2 48]) =
     Some [Taken 4096 32, Released 4096 32, Taken 4096 48] \<and> Released 4096 32 \<in> set [Released 4096 32]"
proof -
  have run: "map_option fst (vmem_run arena0 [VAlloc 2 20, VFree 4096 20, VAlloc 2 48]) =
     Some [Taken 4096 32, Released 4096 32, Taken 4096 48]"
    by code_simp
  then obtain vm' where "vmem_run arena0 [VAlloc 2 20, VFree 4096 20, VAlloc 2 48] =
     Some ([] @ Taken 4096 32 # [Released 4096 32] @ Taken 4096 48 # [], vm')"
    by auto
  moreover have "region (4096, 32) \<inter> region (4096, 48) \<noteq> {}"
    by (auto simp: region_def)
  ultimately show ?thesis
    using vmem_no_double_allocation [OF arena0(1)] run by blast
qed

text \<open>
  C19: After any history of creating an arena, adding spans, allocating and freeing, the sanity check of
  debug builds passes; and \<^verbatim>\<open>vmem_destroy\<close> passes its checks and gives every boundary tag back to the
  pool if the arena has a span and nothing is in use.
\<close>
theorem vmem_reach_sane:
  assumes "vmem_reach vm"
  shows "vmem_check_sanity vm \<and>
    (arena_spans vm \<noteq> {} \<and> allocated vm = {} \<longrightarrow> (\<exists>vm'. vmem_destroy vm = Some vm' \<and> vm_tags vm' = Map.empty))"
proof (intro conjI impI)
  have inv: "vmem_inv vm"
    using assms by (rule vmem_reach_inv)
  then show "vmem_check_sanity vm"
    by (rule vmem_sane)
  assume a: "arena_spans vm \<noteq> {} \<and> allocated vm = {}"
  then have nb: "\<forall>t \<in> set (segs vm). bt_type t \<noteq> BT_TYPE_BUSY"
    by (auto simp: allocated_def)
  obtain p f where run: "seg_run (0, 0, False) (segs vm) = Some (p, p, f)"
    using vmem_invD(4) [OF inv] by (auto simp: segs_ok_def)
  have "vm_seglist vm \<noteq> []"
    using a by (auto simp: arena_spans_def segs_def)
  moreover have "destroy_sum (segs vm) 0 = Some (vm_size vm)"
    using destroy_sum_total [OF nb, of 0] vmem_invD(7,9) [OF inv] by simp
  moreover have "vm_inuse vm = 0"
    using nb vmem_invD(8) [OF inv] by (simp add: total_def)
  moreover have "destroy_pairs None (segs vm)"
    by (rule destroy_pairs_walk [OF run nb]) simp
  ultimately have "vmem_destroy vm = Some (fold (\<lambda>t vm. bt_pool_free vm t) (vm_seglist vm) vm)"
    by (simp add: vmem_destroy_def)
  moreover have "(\<lambda>x. if x \<in> set (vm_seglist vm) then None else vm_tags vm x) = Map.empty"
    using vmem_invD(3) [OF inv] by (auto simp: fun_eq_iff)
  ultimately show "\<exists>vm'. vmem_destroy vm = Some vm' \<and> vm_tags vm' = Map.empty"
    by (simp add: fold_pool_free)
qed

theorem vmem_reach_sane_witness:
  "vmem_check_sanity arena0 \<and> (\<exists>vm'. vmem_destroy arena0 = Some vm' \<and> vm_tags vm' = Map.empty)"
  using vmem_reach_sane [OF arena0(5)] by (simp add: arena0)

end
