(* ===== verification/VmObject.thy ===== *)
theory VmObject
  imports File
begin

text \<open>
  Memory objects and their pagers: \<^verbatim>\<open>sys/kern/vm_object.c\<close> and \<^verbatim>\<open>sys/kern/vm_pager.c\<close>.  An object is a list
  of pages, sorted by their offset in the object.  Page frames have a descriptor (the part of
  \<^verbatim>\<open>struct vm_page\<close> that objects use) and a content; the frames that no one uses are a list, which stands
  for the physical memory allocator: \<^verbatim>\<open>vm_page_alloc(1)\<close> takes a frame of it.
\<close>

section \<open>Pages and objects\<close>

lemma page_aligned_iff: "page_aligned_p a \<longleftrightarrow> PAGESIZE dvd a"
  using is_aligned_power2 [of a 12] by (simp add: page_aligned_p_def PAGESIZE_def)

record vm_page =
  pg_object :: "nat option"
  pg_offset :: nat
  pg_size :: nat

datatype vm_pgr_type_t = VM_DUMMY | VM_ANONYMOUS

record vm_object =
  vo_pages :: "nat list"
  vo_npages :: nat
  vo_pager :: vm_pgr_type_t
  vo_refs :: nat

record vmsys =
  vs_objs :: "nat \<Rightarrow> vm_object option"
  vs_page :: "nat \<Rightarrow> vm_page"
  vs_mem :: "nat \<Rightarrow> nat"
  vs_free :: "nat list"

definition set_obj :: "vmsys \<Rightarrow> nat \<Rightarrow> vm_object \<Rightarrow> vmsys" where
  "set_obj s ob v = s\<lparr>vs_objs := (vs_objs s)(ob \<mapsto> v)\<rparr>"

definition set_page :: "vmsys \<Rightarrow> nat \<Rightarrow> vm_page \<Rightarrow> vmsys" where
  "set_page s p v = s\<lparr>vs_page := (vs_page s)(p := v)\<rparr>"

text \<open>The frames: taking one, returning one, and the two operations on its content.\<close>

definition page_alloc :: "vmsys \<Rightarrow> (nat \<times> vmsys) option" where
  "page_alloc s = (case vs_free s of [] \<Rightarrow> None | p # ps \<Rightarrow> Some (p, s\<lparr>vs_free := ps\<rparr>))"

definition page_free :: "vmsys \<Rightarrow> nat \<Rightarrow> vmsys option" where
  "page_free s p = do { kassert (p \<notin> set (vs_free s)); Some (s\<lparr>vs_free := p # vs_free s\<rparr>) }"

definition zero_page :: "vmsys \<Rightarrow> nat \<Rightarrow> vmsys" where
  "zero_page s p = s\<lparr>vs_mem := (vs_mem s)(p := 0)\<rparr>"

definition copy_page :: "vmsys \<Rightarrow> nat \<Rightarrow> nat \<Rightarrow> vmsys" where
  "copy_page s src dst = s\<lparr>vs_mem := (vs_mem s)(dst := vs_mem s src)\<rparr>"

section \<open>Operations on objects\<close>

text \<open>The address of the new object comes from its pool.\<close>

definition vm_object_alloc :: "vmsys \<Rightarrow> nat \<Rightarrow> vm_pgr_type_t \<Rightarrow> vmsys option" where
  "vm_object_alloc s ob ty =
     do {
       kassert (vs_objs s ob = None);
       Some (set_obj s ob \<lparr>vo_pages = [], vo_npages = 0, vo_pager = ty, vo_refs = 1\<rparr>)
     }"

fun find_page_loop :: "vmsys \<Rightarrow> nat list \<Rightarrow> nat \<Rightarrow> nat option" where
  "find_page_loop s [] off = None"
| "find_page_loop s (pg # pgs) off = (if pg_offset (vs_page s pg) = off then Some pg else find_page_loop s pgs off)"

definition vm_object_find_page :: "vmsys \<Rightarrow> nat \<Rightarrow> nat \<Rightarrow> nat option option" where
  "vm_object_find_page s ob off = do { v \<leftarrow> vs_objs s ob; Some (find_page_loop s (vo_pages v) off) }"

fun add_page_loop :: "vmsys \<Rightarrow> nat list \<Rightarrow> nat \<Rightarrow> nat \<Rightarrow> nat list option" where
  "add_page_loop s [] off pg = Some [pg]"
| "add_page_loop s (it # its) off pg =
     (if pg_offset (vs_page s it) > off then Some (pg # it # its)
      else do {
        kassert (pg_offset (vs_page s it) \<noteq> off);
        its' \<leftarrow> add_page_loop s its off pg;
        Some (it # its')
      })"

definition vm_object_add_page :: "vmsys \<Rightarrow> nat \<Rightarrow> nat \<Rightarrow> nat \<Rightarrow> vmsys option" where
  "vm_object_add_page s ob off pg =
     do {
       kassert (page_aligned_p (pg_offset (vs_page s pg)));
       kassert (pg_size (vs_page s pg) = 1);
       let s = set_page s pg ((vs_page s pg)\<lparr>pg_object := Some ob, pg_offset := off\<rparr>);
       v \<leftarrow> vs_objs s ob;
       pgs \<leftarrow> add_page_loop s (vo_pages v) off pg;
       Some (set_obj s ob (v\<lparr>vo_pages := pgs, vo_npages := uadd (vo_npages v) 1\<rparr>))
     }"

text \<open>The loop over the pages of an object; the pages that stay and the state are returned.\<close>

fun remove_pages_loop :: "vmsys \<Rightarrow> nat list \<Rightarrow> nat \<Rightarrow> nat \<Rightarrow> (nat list \<times> vmsys) option" where
  "remove_pages_loop s [] off len = Some ([], s)"
| "remove_pages_loop s (pg # pgs) off len =
     (if pg_offset (vs_page s pg) \<ge> uadd off len then Some (pg # pgs, s)
      else if pg_offset (vs_page s pg) < off
      then do { (keep, s) \<leftarrow> remove_pages_loop s pgs off len; Some (pg # keep, s) }
      else do {
        let s = set_page s pg ((vs_page s pg)\<lparr>pg_offset := 0, pg_object := None\<rparr>);
        s \<leftarrow> page_free s pg;
        remove_pages_loop s pgs off len
      })"

definition vm_object_remove_pages :: "vmsys \<Rightarrow> nat \<Rightarrow> nat \<Rightarrow> nat \<Rightarrow> vmsys option" where
  "vm_object_remove_pages s ob off len =
     do {
       kassert (page_aligned_p off \<and> page_aligned_p len);
       v \<leftarrow> vs_objs s ob;
       (keep, s) \<leftarrow> remove_pages_loop s (vo_pages v) off len;
       Some (set_obj s ob (v\<lparr>vo_pages := keep, vo_npages := usub (vo_npages v) (length (vo_pages v) - length keep)\<rparr>))
     }"

definition vm_object_remove_all_pages :: "vmsys \<Rightarrow> nat \<Rightarrow> vmsys option" where
  "vm_object_remove_all_pages s ob = vm_object_remove_pages s ob 0 (usub 0 PAGESIZE)"

definition vm_object_hold :: "vmsys \<Rightarrow> nat \<Rightarrow> vmsys option" where
  "vm_object_hold s ob =
     do { v \<leftarrow> vs_objs s ob; c \<leftarrow> refcnt_acquire (vo_refs v); Some (set_obj s ob (v\<lparr>vo_refs := c\<rparr>)) }"

definition vm_object_drop :: "vmsys \<Rightarrow> nat \<Rightarrow> vmsys option" where
  "vm_object_drop s ob =
     do {
       v \<leftarrow> vs_objs s ob;
       (final, c) \<leftarrow> refcnt_release (vo_refs v);
       let s = set_obj s ob (v\<lparr>vo_refs := c\<rparr>);
       if \<not> final then Some s
       else do {
         s \<leftarrow> vm_object_remove_all_pages s ob;
         Some (s\<lparr>vs_objs := (vs_objs s)(ob := None)\<rparr>)
       }
     }"

fun clone_loop :: "vmsys \<Rightarrow> nat list \<Rightarrow> nat \<Rightarrow> vmsys option" where
  "clone_loop s [] new_obj = Some s"
| "clone_loop s (pg # pgs) new_obj =
     do {
       (new_pg, s) \<leftarrow> page_alloc s;
       let s = copy_page s pg new_pg;
       s \<leftarrow> vm_object_add_page s new_obj (pg_offset (vs_page s pg)) new_pg;
       clone_loop s pgs new_obj
     }"

definition vm_object_clone :: "vmsys \<Rightarrow> nat \<Rightarrow> nat \<Rightarrow> vmsys option" where
  "vm_object_clone s ob new_obj =
     do {
       s \<leftarrow> vm_object_alloc s new_obj VM_DUMMY;
       v \<leftarrow> vs_objs s ob;
       nv \<leftarrow> vs_objs s new_obj;
       let s = set_obj s new_obj (nv\<lparr>vo_pager := vo_pager v\<rparr>);
       clone_loop s (vo_pages v) new_obj
     }"

text \<open>The page fault handlers of the pagers; \<open>None\<close> inside is the null pointer.\<close>

fun pgr_fault :: "vm_pgr_type_t \<Rightarrow> vmsys \<Rightarrow> nat \<Rightarrow> nat \<Rightarrow> (nat option \<times> vmsys) option" where
  "pgr_fault VM_DUMMY s ob off = Some (None, s)"
| "pgr_fault VM_ANONYMOUS s ob off =
     do {
       (new_pg, s) \<leftarrow> page_alloc s;
       let s = zero_page s new_pg;
       s \<leftarrow> vm_object_add_page s ob off new_pg;
       Some (Some new_pg, s)
     }"

section \<open>Invariant and abstraction\<close>

definition MAXOFF :: nat where "MAXOFF = 2 ^ 64 - PAGESIZE"

definition offs :: "vmsys \<Rightarrow> nat list \<Rightarrow> nat list" where
  "offs s pgs = map (\<lambda>p. pg_offset (vs_page s p)) pgs"

definition page_ok :: "vmsys \<Rightarrow> nat \<Rightarrow> nat \<Rightarrow> bool" where
  "page_ok s ob p \<longleftrightarrow> pg_object (vs_page s p) = Some ob \<and> p \<notin> set (vs_free s) \<and> pg_size (vs_page s p) = 1 \<and>
     PAGESIZE dvd pg_offset (vs_page s p) \<and> pg_offset (vs_page s p) < MAXOFF"

definition obj_ok :: "vmsys \<Rightarrow> nat \<Rightarrow> vm_object \<Rightarrow> bool" where
  "obj_ok s ob v \<longleftrightarrow> sorted_wrt (<) (offs s (vo_pages v)) \<and> (\<forall>p \<in> set (vo_pages v). page_ok s ob p) \<and>
     vo_npages v = length (vo_pages v)"

text \<open>A frame as \<^verbatim>\<open>vm_page_alloc\<close> returns it.\<close>

definition blank_page :: "vm_page \<Rightarrow> bool" where
  "blank_page pg \<longleftrightarrow> pg_object pg = None \<and> pg_offset pg = 0 \<and> pg_size pg = 1"

definition vs_inv :: "vmsys \<Rightarrow> bool" where
  "vs_inv s \<longleftrightarrow> distinct (vs_free s) \<and> (\<forall>p \<in> set (vs_free s). blank_page (vs_page s p)) \<and>
     (\<forall>ob v. vs_objs s ob = Some v \<longrightarrow> obj_ok s ob v)"

text \<open>An object as a map from offsets to frames, and what a program reads at an offset.\<close>

definition obj_page :: "vmsys \<Rightarrow> nat \<Rightarrow> nat \<Rightarrow> nat option" where
  "obj_page s ob off = (case vs_objs s ob of None \<Rightarrow> None | Some v \<Rightarrow> find_page_loop s (vo_pages v) off)"

definition obj_read :: "vmsys \<Rightarrow> nat \<Rightarrow> nat \<Rightarrow> nat" where
  "obj_read s ob off = (case obj_page s ob off of None \<Rightarrow> 0 | Some p \<Rightarrow> vs_mem s p)"

definition same_obj :: "vmsys \<Rightarrow> vmsys \<Rightarrow> nat \<Rightarrow> bool" where
  "same_obj s s' ob \<longleftrightarrow> vs_objs s' ob = vs_objs s ob \<and>
     (\<forall>v. vs_objs s ob = Some v \<longrightarrow> (\<forall>p \<in> set (vo_pages v). vs_page s' p = vs_page s p \<and> vs_mem s' p = vs_mem s p))"

lemma same_obj_refl [simp]: "same_obj s s ob"
  by (simp add: same_obj_def)

lemma same_obj_trans: "same_obj s s' ob \<Longrightarrow> same_obj s' s'' ob \<Longrightarrow> same_obj s s'' ob"
  by (simp add: same_obj_def)

lemma find_page_cong: "(\<And>p. p \<in> set pgs \<Longrightarrow> vs_page s' p = vs_page s p) \<Longrightarrow> find_page_loop s' pgs off = find_page_loop s pgs off"
  by (induction pgs) auto

lemma find_page_mem: "find_page_loop s pgs off = Some p \<Longrightarrow> p \<in> set pgs \<and> pg_offset (vs_page s p) = off"
  by (induction pgs) (auto split: if_splits)

lemma find_page_None: "find_page_loop s pgs off = None \<longleftrightarrow> off \<notin> set (offs s pgs)"
  by (induction pgs) (auto simp: offs_def)

lemma find_page_iff:
  "sorted_wrt (<) (offs s pgs) \<Longrightarrow> find_page_loop s pgs off = Some p \<longleftrightarrow> p \<in> set pgs \<and> pg_offset (vs_page s p) = off"
  by (induction pgs) (force simp: offs_def)+

lemma obj_page_loop: "vs_objs s ob = Some v \<Longrightarrow> obj_page s ob = find_page_loop s (vo_pages v)"
  by (simp add: obj_page_def fun_eq_iff)

lemma same_obj_page: "same_obj s s' ob \<Longrightarrow> obj_page s' ob = obj_page s ob"
  by (auto simp: same_obj_def obj_page_def fun_eq_iff intro!: find_page_cong split: option.splits)

lemma same_obj_read:
  assumes "same_obj s s' ob"
  shows "obj_read s' ob = obj_read s ob"
proof
  fix off
  show "obj_read s' ob off = obj_read s ob off"
  proof (cases "obj_page s ob off")
    case (Some p)
    then obtain v where "vs_objs s ob = Some v" "p \<in> set (vo_pages v)"
      using find_page_mem by (fastforce simp: obj_page_def split: option.splits)
    then show ?thesis
      using assms Some by (simp add: obj_read_def same_obj_page [OF assms] same_obj_def)
  qed (simp add: obj_read_def same_obj_page [OF assms])
qed

lemma obj_okD:
  assumes "vs_inv s" and "vs_objs s ob = Some v"
  shows "obj_ok s ob v" and "sorted_wrt (<) (offs s (vo_pages v))" and "\<And>p. p \<in> set (vo_pages v) \<Longrightarrow> page_ok s ob p"
    and "vo_npages v = length (vo_pages v)"
  using assms by (auto simp: vs_inv_def obj_ok_def)

lemma obj_page_Some:
  assumes "vs_inv s" and "obj_page s ob off = Some p"
  obtains v where "vs_objs s ob = Some v" and "p \<in> set (vo_pages v)" and "pg_offset (vs_page s p) = off" and "page_ok s ob p"
  using assms find_page_mem obj_okD(3) [OF assms(1)] by (fastforce simp: obj_page_def split: option.splits)

text \<open>The objects and frames that an operation on the object \<open>ob\<close> does not touch.\<close>

lemma obj_ok_cong:
  assumes "obj_ok s ob v" and "\<And>p. p \<in> set (vo_pages v) \<Longrightarrow> vs_page s' p = vs_page s p"
    and "\<And>p. p \<in> set (vo_pages v) \<Longrightarrow> p \<notin> set (vs_free s) \<Longrightarrow> p \<notin> set (vs_free s')"
  shows "obj_ok s' ob v"
proof -
  have "offs s' (vo_pages v) = offs s (vo_pages v)"
    using assms(2) by (simp add: offs_def)
  then show ?thesis
    using assms by (simp add: obj_ok_def page_ok_def)
qed

lemma npages_bound:
  assumes "sorted_wrt (<) (offs s pgs)" and "\<forall>p \<in> set pgs. page_ok s ob p"
  shows "length pgs \<le> MAXOFF"
proof -
  have "distinct (offs s pgs)"
    using assms(1) by (simp add: strict_sorted_iff)
  then have "length pgs = card (set (offs s pgs))"
    using distinct_card [of "offs s pgs"] by (simp add: offs_def)
  also have "\<dots> \<le> card {..<MAXOFF}"
    using assms(2) by (intro card_mono) (auto simp: offs_def page_ok_def)
  finally show ?thesis by simp
qed

section \<open>The operations keep the invariant\<close>

lemma add_page_loop_ok:
  assumes "off \<notin> set (offs s pgs)" and "sorted_wrt (<) (offs s pgs)" and "pg \<notin> set pgs" and "pg_offset (vs_page s pg) = off"
  obtains pgs' where "add_page_loop s pgs off pg = Some pgs'" and "set pgs' = insert pg (set pgs)"
    and "sorted_wrt (<) (offs s pgs')" and "length pgs' = Suc (length pgs)"
  using assms
proof (induction pgs arbitrary: thesis)
  case Nil
  then show ?case by (simp add: offs_def)
next
  case (Cons it its)
  show ?case
  proof (cases "pg_offset (vs_page s it) > off")
    case True
    then show ?thesis
      using Cons.prems by (intro Cons.prems(1) [of "pg # it # its"]) (auto simp: offs_def)
  next
    case False
    obtain pgs' where "add_page_loop s its off pg = Some pgs'" "set pgs' = insert pg (set its)"
      "sorted_wrt (<) (offs s pgs')" "length pgs' = Suc (length its)"
      by (rule Cons.IH) (use Cons.prems in \<open>auto simp: offs_def\<close>)
    then show ?thesis
      using Cons.prems False by (intro Cons.prems(1) [of "it # pgs'"]) (auto simp: offs_def)
  qed
qed

lemma find_page_eqI:
  assumes "sorted_wrt (<) (offs s pgs)" and "\<And>p i. p \<in> set pgs \<and> pg_offset (vs_page s p) = i \<longleftrightarrow> m i = Some p"
  shows "find_page_loop s pgs = m"
proof
  fix i
  have "find_page_loop s pgs i = Some p \<longleftrightarrow> m i = Some p" for p
    using find_page_iff [OF assms(1)] assms(2) by simp
  then show "find_page_loop s pgs i = m i"
    by (metis option.exhaust)
qed

lemma vs_inv_upd:
  assumes inv: "vs_inv s" and objs: "vs_objs s' = (vs_objs s)(ob := x)" and ok: "\<And>v. x = Some v \<Longrightarrow> obj_ok s' ob v"
    and free: "distinct (vs_free s')" "\<And>p. p \<in> set (vs_free s') \<Longrightarrow> blank_page (vs_page s' p)"
    and other: "\<And>o' v p. o' \<noteq> ob \<Longrightarrow> vs_objs s o' = Some v \<Longrightarrow> p \<in> set (vo_pages v) \<Longrightarrow>
      vs_page s' p = vs_page s p \<and> p \<notin> set (vs_free s')"
  shows "vs_inv s'"
proof -
  have "obj_ok s' o' v" if v: "vs_objs s' o' = Some v" for o' v
  proof (cases "o' = ob")
    case False
    then have "vs_objs s o' = Some v"
      using v objs by simp
    then show ?thesis
      using obj_okD(1) [OF inv] other [OF False] by (intro obj_ok_cong [of s o' v s']) auto
  qed (use v objs ok in simp)
  then show ?thesis
    using free by (simp add: vs_inv_def)
qed

lemma obj_pages_unused:
  "vs_inv s \<Longrightarrow> vs_objs s ob = Some v \<Longrightarrow> pg_object (vs_page s p) \<noteq> Some ob \<Longrightarrow> p \<notin> set (vo_pages v)"
  using obj_okD(3) by (fastforce simp: page_ok_def)

lemma vm_object_add_page_ok:
  assumes inv: "vs_inv s" and ob: "vs_objs s ob = Some v" and pg: "blank_page (vs_page s pg)" "pg \<notin> set (vs_free s)"
    and off: "obj_page s ob off = None" "PAGESIZE dvd off" "off < MAXOFF"
  obtains s' v' where "vm_object_add_page s ob off pg = Some s'" and "vs_inv s'" and "obj_page s' ob = (obj_page s ob)(off \<mapsto> pg)"
    and "\<And>o'. o' \<noteq> ob \<Longrightarrow> same_obj s s' o'" and "vs_mem s' = vs_mem s" and "vs_free s' = vs_free s"
    and "vs_objs s' = (vs_objs s)(ob \<mapsto> v')" and "vo_refs v' = vo_refs v" and "vo_pager v' = vo_pager v"
    and "\<And>p. p \<noteq> pg \<Longrightarrow> vs_page s' p = vs_page s p"
proof -
  define s1 where "s1 = set_page s pg ((vs_page s pg)\<lparr>pg_object := Some ob, pg_offset := off\<rparr>)"
  have unused: "pg \<notin> set (vo_pages v')" if "vs_objs s o' = Some v'" for o' v'
    using obj_okD(3) [OF inv that] pg(1) by (auto simp: page_ok_def blank_page_def)
  have pages: "vs_page s1 p = vs_page s p" if "p \<noteq> pg" for p
    using that by (simp add: s1_def set_page_def)
  have offs1: "offs s1 (vo_pages v) = offs s (vo_pages v)"
    unfolding offs_def using unused [OF ob] pages by (intro map_cong) metis+
  have "off \<notin> set (offs s (vo_pages v))"
    using off(1) ob by (simp add: obj_page_def find_page_None)
  then obtain pgs' where l: "add_page_loop s1 (vo_pages v) off pg = Some pgs'" "set pgs' = insert pg (set (vo_pages v))"
    "sorted_wrt (<) (offs s1 pgs')" "length pgs' = Suc (length (vo_pages v))"
    using add_page_loop_ok [of off s1 "vo_pages v" pg] offs1 obj_okD(2) [OF inv ob] unused [OF ob]
    by (auto simp: s1_def set_page_def)
  define v' where "v' = v\<lparr>vo_pages := pgs', vo_npages := uadd (vo_npages v) 1\<rparr>"
  define s' where "s' = set_obj s1 ob v'"
  have eq: "vm_object_add_page s ob off pg = Some s'"
    using pg l(1) ob by (simp add: vm_object_add_page_def s'_def v'_def blank_page_def page_aligned_iff set_page_def
        flip: s1_def) (simp add: s1_def set_page_def)
  have vp: "vs_page s' = (vs_page s)(pg := (vs_page s pg)\<lparr>pg_object := Some ob, pg_offset := off\<rparr>)" and offs': "offs s' = offs s1"
    by (simp_all add: s'_def set_obj_def s1_def set_page_def offs_def fun_eq_iff)
  have other_free: "p \<notin> set (vs_free s)" if "vs_objs s o' = Some w" "p \<in> set (vo_pages w)" for o' w p
    using obj_okD(3) [OF inv that] by (simp add: page_ok_def)
  have pok: "\<forall>p \<in> set pgs'. page_ok s' ob p"
    using l(2) obj_okD(3) [OF inv ob] pg off by (auto simp: page_ok_def s'_def set_obj_def s1_def set_page_def blank_page_def)
  have "length (vo_pages v) \<le> MAXOFF"
    using npages_bound [OF obj_okD(2) [OF inv ob], of ob] obj_okD(3) [OF inv ob] by blast
  then have "vo_npages v' = length pgs'"
    using obj_okD(4) [OF inv ob] l(4) by (simp add: v'_def uadd_exact MAXOFF_def PAGESIZE_def)
  then have ok: "obj_ok s' ob v'"
    using pok l(3) by (simp add: obj_ok_def v'_def s'_def set_obj_def offs_def)
  have other: "same_obj s s' o'" if "o' \<noteq> ob" for o'
    using that unused by (auto simp: same_obj_def s'_def set_obj_def s1_def set_page_def)
  have objs: "vs_objs s' = (vs_objs s)(ob \<mapsto> v')" and fr: "vs_free s' = vs_free s"
    by (simp_all add: s'_def set_obj_def s1_def set_page_def)
  have "vs_inv s'"
    by (rule vs_inv_upd [OF inv objs]) (use ok inv pg(2) unused other_free in \<open>auto simp: vs_inv_def fr vp\<close>)
  moreover have "find_page_loop s' pgs' = (find_page_loop s (vo_pages v))(off \<mapsto> pg)"
    using l(2,3) find_page_iff [OF obj_okD(2) [OF inv ob]] unused [OF ob] off(1) ob
    by (intro find_page_eqI) (auto simp: offs' vp obj_page_def find_page_None offs_def)
  then have "obj_page s' ob = (obj_page s ob)(off \<mapsto> pg)"
    using ob objs by (simp add: obj_page_loop v'_def)
  ultimately show thesis
    using that [of s' v'] eq other by (simp add: s'_def set_obj_def s1_def set_page_def v'_def)
qed

definition clear_pages :: "vmsys \<Rightarrow> nat list \<Rightarrow> vmsys" where
  "clear_pages s ps = s\<lparr>vs_page := (\<lambda>p. if p \<in> set ps then (vs_page s p)\<lparr>pg_offset := 0, pg_object := None\<rparr> else vs_page s p),
                        vs_free := rev ps @ vs_free s\<rparr>"

definition in_range :: "vmsys \<Rightarrow> nat \<Rightarrow> nat \<Rightarrow> nat \<Rightarrow> bool" where
  "in_range s off e p \<longleftrightarrow> off \<le> pg_offset (vs_page s p) \<and> pg_offset (vs_page s p) < e"

lemma clear_pages_Cons: "clear_pages s (p # ps) = clear_pages (clear_pages s [p]) ps"
  by (rule vmsys.equality) (auto simp: clear_pages_def)

lemma remove_pages_loop_ok:
  assumes "sorted_wrt (<) (offs s pgs)" and "\<forall>p \<in> set pgs. p \<notin> set (vs_free s)" and "distinct pgs"
  shows "remove_pages_loop s pgs off len =
    Some (filter (\<lambda>p. \<not> in_range s off (uadd off len) p) pgs, clear_pages s (filter (in_range s off (uadd off len)) pgs))"
  using assms
proof (induction pgs arbitrary: s)
  case Nil
  then show ?case by (simp add: clear_pages_def)
next
  case (Cons pg pgs)
  let ?e = "uadd off len"
  consider "pg_offset (vs_page s pg) \<ge> ?e" | "pg_offset (vs_page s pg) < ?e" "pg_offset (vs_page s pg) < off" | "in_range s off ?e pg"
    by (fastforce simp: in_range_def)
  then show ?case
  proof cases
    case 1
    then have "\<forall>p \<in> set (pg # pgs). \<not> in_range s off ?e p"
      using Cons.prems(1) by (auto simp: in_range_def offs_def)
    then have "filter (\<lambda>p. \<not> in_range s off ?e p) (pg # pgs) = pg # pgs" "filter (in_range s off ?e) (pg # pgs) = []"
      by (simp_all add: filter_id_conv filter_empty_conv)
    then show ?thesis
      using 1 by (simp add: clear_pages_def)
  next
    case 2
    then show ?thesis
      using Cons by (simp add: in_range_def offs_def)
  next
    case 3
    define s1 where "s1 = clear_pages s [pg]"
    have same: "pg_offset (vs_page s1 p) = pg_offset (vs_page s p)" if "p \<in> set pgs" for p
      using that Cons.prems(3) by (auto simp: s1_def clear_pages_def)
    have "sorted_wrt (<) (offs s1 pgs)"
      using same Cons.prems(1) by (simp add: offs_def cong: map_cong)
    moreover have "\<forall>p \<in> set pgs. p \<notin> set (vs_free s1)" "distinct pgs"
      using Cons.prems(2,3) by (auto simp: s1_def clear_pages_def)
    moreover have "filter (in_range s1 off ?e) pgs = filter (in_range s off ?e) pgs"
      "filter (\<lambda>p. \<not> in_range s1 off ?e p) pgs = filter (\<lambda>p. \<not> in_range s off ?e p) pgs"
      using same by (auto simp: in_range_def intro: filter_cong)
    ultimately have "remove_pages_loop s1 pgs off len =
        Some (filter (\<lambda>p. \<not> in_range s off ?e p) pgs, clear_pages s1 (filter (in_range s off ?e) pgs))"
      using Cons.IH [of s1] by simp
    moreover have "page_free (set_page s pg ((vs_page s pg)\<lparr>pg_offset := 0, pg_object := None\<rparr>)) pg = Some s1"
      using Cons.prems(2) by (simp add: page_free_def set_page_def s1_def clear_pages_def fun_eq_iff fun_upd_def)
    ultimately show ?thesis
      using 3 clear_pages_Cons [of s pg "filter (in_range s off ?e) pgs", folded s1_def] in_range_def [of s off ?e pg]
      by simp
  qed
qed

lemma vm_object_remove_pages_ok:
  assumes inv: "vs_inv s" and ob: "vs_objs s ob = Some v" and al: "PAGESIZE dvd off" "PAGESIZE dvd len" and len: "off + len < 2 ^ 64"
  obtains s' v' where "vm_object_remove_pages s ob off len = Some s'" and "vs_inv s'"
    and "obj_page s' ob = (\<lambda>i. if off \<le> i \<and> i < off + len then None else obj_page s ob i)"
    and "\<And>o'. o' \<noteq> ob \<Longrightarrow> same_obj s s' o'" and "vs_mem s' = vs_mem s"
    and "set (vs_free s') = set (vs_free s) \<union> {p. \<exists>i. off \<le> i \<and> i < off + len \<and> obj_page s ob i = Some p}"
    and "vs_objs s' = (vs_objs s)(ob \<mapsto> v')" and "vo_refs v' = vo_refs v" and "vo_pager v' = vo_pager v"
proof -
  note d = obj_okD [OF inv ob]
  let ?R = "in_range s off (off + len)"
  define rm where "rm = filter ?R (vo_pages v)"
  define kp where "kp = filter (\<lambda>p. \<not> ?R p) (vo_pages v)"
  define v' where "v' = v\<lparr>vo_pages := kp, vo_npages := usub (vo_npages v) (length (vo_pages v) - length kp)\<rparr>"
  define s' where "s' = set_obj (clear_pages s rm) ob v'"
  have dist: "distinct (vo_pages v)"
    using d(2) by (auto simp: offs_def strict_sorted_iff distinct_map)
  have loop: "remove_pages_loop s (vo_pages v) off len = Some (kp, clear_pages s rm)"
    using remove_pages_loop_ok [OF d(2) _ dist, of off len] d(3) len by (simp add: page_ok_def uadd_exact kp_def rm_def)
  have eq: "vm_object_remove_pages s ob off len = Some s'"
    using ob al loop by (simp add: vm_object_remove_pages_def page_aligned_iff s'_def v'_def)
  have un: "p \<notin> set rm" if "vs_objs s o' = Some w" "p \<in> set (vo_pages w)" "o' \<noteq> ob" for o' w p
    using obj_okD(3) [OF inv that(1,2)] d(3) that(3) by (auto simp: rm_def page_ok_def)
  have rk: "set rm \<inter> set kp = {}" "set kp \<subseteq> set (vo_pages v)" "set rm \<subseteq> set (vo_pages v)"
    by (auto simp: rm_def kp_def)
  have "sorted_wrt (<) (offs s kp)"
    using d(2) unfolding offs_def kp_def sorted_wrt_map by (rule sorted_wrt_filter)
  moreover have "offs s' kp = offs s kp"
    using rk(1) by (auto simp: offs_def s'_def set_obj_def clear_pages_def)
  ultimately have srt: "sorted_wrt (<) (offs s' kp)"
    by simp
  have "length (vo_pages v) \<le> MAXOFF"
    using npages_bound [OF d(2), of ob] d(3) by blast
  moreover have "length kp \<le> length (vo_pages v)"
    by (simp add: kp_def)
  ultimately have np: "vo_npages v' = length kp"
    using d(4) by (simp add: v'_def usub_exact MAXOFF_def PAGESIZE_def)
  have objs: "vs_objs s' = (vs_objs s)(ob \<mapsto> v')" and fr: "vs_free s' = rev rm @ vs_free s"
    by (simp_all add: s'_def set_obj_def clear_pages_def)
  have "obj_ok s' ob v'"
    using d(3) srt np rk by (fastforce simp: obj_ok_def v'_def page_ok_def s'_def set_obj_def clear_pages_def)
  moreover have "distinct (vs_free s')" "\<And>p. p \<in> set (vs_free s') \<Longrightarrow> blank_page (vs_page s' p)"
    using inv dist d(3) by (auto simp: fr vs_inv_def rm_def page_ok_def blank_page_def s'_def set_obj_def clear_pages_def)
  moreover have "vs_page s' p = vs_page s p \<and> p \<notin> set (vs_free s')"
    if "o' \<noteq> ob" "vs_objs s o' = Some w" "p \<in> set (vo_pages w)" for o' w p
    using un [OF that(2,3,1)] obj_okD(3) [OF inv that(2,3)] by (simp add: fr page_ok_def s'_def set_obj_def clear_pages_def)
  ultimately have inv': "vs_inv s'"
    by (intro vs_inv_upd [OF inv objs]) auto
  have "find_page_loop s' kp = (\<lambda>i. if off \<le> i \<and> i < off + len then None else find_page_loop s (vo_pages v) i)"
    using srt find_page_iff [OF d(2)] rk(1)
    by (intro find_page_eqI) (auto simp: kp_def rm_def in_range_def s'_def set_obj_def clear_pages_def)
  then have "obj_page s' ob = (\<lambda>i. if off \<le> i \<and> i < off + len then None else obj_page s ob i)"
    using ob objs by (simp add: obj_page_loop v'_def cong: if_cong)
  moreover have "set (vs_free s') = set (vs_free s) \<union> {p. \<exists>i. off \<le> i \<and> i < off + len \<and> obj_page s ob i = Some p}"
    using find_page_iff [OF d(2)] ob by (auto simp: fr obj_page_loop rm_def in_range_def)
  moreover have "same_obj s s' o'" if "o' \<noteq> ob" for o'
    using un that by (auto simp: same_obj_def s'_def set_obj_def clear_pages_def)
  ultimately show thesis
    using that [of s' v'] eq inv' objs by (simp add: v'_def s'_def set_obj_def clear_pages_def)
qed

lemma page_alloc_ok:
  assumes inv: "vs_inv s" and ne: "vs_free s \<noteq> []"
  obtains p ps where "vs_free s = p # ps" and "page_alloc s = Some (p, s\<lparr>vs_free := ps\<rparr>)" and "vs_inv (s\<lparr>vs_free := ps\<rparr>)"
    and "blank_page (vs_page s p)" and "p \<notin> set ps"
proof -
  obtain p ps where f: "vs_free s = p # ps"
    using ne by (cases "vs_free s") auto
  have "vs_inv (s\<lparr>vs_free := ps\<rparr>)"
    using inv f obj_ok_cong [of s _ _ "s\<lparr>vs_free := ps\<rparr>"] by (auto simp: vs_inv_def)
  then show thesis
    using that inv f by (simp add: page_alloc_def vs_inv_def)
qed

lemma free_page_unused: "vs_inv s \<Longrightarrow> vs_objs s ob = Some v \<Longrightarrow> p \<in> set (vo_pages v) \<Longrightarrow> p \<notin> set (vs_free s)"
  using obj_okD(3) by (fastforce simp: page_ok_def)

lemma vs_inv_mem: "vs_inv (s\<lparr>vs_mem := m\<rparr>) \<longleftrightarrow> vs_inv s"
  by (simp add: vs_inv_def obj_ok_def page_ok_def offs_def)

lemma obj_page_mem [simp]: "obj_page (s\<lparr>vs_mem := m\<rparr>) = obj_page s" "obj_page (s\<lparr>vs_free := f\<rparr>) = obj_page s"
proof -
  have "find_page_loop (s\<lparr>vs_mem := m\<rparr>) pgs i = find_page_loop s pgs i" "find_page_loop (s\<lparr>vs_free := f\<rparr>) pgs i = find_page_loop s pgs i"
    for pgs i
    by (induction pgs) auto
  then show "obj_page (s\<lparr>vs_mem := m\<rparr>) = obj_page s" "obj_page (s\<lparr>vs_free := f\<rparr>) = obj_page s"
    by (simp_all add: obj_page_def fun_eq_iff split: option.splits)
qed

text \<open>
  A new page: a frame is taken, its content \<open>x\<close> is set, and it becomes the page of the object at \<open>off\<close>.
\<close>

lemma new_page_ok:
  assumes inv: "vs_inv s" and ob: "vs_objs s ob = Some v" and free: "vs_free s = p # ps"
    and off: "obj_page s ob off = None" "PAGESIZE dvd off" "off < MAXOFF"
  obtains s' v' where "vm_object_add_page (s\<lparr>vs_free := ps, vs_mem := (vs_mem s)(p := x)\<rparr>) ob off p = Some s'" and "vs_inv s'"
    and "obj_page s' ob = (obj_page s ob)(off \<mapsto> p)" and "\<And>o'. o' \<noteq> ob \<Longrightarrow> same_obj s s' o'"
    and "vs_mem s' = (vs_mem s)(p := x)" and "vs_free s' = ps" and "vs_objs s' = (vs_objs s)(ob \<mapsto> v')"
    and "vo_refs v' = vo_refs v" and "vo_pager v' = vo_pager v" and "\<And>q. q \<noteq> p \<Longrightarrow> vs_page s' q = vs_page s q"
    and "obj_read s' ob = (obj_read s ob)(off := x)"
proof -
  define s1 where "s1 = s\<lparr>vs_free := ps, vs_mem := (vs_mem s)(p := x)\<rparr>"
  have p: "blank_page (vs_page s1 p)" "p \<notin> set (vs_free s1)" "vs_inv (s\<lparr>vs_free := ps\<rparr>)"
    using page_alloc_ok [OF inv] free by (auto simp: s1_def)
  have inv1: "vs_inv s1"
    using p(3) by (simp add: s1_def vs_inv_mem)
  have un: "p \<notin> set (vo_pages w)" if "vs_objs s o' = Some w" for o' w
    using free_page_unused [OF inv that] free by auto
  have s1: "vs_objs s1 ob = Some v" "obj_page s1 ob off = None"
    using ob off(1) by (simp_all add: s1_def)
  have same1: "same_obj s s1 o'" for o'
    using un by (auto simp: same_obj_def s1_def)
  obtain s' v' where a: "vm_object_add_page s1 ob off p = Some s'" "vs_inv s'" "obj_page s' ob = (obj_page s1 ob)(off \<mapsto> p)"
    "\<And>o'. o' \<noteq> ob \<Longrightarrow> same_obj s1 s' o'" "vs_mem s' = vs_mem s1" "vs_free s' = vs_free s1"
    "vs_objs s' = (vs_objs s1)(ob \<mapsto> v')" "vo_refs v' = vo_refs v" "vo_pager v' = vo_pager v"
    "\<And>q. q \<noteq> p \<Longrightarrow> vs_page s' q = vs_page s1 q"
    using vm_object_add_page_ok [OF inv1 s1(1) p(1,2) s1(2) off(2,3)] by blast
  have "obj_read s' ob = (obj_read s ob)(off := x)"
  proof
    fix i
    have "q \<noteq> p" if "obj_page s ob i = Some q" for q
      using obj_page_Some [OF inv that] un by blast
    then show "obj_read s' ob i = ((obj_read s ob)(off := x)) i"
      using a(3,5) by (auto simp: obj_read_def s1_def split: option.splits)
  qed
  then show thesis
    using that [of s' v'] a same1 same_obj_trans [OF same1] by (simp add: s1_def)
qed

lemma anon_fault_ok:
  assumes "vs_inv s" and "vs_objs s ob = Some v" and "vs_free s = p # ps"
    and "obj_page s ob off = None" "PAGESIZE dvd off" "off < MAXOFF"
  obtains s' v' where "pgr_fault VM_ANONYMOUS s ob off = Some (Some p, s')" and "vs_inv s'"
    and "obj_page s' ob = (obj_page s ob)(off \<mapsto> p)" and "\<And>o'. o' \<noteq> ob \<Longrightarrow> same_obj s s' o'"
    and "vs_objs s' = (vs_objs s)(ob \<mapsto> v')" and "vo_refs v' = vo_refs v" and "vo_pager v' = vo_pager v"
    and "obj_read s' ob = obj_read s ob" and "vs_free s' = ps"
proof -
  have z: "obj_read s ob off = 0"
    using assms(4) by (simp add: obj_read_def)
  obtain s' v' where a: "vm_object_add_page (s\<lparr>vs_free := ps, vs_mem := (vs_mem s)(p := 0)\<rparr>) ob off p = Some s'" "vs_inv s'"
    "obj_page s' ob = (obj_page s ob)(off \<mapsto> p)" "\<And>o'. o' \<noteq> ob \<Longrightarrow> same_obj s s' o'" "vs_free s' = ps"
    "vs_objs s' = (vs_objs s)(ob \<mapsto> v')" "vo_refs v' = vo_refs v" "vo_pager v' = vo_pager v"
    "obj_read s' ob = (obj_read s ob)(off := 0)"
    using new_page_ok [OF assms(1-6), of 0] by blast
  then show thesis
    using that [of s' v'] z assms(3) by (simp add: page_alloc_def zero_page_def fun_upd_idem)
qed

lemma clone_loop_ok:
  assumes "vs_inv s" and "vs_objs s n = Some w" and "sorted_wrt (<) (offs s pgs)" and "\<forall>p \<in> set pgs. page_ok s ob p"
    and "\<forall>p \<in> set pgs. obj_page s n (pg_offset (vs_page s p)) = None" and "length pgs \<le> length (vs_free s)"
  obtains s' w' where "clone_loop s pgs n = Some s'" and "vs_inv s'" and "\<And>o'. o' \<noteq> n \<Longrightarrow> same_obj s s' o'"
    and "vs_objs s' = (vs_objs s)(n \<mapsto> w')" and "vo_refs w' = vo_refs w" and "vo_pager w' = vo_pager w"
    and "vs_free s' = drop (length pgs) (vs_free s)"
    and "obj_read s' n = (\<lambda>i. case find_page_loop s pgs i of Some p \<Rightarrow> vs_mem s p | None \<Rightarrow> obj_read s n i)"
    and "\<And>i. obj_page s' n i = None \<longleftrightarrow> obj_page s n i = None \<and> find_page_loop s pgs i = None"
  using assms
proof (induction pgs arbitrary: s w thesis)
  case Nil
  then show ?case
    by (intro Nil.prems(1) [of s w]) auto
next
  case (Cons pg pgs)
  let ?off = "pg_offset (vs_page s pg)"
  obtain p ps where f: "vs_free s = p # ps"
    using Cons.prems(7) by (cases "vs_free s") auto
  have off: "obj_page s n ?off = None" "PAGESIZE dvd ?off" "?off < MAXOFF"
    using Cons.prems(5,6) by (simp_all add: page_ok_def)
  obtain s1 w1 where a: "vm_object_add_page (s\<lparr>vs_free := ps, vs_mem := (vs_mem s)(p := vs_mem s pg)\<rparr>) n ?off p = Some s1" "vs_inv s1"
    "obj_page s1 n = (obj_page s n)(?off \<mapsto> p)" "\<And>o'. o' \<noteq> n \<Longrightarrow> same_obj s s1 o'"
    "vs_mem s1 = (vs_mem s)(p := vs_mem s pg)" "vs_free s1 = ps" "vs_objs s1 = (vs_objs s)(n \<mapsto> w1)"
    "vo_refs w1 = vo_refs w" "vo_pager w1 = vo_pager w" "\<And>q. q \<noteq> p \<Longrightarrow> vs_page s1 q = vs_page s q"
    "obj_read s1 n = (obj_read s n)(?off := vs_mem s pg)"
    using new_page_ok [OF Cons.prems(2,3) f off, of "vs_mem s pg"] by blast
  have np: "q \<noteq> p \<and> q \<notin> set ps" if "q \<in> set (pg # pgs)" for q
    using Cons.prems(5) that f by (auto simp: page_ok_def)
  have same: "vs_page s1 q = vs_page s q" "vs_mem s1 q = vs_mem s q" if "q \<in> set pgs" for q
    using np [of q] that a(5,10) by auto
  have ne: "pg_offset (vs_page s q) \<noteq> ?off" if "q \<in> set pgs" for q
    using Cons.prems(4) that by (auto simp: offs_def)
  have find: "find_page_loop s1 pgs = find_page_loop s pgs"
    using same(1) by (auto simp: fun_eq_iff intro: find_page_cong)
  have pr: "vs_objs s1 n = Some w1" "sorted_wrt (<) (offs s1 pgs)" "\<forall>q \<in> set pgs. page_ok s1 ob q"
    "\<forall>q \<in> set pgs. obj_page s1 n (pg_offset (vs_page s1 q)) = None" "length pgs \<le> length (vs_free s1)"
    using Cons.prems(4-7) same(1) np a(3,6,7) ne f by (auto simp: page_ok_def offs_def cong: map_cong)
  obtain s' w' where b: "clone_loop s1 pgs n = Some s'" "vs_inv s'" "\<And>o'. o' \<noteq> n \<Longrightarrow> same_obj s1 s' o'"
    "vs_objs s' = (vs_objs s1)(n \<mapsto> w')" "vo_refs w' = vo_refs w1" "vo_pager w' = vo_pager w1"
    "vs_free s' = drop (length pgs) (vs_free s1)"
    "obj_read s' n = (\<lambda>i. case find_page_loop s1 pgs i of Some p \<Rightarrow> vs_mem s1 p | None \<Rightarrow> obj_read s1 n i)"
    "\<And>i. obj_page s' n i = None \<longleftrightarrow> obj_page s1 n i = None \<and> find_page_loop s1 pgs i = None"
    by (rule Cons.IH [OF _ a(2) pr]) blast
  have "clone_loop s (pg # pgs) n = Some s'"
    using f a(1) b(1) by (simp add: page_alloc_def copy_page_def)
  moreover have "obj_read s' n = (\<lambda>i. case find_page_loop s (pg # pgs) i of Some p \<Rightarrow> vs_mem s p | None \<Rightarrow> obj_read s n i)"
  proof
    fix i
    have "vs_mem s1 q = vs_mem s q" "i \<noteq> ?off" if "find_page_loop s pgs i = Some q" for q
      using find_page_mem [OF that] same(2) ne by auto
    then show "obj_read s' n i = (case find_page_loop s (pg # pgs) i of Some p \<Rightarrow> vs_mem s p | None \<Rightarrow> obj_read s n i)"
      unfolding b(8) find by (auto simp: a(11) split: option.splits)
  qed
  moreover have "obj_page s' n i = None \<longleftrightarrow> obj_page s n i = None \<and> find_page_loop s (pg # pgs) i = None" for i
    using b(9) [of i] a(3) find by auto
  moreover have "same_obj s s' o'" if "o' \<noteq> n" for o'
    using same_obj_trans [OF a(4) [OF that] b(3) [OF that]] .
  ultimately show ?case
    using b(2,4-7) a(6-9) f by (intro Cons.prems(1) [of s' w']) auto
qed

lemma vm_object_alloc_ok:
  assumes inv: "vs_inv s" and n: "vs_objs s n = None"
    and s'_def: "s' = set_obj s n \<lparr>vo_pages = [], vo_npages = 0, vo_pager = ty, vo_refs = 1\<rparr>"
  shows "vm_object_alloc s n ty = Some s'" and "vs_inv s'" and "obj_page s' n = Map.empty" and "\<And>o'. o' \<noteq> n \<Longrightarrow> same_obj s s' o'"
    and "obj_read s' n = (\<lambda>i. 0)"
proof -
  show "vm_object_alloc s n ty = Some s'"
    using n by (simp add: vm_object_alloc_def s'_def)
  have objs: "vs_objs s' = (vs_objs s)(n := Some \<lparr>vo_pages = [], vo_npages = 0, vo_pager = ty, vo_refs = 1\<rparr>)"
    by (simp add: s'_def set_obj_def)
  show "vs_inv s'"
    by (rule vs_inv_upd [OF inv objs])
      (use inv free_page_unused [OF inv] in \<open>auto simp: s'_def set_obj_def vs_inv_def obj_ok_def offs_def\<close>)
  show "obj_page s' n = Map.empty" "obj_read s' n = (\<lambda>i. 0)" "\<And>o'. o' \<noteq> n \<Longrightarrow> same_obj s s' o'"
    by (simp_all add: obj_page_def obj_read_def objs fun_eq_iff same_obj_def s'_def set_obj_def)
qed

lemma set_obj_meta:
  assumes inv: "vs_inv s" and ob: "vs_objs s ob = Some v" and v': "vo_pages v' = vo_pages v" "vo_npages v' = vo_npages v"
  shows "vs_inv (set_obj s ob v')" and "obj_page (set_obj s ob v') = obj_page s" and "obj_read (set_obj s ob v') = obj_read s"
    and "\<And>o'. o' \<noteq> ob \<Longrightarrow> same_obj s (set_obj s ob v') o'"
proof -
  have objs: "vs_objs (set_obj s ob v') = (vs_objs s)(ob := Some v')"
    by (simp add: set_obj_def)
  have f: "find_page_loop (set_obj s ob v') pgs = find_page_loop s pgs" for pgs
    by (intro ext find_page_cong) (simp add: set_obj_def)
  show "vs_inv (set_obj s ob v')"
    by (rule vs_inv_upd [OF inv objs])
      (use inv obj_okD(1) [OF inv ob] v' free_page_unused [OF inv] in
        \<open>auto simp: set_obj_def vs_inv_def obj_ok_def offs_def page_ok_def\<close>)
  show p: "obj_page (set_obj s ob v') = obj_page s"
    using ob v' by (auto simp: fun_eq_iff obj_page_def objs f split: option.splits)
  show "obj_read (set_obj s ob v') = obj_read s"
    by (intro ext) (simp add: obj_read_def p, simp add: set_obj_def split: option.splits)
  show "\<And>o'. o' \<noteq> ob \<Longrightarrow> same_obj s (set_obj s ob v') o'"
    by (simp add: same_obj_def set_obj_def)
qed

lemma vm_object_clone_ok:
  assumes inv: "vs_inv s" and ob: "vs_objs s ob = Some v" and n: "vs_objs s n = None" and free: "length (vo_pages v) \<le> length (vs_free s)"
  obtains s' w where "vm_object_clone s ob n = Some s'" and "vs_inv s'" and "\<And>o'. o' \<noteq> n \<Longrightarrow> same_obj s s' o'"
    and "vs_objs s' = (vs_objs s)(n \<mapsto> w)" and "vo_refs w = 1" and "vo_pager w = vo_pager v"
    and "vs_free s' = drop (length (vo_pages v)) (vs_free s)" and "obj_read s' n = obj_read s ob"
    and "dom (obj_page s' n) = dom (obj_page s ob)"
proof -
  have on: "ob \<noteq> n"
    using ob n by auto
  define w0 where "w0 = \<lparr>vo_pages = [], vo_npages = 0, vo_pager = VM_DUMMY, vo_refs = 1\<rparr>"
  define s1 where "s1 = set_obj s n w0"
  note al = vm_object_alloc_ok [OF inv n s1_def [unfolded w0_def]]
  have s1: "vs_objs s1 n = Some w0" "vs_objs s1 ob = Some v"
    using on ob by (simp_all add: s1_def set_obj_def)
  define s2 where "s2 = set_obj s1 n (w0\<lparr>vo_pager := vo_pager v\<rparr>)"
  note m = set_obj_meta [OF al(2) s1(1), of "w0\<lparr>vo_pager := vo_pager v\<rparr>", folded s2_def]
  have s2: "vs_objs s2 = (vs_objs s)(n \<mapsto> w0\<lparr>vo_pager := vo_pager v\<rparr>)" "vs_page s2 = vs_page s" "vs_mem s2 = vs_mem s"
    "vs_free s2 = vs_free s"
    by (simp_all add: s2_def s1_def set_obj_def)
  have rd: "find_page_loop s2 pgs = find_page_loop s pgs" for pgs
    using s2(2) by (auto simp: fun_eq_iff intro: find_page_cong)
  obtain s' w where c: "clone_loop s2 (vo_pages v) n = Some s'" "vs_inv s'" "\<And>o'. o' \<noteq> n \<Longrightarrow> same_obj s2 s' o'"
    "vs_objs s' = (vs_objs s2)(n \<mapsto> w)" "vo_refs w = 1" "vo_pager w = vo_pager v" "vs_free s' = drop (length (vo_pages v)) (vs_free s2)"
    "obj_read s' n = (\<lambda>i. case find_page_loop s2 (vo_pages v) i of Some p \<Rightarrow> vs_mem s2 p | None \<Rightarrow> obj_read s2 n i)"
    "\<And>i. obj_page s' n i = None \<longleftrightarrow> obj_page s2 n i = None \<and> find_page_loop s2 (vo_pages v) i = None"
    by (rule clone_loop_ok [of s2 n "w0\<lparr>vo_pager := vo_pager v\<rparr>" "vo_pages v" ob])
      (use m al s2 obj_okD(2,3) [OF inv ob] free in \<open>auto simp: offs_def page_ok_def w0_def\<close>)
  have "vm_object_clone s ob n = Some s'"
    using al(1) s1 c(1) by (simp add: vm_object_clone_def flip: s2_def)
  moreover have "obj_read s2 n = (\<lambda>i. 0)"
    using m(3) al(5) by simp
  then have "obj_read s' n = obj_read s ob"
    unfolding c(8) rd s2(3) using ob by (simp add: fun_eq_iff obj_read_def obj_page_loop split: option.splits)
  moreover have "dom (obj_page s' n) = dom (obj_page s ob)"
    using c(9) m(2) al(3) ob rd by (auto simp: obj_page_loop dom_def)
  moreover have "same_obj s s' o'" if "o' \<noteq> n" for o'
    using same_obj_trans [OF same_obj_trans [OF al(4) [OF that] m(4)] c(3)] that by simp
  ultimately show thesis
    using that [of s' w] c(2,4-7) s2(1,4) by simp
qed

lemma vm_object_hold_ok:
  assumes inv: "vs_inv s" and ob: "vs_objs s ob = Some v" and c: "vo_refs v < UINT_MAX"
  defines "s' \<equiv> set_obj s ob (v\<lparr>vo_refs := vo_refs v + 1\<rparr>)"
  shows "vm_object_hold s ob = Some s'" and "vs_inv s'" and "obj_page s' = obj_page s" and "obj_read s' = obj_read s"
    and "vs_free s' = vs_free s"
proof -
  note m = set_obj_meta [OF inv ob, of "v\<lparr>vo_refs := vo_refs v + 1\<rparr>", folded s'_def]
  show "vm_object_hold s ob = Some s'"
    using ob c by (simp add: vm_object_hold_def refcnt_acquire_def s'_def)
  show "vs_inv s'" "obj_page s' = obj_page s" "obj_read s' = obj_read s"
    using m by simp_all
  show "vs_free s' = vs_free s"
    by (simp add: s'_def set_obj_def)
qed

text \<open>
  Dropping a reference: the last one releases the object and all its frames, any other only counts.
\<close>

lemma vm_object_drop_ok:
  assumes inv: "vs_inv s" and ob: "vs_objs s ob = Some v" and c: "0 < vo_refs v"
  obtains s' where "vm_object_drop s ob = Some s'" and "vs_inv s'" and "\<forall>o'. o' \<noteq> ob \<longrightarrow> same_obj s s' o'"
    and "1 < vo_refs v \<Longrightarrow> s' = set_obj s ob (v\<lparr>vo_refs := vo_refs v - 1\<rparr>)"
    and "vo_refs v = 1 \<Longrightarrow> vs_objs s' = (vs_objs s)(ob := None)"
    and "vo_refs v = 1 \<Longrightarrow> set (vs_free s') = set (vs_free s) \<union> set (vo_pages v)"
proof -
  define s1 where "s1 = set_obj s ob (v\<lparr>vo_refs := vo_refs v - 1\<rparr>)"
  have v1: "vo_pages (v\<lparr>vo_refs := vo_refs v - 1\<rparr>) = vo_pages v" "vo_npages (v\<lparr>vo_refs := vo_refs v - 1\<rparr>) = vo_npages v"
    by simp_all
  note m = set_obj_meta [OF inv ob v1, folded s1_def]
  show thesis
  proof (cases "vo_refs v = 1")
    case False
    then show ?thesis
      using ob c m by (intro that [of s1]) (auto simp: vm_object_drop_def refcnt_release_def s1_def)
  next
    case True
    have ob1: "vs_objs s1 ob = Some (v\<lparr>vo_refs := vo_refs v - 1\<rparr>)"
      by (simp add: s1_def set_obj_def)
    have len: "PAGESIZE dvd usub 0 PAGESIZE" "usub 0 PAGESIZE = MAXOFF" "0 + MAXOFF < 2 ^ 64"
      by (simp_all add: PAGESIZE_def usub_def MAXOFF_def)
    obtain s2 v2 where r: "vm_object_remove_pages s1 ob 0 MAXOFF = Some s2" "vs_inv s2"
      "obj_page s2 ob = (\<lambda>i. if 0 \<le> i \<and> i < 0 + MAXOFF then None else obj_page s1 ob i)"
      "\<And>o'. o' \<noteq> ob \<Longrightarrow> same_obj s1 s2 o'"
      "set (vs_free s2) = set (vs_free s1) \<union> {p. \<exists>i. 0 \<le> i \<and> i < 0 + MAXOFF \<and> obj_page s1 ob i = Some p}"
      "vs_objs s2 = (vs_objs s1)(ob \<mapsto> v2)"
      by (rule vm_object_remove_pages_ok [OF m(1) ob1 dvd_0_right len(1) [unfolded len(2)] len(3)]) blast
    have "p \<in> set (vo_pages v) \<longleftrightarrow> (\<exists>i < MAXOFF. obj_page s1 ob i = Some p)" for p
      using find_page_iff [OF obj_okD(2) [OF inv ob]] obj_okD(3) [OF inv ob, of p] m(2) obj_page_loop [OF ob]
      by (auto simp: page_ok_def)
    then have fr: "set (vs_free s2) = set (vs_free s) \<union> set (vo_pages v)"
      using r(5) by (auto simp: s1_def set_obj_def)
    define s3 where "s3 = s2\<lparr>vs_objs := (vs_objs s2)(ob := None)\<rparr>"
    have "vs_inv s3"
      by (rule vs_inv_upd [OF r(2), of s3 ob None])
        (use r(2) free_page_unused [OF r(2)] in \<open>auto simp: s3_def vs_inv_def\<close>)
    moreover have "same_obj s s3 o'" if "o' \<noteq> ob" for o'
      using same_obj_trans [OF m(4) [OF that] r(4) [OF that]] that by (simp add: same_obj_def s3_def)
    moreover have "vm_object_drop s ob = Some s3"
      using ob True r(1) len(2) by (simp add: vm_object_drop_def refcnt_release_def vm_object_remove_all_pages_def s3_def s1_def)
    moreover have "vs_objs s3 = (vs_objs s)(ob := None)"
      using r(6) by (simp add: s3_def s1_def set_obj_def)
    ultimately show ?thesis
      using True fr by (intro that [of s3]) (auto simp: s3_def)
  qed
qed

end
