(* ===== verification/VmMap.thy ===== *)
theory VmMap
  imports VmObject
begin

text \<open>
  Address spaces: \<^verbatim>\<open>sys/kern/vm_map.c\<close>.  A map is a list of entries in the order of their addresses; an
  entry is a pair of its own address (which identifies it) and its fields.  The hardware page table
  (\<^verbatim>\<open>pmap\<close>) is a partial function from page addresses to frames and protections.  Fresh entries and
  objects come from their pools: the addresses the pools return are arguments.
\<close>

section \<open>Entries and maps\<close>

definition VM_PROT_NONE :: nat where "VM_PROT_NONE = 0"
definition VM_PROT_READ :: nat where "VM_PROT_READ = 1"
definition VM_PROT_WRITE :: nat where "VM_PROT_WRITE = 2"
definition VM_PROT_EXEC :: nat where "VM_PROT_EXEC = 4"
definition VM_ANON :: nat where "VM_ANON = 0x1000"
definition VM_SHARED :: nat where "VM_SHARED = 1"
definition VM_PRIVATE :: nat where "VM_PRIVATE = 2"
definition VM_FIXED :: nat where "VM_FIXED = 4"
definition VM_ENT_SHARED :: nat where "VM_ENT_SHARED = 1"
definition VM_ENT_PRIVATE :: nat where "VM_ENT_PRIVATE = 2"
definition KERNEL_SPACE_BEGIN :: nat where "KERNEL_SPACE_BEGIN = 0xffff000000000000"
definition KERNEL_SPACE_END :: nat where "KERNEL_SPACE_END = 0xffffffffffffffff"
definition USER_SPACE_BEGIN :: nat where "USER_SPACE_BEGIN = 0x400000"
definition USER_SPACE_END :: nat where "USER_SPACE_END = 0x800000000000"

record vm_map_entry =
  ent_object :: "nat option"
  ent_offset :: nat
  ent_prot :: nat
  ent_flags :: nat
  ent_start :: nat
  ent_end :: nat

record vm_map =
  vm_entries :: "(nat \<times> vm_map_entry) list"
  vm_nentries :: nat
  vm_pmap :: "nat \<Rightarrow> (nat \<times> nat) option"
  vm_is_kernel :: bool

definition vm_map_start :: "vm_map \<Rightarrow> nat" where
  "vm_map_start m = (if vm_is_kernel m then KERNEL_SPACE_BEGIN else USER_SPACE_BEGIN)"

definition vm_map_end :: "vm_map \<Rightarrow> nat" where
  "vm_map_end m = (if vm_is_kernel m then KERNEL_SPACE_END else USER_SPACE_END)"

definition vm_map_address_p :: "vm_map option \<Rightarrow> nat \<Rightarrow> bool" where
  "vm_map_address_p om addr = (case om of None \<Rightarrow> False | Some m \<Rightarrow> vm_map_start m \<le> addr \<and> addr < vm_map_end m)"

definition vm_map_contains_p :: "vm_map option \<Rightarrow> nat \<Rightarrow> nat \<Rightarrow> bool" where
  "vm_map_contains_p om start en = (case om of None \<Rightarrow> False | Some m \<Rightarrow> vm_map_start m \<le> start \<and> en \<le> vm_map_end m)"

definition vm_map_lookup :: "vm_map option \<Rightarrow> vm_map option \<Rightarrow> nat \<Rightarrow> vm_map option" where
  "vm_map_lookup umap kmap addr =
     (if vm_map_address_p umap addr then umap
      else if vm_map_address_p kmap addr then kmap
      else None)"

definition vm_map_new :: vm_map where
  "vm_map_new = \<lparr>vm_entries = [], vm_nentries = 0, vm_pmap = Map.empty, vm_is_kernel = False\<rparr>"

definition vm_map_entry_alloc :: "nat option \<Rightarrow> nat \<Rightarrow> nat \<Rightarrow> nat \<Rightarrow> nat \<Rightarrow> vm_map_entry option" where
  "vm_map_entry_alloc ob start en prot flags =
     do {
       kassert (page_aligned_p start \<and> page_aligned_p en);
       Some \<lparr>ent_object = ob, ent_offset = 0, ent_prot = prot, ent_flags = flags, ent_start = start, ent_end = en\<rparr>
     }"

definition vm_map_entry_free :: "vmsys \<Rightarrow> vm_map_entry \<Rightarrow> vmsys option" where
  "vm_map_entry_free s ent = (case ent_object ent of None \<Rightarrow> Some s | Some ob \<Rightarrow> vm_object_drop s ob)"

fun find_entry_loop :: "(nat \<times> vm_map_entry) list \<Rightarrow> nat \<Rightarrow> (nat \<times> vm_map_entry) option" where
  "find_entry_loop [] va = None"
| "find_entry_loop (e # es) va =
     (if ent_start (snd e) \<le> va \<and> va < ent_end (snd e) then Some e else find_entry_loop es va)"

definition vm_map_find_entry :: "vm_map \<Rightarrow> nat \<Rightarrow> (nat \<times> vm_map_entry) option" where
  "vm_map_find_entry m va = find_entry_loop (vm_entries m) va"

fun insert_entry_after :: "nat \<Rightarrow> nat \<times> vm_map_entry \<Rightarrow> (nat \<times> vm_map_entry) list \<Rightarrow> (nat \<times> vm_map_entry) list option" where
  "insert_entry_after a ent [] = None"
| "insert_entry_after a ent (e # es) =
     (if fst e = a then Some (e # ent # es) else do { es \<leftarrow> insert_entry_after a ent es; Some (e # es) })"

definition vm_map_insert_after :: "vm_map \<Rightarrow> nat option \<Rightarrow> nat \<times> vm_map_entry \<Rightarrow> vm_map option" where
  "vm_map_insert_after m after ent =
     do {
       es \<leftarrow> (case after of Some a \<Rightarrow> insert_entry_after a ent (vm_entries m) | None \<Rightarrow> Some (ent # vm_entries m));
       Some (m\<lparr>vm_entries := es, vm_nentries := uadd (vm_nentries m) 1\<rparr>)
     }"

definition vm_map_entry_destroy :: "vmsys \<Rightarrow> vm_map \<Rightarrow> nat \<Rightarrow> (vmsys \<times> vm_map) option" where
  "vm_map_entry_destroy s m i =
     do {
       ent \<leftarrow> map_of (vm_entries m) i;
       s \<leftarrow> vm_map_entry_free s ent;
       Some (s, m\<lparr>vm_entries := filter (\<lambda>e. fst e \<noteq> i) (vm_entries m), vm_nentries := usub (vm_nentries m) 1\<rparr>)
     }"

definition vm_map_entry_copy :: "vmsys \<Rightarrow> vm_map_entry \<Rightarrow> (vmsys \<times> vm_map_entry) option" where
  "vm_map_entry_copy s src =
     do {
       s \<leftarrow> (case ent_object src of None \<Rightarrow> Some s | Some ob \<Rightarrow> vm_object_hold s ob);
       ent \<leftarrow> vm_map_entry_alloc (ent_object src) (ent_start src) (ent_end src) (ent_prot src) (ent_flags src);
       Some (s, ent)
     }"

definition set_entry :: "vm_map \<Rightarrow> nat \<Rightarrow> vm_map_entry \<Rightarrow> vm_map" where
  "set_entry m i ent = m\<lparr>vm_entries := map (\<lambda>e. if fst e = i then (i, ent) else e) (vm_entries m)\<rparr>"

text \<open>Splitting an entry; the address \<open>n\<close> of the new one comes from its pool.\<close>

definition vm_map_entry_split :: "vmsys \<Rightarrow> vm_map \<Rightarrow> nat \<Rightarrow> nat \<Rightarrow> nat \<Rightarrow> (vmsys \<times> vm_map) option" where
  "vm_map_entry_split s m i splitat n =
     do {
       ent \<leftarrow> map_of (vm_entries m) i;
       kassert (n \<notin> fst ` set (vm_entries m));
       kassert (page_aligned_p splitat);
       kassert (ent_start ent < splitat \<and> splitat < ent_end ent);
       (s, new_ent) \<leftarrow> vm_map_entry_copy s ent;
       let ent = ent\<lparr>ent_end := splitat\<rparr>;
       let new_ent = new_ent\<lparr>ent_start := splitat,
                             ent_offset := uadd (ent_offset ent) (usub (ent_end ent) (ent_start ent))\<rparr>;
       m \<leftarrow> vm_map_insert_after (set_entry m i ent) (Some i) (n, new_ent);
       Some (s, m)
     }"

definition pmap_remove :: "(nat \<Rightarrow> (nat \<times> nat) option) \<Rightarrow> nat \<Rightarrow> nat \<Rightarrow> (nat \<Rightarrow> (nat \<times> nat) option)" where
  "pmap_remove pm start en = (\<lambda>va. if start \<le> va \<and> va < en then None else pm va)"

definition vm_map_entry_destroy_range ::
  "vmsys \<Rightarrow> vm_map \<Rightarrow> nat \<Rightarrow> nat \<Rightarrow> nat \<Rightarrow> nat \<Rightarrow> nat \<Rightarrow> (vmsys \<times> vm_map) option" where
  "vm_map_entry_destroy_range s m i start en n1 n2 =
     do {
       ent \<leftarrow> map_of (vm_entries m) i;
       kassert (start \<ge> ent_start ent \<and> en \<le> ent_end ent);
       let m = m\<lparr>vm_pmap := pmap_remove (vm_pmap m) start en\<rparr>;
       (s, m, del) \<leftarrow>
         (if start > ent_start ent then do { (s, m) \<leftarrow> vm_map_entry_split s m i start n1; Some (s, m, n1) }
          else Some (s, m, i));
       dent \<leftarrow> map_of (vm_entries m) del;
       (s, m) \<leftarrow> (if en < ent_end dent then vm_map_entry_split s m del en n2 else Some (s, m));
       vm_map_entry_destroy s m del
     }"

fun delete_loop :: "vmsys \<Rightarrow> vm_map \<Rightarrow> nat list \<Rightarrow> (vmsys \<times> vm_map) option" where
  "delete_loop s m [] = Some (s, m)"
| "delete_loop s m (i # is) = do { (s, m) \<leftarrow> vm_map_entry_destroy s m i; delete_loop s m is }"

definition vm_map_delete :: "vmsys \<Rightarrow> vm_map \<Rightarrow> vmsys option" where
  "vm_map_delete s m =
     do { (s, m) \<leftarrow> delete_loop s (m\<lparr>vm_pmap := Map.empty\<rparr>) (map fst (vm_entries m)); Some s }"

text \<open>Finding a gap: the address and the entry after which it lies.\<close>

fun findspace_loop :: "(nat \<times> vm_map_entry) list \<Rightarrow> nat \<Rightarrow> nat \<Rightarrow> nat \<Rightarrow> (nat \<times> nat) option" where
  "findspace_loop [] map_end start len = None"
| "findspace_loop (it # its) map_end start len =
     (let gap_start = ent_end (snd it);
          gap_end = (case its of [] \<Rightarrow> map_end | nx # _ \<Rightarrow> ent_start (snd nx));
          start = (if start < gap_start then gap_start else start)
      in if uadd start len \<le> gap_end then Some (start, fst it) else findspace_loop its map_end start len)"

definition vm_map_findspace_nolock :: "vm_map \<Rightarrow> nat \<Rightarrow> nat \<Rightarrow> (errno + nat \<times> nat option) option" where
  "vm_map_findspace_nolock m start len =
     do {
       kassert (page_aligned_p start \<and> page_aligned_p len);
       let start = max start (vm_map_start m);
       if uadd start len > vm_map_end m then Some (Inl ENOMEM)
       else case vm_entries m of
         [] \<Rightarrow> Some (Inr (start, None))
       | first # _ \<Rightarrow>
           if uadd start len \<le> ent_start (snd first) then Some (Inr (start, None))
           else case findspace_loop (vm_entries m) (vm_map_end m) start len of
                  Some (a, it) \<Rightarrow> Some (Inr (a, Some it))
                | None \<Rightarrow> Some (Inl ENOMEM)
     }"

definition vm_map_findspace :: "vm_map \<Rightarrow> nat \<Rightarrow> nat \<Rightarrow> (errno + nat) option" where
  "vm_map_findspace m start len =
     do { r \<leftarrow> vm_map_findspace_nolock m start len; Some (map_sum id fst r) }"

definition vm_map_insert :: "vm_map \<Rightarrow> nat \<Rightarrow> vm_map_entry \<Rightarrow> nat \<Rightarrow> (errno + vm_map) option" where
  "vm_map_insert m i ent flags =
     do {
       let len = usub (ent_end ent) (ent_start ent);
       r \<leftarrow> vm_map_findspace_nolock m (ent_start ent) len;
       case r of
         Inl e \<Rightarrow> Some (Inl e)
       | Inr (start, after) \<Rightarrow>
           if flags AND VM_FIXED \<noteq> 0 \<and> start \<noteq> ent_start ent then Some (Inl ENOMEM)
           else do {
             kassert (flags AND (VM_SHARED OR VM_PRIVATE) \<noteq> (VM_SHARED OR VM_PRIVATE));
             let ent_fl = (if flags AND VM_SHARED \<noteq> 0 then VM_ENT_SHARED else VM_ENT_PRIVATE);
             m \<leftarrow> vm_map_insert_after m after
                   (i, ent\<lparr>ent_start := start, ent_end := uadd start len, ent_flags := ent_fl\<rparr>);
             Some (Inr m)
           }
     }"

text \<open>
  The result is the error or the state with the new entry; \<open>i\<close> and \<open>ob\<close> are the addresses of the entry and of
  its object.
\<close>

definition vm_map_alloc_entry ::
  "vmsys \<Rightarrow> vm_map \<Rightarrow> nat \<Rightarrow> nat \<Rightarrow> nat \<Rightarrow> nat \<Rightarrow> nat \<Rightarrow> nat \<Rightarrow> ((errno option) \<times> vmsys \<times> vm_map) option" where
  "vm_map_alloc_entry s m addr len prot flags i ob =
     (if flags AND VM_ANON = 0 then Some (Some ENOTSUP, s, m)
      else if \<not> page_aligned_p addr then Some (Some EINVAL, s, m)
      else if len = 0 then Some (Some EINVAL, s, m)
      else if addr \<noteq> 0 \<and> \<not> vm_map_contains_p (Some m) addr (uadd addr len) then Some (Some EINVAL, s, m)
      else do {
        s \<leftarrow> vm_object_alloc s ob VM_ANONYMOUS;
        ent \<leftarrow> vm_map_entry_alloc (Some ob) addr (uadd addr len) prot VM_ENT_SHARED;
        r \<leftarrow> vm_map_insert m i ent flags;
        case r of
          Inl e \<Rightarrow> do { s \<leftarrow> vm_map_entry_free s ent; Some (Some ENOMEM, s, m) }
        | Inr m' \<Rightarrow> Some (None, s, m')
      })"

fun next_entry :: "nat \<Rightarrow> (nat \<times> vm_map_entry) list \<Rightarrow> vm_map_entry option" where
  "next_entry i (x # y # es) = (if fst x = i then Some (snd y) else next_entry i (y # es))"
| "next_entry i _ = None"

definition vm_map_entry_resize :: "vmsys \<Rightarrow> vm_map \<Rightarrow> nat \<Rightarrow> nat \<Rightarrow> ((errno option) \<times> vmsys \<times> vm_map) option" where
  "vm_map_entry_resize s m i new_end =
     do {
       ent \<leftarrow> map_of (vm_entries m) i;
       kassert (page_aligned_p new_end);
       kassert (new_end \<ge> ent_start ent);
       let gap_end = (case next_entry i (vm_entries m) of Some nx \<Rightarrow> ent_start nx | None \<Rightarrow> vm_map_end m);
       if new_end \<ge> ent_end ent \<and> new_end > gap_end then Some (Some ENOMEM, s, m)
       else do {
         (s, m) \<leftarrow>
           (if new_end \<ge> ent_end ent then Some (s, m)
            else do {
              let off = usub new_end (ent_start ent);
              let len = usub (ent_end ent) new_end;
              let m = m\<lparr>vm_pmap := pmap_remove (vm_pmap m) new_end (ent_end ent)\<rparr>;
              ob \<leftarrow> ent_object ent;
              s \<leftarrow> vm_object_remove_pages s ob off len;
              Some (s, m)
            });
         let m = set_entry m i (ent\<lparr>ent_end := new_end\<rparr>);
         if ent_start ent = new_end then do { (s, m) \<leftarrow> vm_map_entry_destroy s m i; Some (None, s, m) }
         else Some (None, s, m)
       }
     }"

text \<open>The copy of a map for a child process; the pools' addresses are given for every entry.\<close>

fun clone_entries :: "vmsys \<Rightarrow> (nat \<times> vm_map_entry) list \<Rightarrow> (nat \<times> nat) list \<Rightarrow> (vmsys \<times> (nat \<times> vm_map_entry) list) option" where
  "clone_entries s [] ids = Some (s, [])"
| "clone_entries s (e # es) [] = None"
| "clone_entries s (e # es) ((n, nob) # ids) =
     do {
       let it = snd e;
       ob \<leftarrow> ent_object it;
       (s, ob) \<leftarrow>
         (if ent_flags it AND VM_ENT_SHARED \<noteq> 0 then do { s \<leftarrow> vm_object_hold s ob; Some (s, ob) }
          else do { s \<leftarrow> vm_object_clone s ob nob; Some (s, nob) });
       ent \<leftarrow> vm_map_entry_alloc (Some ob) (ent_start it) (ent_end it) (ent_prot it) (ent_flags it);
       (s, es') \<leftarrow> clone_entries s es ids;
       Some (s, (n, ent\<lparr>ent_offset := ent_offset it\<rparr>) # es')
     }"

definition vm_map_clone :: "vmsys \<Rightarrow> vm_map \<Rightarrow> (nat \<times> nat) list \<Rightarrow> (vmsys \<times> vm_map) option" where
  "vm_map_clone s m ids =
     do {
       (s, es) \<leftarrow> clone_entries s (vm_entries m) ids;
       Some (s, vm_map_new\<lparr>vm_entries := es, vm_nentries := length es mod 2 ^ 64\<rparr>)
     }"

definition vm_page_fault :: "vmsys \<Rightarrow> vm_map \<Rightarrow> nat \<Rightarrow> nat \<Rightarrow> ((errno option) \<times> vmsys \<times> vm_map) option" where
  "vm_page_fault s m fault_addr fault_type =
     (case vm_map_find_entry m fault_addr of
        None \<Rightarrow> Some (Some EFAULT, s, m)
      | Some (i, ent) \<Rightarrow>
          if ent_prot ent = VM_PROT_NONE then Some (Some EACCES, s, m)
          else if ent_prot ent AND VM_PROT_WRITE = 0 \<and> fault_type = VM_PROT_WRITE then Some (Some EACCES, s, m)
          else if ent_prot ent AND VM_PROT_READ = 0 \<and> fault_type = VM_PROT_READ then Some (Some EACCES, s, m)
          else do {
            kassert (ent_start ent \<le> fault_addr \<and> fault_addr < ent_end ent);
            ob \<leftarrow> ent_object ent;
            v \<leftarrow> vs_objs s ob;
            let fault_page = fault_addr - fault_addr mod PAGESIZE;
            let off = uadd (ent_offset ent) (usub fault_page (ent_start ent));
            frame \<leftarrow> vm_object_find_page s ob off;
            (frame, s) \<leftarrow> (case frame of Some p \<Rightarrow> Some (Some p, s) | None \<Rightarrow> pgr_fault (vo_pager v) s ob off);
            case frame of
              None \<Rightarrow> Some (Some EFAULT, s, m)
            | Some p \<Rightarrow> Some (None, s, m\<lparr>vm_pmap := (vm_pmap m)(fault_page \<mapsto> (p, ent_prot ent))\<rparr>)
          })"

section \<open>The sequence of entries\<close>

definition off_ok :: "vm_map_entry \<Rightarrow> bool" where
  "off_ok e \<longleftrightarrow> PAGESIZE dvd ent_offset e \<and> ent_offset e + (ent_end e - ent_start e) \<le> MAXOFF"

text \<open>Entries between the addresses \<open>lo\<close> and \<open>hi\<close>, aligned, not empty, in order and not overlapping.\<close>

fun ents_ok :: "nat \<Rightarrow> nat \<Rightarrow> vm_map_entry list \<Rightarrow> bool" where
  "ents_ok lo hi [] \<longleftrightarrow> lo \<le> hi"
| "ents_ok lo hi (e # es) \<longleftrightarrow>
     lo \<le> ent_start e \<and> ent_start e < ent_end e \<and> PAGESIZE dvd ent_start e \<and> PAGESIZE dvd ent_end e \<and>
     off_ok e \<and> ents_ok (ent_end e) hi es"

fun ents_end :: "nat \<Rightarrow> vm_map_entry list \<Rightarrow> nat" where
  "ents_end lo [] = lo"
| "ents_end lo (e # es) = ents_end (ent_end e) es"

definition map_inv :: "vm_map \<Rightarrow> bool" where
  "map_inv m \<longleftrightarrow> ents_ok (vm_map_start m) (vm_map_end m) (map snd (vm_entries m)) \<and>
     distinct (map fst (vm_entries m)) \<and> vm_nentries m = length (vm_entries m)"

text \<open>
  What a map says about an address: the object, the offset in it, the protection and the flags.
\<close>

definition as_at :: "vm_map_entry \<Rightarrow> nat \<Rightarrow> nat option \<times> nat \<times> nat \<times> nat" where
  "as_at e va = (ent_object e, ent_offset e + (va - ent_start e), ent_prot e, ent_flags e)"

fun as_list :: "vm_map_entry list \<Rightarrow> nat \<Rightarrow> (nat option \<times> nat \<times> nat \<times> nat) option" where
  "as_list [] va = None"
| "as_list (e # es) va = (if ent_start e \<le> va \<and> va < ent_end e then Some (as_at e va) else as_list es va)"

definition as_map :: "vm_map \<Rightarrow> nat \<Rightarrow> (nat option \<times> nat \<times> nat \<times> nat) option" where
  "as_map m = as_list (map snd (vm_entries m))"

lemma ents_ok_le: "ents_ok lo hi es \<Longrightarrow> lo \<le> hi"
  by (induction es arbitrary: lo) fastforce+

lemma ents_ok_length: "ents_ok lo hi es \<Longrightarrow> length es \<le> hi - lo"
  by (induction es arbitrary: lo) (fastforce dest: ents_ok_le)+

lemma ents_ok_append: "ents_ok lo hi (xs @ ys) \<longleftrightarrow> ents_ok lo (ents_end lo xs) xs \<and> ents_ok (ents_end lo xs) hi ys"
proof (induction xs arbitrary: lo)
  case (Cons e es)
  then show ?case by auto
qed (auto dest: ents_ok_le)

lemma ents_ok_weaken: "ents_ok lo hi es \<Longrightarrow> lo' \<le> lo \<Longrightarrow> hi \<le> hi' \<Longrightarrow> ents_ok lo' hi' es"
  by (induction es arbitrary: lo lo') auto

lemma ents_ok_mem:
  "ents_ok lo hi es \<Longrightarrow> e \<in> set es \<Longrightarrow>
     lo \<le> ent_start e \<and> ent_start e < ent_end e \<and> ent_end e \<le> hi \<and> PAGESIZE dvd ent_start e \<and> PAGESIZE dvd ent_end e \<and>
     off_ok e"
  by (induction es arbitrary: lo) (fastforce dest: ents_ok_le)+

lemma as_list_None: "as_list es va = None \<longleftrightarrow> (\<forall>e \<in> set es. \<not> (ent_start e \<le> va \<and> va < ent_end e))"
  by (induction es) auto

lemma as_list_append: "as_list (xs @ ys) va = (case as_list xs va of Some r \<Rightarrow> Some r | None \<Rightarrow> as_list ys va)"
  by (induction xs) auto

lemma as_list_below: "ents_ok lo hi es \<Longrightarrow> va < lo \<Longrightarrow> as_list es va = None"
  using ents_ok_mem by (fastforce simp: as_list_None)

lemma as_list_above: "ents_ok lo hi es \<Longrightarrow> hi \<le> va \<Longrightarrow> as_list es va = None"
  using ents_ok_mem by (fastforce simp: as_list_None)

lemma as_list_mem:
  assumes "ents_ok lo hi es" and "e \<in> set es" and "ent_start e \<le> va" and "va < ent_end e"
  shows "as_list es va = Some (as_at e va)"
  using assms
proof (induction es arbitrary: lo)
  case (Cons x xs)
  show ?case
  proof (cases "e = x")
    case False
    then have "e \<in> set xs" "ent_end x \<le> va"
      using Cons.prems ents_ok_mem [of "ent_end x" hi xs e] by auto
    then show ?thesis
      using Cons by auto
  qed (use Cons.prems in auto)
qed simp

lemma find_entry_as:
  "as_list (map snd es) va = map_option (\<lambda>e. as_at (snd e) va) (find_entry_loop es va)"
  by (induction es) auto

lemma find_entry_mem: "find_entry_loop es va = Some e \<Longrightarrow> e \<in> set es \<and> ent_start (snd e) \<le> va \<and> va < ent_end (snd e)"
  by (induction es) (auto split: if_splits)

lemma map_split:
  assumes "map_of es i = Some e" and "distinct (map fst es)"
  obtains xs ys where "es = xs @ (i, e) # ys" and "i \<notin> fst ` set xs" and "i \<notin> fst ` set ys"
proof -
  have "(i, e) \<in> set es"
    using assms(1) by (rule map_of_SomeD)
  then obtain xs ys where "es = xs @ (i, e) # ys"
    by (meson split_list)
  then show thesis
    using assms(2) that by (force simp: image_def)
qed

lemma insert_after_at: "i \<notin> fst ` set xs \<Longrightarrow> insert_entry_after i n (xs @ (i, e) # ys) = Some (xs @ (i, e) # n # ys)"
  by (induction xs) auto

lemma set_entry_at:
  "vm_entries m = xs @ (i, e) # ys \<Longrightarrow> i \<notin> fst ` set xs \<Longrightarrow> i \<notin> fst ` set ys \<Longrightarrow>
     vm_entries (set_entry m i e') = xs @ (i, e') # ys"
proof -
  assume a: "vm_entries m = xs @ (i, e) # ys" "i \<notin> fst ` set xs" "i \<notin> fst ` set ys"
  have "map (\<lambda>e. if fst e = i then (i, e') else e) l = l" if "i \<notin> fst ` set l" for l
    using that by (induction l) auto
  then show ?thesis
    using a by (simp add: set_entry_def)
qed

lemma vm_bounds [simp]: "vm_map_end m < 2 ^ 64"
  by (simp add: vm_map_end_def KERNEL_SPACE_END_def USER_SPACE_END_def)

lemma map_invD:
  assumes "map_inv m" and "vm_entries m = xs @ (i, e) # ys"
  shows "ents_ok (vm_map_start m) (ents_end (vm_map_start m) (map snd xs)) (map snd xs)"
    and "ents_end (vm_map_start m) (map snd xs) \<le> ent_start e" and "ent_start e < ent_end e" and "PAGESIZE dvd ent_start e"
    and "PAGESIZE dvd ent_end e" and "ents_ok (ent_end e) (vm_map_end m) (map snd ys)" and "ent_end e \<le> vm_map_end m"
    and "ent_end e < 2 ^ 64" and "off_ok e"
proof -
  have *: "ents_ok (vm_map_start m) (vm_map_end m) (map snd xs @ e # map snd ys)"
    using assms by (simp add: map_inv_def)
  then show "ents_ok (vm_map_start m) (ents_end (vm_map_start m) (map snd xs)) (map snd xs)"
    "ents_end (vm_map_start m) (map snd xs) \<le> ent_start e" "ent_start e < ent_end e" "PAGESIZE dvd ent_start e"
    "PAGESIZE dvd ent_end e" "ents_ok (ent_end e) (vm_map_end m) (map snd ys)" "off_ok e"
    by (simp_all add: ents_ok_append)
  then show "ent_end e \<le> vm_map_end m"
    by (blast dest: ents_ok_le)
  then show "ent_end e < 2 ^ 64"
    using vm_bounds [of m] by linarith
qed

section \<open>Finding a gap\<close>

definition free_range :: "vm_map_entry list \<Rightarrow> nat \<Rightarrow> nat \<Rightarrow> bool" where
  "free_range es a n \<longleftrightarrow> (\<forall>va. a \<le> va \<and> va < a + n \<longrightarrow> as_list es va = None)"

lemma free_range_tl: "free_range (e # es) b n \<Longrightarrow> free_range es b n"
  by (simp add: free_range_def as_list_None del: as_list.simps)

lemma free_after:
  assumes "free_range (e # es) b n" and "0 < n" and "ent_start e < ent_end e" and "ent_start e < b + n"
  shows "ent_end e \<le> b"
proof (rule ccontr)
  assume "\<not> ent_end e \<le> b"
  then have "b \<le> max b (ent_start e) \<and> max b (ent_start e) < b + n \<and> ent_start e \<le> max b (ent_start e) \<and> max b (ent_start e) < ent_end e"
    using assms(2-4) by auto
  moreover have "as_list (e # es) (max b (ent_start e)) = None"
    using assms(1) calculation unfolding free_range_def by blast
  ultimately show False
    by simp
qed

text \<open>The gap that follows the entry \<open>it\<close> has room for \<open>n\<close> bytes at \<open>a\<close>.\<close>

definition gap_at :: "(nat \<times> vm_map_entry) list \<Rightarrow> nat \<Rightarrow> nat \<Rightarrow> nat \<Rightarrow> nat \<Rightarrow> bool" where
  "gap_at es hi a n it \<longleftrightarrow> (\<exists>xs e ys. es = xs @ (it, e) # ys \<and> ent_end e \<le> a \<and>
     a + n \<le> (case ys of [] \<Rightarrow> hi | y # _ \<Rightarrow> ent_start (snd y)))"

lemma gap_at_hd: "ent_end (snd x) \<le> a \<Longrightarrow> a + n \<le> (case es of [] \<Rightarrow> hi | y # _ \<Rightarrow> ent_start (snd y)) \<Longrightarrow> gap_at (x # es) hi a n (fst x)"
  unfolding gap_at_def by (intro exI [of _ "[]"] exI [of _ "snd x"] exI [of _ es]) simp

lemma gap_at_tl: "gap_at es hi a n it \<Longrightarrow> gap_at (x # es) hi a n it"
  unfolding gap_at_def by (metis append_Cons)

lemma findspace_loop_ok:
  assumes "ents_ok lo hi (map snd es)" and "es \<noteq> []" and "ent_start (snd (hd es)) < start + n" and "0 < n"
    and "hi + n < 2 ^ 64" and "start \<le> hi"
  shows "case findspace_loop es hi start n of
      None \<Rightarrow> \<forall>b \<ge> start. b + n \<le> hi \<longrightarrow> \<not> free_range (map snd es) b n
    | Some (a, it) \<Rightarrow> gap_at es hi a n it \<and> start \<le> a \<and> (a = start \<or> PAGESIZE dvd a) \<and>
        (\<forall>b \<ge> start. free_range (map snd es) b n \<longrightarrow> a \<le> b)"
  using assms
proof (induction es arbitrary: lo start)
  case (Cons it its)
  let ?s = "if start < ent_end (snd it) then ent_end (snd it) else start"
  let ?g = "case its of [] \<Rightarrow> hi | y # _ \<Rightarrow> ent_start (snd y)"
  have it: "ent_start (snd it) < ent_end (snd it)" "PAGESIZE dvd ent_end (snd it)" "ents_ok (ent_end (snd it)) hi (map snd its)"
    using Cons.prems(1) by simp_all
  have hi: "ent_end (snd it) \<le> hi" "?g \<le> hi"
    using ents_ok_le [OF it(3)] it(3) ents_ok_mem [OF it(3)] by (auto split: list.splits) fastforce
  then have ex: "uadd ?s n = ?s + n"
    using Cons.prems(5,6) by (intro uadd_exact) auto
  have low: "?s \<le> b" if "start \<le> b" "free_range (map snd (it # its)) b n" for b
    using free_after [of "snd it" "map snd its" b n] that it(1) Cons.prems(3,4) by auto
  show ?case
  proof (cases "?s + n \<le> ?g")
    case True
    then have f: "findspace_loop (it # its) hi start n = Some (?s, fst it)"
      using ex by (simp add: Let_def)
    show ?thesis
      unfolding f using low it(2) gap_at_hd [OF _ True] by simp
  next
    case False
    then have f: "findspace_loop (it # its) hi start n = findspace_loop its hi ?s n"
      using ex by (simp add: Let_def)
    show ?thesis
    proof (cases its)
      case Nil
      then show ?thesis
        unfolding f using False low by fastforce
    next
      case (Cons nx nxs)
      have IH: "case findspace_loop its hi ?s n of
          None \<Rightarrow> \<forall>b \<ge> ?s. b + n \<le> hi \<longrightarrow> \<not> free_range (map snd its) b n
        | Some (a, i) \<Rightarrow> gap_at its hi a n i \<and> ?s \<le> a \<and> (a = ?s \<or> PAGESIZE dvd a) \<and>
            (\<forall>b \<ge> ?s. free_range (map snd its) b n \<longrightarrow> a \<le> b)"
        by (rule Cons.IH [OF it(3)]) (use False Cons Cons.prems hi in auto)
      have tl: "?s \<le> b \<and> free_range (map snd its) b n" if "start \<le> b" "free_range (map snd (it # its)) b n" for b
        using low [OF that] free_range_tl that(2) by simp
      show ?thesis
        unfolding f
      proof (cases "findspace_loop its hi ?s n")
        case None
        then show "case findspace_loop its hi ?s n of
            None \<Rightarrow> \<forall>b \<ge> start. b + n \<le> hi \<longrightarrow> \<not> free_range (map snd (it # its)) b n
          | Some (a, i) \<Rightarrow> gap_at (it # its) hi a n i \<and> start \<le> a \<and> (a = start \<or> PAGESIZE dvd a) \<and>
              (\<forall>b \<ge> start. free_range (map snd (it # its)) b n \<longrightarrow> a \<le> b)"
          using IH tl by fastforce
      next
        case (Some r)
        then show "case findspace_loop its hi ?s n of
            None \<Rightarrow> \<forall>b \<ge> start. b + n \<le> hi \<longrightarrow> \<not> free_range (map snd (it # its)) b n
          | Some (a, i) \<Rightarrow> gap_at (it # its) hi a n i \<and> start \<le> a \<and> (a = start \<or> PAGESIZE dvd a) \<and>
              (\<forall>b \<ge> start. free_range (map snd (it # its)) b n \<longrightarrow> a \<le> b)"
          using IH tl gap_at_tl it(2) by (cases r) (auto split: if_splits)
      qed
    qed
  qed
qed simp

text \<open>The place of a new entry \<open>[a, a + n)\<close>: the entries \<open>xs\<close> lie before it and \<open>ys\<close> after it.\<close>

definition placed :: "vm_map \<Rightarrow> nat \<Rightarrow> nat \<Rightarrow> nat option \<Rightarrow> bool" where
  "placed m a n after \<longleftrightarrow> (\<exists>xs ys. vm_entries m = xs @ ys \<and> after = (if xs = [] then None else Some (fst (last xs))) \<and>
     ents_ok (vm_map_start m) a (map snd xs) \<and> ents_ok (a + n) (vm_map_end m) (map snd ys))"

lemma gap_at_placed:
  assumes inv: "map_inv m" and g: "gap_at (vm_entries m) (vm_map_end m) a n it"
  shows "placed m a n (Some it)"
proof -
  obtain xs e ys where es: "vm_entries m = xs @ (it, e) # ys" "ent_end e \<le> a"
    "a + n \<le> (case ys of [] \<Rightarrow> vm_map_end m | y # _ \<Rightarrow> ent_start (snd y))"
    using g by (auto simp: gap_at_def)
  note d = map_invD [OF inv es(1)]
  have "ents_ok (vm_map_start m) a (map snd (xs @ [(it, e)]))"
    using d(1-5,9) es(2) by (simp add: ents_ok_append)
  moreover have "ents_ok (a + n) (vm_map_end m) (map snd ys)"
    using d(6) es(3) by (cases ys) auto
  ultimately show ?thesis
    unfolding placed_def using es(1) by (intro exI [of _ "xs @ [(it, e)]"] exI [of _ ys]) auto
qed

lemma findspace_ok:
  assumes inv: "map_inv m" and al: "PAGESIZE dvd start" "PAGESIZE dvd n" and n: "0 < n" "start + n < 2 ^ 64" "vm_map_end m + n < 2 ^ 64"
  obtains (space) a after where "vm_map_findspace_nolock m start n = Some (Inr (a, after))" and "placed m a n after"
      and "max start (vm_map_start m) \<le> a" and "PAGESIZE dvd a"
      and "\<forall>b \<ge> max start (vm_map_start m). b + n \<le> vm_map_end m \<and> free_range (map snd (vm_entries m)) b n \<longrightarrow> a \<le> b"
    | (none) "vm_map_findspace_nolock m start n = Some (Inl ENOMEM)"
      and "\<forall>b \<ge> max start (vm_map_start m). b + n \<le> vm_map_end m \<longrightarrow> \<not> free_range (map snd (vm_entries m)) b n"
proof -
  let ?s = "max start (vm_map_start m)" and ?es = "vm_entries m" and ?hi = "vm_map_end m"
  have se: "vm_map_start m \<le> ?hi"
    by (simp add: vm_map_start_def vm_map_end_def KERNEL_SPACE_BEGIN_def KERNEL_SPACE_END_def USER_SPACE_BEGIN_def USER_SPACE_END_def)
  have ex: "uadd ?s n = ?s + n"
    using n se by (intro uadd_exact) (auto simp: max_def)
  have sal: "PAGESIZE dvd ?s"
    using al(1) by (auto simp: max_def vm_map_start_def KERNEL_SPACE_BEGIN_def USER_SPACE_BEGIN_def PAGESIZE_def)
  have al': "page_aligned_p start \<and> page_aligned_p n"
    using al by (simp add: page_aligned_iff)
  have eok: "ents_ok (vm_map_start m) ?hi (map snd ?es)"
    using inv by (simp add: map_inv_def)
  show thesis
  proof (cases "?s + n > ?hi")
    case True
    then show ?thesis
      using al' ex by (intro none) (auto simp: vm_map_findspace_nolock_def)
  next
    case fits: False
    show ?thesis
    proof (cases "?es = [] \<or> ?s + n \<le> ent_start (snd (hd ?es))")
      case True
      have "placed m ?s n None"
        unfolding placed_def using eok True fits by (intro exI [of _ "[]"] exI [of _ ?es]) (cases ?es; auto)
      moreover have "vm_map_findspace_nolock m start n = Some (Inr (?s, None))"
        using al' ex fits True by (cases ?es) (auto simp: vm_map_findspace_nolock_def Let_def)
      ultimately show ?thesis
        using sal by (intro space [of ?s None]) auto
    next
      case False
      then have ne: "?es \<noteq> []" "ent_start (snd (hd ?es)) < ?s + n" "?s \<le> ?hi"
        using fits by auto
      have eq: "vm_map_findspace_nolock m start n = (case findspace_loop ?es ?hi ?s n of
          Some (a, it) \<Rightarrow> Some (Inr (a, Some it)) | None \<Rightarrow> Some (Inl ENOMEM))"
        using al' ex fits False by (cases ?es) (simp_all add: vm_map_findspace_nolock_def)
      note loop = findspace_loop_ok [OF eok ne(1,2) n(1,3) ne(3)]
      show ?thesis
      proof (cases "findspace_loop ?es ?hi ?s n")
        case None
        then show ?thesis
          using eq loop by (intro none) simp_all
      next
        case (Some r)
        then obtain a it where r: "findspace_loop ?es ?hi ?s n = Some (a, it)"
          by (cases r) auto
        then show ?thesis
          using eq loop gap_at_placed [OF inv, of a n it] sal by (intro space [of a "Some it"]) auto
      qed
    qed
  qed
qed

lemma placed_insert:
  assumes inv: "map_inv m" and pl: "placed m a n after" and n: "0 < n" and al: "PAGESIZE dvd a" "PAGESIZE dvd n"
    and i: "i \<notin> fst ` set (vm_entries m)" and ent: "ent_start ent = a" "ent_end ent = a + n" "off_ok ent"
  obtains m' xs ys where "vm_map_insert_after m after (i, ent) = Some m'" and "map_inv m'"
    and "as_map m' = (\<lambda>va. if a \<le> va \<and> va < a + n then Some (as_at ent va) else as_map m va)"
    and "vm_pmap m' = vm_pmap m" and "vm_is_kernel m' = vm_is_kernel m"
    and "vm_entries m = xs @ ys" and "vm_entries m' = xs @ (i, ent) # ys" and "free_range (map snd (vm_entries m)) a n"
    and "vm_map_start m \<le> a" and "a + n \<le> vm_map_end m"
proof -
  obtain xs ys where es: "vm_entries m = xs @ ys" "after = (if xs = [] then None else Some (fst (last xs)))"
    and ok: "ents_ok (vm_map_start m) a (map snd xs)" "ents_ok (a + n) (vm_map_end m) (map snd ys)"
    using pl by (auto simp: placed_def)
  have dist: "distinct (map fst (xs @ ys))"
    using inv es(1) by (simp add: map_inv_def)
  have new: "(case after of Some a \<Rightarrow> insert_entry_after a (i, ent) (xs @ ys) | None \<Rightarrow> Some ((i, ent) # xs @ ys)) = Some (xs @ (i, ent) # ys)"
  proof (cases xs rule: rev_cases)
    case (snoc zs z)
    then have "fst z \<notin> fst ` set zs"
      using dist by (auto simp: image_iff)
    then show ?thesis
      using es(2) snoc insert_after_at [of "fst z" zs "(i, ent)" "snd z" ys] by simp
  qed (use es(2) in simp)
  have ok': "ents_ok (vm_map_start m) (vm_map_end m) (map snd (xs @ (i, ent) # ys))"
  proof -
    have "ents_ok (vm_map_start m) (ents_end (vm_map_start m) (map snd xs)) (map snd xs)" "ents_end (vm_map_start m) (map snd xs) \<le> a"
      using ok(1) ents_ok_append [of "vm_map_start m" a "map snd xs" "[]"] by auto
    then show ?thesis
      using ok(2) ent n al by (simp add: ents_ok_append)
  qed
  define m' where "m' = m\<lparr>vm_entries := xs @ (i, ent) # ys, vm_nentries := uadd (vm_nentries m) 1\<rparr>"
  have "length (xs @ (i, ent) # ys) < 2 ^ 64"
    using ents_ok_length [OF ok'] vm_bounds [of m] by (simp del: vm_bounds)
  then have "vm_nentries m' = length (xs @ (i, ent) # ys)"
    using inv es(1) by (simp add: m'_def map_inv_def uadd_exact)
  then have "map_inv m'"
    using ok' dist i es(1) by (auto simp: map_inv_def m'_def vm_map_start_def vm_map_end_def)
  moreover have "as_map m' = (\<lambda>va. if a \<le> va \<and> va < a + n then Some (as_at ent va) else as_map m va)"
  proof
    fix va
    show "as_map m' va = (if a \<le> va \<and> va < a + n then Some (as_at ent va) else as_map m va)"
      using as_list_above [OF ok(1), of va] by (simp add: as_map_def m'_def es(1) as_list_append ent split: option.splits)
  qed
  moreover have "free_range (map snd (vm_entries m)) a n"
    using as_list_above [OF ok(1)] as_list_below [OF ok(2)] by (simp add: free_range_def es(1) as_list_append)
  moreover have "vm_map_insert_after m after (i, ent) = Some m'"
    unfolding vm_map_insert_after_def es(1) new m'_def by simp
  ultimately show thesis
    using that [of m' xs ys] ents_ok_le [OF ok(1)] ents_ok_le [OF ok(2)] by (simp add: m'_def es(1))
qed

end
