(* ===== verification/AddrSpace.thy ===== *)
theory AddrSpace
  imports VmMap
begin

text \<open>
  What the operations on address spaces (\<^verbatim>\<open>sys/kern/vm_map.c\<close>) do to the abstract address space: a
  function that says for every address which byte of which object is mapped there and how it may be
  used.  The reference counts of the objects are accounted for: every entry of the map holds one
  reference, all other holders together hold \<open>ext ob\<close>.
\<close>

section \<open>References\<close>

definition ent_refs :: "vm_map_entry list \<Rightarrow> nat \<Rightarrow> nat" where
  "ent_refs es ob = length (filter (\<lambda>e. ent_object e = Some ob) es)"

definition refs_ok :: "vmsys \<Rightarrow> vm_map_entry list \<Rightarrow> (nat \<Rightarrow> nat) \<Rightarrow> bool" where
  "refs_ok s es ext \<longleftrightarrow> (\<forall>ob. case vs_objs s ob of
      None \<Rightarrow> ent_refs es ob = 0 \<and> ext ob = 0
    | Some v \<Rightarrow> vo_refs v = ent_refs es ob + ext ob \<and> 0 < vo_refs v)"

lemma ent_refs_simps [simp]:
  "ent_refs [] ob = 0"
  "ent_refs (e # es) ob = (if ent_object e = Some ob then 1 else 0) + ent_refs es ob"
  "ent_refs (xs @ ys) ob = ent_refs xs ob + ent_refs ys ob"
  by (simp_all add: ent_refs_def)

lemma refs_okD:
  assumes "refs_ok s es ext" and "e \<in> set es" and "ent_object e = Some ob"
  obtains v where "vs_objs s ob = Some v" and "vo_refs v = ent_refs es ob + ext ob" and "0 < vo_refs v"
proof -
  have "ent_refs es ob \<noteq> 0"
    using assms(2,3) by (auto simp: ent_refs_def filter_empty_conv)
  then show thesis
    using assms(1) that by (auto simp: refs_ok_def split: option.splits dest!: spec [of _ ob])
qed

lemma refs_ok_upd:
  assumes ok: "refs_ok s es ext" and objs: "vs_objs s' = (vs_objs s)(ob := x)"
    and other: "\<And>o'. o' \<noteq> ob \<Longrightarrow> ent_refs es' o' = ent_refs es o' \<and> ext' o' = ext o'"
    and own: "case x of None \<Rightarrow> ent_refs es' ob = 0 \<and> ext' ob = 0 | Some v \<Rightarrow> vo_refs v = ent_refs es' ob + ext' ob \<and> 0 < vo_refs v"
  shows "refs_ok s' es' ext'"
  unfolding refs_ok_def
proof
  fix o'
  show "case vs_objs s' o' of None \<Rightarrow> ent_refs es' o' = 0 \<and> ext' o' = 0
      | Some v \<Rightarrow> vo_refs v = ent_refs es' o' + ext' o' \<and> 0 < vo_refs v"
  proof (cases "o' = ob")
    case False
    then show ?thesis
      using ok other [OF False] objs unfolding refs_ok_def by (metis fun_upd_other)
  qed (use objs own in \<open>auto split: option.splits\<close>)
qed

text \<open>The whole state: objects, frames, the map and the references to the objects.\<close>

definition space_ok :: "vmsys \<Rightarrow> vm_map \<Rightarrow> (nat \<Rightarrow> nat) \<Rightarrow> bool" where
  "space_ok s m ext \<longleftrightarrow> vs_inv s \<and> map_inv m \<and> refs_ok s (map snd (vm_entries m)) ext"

text \<open>Every page of every object keeps its frame and content.\<close>

definition same_mem :: "vmsys \<Rightarrow> vmsys \<Rightarrow> bool" where
  "same_mem s s' \<longleftrightarrow> obj_page s' = obj_page s \<and> obj_read s' = obj_read s \<and> vs_free s' = vs_free s"

lemma hold_refs:
  assumes inv: "vs_inv s" and ob: "vs_objs s ob = Some v" and c: "vo_refs v < UINT_MAX"
  obtains s' where "vm_object_hold s ob = Some s'" and "vs_inv s'" and "same_mem s s'"
    and "vs_objs s' = (vs_objs s)(ob \<mapsto> v\<lparr>vo_refs := vo_refs v + 1\<rparr>)"
  using vm_object_hold_ok [OF inv ob c] by (auto simp: same_mem_def set_obj_def)

text \<open>The objects that still exist keep their pages.\<close>

definition keeps :: "vmsys \<Rightarrow> vmsys \<Rightarrow> bool" where
  "keeps s s' \<longleftrightarrow> (\<forall>ob v'. vs_objs s' ob = Some v' \<longrightarrow>
     vs_objs s ob \<noteq> None \<and> obj_page s' ob = obj_page s ob \<and> obj_read s' ob = obj_read s ob)"

lemma keeps_trans: "keeps s s' \<Longrightarrow> keeps s' s'' \<Longrightarrow> keeps s s''"
  unfolding keeps_def by fastforce

lemma keeps_refl: "keeps s s"
  by (simp add: keeps_def)

section \<open>Splitting and destroying entries\<close>

lemma map_of_at: "i \<notin> fst ` set xs \<Longrightarrow> map_of (xs @ (i, e) # ys) i = Some e"
  by (induction xs) auto

lemma split_ok:
  assumes ok: "space_ok s m ext" and es: "vm_entries m = xs @ (i, e) # ys" and ob: "ent_object e = Some ob"
    and few: "ent_refs (map snd (vm_entries m)) ob + ext ob < UINT_MAX"
    and n: "n \<notin> fst ` set (vm_entries m)" and at: "PAGESIZE dvd at" "ent_start e < at" "at < ent_end e"
  obtains s' m' where "vm_map_entry_split s m i at n = Some (s', m')" and "space_ok s' m' ext" and "same_mem s s'"
    and "vm_entries m' = xs @ (i, e\<lparr>ent_end := at\<rparr>) # (n, e\<lparr>ent_start := at, ent_offset := ent_offset e + (at - ent_start e)\<rparr>) # ys"
    and "as_map m' = as_map m" and "vm_pmap m' = vm_pmap m" and "vm_is_kernel m' = vm_is_kernel m"
    and "keeps s s'"
proof -
  have inv: "vs_inv s" "map_inv m" "refs_ok s (map snd (vm_entries m)) ext"
    using ok by (simp_all add: space_ok_def)
  note d = map_invD [OF inv(2) es]
  have dist: "distinct (map fst (xs @ (i, e) # ys))"
    using inv(2) es by (simp add: map_inv_def)
  have nin: "i \<notin> fst ` set xs" "i \<notin> fst ` set ys"
    using dist by (auto simp: image_iff)
  have "e \<in> set (map snd (vm_entries m))"
    using es by simp
  then obtain v where v: "vs_objs s ob = Some v" "vo_refs v = ent_refs (map snd (vm_entries m)) ob + ext ob"
    using refs_okD [OF inv(3) _ ob] by metis
  obtain s' where h: "vm_object_hold s ob = Some s'" "vs_inv s'" "same_mem s s'"
    "vs_objs s' = (vs_objs s)(ob \<mapsto> v\<lparr>vo_refs := vo_refs v + 1\<rparr>)"
    using hold_refs [OF inv(1) v(1)] few v(2) by auto
  define e1 where "e1 = e\<lparr>ent_end := at\<rparr>"
  define e2 where "e2 = e\<lparr>ent_start := at, ent_offset := ent_offset e + (at - ent_start e)\<rparr>"
  define m' where "m' = m\<lparr>vm_entries := xs @ (i, e1) # (n, e2) # ys, vm_nentries := uadd (vm_nentries m) 1\<rparr>"
  have off: "ent_offset e + (ent_end e - ent_start e) \<le> MAXOFF" "PAGESIZE dvd ent_offset e"
    using d(9) by (simp_all add: off_ok_def)
  have "uadd (ent_offset e) (usub at (ent_start e)) = ent_offset e + (at - ent_start e)"
    using at d(8) off(1) by (simp add: usub_exact uadd_exact MAXOFF_def PAGESIZE_def)
  moreover have "map_of (vm_entries m) i = Some e"
    unfolding es using nin(1) by (rule map_of_at)
  moreover have "vm_entries (set_entry m i e1) = xs @ (i, e1) # ys"
    using set_entry_at [OF es nin] .
  moreover have "page_aligned_p at" "page_aligned_p (ent_start e)" "page_aligned_p (ent_end e)"
    using at(1) d(4,5) by (simp_all add: page_aligned_iff)
  moreover have "\<lparr>ent_object = Some ob, ent_offset = ent_offset e + (at - ent_start e), ent_prot = ent_prot e,
      ent_flags = ent_flags e, ent_start = at, ent_end = ent_end e\<rparr> = e2"
    using ob by (simp add: e2_def)
  ultimately have eq: "vm_map_entry_split s m i at n = Some (s', m')"
    using n at h(1) ob insert_after_at [OF nin(1), of "(n, e2)" e1 ys]
    by (simp add: vm_map_entry_split_def vm_map_entry_copy_def vm_map_entry_alloc_def vm_map_insert_after_def m'_def e1_def
        set_entry_def)
  have ok': "ents_ok (vm_map_start m) (vm_map_end m) (map snd (xs @ (i, e1) # (n, e2) # ys))"
    using d at off by (auto simp: ents_ok_append e1_def e2_def off_ok_def)
  have "length (xs @ (i, e1) # (n, e2) # ys) < 2 ^ 64"
    using ents_ok_length [OF ok'] vm_bounds [of m] by (simp del: vm_bounds)
  then have "map_inv m'"
    using ok' dist n es inv(2) by (auto simp: map_inv_def m'_def vm_map_start_def vm_map_end_def uadd_exact)
  moreover have "refs_ok s' (map snd (vm_entries m')) ext"
    by (rule refs_ok_upd [OF inv(3) h(4)]) (use v(2) ob in \<open>auto simp: m'_def es e1_def e2_def\<close>)
  moreover have "as_map m' = as_map m"
    unfolding as_map_def m'_def es using at by (auto simp: fun_eq_iff as_list_append e1_def e2_def as_at_def split: option.splits)
  moreover have "keeps s s'"
    using h(3,4) v(1) by (auto simp: keeps_def same_mem_def split: if_splits)
  ultimately show thesis
    using that [of s' m'] eq h(2,3) by (simp add: space_ok_def m'_def e1_def e2_def)
qed

lemma filter_other: "i \<notin> fst ` set l \<Longrightarrow> filter (\<lambda>e. fst e \<noteq> i) l = l"
  by (induction l) auto

lemma destroy_ok:
  assumes ok: "space_ok s m ext" and es: "vm_entries m = xs @ (i, e) # ys" and ob: "ent_object e = Some ob"
  obtains s' m' where "vm_map_entry_destroy s m i = Some (s', m')" and "space_ok s' m' ext" and "vm_entries m' = xs @ ys"
    and "as_map m' = (\<lambda>va. if ent_start e \<le> va \<and> va < ent_end e then None else as_map m va)" and "keeps s s'"
    and "vm_pmap m' = vm_pmap m" and "vm_is_kernel m' = vm_is_kernel m"
proof -
  have inv: "vs_inv s" "map_inv m" "refs_ok s (map snd (vm_entries m)) ext"
    using ok by (simp_all add: space_ok_def)
  note d = map_invD [OF inv(2) es]
  have dist: "distinct (map fst (xs @ (i, e) # ys))"
    using inv(2) es by (simp add: map_inv_def)
  have nin: "i \<notin> fst ` set xs" "i \<notin> fst ` set ys"
    using dist by (auto simp: image_iff)
  have "e \<in> set (map snd (vm_entries m))"
    using es by simp
  then obtain v where v: "vs_objs s ob = Some v" "vo_refs v = ent_refs (map snd (vm_entries m)) ob + ext ob" "0 < vo_refs v"
    using refs_okD [OF inv(3) _ ob] by metis
  obtain s' where dr: "vm_object_drop s ob = Some s'" "vs_inv s'" "\<forall>o'. o' \<noteq> ob \<longrightarrow> same_obj s s' o'"
    "1 < vo_refs v \<Longrightarrow> s' = set_obj s ob (v\<lparr>vo_refs := vo_refs v - 1\<rparr>)" "vo_refs v = 1 \<Longrightarrow> vs_objs s' = (vs_objs s)(ob := None)"
    using vm_object_drop_ok [OF inv(1) v(1,3)] by metis
  define m' where "m' = m\<lparr>vm_entries := xs @ ys, vm_nentries := usub (vm_nentries m) 1\<rparr>"
  have "filter (\<lambda>e. fst e \<noteq> i) (vm_entries m) = xs @ ys"
    using filter_other [OF nin(1)] filter_other [OF nin(2)] by (simp add: es)
  moreover have "map_of (vm_entries m) i = Some e"
    unfolding es using nin(1) by (rule map_of_at)
  ultimately have eq: "vm_map_entry_destroy s m i = Some (s', m')"
    using dr(1) ob by (simp add: vm_map_entry_destroy_def vm_map_entry_free_def m'_def)
  have ok': "ents_ok (vm_map_start m) (vm_map_end m) (map snd (xs @ ys))"
    using d(1,2,3) ents_ok_weaken [OF d(6)] by (auto simp: ents_ok_append)
  have "vm_nentries m = length xs + length ys + 1" "vm_nentries m < 2 ^ 64"
    using inv(2) ents_ok_length [of "vm_map_start m" "vm_map_end m" "map snd (vm_entries m)"] vm_bounds [of m]
    by (auto simp: map_inv_def es simp del: vm_bounds)
  then have "map_inv m'"
    using ok' dist by (auto simp: map_inv_def m'_def vm_map_start_def vm_map_end_def usub_exact)
  moreover have "refs_ok s' (map snd (vm_entries m')) ext"
  proof (cases "vo_refs v = 1")
    case True
    then show ?thesis
      by (intro refs_ok_upd [OF inv(3) dr(5)]) (use v(2) ob True in \<open>auto simp: m'_def es\<close>)
  next
    case False
    then have "vs_objs s' = (vs_objs s)(ob \<mapsto> v\<lparr>vo_refs := vo_refs v - 1\<rparr>)"
      using dr(4) v(3) by (simp add: set_obj_def)
    then show ?thesis
      by (rule refs_ok_upd [OF inv(3)]) (use v(2) ob False in \<open>auto simp: m'_def es\<close>)
  qed
  moreover have "as_map m' = (\<lambda>va. if ent_start e \<le> va \<and> va < ent_end e then None else as_map m va)"
  proof
    fix va
    show "as_map m' va = (if ent_start e \<le> va \<and> va < ent_end e then None else as_map m va)"
      using as_list_above [OF d(1), of va] as_list_below [OF d(6), of va] d(2)
      by (auto simp: as_map_def m'_def es as_list_append split: option.splits)
  qed
  moreover have "keeps s s'"
    unfolding keeps_def
  proof (intro allI impI)
    fix o' v'
    assume a: "vs_objs s' o' = Some v'"
    show "vs_objs s o' \<noteq> None \<and> obj_page s' o' = obj_page s o' \<and> obj_read s' o' = obj_read s o'"
    proof (cases "o' = ob")
      case True
      then have "1 < vo_refs v"
        using a dr(5) v(3) by (cases "vo_refs v = 1") auto
      then show ?thesis
        using dr(4) set_obj_meta(2,3) [OF inv(1) v(1), of "v\<lparr>vo_refs := vo_refs v - 1\<rparr>"] True v(1) by simp
    next
      case False
      then have "same_obj s s' o'"
        using dr(3) by blast
      then show ?thesis
        using same_obj_page same_obj_read a by (metis same_obj_def option.distinct(1))
    qed
  qed
  ultimately show thesis
    using that [of s' m'] eq dr(2) by (simp add: space_ok_def m'_def)
qed

text \<open>The two clips of \<^verbatim>\<open>vm_map_entry_destroy_range\<close>: what is left of the entry before and after the range.\<close>

lemma clip_left:
  assumes ok: "space_ok s m ext" and es: "vm_entries m = xs @ (i, e) # ys" and ob: "ent_object e = Some ob"
    and few: "ent_refs (map snd (vm_entries m)) ob + ext ob < UINT_MAX" and n: "n \<notin> fst ` set (vm_entries m)"
    and at: "PAGESIZE dvd start" "ent_start e \<le> start" "start < ent_end e"
    and e1: "e1 = e\<lparr>ent_start := start, ent_offset := ent_offset e + (start - ent_start e)\<rparr>"
    and del: "del = (if ent_start e < start then n else i)"
  obtains s' m' where "(if start > ent_start e then do { (s, m) \<leftarrow> vm_map_entry_split s m i start n; Some (s, m, n) }
        else Some (s, m, i)) = Some (s', m', del)"
    and "space_ok s' m' ext"
    and "vm_entries m' = xs @ (if ent_start e < start then [(i, e\<lparr>ent_end := start\<rparr>)] else []) @ (del, e1) # ys"
    and "as_map m' = as_map m" and "vm_pmap m' = vm_pmap m" and "vm_is_kernel m' = vm_is_kernel m" and "keeps s s'"
proof (cases "ent_start e < start")
  case True
  obtain s' m' where "vm_map_entry_split s m i start n = Some (s', m')" "space_ok s' m' ext"
    "vm_entries m' = xs @ (i, e\<lparr>ent_end := start\<rparr>) # (n, e\<lparr>ent_start := start, ent_offset := ent_offset e + (start - ent_start e)\<rparr>) # ys"
    "as_map m' = as_map m" "vm_pmap m' = vm_pmap m" "vm_is_kernel m' = vm_is_kernel m" "keeps s s'"
    by (rule split_ok [OF ok es ob few n at(1) True at(3)])
  then show ?thesis
    using that [of s' m'] True by (simp add: e1 del)
next
  case False
  then have "e1 = e"
    using at(2) by (simp add: e1)
  then show ?thesis
    using that [of s m] False es ok keeps_refl by (simp add: del)
qed

lemma clip_right:
  assumes ok: "space_ok s m ext" and es: "vm_entries m = xs @ (i, e) # ys" and ob: "ent_object e = Some ob"
    and few: "ent_refs (map snd (vm_entries m)) ob + ext ob < UINT_MAX" and n: "n \<notin> fst ` set (vm_entries m)"
    and at: "PAGESIZE dvd en" "ent_start e < en" "en \<le> ent_end e"
  obtains s' m' where "(if en < ent_end e then vm_map_entry_split s m i en n else Some (s, m)) = Some (s', m')"
    and "space_ok s' m' ext"
    and "vm_entries m' = xs @ (i, e\<lparr>ent_end := en\<rparr>) # (if en < ent_end e then
        [(n, e\<lparr>ent_start := en, ent_offset := ent_offset e + (en - ent_start e)\<rparr>)] else []) @ ys"
    and "as_map m' = as_map m" and "vm_pmap m' = vm_pmap m" and "vm_is_kernel m' = vm_is_kernel m" and "keeps s s'"
proof (cases "en < ent_end e")
  case True
  obtain s' m' where "vm_map_entry_split s m i en n = Some (s', m')" "space_ok s' m' ext"
    "vm_entries m' = xs @ (i, e\<lparr>ent_end := en\<rparr>) # (n, e\<lparr>ent_start := en, ent_offset := ent_offset e + (en - ent_start e)\<rparr>) # ys"
    "as_map m' = as_map m" "vm_pmap m' = vm_pmap m" "vm_is_kernel m' = vm_is_kernel m" "keeps s s'"
    by (rule split_ok [OF ok es ob few n at(1,2) True])
  then show ?thesis
    using that [of s' m'] True by simp
next
  case False
  then have "e\<lparr>ent_end := en\<rparr> = e"
    using at(3) by simp
  then show ?thesis
    using that [of s m] False es ok keeps_refl by simp
qed

lemma destroy_range_ok:
  assumes ok: "space_ok s m ext" and es: "vm_entries m = xs @ (i, e) # ys" and ob: "ent_object e = Some ob"
    and few: "ent_refs (map snd (vm_entries m)) ob + ext ob + 1 < UINT_MAX"
    and n: "n1 \<notin> fst ` set (vm_entries m)" "n2 \<notin> fst ` set (vm_entries m)" "n1 \<noteq> n2"
    and at: "PAGESIZE dvd start" "PAGESIZE dvd en" "ent_start e \<le> start" "start < en" "en \<le> ent_end e"
  obtains s' m' where "vm_map_entry_destroy_range s m i start en n1 n2 = Some (s', m')" and "space_ok s' m' ext"
    and "vm_entries m' = xs @ (if ent_start e < start then [(i, e\<lparr>ent_end := start\<rparr>)] else []) @
      (if en < ent_end e then [(n2, e\<lparr>ent_start := en, ent_offset := ent_offset e + (en - ent_start e)\<rparr>)] else []) @ ys"
    and "as_map m' = (\<lambda>va. if start \<le> va \<and> va < en then None else as_map m va)" and "keeps s s'"
    and "vm_pmap m' = pmap_remove (vm_pmap m) start en" and "vm_is_kernel m' = vm_is_kernel m"
proof -
  define m0 where "m0 = m\<lparr>vm_pmap := pmap_remove (vm_pmap m) start en\<rparr>"
  have m0: "vm_entries m0 = vm_entries m" "as_map m0 = as_map m" "vm_is_kernel m0 = vm_is_kernel m"
    "vm_pmap m0 = pmap_remove (vm_pmap m) start en"
    by (simp_all add: m0_def as_map_def)
  have ok0: "space_ok s m0 ext"
    using ok by (simp add: space_ok_def map_inv_def m0_def vm_map_start_def vm_map_end_def)
  have dist: "distinct (map fst (xs @ (i, e) # ys))"
    using ok es by (simp add: space_ok_def map_inv_def)
  have nin: "i \<notin> fst ` set xs"
    using dist by (auto simp: image_iff)
  let ?L = "if ent_start e < start then [(i, e\<lparr>ent_end := start\<rparr>)] else []"
  define del where "del = (if ent_start e < start then n1 else i)"
  define e1 where "e1 = e\<lparr>ent_start := start, ent_offset := ent_offset e + (start - ent_start e)\<rparr>"
  have e1: "ent_object e1 = Some ob" "ent_start e1 = start" "ent_end e1 = ent_end e"
    "e1\<lparr>ent_start := en, ent_offset := ent_offset e1 + (en - ent_start e1)\<rparr> =
      e\<lparr>ent_start := en, ent_offset := ent_offset e + (en - ent_start e)\<rparr>"
    using ob at by (auto simp: e1_def)
  have few0: "ent_refs (map snd (vm_entries m0)) ob + ext ob < UINT_MAX" "start < ent_end e"
    using few at by (simp_all add: m0)
  obtain s1 m1 where s1: "(if start > ent_start e then do { (s, m) \<leftarrow> vm_map_entry_split s m0 i start n1; Some (s, m, n1) }
        else Some (s, m0, i)) = Some (s1, m1, del)" "space_ok s1 m1 ext"
    "vm_entries m1 = xs @ ?L @ (del, e1) # ys" "as_map m1 = as_map m0"
    "vm_pmap m1 = vm_pmap m0" "vm_is_kernel m1 = vm_is_kernel m0" "keeps s s1"
    by (rule clip_left [OF ok0 es [folded m0(1)] ob few0(1) n(1) [folded m0(1)] at(1,3) few0(2) e1_def del_def])
  have es1: "vm_entries m1 = (xs @ ?L) @ (del, e1) # ys"
    using s1(3) by simp
  have del: "map_of (vm_entries m1) del = Some e1"
    unfolding es1 using nin n(1) es by (intro map_of_at) (auto simp: del_def)
  have few1: "ent_refs (map snd (vm_entries m1)) ob + ext ob < UINT_MAX" "n2 \<notin> fst ` set (vm_entries m1)" "ent_start e1 < en" "en \<le> ent_end e1"
    using few ob n es at e1 by (auto simp: es1 es del_def)
  obtain s2 m2 where s2: "(if en < ent_end e1 then vm_map_entry_split s1 m1 del en n2 else Some (s1, m1)) = Some (s2, m2)"
    "space_ok s2 m2 ext"
    "vm_entries m2 = (xs @ ?L) @ (del, e1\<lparr>ent_end := en\<rparr>) # (if en < ent_end e1 then
      [(n2, e1\<lparr>ent_start := en, ent_offset := ent_offset e1 + (en - ent_start e1)\<rparr>)] else []) @ ys" "as_map m2 = as_map m1"
    "vm_pmap m2 = vm_pmap m1" "vm_is_kernel m2 = vm_is_kernel m1" "keeps s1 s2"
    by (rule clip_right [OF s1(2) es1 e1(1) few1(1,2) at(2) few1(3,4)])
  have obd: "ent_object (e1\<lparr>ent_end := en\<rparr>) = Some ob"
    using e1 by simp
  obtain s' m' where dd: "vm_map_entry_destroy s2 m2 del = Some (s', m')" "space_ok s' m' ext" "vm_entries m' = (xs @ ?L) @ (if en < ent_end e1 then
      [(n2, e1\<lparr>ent_start := en, ent_offset := ent_offset e1 + (en - ent_start e1)\<rparr>)] else []) @ ys"
    "as_map m' = (\<lambda>va. if ent_start (e1\<lparr>ent_end := en\<rparr>) \<le> va \<and> va < ent_end (e1\<lparr>ent_end := en\<rparr>) then None else as_map m2 va)"
    "keeps s2 s'" "vm_pmap m' = vm_pmap m2" "vm_is_kernel m' = vm_is_kernel m2"
    by (rule destroy_ok [OF s2(2,3) obd])
  have "vm_map_entry_destroy_range s m i start en n1 n2 = Some (s', m')"
    using map_of_at [OF nin, of e ys, folded es] at s1(1) del s2(1) dd(1)
    by (simp add: vm_map_entry_destroy_range_def Let_def flip: m0_def)
  then show thesis
    using that [of s' m'] dd s1(4-6) s2(4-6) e1 keeps_trans [OF s1(7) keeps_trans [OF s2(7) dd(5)]] m0
    by (simp cong: if_cong)
qed

end
