(* ===== verification/Mmap.thy ===== *)
theory Mmap
  imports AddrSpace
begin

text \<open>
  Mapping and unmapping memory, the heap segment, page faults and the copy of an address space:
  \<^verbatim>\<open>sys/kern/mmap.c\<close>, \<^verbatim>\<open>sys/kern/sbrk.c\<close> and the rest of \<^verbatim>\<open>sys/kern/vm_map.c\<close>.
\<close>

section \<open>Mapping and unmapping\<close>

definition MAP_FAILED :: nat where "MAP_FAILED = 2 ^ 64 - 1"

text \<open>The result is the error, the value stored in \<^verbatim>\<open>*addr_p\<close>, and the state.\<close>

definition do_mmap :: "vmsys \<Rightarrow> vm_map \<Rightarrow> nat \<Rightarrow> nat \<Rightarrow> nat \<Rightarrow> nat \<Rightarrow> nat \<Rightarrow> nat \<Rightarrow> (errno option \<times> nat \<times> vmsys \<times> vm_map) option" where
  "do_mmap s m addr len prot flags i ob =
     do {
       let len = roundup len PAGESIZE;
       let sharing = flags AND (VM_SHARED OR VM_PRIVATE);
       if sharing = (VM_SHARED OR VM_PRIVATE) then Some (Some EINVAL, MAP_FAILED, s, m)
       else if sharing = 0 then Some (Some EINVAL, MAP_FAILED, s, m)
       else do {
         (err, s, m) \<leftarrow> vm_map_alloc_entry s m addr len prot flags i ob;
         case err of
           Some e \<Rightarrow> Some (Some e, MAP_FAILED, s, m)
         | None \<Rightarrow> do { ent \<leftarrow> map_of (vm_entries m) i; Some (None, ent_start ent, s, m) }
       }
     }"

fun next_id :: "nat \<Rightarrow> (nat \<times> vm_map_entry) list \<Rightarrow> nat option" where
  "next_id i (x # y # es) = (if fst x = i then Some (fst y) else next_id i (y # es))"
| "next_id i _ = None"

text \<open>The loop of \<^verbatim>\<open>do_munmap\<close>; every round has a pair of addresses for the entries it may have to create.\<close>

partial_function (option) munmap_loop ::
  "vmsys \<Rightarrow> vm_map \<Rightarrow> nat \<Rightarrow> nat \<Rightarrow> nat \<Rightarrow> (nat \<times> nat) list \<Rightarrow> (vmsys \<times> vm_map) option" where
  "munmap_loop s m i start en ids =
     do {
       ent \<leftarrow> map_of (vm_entries m) i;
       if ent_end ent > start \<and> ent_start ent < en then
         (case ids of
            [] \<Rightarrow> None
          | (n1, n2) # ids \<Rightarrow>
              do {
                let rm_start = max start (ent_start ent);
                let rm_end = min en (ent_end ent);
                let nx = next_id i (vm_entries m);
                (s, m) \<leftarrow> vm_map_entry_destroy_range s m i rm_start rm_end n1 n2;
                case nx of None \<Rightarrow> Some (s, m) | Some j \<Rightarrow> munmap_loop s m j start en ids
              })
       else Some (s, m)
     }"

definition do_munmap :: "vmsys \<Rightarrow> vm_map \<Rightarrow> nat \<Rightarrow> nat \<Rightarrow> (nat \<times> nat) list \<Rightarrow> (errno option \<times> vmsys \<times> vm_map) option" where
  "do_munmap s m start len ids =
     (if len = 0 then Some (Some EINVAL, s, m)
      else if \<not> page_aligned_p start \<or> \<not> page_aligned_p len then Some (Some EINVAL, s, m)
      else
        let en = uadd start len
        in case vm_map_find_entry m start of
             None \<Rightarrow> Some (Some EINVAL, s, m)
           | Some (i, ent) \<Rightarrow> do { (s, m) \<leftarrow> munmap_loop s m i start en ids; Some (None, s, m) })"

section \<open>The heap segment\<close>

definition SBRK_START :: nat where "SBRK_START = 0x08000000"

record sbrk_state =
  sb_ent :: nat
  sb_end :: nat

definition sbrk_attach :: "vmsys \<Rightarrow> vm_map \<Rightarrow> nat \<Rightarrow> nat \<Rightarrow> (sbrk_state \<times> vmsys \<times> vm_map) option" where
  "sbrk_attach s m i ob =
     do {
       s \<leftarrow> vm_object_alloc s ob VM_ANONYMOUS;
       ent \<leftarrow> vm_map_entry_alloc (Some ob) SBRK_START (SBRK_START + PAGESIZE) (VM_PROT_READ OR VM_PROT_WRITE) VM_ENT_PRIVATE;
       r \<leftarrow> vm_map_insert m i ent VM_FIXED;
       case r of
         Inl e \<Rightarrow> None
       | Inr m \<Rightarrow> Some (\<lparr>sb_ent = i, sb_end = SBRK_START\<rparr>, s, m)
     }"

text \<open>The increment is a signed number; the new break is computed modulo \<open>2 ^ 64\<close>.\<close>

definition sbrk_resize :: "sbrk_state \<Rightarrow> vmsys \<Rightarrow> vm_map \<Rightarrow> int \<Rightarrow> ((errno + nat) \<times> sbrk_state \<times> vmsys \<times> vm_map) option" where
  "sbrk_resize p s m increment =
     do {
       let last_end = sb_end p;
       let new_end = nat ((int (sb_end p) + increment) mod 2 ^ 64);
       ent \<leftarrow> map_of (vm_entries m) (sb_ent p);
       let sbrk_start = ent_start ent;
       if new_end < sbrk_start then Some (Inl EINVAL, p, s, m)
       else do {
         let new_end_aligned = max (align new_end PAGESIZE) (uadd sbrk_start PAGESIZE);
         (err, s, m) \<leftarrow> vm_map_entry_resize s m (sb_ent p) new_end_aligned;
         if err \<noteq> None then Some (Inl ENOMEM, p, s, m)
         else Some (Inr last_end, p\<lparr>sb_end := new_end\<rparr>, s, m)
       }
     }"

section \<open>Unmapping removes exactly the range\<close>

lemma next_id_at: "i \<notin> fst ` set xs \<Longrightarrow> next_id i (xs @ (i, e) # ys) = (case ys of [] \<Rightarrow> None | y # _ \<Rightarrow> Some (fst y))"
proof (induction xs)
  case Nil
  then show ?case by (cases ys) simp_all
next
  case (Cons x xs)
  then show ?case by (cases xs) simp_all
qed

lemma munmap_loop_stop:
  assumes "map_of (vm_entries m) i = Some e" and "ent_end e \<le> start \<or> en \<le> ent_start e"
  shows "munmap_loop s m i start en ids = Some (s, m)"
  using assms by (auto simp: munmap_loop.simps [of s m i])

definition ids_of :: "(nat \<times> nat) list \<Rightarrow> nat list" where
  "ids_of ids = map fst ids @ map snd ids"

definition fresh_ids :: "vm_map \<Rightarrow> (nat \<times> nat) list \<Rightarrow> bool" where
  "fresh_ids m ids \<longleftrightarrow> distinct (ids_of ids) \<and> set (ids_of ids) \<inter> fst ` set (vm_entries m) = {}"

lemma fresh_ids_Cons:
  assumes "fresh_ids m ((n1, n2) # ids)"
  shows "n1 \<notin> fst ` set (vm_entries m)" and "n2 \<notin> fst ` set (vm_entries m)" and "n1 \<noteq> n2" and "n2 \<notin> set (ids_of ids)" and "fresh_ids m ids"
  using assms unfolding fresh_ids_def ids_of_def by auto

definition few :: "vm_map \<Rightarrow> (nat \<Rightarrow> nat) \<Rightarrow> bool" where
  "few m ext \<longleftrightarrow> (\<forall>ob. ent_refs (map snd (vm_entries m)) ob + ext ob + 1 < UINT_MAX)"

definition all_objects :: "vm_map \<Rightarrow> bool" where
  "all_objects m \<longleftrightarrow> (\<forall>e \<in> set (map snd (vm_entries m)). ent_object e \<noteq> None)"

text \<open>One round of the loop on an entry that overlaps the range.\<close>

lemma munmap_round:
  assumes ok: "space_ok s m ext" and es: "vm_entries m = xs @ (i, e) # ys" and few: "few m ext" and ob: "all_objects m"
    and fr: "fresh_ids m ((n1, n2) # ids)" and al: "PAGESIZE dvd start" "PAGESIZE dvd en" and ov: "start < ent_end e" "ent_start e < en" "start < en"
  obtains s' m' xs' where "vm_map_entry_destroy_range s m i (max start (ent_start e)) (min en (ent_end e)) n1 n2 = Some (s', m')"
    and "space_ok s' m' ext" and "keeps s s'" and "vm_entries m' = xs' @ ys" and "fresh_ids m' ids" and "all_objects m'"
    and "en < ent_end e \<or> few m' ext"
    and "as_map m' = (\<lambda>va. if max start (ent_start e) \<le> va \<and> va < min en (ent_end e) then None else as_map m va)"
    and "vm_pmap m' = pmap_remove (vm_pmap m) (max start (ent_start e)) (min en (ent_end e))"
    and "vm_is_kernel m' = vm_is_kernel m"
proof -
  obtain o' where o': "ent_object e = Some o'"
    using ob es by (auto simp: all_objects_def)
  have few': "ent_refs (map snd (vm_entries m)) o' + ext o' + 1 < UINT_MAX"
    using few by (simp add: few_def)
  have n: "n1 \<notin> fst ` set (vm_entries m)" "n2 \<notin> fst ` set (vm_entries m)" "n1 \<noteq> n2"
    using fresh_ids_Cons [OF fr] by simp_all
  have "PAGESIZE dvd ent_start e" "PAGESIZE dvd ent_end e" "ent_start e < ent_end e"
    using map_invD(3-5) [OF _ es] ok by (simp_all add: space_ok_def)
  then have at: "PAGESIZE dvd max start (ent_start e)" "PAGESIZE dvd min en (ent_end e)" "ent_start e \<le> max start (ent_start e)"
    "max start (ent_start e) < min en (ent_end e)" "min en (ent_end e) \<le> ent_end e"
    using al ov by (auto simp: max_def min_def)
  obtain s' m' where d: "vm_map_entry_destroy_range s m i (max start (ent_start e)) (min en (ent_end e)) n1 n2 = Some (s', m')"
    "space_ok s' m' ext"
    "vm_entries m' = xs @ (if ent_start e < max start (ent_start e) then [(i, e\<lparr>ent_end := max start (ent_start e)\<rparr>)] else []) @
      (if min en (ent_end e) < ent_end e then [(n2, e\<lparr>ent_start := min en (ent_end e),
         ent_offset := ent_offset e + (min en (ent_end e) - ent_start e)\<rparr>)] else []) @ ys"
    "as_map m' = (\<lambda>va. if max start (ent_start e) \<le> va \<and> va < min en (ent_end e) then None else as_map m va)" "keeps s s'"
    "vm_pmap m' = pmap_remove (vm_pmap m) (max start (ent_start e)) (min en (ent_end e))" "vm_is_kernel m' = vm_is_kernel m"
    by (rule destroy_range_ok [OF ok es o' few' n at])
  have "all_objects m'"
    using ob o' unfolding all_objects_def d(3) es by auto
  moreover have "fst ` set (vm_entries m') \<subseteq> insert n2 (fst ` set (vm_entries m))"
    unfolding d(3) es by auto
  then have "fresh_ids m' ids"
    using fresh_ids_Cons(4,5) [OF fr] unfolding fresh_ids_def by blast
  moreover have "few m' ext" if "\<not> en < ent_end e"
    unfolding few_def
  proof
    fix ob
    have "ent_refs (map snd (vm_entries m')) ob \<le> ent_refs (map snd (vm_entries m)) ob"
      using that unfolding d(3) es by simp
    moreover have "ent_refs (map snd (vm_entries m)) ob + ext ob + 1 < UINT_MAX"
      using few by (simp add: few_def)
    ultimately show "ent_refs (map snd (vm_entries m')) ob + ext ob + 1 < UINT_MAX"
      by linarith
  qed
  moreover have "vm_entries m' = (xs @ (if ent_start e < max start (ent_start e) then [(i, e\<lparr>ent_end := max start (ent_start e)\<rparr>)] else []) @
      (if min en (ent_end e) < ent_end e then [(n2, e\<lparr>ent_start := min en (ent_end e),
         ent_offset := ent_offset e + (min en (ent_end e) - ent_start e)\<rparr>)] else [])) @ ys"
    using d(3) by simp
  ultimately show thesis
    using that [OF d(1,2,5) _ _ _ _ d(4,6,7)] by blast
qed

lemma gap_unmapped:
  assumes inv: "map_inv m" and es: "vm_entries m = xs @ (i, e) # ys" and va: "ent_end e \<le> va" "ys = [] \<or> va < ent_start (snd (hd ys))"
  shows "as_map m va = None"
proof -
  note d = map_invD [OF inv es]
  have "as_list (map snd xs) va = None"
    using as_list_above [OF d(1)] d(2,3) va(1) by simp
  moreover have "as_list (map snd ys) va = None"
  proof (cases ys)
    case (Cons y zs)
    then have "ents_ok (ent_start (snd y)) (vm_map_end m) (map snd ys)"
      using d(6) by simp
    then show ?thesis
      using as_list_below va(2) Cons by force
  qed simp
  ultimately show ?thesis
    using va(1) by (simp add: as_map_def es as_list_append)
qed

text \<open>What the loop achieves, and how the rounds add up to it.\<close>

definition unmapped :: "vm_map \<Rightarrow> nat \<Rightarrow> nat \<Rightarrow> vm_map \<Rightarrow> bool" where
  "unmapped m start en m' \<longleftrightarrow>
     as_map m' = (\<lambda>va. if start \<le> va \<and> va < en then None else as_map m va) \<and>
     vm_pmap m' = (\<lambda>va. if start \<le> va \<and> va < en \<and> as_map m va \<noteq> None then None else vm_pmap m va) \<and> vm_is_kernel m' = vm_is_kernel m"

lemma unmapped_refl: "(\<And>va. start \<le> va \<Longrightarrow> va < en \<Longrightarrow> as_map m va = None) \<Longrightarrow> unmapped m start en m"
  by (auto simp: unmapped_def fun_eq_iff)

lemma unmapped_round:
  assumes "as_map m1 = (\<lambda>va. if a \<le> va \<and> va < b then None else as_map m va)" and "vm_pmap m1 = pmap_remove (vm_pmap m) a b"
    and "vm_is_kernel m1 = vm_is_kernel m" and "\<And>va. a \<le> va \<Longrightarrow> va < b \<Longrightarrow> as_map m va \<noteq> None" and "start \<le> a" "b \<le> en" and "unmapped m1 start en m'"
  shows "unmapped m start en m'"
proof -
  have "as_map m' va = (if start \<le> va \<and> va < en then None else as_map m va) \<and>
    vm_pmap m' va = (if start \<le> va \<and> va < en \<and> as_map m va \<noteq> None then None else vm_pmap m va)" for va
  proof -
    have 1: "as_map m1 va = (if a \<le> va \<and> va < b then None else as_map m va)"
      "vm_pmap m1 va = (if a \<le> va \<and> va < b then None else vm_pmap m va)"
      using assms(1,2) by (simp_all add: pmap_remove_def)
    have 2: "as_map m' va = (if start \<le> va \<and> va < en then None else as_map m1 va)"
      "vm_pmap m' va = (if start \<le> va \<and> va < en \<and> as_map m1 va \<noteq> None then None else vm_pmap m1 va)"
      using assms(7) by (simp_all add: unmapped_def)
    show ?thesis
    proof (cases "a \<le> va \<and> va < b")
      case True
      then show ?thesis
        unfolding 2 1 using assms(4) [of va] assms(5,6) by simp
    next
      case False
      then have "as_map m1 va = as_map m va" "vm_pmap m1 va = vm_pmap m va"
        unfolding 1 by (simp_all only: if_False)
      then show ?thesis
        unfolding 2 by (simp only: simp_thms)
    qed
  qed
  then show ?thesis
    using assms(3,7) by (simp add: unmapped_def fun_eq_iff)
qed

lemma munmap_loop_ok:
  assumes "space_ok s m ext" and "vm_entries m = xs @ (i, e) # ys" and "few m ext" and "all_objects m" and "fresh_ids m ids"
    and "length ys < length ids" and "PAGESIZE dvd start" "PAGESIZE dvd en" "start < en" "start < ent_end e"
    and "\<And>va. start \<le> va \<Longrightarrow> va < ent_start e \<Longrightarrow> as_map m va = None"
  shows "\<exists>s' m'. munmap_loop s m i start en ids = Some (s', m') \<and> space_ok s' m' ext \<and> keeps s s' \<and> unmapped m start en m'"
  using assms
proof (induction "length ys" arbitrary: s m xs i e ys ids rule: less_induct)
  case less
  have inv: "map_inv m"
    using less.prems(1) by (simp add: space_ok_def)
  note d = map_invD [OF inv less.prems(2)]
  have "i \<notin> fst ` set xs"
    using inv less.prems(2) by (auto simp: map_inv_def image_iff)
  then have i: "map_of (vm_entries m) i = Some e" "next_id i (vm_entries m) = (case ys of [] \<Rightarrow> None | y # _ \<Rightarrow> Some (fst y))"
    unfolding less.prems(2) by (rule map_of_at, rule next_id_at)
  show ?case
  proof (cases "ent_start e < en")
    case False
    then have "munmap_loop s m i start en ids = Some (s, m)"
      by (intro munmap_loop_stop [OF i(1)]) simp
    moreover have "unmapped m start en m"
      using False less.prems(11) by (intro unmapped_refl) simp
    ultimately show ?thesis
      using less.prems(1) keeps_refl by blast
  next
    case True
    obtain n1 n2 ids' where ids: "ids = (n1, n2) # ids'"
      using less.prems(6) by (cases ids) auto
    let ?a = "max start (ent_start e)" and ?b = "min en (ent_end e)"
    obtain s1 m1 xs' where r: "vm_map_entry_destroy_range s m i ?a ?b n1 n2 = Some (s1, m1)" "space_ok s1 m1 ext" "keeps s s1"
      "vm_entries m1 = xs' @ ys" "fresh_ids m1 ids'" "all_objects m1" "en < ent_end e \<or> few m1 ext"
      "as_map m1 = (\<lambda>va. if ?a \<le> va \<and> va < ?b then None else as_map m va)" "vm_pmap m1 = pmap_remove (vm_pmap m) ?a ?b"
      "vm_is_kernel m1 = vm_is_kernel m"
      by (rule munmap_round [OF less.prems(1-4) less.prems(5) [unfolded ids] less.prems(7,8,10) True less.prems(9)])
    have loop: "munmap_loop s m i start en ids = (case ys of [] \<Rightarrow> Some (s1, m1) | y # _ \<Rightarrow> munmap_loop s1 m1 (fst y) start en ids')"
      using i r(1) True less.prems(10) by (simp add: munmap_loop.simps [of s m i] ids Let_def split: list.split)
    have mapped: "as_map m va \<noteq> None" if "?a \<le> va" "va < ?b" for va
    proof -
      have "as_map m va = Some (as_at e va)"
        unfolding as_map_def using that inv less.prems(2)
        by (intro as_list_mem [of "vm_map_start m" "vm_map_end m"]) (auto simp: map_inv_def)
      then show ?thesis by simp
    qed
    have clear: "as_map m1 va = None" if "start \<le> va" "va < en" "ys = [] \<or> va < ent_start (snd (hd ys))" for va
      using that less.prems(11) [of va] gap_unmapped [OF inv less.prems(2), of va] unfolding r(8) by (cases "va < ent_end e") auto
    have "\<exists>s' m'. munmap_loop s m i start en ids = Some (s', m') \<and> space_ok s' m' ext \<and> keeps s1 s' \<and> unmapped m1 start en m'"
    proof (cases ys)
      case Nil
      then show ?thesis
        using loop r(2) unmapped_refl [OF clear] keeps_refl by auto
    next
      case (Cons y zs)
      obtain j f where y: "y = (j, f)"
        by (cases y)
      have f: "ent_end e \<le> ent_start f" "ent_start f < ent_end f"
        using d(6) Cons y by auto
      have es1: "vm_entries m1 = xs' @ (j, f) # zs"
        using r(4) Cons y by simp
      show ?thesis
      proof (cases "en < ent_end e")
        case True
        have "map_of (vm_entries m1) j = Some f"
          using r(2) unfolding es1 space_ok_def map_inv_def by (intro map_of_at) (auto simp: image_iff)
        then have "munmap_loop s1 m1 j start en ids' = Some (s1, m1)"
          using True f(1) by (intro munmap_loop_stop) auto
        moreover have "unmapped m1 start en m1"
          using clear True f Cons y by (intro unmapped_refl) auto
        ultimately show ?thesis
          using loop Cons y r(2) keeps_refl by auto
      next
        case False
        have "\<exists>s' m'. munmap_loop s1 m1 j start en ids' = Some (s', m') \<and> space_ok s' m' ext \<and> keeps s1 s' \<and> unmapped m1 start en m'"
        proof (rule less.hyps [OF _ r(2) es1 _ r(6,5)])
          show "as_map m1 va = None" if "start \<le> va" "va < ent_start f" for va
            using that clear [of va] Cons y d(3) f(1) gap_unmapped [OF inv less.prems(2), of va] False
            unfolding r(8) by (cases "va < en") auto
        qed (use less.prems r(7) False Cons ids f in auto)
        then show ?thesis
          using loop Cons y by simp
      qed
    qed
    then obtain s' m' where "munmap_loop s m i start en ids = Some (s', m')" "space_ok s' m' ext" "keeps s1 s'" "unmapped m1 start en m'"
      by blast
    then show ?thesis
      using keeps_trans [OF r(3)] unmapped_round [OF r(8-10) mapped, of start en m'] by auto
  qed
qed

section \<open>Inserting an entry\<close>

lemma max_size: "\<not> vm_is_kernel m \<Longrightarrow> n \<le> 2 ^ 47 \<Longrightarrow> vm_map_end m + n < 2 ^ 64"
  by (simp add: vm_map_end_def USER_SPACE_END_def)

lemma vm_map_insert_ok:
  assumes inv: "map_inv m" and i: "i \<notin> fst ` set (vm_entries m)" and um: "\<not> vm_is_kernel m"
    and ent: "PAGESIZE dvd ent_start ent" "ent_start ent < ent_end ent" "PAGESIZE dvd ent_end ent" "ent_offset ent = 0"
      "ent_end ent < 2 ^ 63" and n_def: "n = ent_end ent - ent_start ent" and n: "n \<le> 2 ^ 47"
    and fl: "flags AND (VM_SHARED OR VM_PRIVATE) \<noteq> VM_SHARED OR VM_PRIVATE"
  defines "lo \<equiv> max (ent_start ent) (vm_map_start m)"
  obtains (inserted) a m' ent' xs ys where "vm_map_insert m i ent flags = Some (Inr m')" and "map_inv m'"
      and "ent' = ent\<lparr>ent_start := a, ent_end := a + n, ent_flags := (if flags AND VM_SHARED \<noteq> 0 then VM_ENT_SHARED else VM_ENT_PRIVATE)\<rparr>"
      and "as_map m' = (\<lambda>va. if a \<le> va \<and> va < a + n then Some (as_at ent' va) else as_map m va)"
      and "vm_entries m = xs @ ys" and "vm_entries m' = xs @ (i, ent') # ys"
      and "vm_pmap m' = vm_pmap m" and "vm_is_kernel m' = vm_is_kernel m" and "PAGESIZE dvd a" and "lo \<le> a" and "a + n \<le> vm_map_end m"
      and "free_range (map snd (vm_entries m)) a n" and "flags AND VM_FIXED \<noteq> 0 \<Longrightarrow> a = ent_start ent"
      and "\<forall>b \<ge> lo. b + n \<le> vm_map_end m \<and> free_range (map snd (vm_entries m)) b n \<longrightarrow> a \<le> b"
    | (refused) "vm_map_insert m i ent flags = Some (Inl ENOMEM)"
      and "\<not> (lo + n \<le> vm_map_end m \<and> free_range (map snd (vm_entries m)) lo n \<and> lo = ent_start ent)"
      and "flags AND VM_FIXED = 0 \<Longrightarrow> \<forall>b \<ge> lo. b + n \<le> vm_map_end m \<longrightarrow> \<not> free_range (map snd (vm_entries m)) b n"
proof -
  have lt: "ent_end ent < 2 ^ 64" "ent_start ent + n < 2 ^ 64" "0 < n" "PAGESIZE dvd n" "ent_start ent + n = ent_end ent"
    using ent n_def by (auto intro: dvd_diff_nat)
  have len: "usub (ent_end ent) (ent_start ent) = n"
    using lt ent(2) by (simp add: usub_exact n_def)
  show thesis
  proof (cases rule: findspace_ok [OF inv ent(1) lt(4,3,2) max_size [OF um n], case_names space none])
    case none
    then have "vm_map_insert m i ent flags = Some (Inl ENOMEM)"
      by (simp add: vm_map_insert_def len)
    then show thesis
      using none(2) by (intro refused) (auto simp: lo_def)
  next
    case (space a after)
    show thesis
    proof (cases "flags AND VM_FIXED \<noteq> 0 \<and> a \<noteq> ent_start ent")
      case True
      then have "vm_map_insert m i ent flags = Some (Inl ENOMEM)"
        using space(1) by (simp add: vm_map_insert_def len)
      moreover have "\<not> (lo + n \<le> vm_map_end m \<and> free_range (map snd (vm_entries m)) lo n \<and> lo = ent_start ent)"
        using True space(3,5) by (force simp: lo_def)
      ultimately show thesis
        using True by (intro refused) auto
    next
      case False
      define ent' where "ent' = ent\<lparr>ent_start := a, ent_end := a + n,
        ent_flags := (if flags AND VM_SHARED \<noteq> 0 then VM_ENT_SHARED else VM_ENT_PRIVATE)\<rparr>"
      have e': "ent_start ent' = a" "ent_end ent' = a + n" "off_ok ent'"
        using ent(4) n by (simp_all add: ent'_def off_ok_def MAXOFF_def PAGESIZE_def)
      obtain m' xs ys where m': "vm_map_insert_after m after (i, ent') = Some m'" "map_inv m'"
        "as_map m' = (\<lambda>va. if a \<le> va \<and> va < a + n then Some (as_at ent' va) else as_map m va)"
        "vm_pmap m' = vm_pmap m" "vm_is_kernel m' = vm_is_kernel m" "vm_entries m = xs @ ys" "vm_entries m' = xs @ (i, ent') # ys"
        "free_range (map snd (vm_entries m)) a n" "vm_map_start m \<le> a" "a + n \<le> vm_map_end m"
        by (rule placed_insert [OF inv space(2) lt(3) space(4) lt(4) i e'])
      have "uadd a n = a + n"
        using m'(10) vm_bounds [of m] by (intro uadd_exact) linarith
      then have "vm_map_insert m i ent flags = Some (Inr m')"
        using space(1) False fl m'(1) by (auto simp: vm_map_insert_def len ent'_def)
      then show thesis
        using False space(3-5) m'(8-10) by (intro inserted [OF _ m'(2) ent'_def m'(3,6,7,4,5)]) (auto simp: lo_def)
    qed
  qed
qed

text \<open>What a program sees at an address: the content of its page and the protection.\<close>

definition page_of :: "nat \<Rightarrow> nat" where
  "page_of off = off - off mod PAGESIZE"

definition view :: "vmsys \<Rightarrow> vm_map \<Rightarrow> nat \<Rightarrow> (nat \<times> nat) option" where
  "view s m va = (case as_map m va of
      Some (Some ob, off, prot, fl) \<Rightarrow> Some (obj_read s ob (page_of off), prot)
    | _ \<Rightarrow> None)"

lemma as_map_object:
  assumes "as_map m va = Some (Some ob, r)" and "refs_ok s (map snd (vm_entries m)) ext"
  obtains v where "vs_objs s ob = Some v"
proof -
  obtain e where "e \<in> set (map snd (vm_entries m))" "ent_object e = Some ob"
    using assms(1) unfolding as_map_def find_entry_as by (force simp: as_at_def dest: find_entry_mem)
  then show thesis
    using refs_okD [OF assms(2)] that by metis
qed

lemma keeps_view:
  assumes "keeps s s'" and "space_ok s' m' ext" and "as_map m' va = as_map m va"
  shows "view s' m' va = view s m va"
proof (cases "as_map m va")
  case (Some r)
  then obtain oo off prot fl where r: "as_map m va = Some (oo, off, prot, fl)"
    by (cases r) auto
  show ?thesis
  proof (cases oo)
    case (Some ob)
    then obtain v where "vs_objs s' ob = Some v"
      using as_map_object [of m' va ob "(off, prot, fl)" s' ext] assms r by (auto simp: space_ok_def)
    then show ?thesis
      using assms r Some by (simp add: view_def keeps_def)
  qed (use assms r in \<open>simp add: view_def\<close>)
qed (use assms in \<open>simp add: view_def\<close>)

lemma new_object_view:
  assumes ok: "space_ok s m ext" and same: "\<And>o'. o' \<noteq> ob \<Longrightarrow> same_obj s s1 o'" and ob: "vs_objs s ob = None"
    and eq: "as_map m' va = as_map m va"
  shows "view s1 m' va = view s m va"
proof -
  have "o' \<noteq> ob" if "as_map m va = Some (Some o', r)" for o' r
    using as_map_object [OF that] ok ob by (force simp: space_ok_def)
  then show ?thesis
    using same_obj_read [OF same] eq by (auto simp: view_def split: option.splits)
qed

text \<open>A new anonymous object, and its release when it was not needed.\<close>

lemma fresh_object:
  assumes ok: "space_ok s m ext" and ob: "vs_objs s ob = None"
  obtains s1 v where "vm_object_alloc s ob VM_ANONYMOUS = Some s1" and "vs_inv s1" and "vs_objs s1 = (vs_objs s)(ob \<mapsto> v)" and "vo_refs v = 1"
    and "obj_read s1 ob = (\<lambda>i. 0)" and "\<And>o'. o' \<noteq> ob \<Longrightarrow> same_obj s s1 o'" and "ent_refs (map snd (vm_entries m)) ob = 0" and "ext ob = 0"
    and "vo_pager v = VM_ANONYMOUS"
proof -
  have inv: "vs_inv s" and refs: "refs_ok s (map snd (vm_entries m)) ext"
    using ok by (simp_all add: space_ok_def)
  note al = vm_object_alloc_ok [OF inv ob refl, where ty = VM_ANONYMOUS]
  have "ent_refs (map snd (vm_entries m)) ob = 0" "ext ob = 0"
    using refs ob by (auto simp: refs_ok_def split: option.splits dest!: spec [of _ ob])
  then show thesis
    using that [OF al(1,2)] al(4,5) by (simp add: set_obj_def)
qed

lemma release_object:
  assumes ok: "space_ok s m ext" and ob: "vs_objs s ob = None" and s1: "vm_object_alloc s ob VM_ANONYMOUS = Some s1"
  obtains s2 where "vm_object_drop s1 ob = Some s2" and "space_ok s2 m ext" and "keeps s s2"
proof -
  have refs: "refs_ok s (map snd (vm_entries m)) ext" and mi: "map_inv m"
    using ok by (simp_all add: space_ok_def)
  obtain v where f: "vs_inv s1" "vs_objs s1 = (vs_objs s)(ob \<mapsto> v)" "vo_refs v = 1" "\<And>o'. o' \<noteq> ob \<Longrightarrow> same_obj s s1 o'"
    "ent_refs (map snd (vm_entries m)) ob = 0" "ext ob = 0"
    using fresh_object [OF ok ob] s1 by (metis option.inject)
  have v1: "vs_objs s1 ob = Some v" "0 < vo_refs v"
    using f by simp_all
  obtain s2 where d: "vm_object_drop s1 ob = Some s2" "vs_inv s2" "\<forall>o'. o' \<noteq> ob \<longrightarrow> same_obj s1 s2 o'"
    "vo_refs v = 1 \<Longrightarrow> vs_objs s2 = (vs_objs s1)(ob := None)"
    by (rule vm_object_drop_ok [OF f(1) v1]) blast
  have objs: "vs_objs s2 = (vs_objs s)(ob := None)"
    using d(4) f(2,3) by simp
  have "refs_ok s2 (map snd (vm_entries m)) ext"
    by (rule refs_ok_upd [OF refs objs]) (use f in auto)
  moreover have "keeps s s2"
    unfolding keeps_def
  proof (intro allI impI)
    fix o' v'
    assume "vs_objs s2 o' = Some v'"
    then have "o' \<noteq> ob" "vs_objs s o' = Some v'"
      using objs by (auto split: if_splits)
    then show "vs_objs s o' \<noteq> None \<and> obj_page s2 o' = obj_page s o' \<and> obj_read s2 o' = obj_read s o'"
      using same_obj_trans [OF f(4)] d(3) same_obj_page same_obj_read by (metis option.distinct(1))
  qed
  ultimately show thesis
    using that d(1,2) mi by (simp add: space_ok_def)
qed

definition ent_fl :: "nat \<Rightarrow> nat" where
  "ent_fl flags = (if flags AND VM_SHARED \<noteq> 0 then VM_ENT_SHARED else VM_ENT_PRIVATE)"

lemma alloc_entry_ok:
  assumes ok: "space_ok s m ext" and um: "\<not> vm_is_kernel m" and i: "i \<notin> fst ` set (vm_entries m)" and ob: "vs_objs s ob = None"
    and fl: "flags AND VM_ANON \<noteq> 0" "flags AND (VM_SHARED OR VM_PRIVATE) \<noteq> VM_SHARED OR VM_PRIVATE"
    and al: "PAGESIZE dvd addr" "PAGESIZE dvd n" "0 < n" "n \<le> 2 ^ 47" "addr + n < 2 ^ 63"
  defines "lo \<equiv> max addr (vm_map_start m)"
  obtains (mapped) a s' m' where "vm_map_alloc_entry s m addr n prot flags i ob = Some (None, s', m')" and "space_ok s' m' ext"
      and "map_option ent_start (map_of (vm_entries m') i) = Some a" and "PAGESIZE dvd a" and "lo \<le> a" and "a + n \<le> vm_map_end m"
      and "free_range (map snd (vm_entries m)) a n" and "flags AND VM_FIXED \<noteq> 0 \<Longrightarrow> a = addr"
      and "\<forall>b \<ge> lo. b + n \<le> vm_map_end m \<and> free_range (map snd (vm_entries m)) b n \<longrightarrow> a \<le> b"
      and "as_map m' = (\<lambda>va. if a \<le> va \<and> va < a + n then Some (Some ob, va - a, prot, ent_fl flags) else as_map m va)"
      and "view s' m' = (\<lambda>va. if a \<le> va \<and> va < a + n then Some (0, prot) else view s m va)"
      and "vm_pmap m' = vm_pmap m" and "vm_is_kernel m' = vm_is_kernel m" and "\<forall>o'. o' \<noteq> ob \<longrightarrow> same_obj s s' o'"
      and "all_objects m \<Longrightarrow> all_objects m'" and "map_option vo_pager (vs_objs s' ob) = Some VM_ANONYMOUS"
    | (failed) e s' where "vm_map_alloc_entry s m addr n prot flags i ob = Some (Some e, s', m)" and "space_ok s' m ext" and "keeps s s'" and "view s' m = view s m"
      and "e = EINVAL \<and> addr \<noteq> 0 \<and> \<not> (vm_map_start m \<le> addr \<and> addr + n \<le> vm_map_end m) \<or>
           e = ENOMEM \<and> \<not> (vm_map_start m \<le> addr \<and> addr + n \<le> vm_map_end m \<and> free_range (map snd (vm_entries m)) addr n) \<and>
             (flags AND VM_FIXED = 0 \<longrightarrow> (\<forall>b \<ge> lo. b + n \<le> vm_map_end m \<longrightarrow> \<not> free_range (map snd (vm_entries m)) b n))"
proof -
  have ex: "uadd addr n = addr + n"
    using al(5) by (intro uadd_exact) simp
  have pa: "page_aligned_p addr" "page_aligned_p (addr + n)"
    using al(1,2) by (simp_all add: page_aligned_iff)
  have mi: "map_inv m"
    using ok by (simp add: space_ok_def)
  obtain s1 v where f: "vm_object_alloc s ob VM_ANONYMOUS = Some s1" "vs_inv s1" "vs_objs s1 = (vs_objs s)(ob \<mapsto> v)" "vo_refs v = 1"
    "obj_read s1 ob = (\<lambda>i. 0)" "\<And>o'. o' \<noteq> ob \<Longrightarrow> same_obj s s1 o'" "ent_refs (map snd (vm_entries m)) ob = 0" "ext ob = 0"
    "vo_pager v = VM_ANONYMOUS"
    using fresh_object [OF ok ob] by blast
  define ent where "ent = \<lparr>ent_object = Some ob, ent_offset = 0, ent_prot = prot, ent_flags = VM_ENT_SHARED, ent_start = addr, ent_end = addr + n\<rparr>"
  have ent: "PAGESIZE dvd ent_start ent" "ent_start ent < ent_end ent" "PAGESIZE dvd ent_end ent" "ent_offset ent = 0" "ent_end ent < 2 ^ 63"
    "n = ent_end ent - ent_start ent"
    using al by (simp_all add: ent_def)
  show thesis
  proof (cases "addr \<noteq> 0 \<and> \<not> vm_map_contains_p (Some m) addr (addr + n)")
    case True
    then show thesis
      using fl(1) pa al(3) ex ok by (intro failed [of EINVAL s]) (auto simp: keeps_refl vm_map_alloc_entry_def vm_map_contains_p_def)
  next
    case False
    then have eq: "vm_map_alloc_entry s m addr n prot flags i ob =
       do { r \<leftarrow> vm_map_insert m i ent flags;
            case r of Inl e \<Rightarrow> do { s \<leftarrow> vm_map_entry_free s1 ent; Some (Some ENOMEM, s, m) } | Inr m' \<Rightarrow> Some (None, s1, m') }"
      using fl(1) pa al(3) ex f(1) unfolding vm_map_alloc_entry_def vm_map_entry_alloc_def ent_def by (auto simp del: neq0_conv)
    show thesis
    proof (cases rule: vm_map_insert_ok [OF mi i um ent al(4) fl(2), case_names inserted refused])
      case refused
      obtain s2 where "vm_object_drop s1 ob = Some s2" "space_ok s2 m ext" "keeps s s2"
        using release_object [OF ok ob f(1)] .
      then show thesis
        using eq refused keeps_view [of s s2 m ext] by (intro failed [of ENOMEM s2]) (auto simp: vm_map_entry_free_def ent_def lo_def fun_eq_iff)
    next
      case (inserted a m' ent' xs ys)
      have at: "as_map m' = (\<lambda>va. if a \<le> va \<and> va < a + n then Some (Some ob, va - a, prot, ent_fl flags) else as_map m va)"
        using inserted(4) by (simp add: inserted(3) ent_def as_at_def ent_fl_def fun_eq_iff)
      have refs: "refs_ok s1 (map snd (vm_entries m')) ext"
        by (rule refs_ok_upd [OF _ f(3)]) (use ok f(4,7,8) inserted(3,5,6) in \<open>auto simp: space_ok_def ent_refs_def ent_def\<close>)
      then have ok': "space_ok s1 m' ext"
        using f(2) inserted(2) by (simp add: space_ok_def)
      have v: "view s1 m' = (\<lambda>va. if a \<le> va \<and> va < a + n then Some (0, prot) else view s m va)"
      proof
        fix va
        have "view s1 m' va = view s m va" if "\<not> (a \<le> va \<and> va < a + n)"
          by (rule new_object_view [OF ok f(6) ob]) (use that in \<open>auto simp: at\<close>)
        then show "view s1 m' va = (if a \<le> va \<and> va < a + n then Some (0, prot) else view s m va)"
          using at f(5) by (auto simp: view_def)
      qed
      have "i \<notin> fst ` set xs"
        using i inserted(5) by auto
      then have "map_option ent_start (map_of (vm_entries m') i) = Some a"
        unfolding inserted(6) map_of_at [OF \<open>i \<notin> fst ` set xs\<close>] by (simp add: inserted(3))
      moreover have "vm_map_alloc_entry s m addr n prot flags i ob = Some (None, s1, m')"
        unfolding eq inserted(1) by simp
      ultimately show thesis
        using inserted(5-14) f(3,4,6,9) by (intro mapped [OF _ ok' _ _ _ _ _ _ _ at v]) (auto simp: lo_def ent_def all_objects_def inserted(3))
    qed
  qed
qed

section \<open>The system calls\<close>

lemma roundup_page:
  assumes "0 < len" and "len \<le> 2 ^ 46"
  shows "PAGESIZE dvd roundup len PAGESIZE" and "0 < roundup len PAGESIZE" and "roundup len PAGESIZE \<le> 2 ^ 47" and "len \<le> roundup len PAGESIZE"
proof -
  have "uadd len (PAGESIZE - 1) = len + 4095"
    using assms by (simp add: uadd_exact PAGESIZE_def)
  then have r: "roundup len PAGESIZE = (len + 4095) div 4096 * 4096"
    using assms by (simp add: roundup_def PAGESIZE_def umul_def)
  then show "PAGESIZE dvd roundup len PAGESIZE" "0 < roundup len PAGESIZE" "roundup len PAGESIZE \<le> 2 ^ 47" "len \<le> roundup len PAGESIZE"
    using assms by (simp_all add: PAGESIZE_def)
qed

lemma do_munmap_ok:
  assumes "space_ok s m ext" and "few m ext" and "all_objects m" and "fresh_ids m ids" and "vm_nentries m \<le> length ids"
    and "PAGESIZE dvd start" "PAGESIZE dvd len" "0 < len" "start + len < 2 ^ 64" and "as_map m start \<noteq> None"
  obtains s' m' where "do_munmap s m start len ids = Some (None, s', m')" and "space_ok s' m' ext" and "keeps s s'"
    and "unmapped m start (start + len) m'"
proof -
  have inv: "map_inv m"
    using assms(1) by (simp add: space_ok_def)
  obtain i e where f: "vm_map_find_entry m start = Some (i, e)"
    using assms(10) unfolding as_map_def find_entry_as vm_map_find_entry_def by auto
  then obtain xs ys where es: "vm_entries m = xs @ (i, e) # ys"
    using find_entry_mem unfolding vm_map_find_entry_def by (metis split_list)
  have e: "ent_start e \<le> start" "start < ent_end e"
    using f find_entry_mem unfolding vm_map_find_entry_def by fastforce+
  have len: "length ys < length ids"
    using assms(5) es inv by (simp add: map_inv_def)
  have fin: "PAGESIZE dvd start + len" "start < start + len" "uadd start len = start + len"
    using assms(6-9) by (simp_all add: uadd_exact)
  obtain s' m' where l: "munmap_loop s m i start (start + len) ids = Some (s', m')" "space_ok s' m' ext" "keeps s s'"
    "unmapped m start (start + len) m'"
    using munmap_loop_ok [OF assms(1) es assms(2-4) len assms(6) fin(1,2) e(2)] e(1) by fastforce
  have "do_munmap s m start len ids = Some (None, s', m')"
    using assms(6-8) f l(1) fin(3) by (simp add: do_munmap_def page_aligned_iff)
  then show thesis
    using that l(2-4) by blast
qed

lemma munmap_refused:
  assumes "len = 0 \<or> \<not> PAGESIZE dvd start \<or> \<not> PAGESIZE dvd len \<or> as_map m start = None"
  shows "do_munmap s m start len ids = Some (Some EINVAL, s, m)"
  using assms unfolding as_map_def find_entry_as by (auto simp: do_munmap_def page_aligned_iff vm_map_find_entry_def)


text \<open>A small address space for the examples: four pages of an anonymous object, one frame free.\<close>

definition ex_sys :: vmsys where
  "ex_sys = \<lparr>vs_objs = [7 \<mapsto> \<lparr>vo_pages = [], vo_npages = 0, vo_pager = VM_ANONYMOUS, vo_refs = 1\<rparr>],
     vs_page = (\<lambda>p. \<lparr>pg_object = None, pg_offset = 0, pg_size = 1\<rparr>), vs_mem = (\<lambda>p. 0), vs_free = [5]\<rparr>"

definition ex_map :: vm_map where
  "ex_map = \<lparr>vm_entries = [(1, \<lparr>ent_object = Some 7, ent_offset = 0, ent_prot = 3, ent_flags = VM_ENT_PRIVATE,
     ent_start = 0x400000, ent_end = 0x404000\<rparr>)], vm_nentries = 1, vm_pmap = Map.empty, vm_is_kernel = False\<rparr>"

lemma ex_space: "space_ok ex_sys ex_map (\<lambda>ob. 0)" "few ex_map (\<lambda>ob. 0)" "all_objects ex_map"
  "as_map ex_map va = (if 0x400000 \<le> va \<and> va < 0x404000 then Some (Some 7, va - 0x400000, 3, VM_ENT_PRIVATE) else None)"
  by (simp_all add: space_ok_def vs_inv_def ex_sys_def ex_map_def obj_ok_def offs_def blank_page_def map_inv_def vm_map_start_def vm_map_end_def
      USER_SPACE_BEGIN_def USER_SPACE_END_def PAGESIZE_def off_ok_def MAXOFF_def refs_ok_def ent_refs_def few_def all_objects_def as_map_def as_at_def UINT_MAX_def)




end
