(* ===== verification/PageFault.thy ===== *)
theory PageFault
  imports Mmap
begin

text \<open>
  Page faults (\<^verbatim>\<open>vm_page_fault\<close> of \<^verbatim>\<open>sys/kern/vm_map.c\<close> with the anonymous pager) and the coherence of the hardware
  mappings of a process with its address space, over any sequence of \<^verbatim>\<open>mmap\<close>, \<^verbatim>\<open>munmap\<close> and faults.
\<close>

section \<open>A page fault\<close>

definition denied :: "nat \<Rightarrow> nat \<Rightarrow> bool" where
  "denied prot ty \<longleftrightarrow> prot = VM_PROT_NONE \<or> prot AND VM_PROT_WRITE = 0 \<and> ty = VM_PROT_WRITE \<or>
     prot AND VM_PROT_READ = 0 \<and> ty = VM_PROT_READ"

lemma page_of_le: "page_of a \<le> a"
  by (simp add: page_of_def)

lemma page_of_dvd [simp]: "PAGESIZE dvd page_of a"
  by (simp add: page_of_def dvd_minus_mod)

lemma page_of_sub:
  assumes "PAGESIZE dvd b" and "b \<le> a"
  shows "b \<le> page_of a" and "page_of (a - b) = page_of a - b" and "PAGESIZE dvd c \<Longrightarrow> page_of (c + (a - b)) = c + (page_of a - b)"
proof -
  have shift: "page_of (x + r) = x + page_of r" if "PAGESIZE dvd x" for x r
  proof -
    have "(x + r) mod PAGESIZE = r mod PAGESIZE"
      using that by (metis add.commute dvd_def mod_mult_self2)
    then show ?thesis
      by (simp only: page_of_def diff_add_assoc [OF mod_less_eq_dividend])
  qed
  obtain r where a: "a = b + r"
    using assms(2) le_Suc_ex by blast
  show "b \<le> page_of a" "page_of (a - b) = page_of a - b" "PAGESIZE dvd c \<Longrightarrow> page_of (c + (a - b)) = c + (page_of a - b)"
    using shift assms(1) by (simp_all add: a)
qed

lemma find_page_total: "vs_objs s ob = Some v \<Longrightarrow> vm_object_find_page s ob off = Some (obj_page s ob off)"
  by (simp add: vm_object_find_page_def obj_page_def)

lemma mapped_entry:
  assumes inv: "map_inv m" and at: "as_map m va = Some (oo, off, prot, fl)"
  obtains i e where "vm_map_find_entry m va = Some (i, e)" and "ent_object e = oo" and "ent_prot e = prot"
    and "ent_start e \<le> va" "va < ent_end e" and "off = ent_offset e + (va - ent_start e)"
    and "page_of off = ent_offset e + (page_of va - ent_start e)" and "ent_start e \<le> page_of va" and "page_of off < MAXOFF"
    and "uadd (ent_offset e) (usub (page_of va) (ent_start e)) = page_of off"
proof -
  obtain i e where f: "vm_map_find_entry m va = Some (i, e)" "as_at e va = (oo, off, prot, fl)"
    using at unfolding as_map_def find_entry_as vm_map_find_entry_def by auto
  then obtain xs ys where es: "vm_entries m = xs @ (i, e) # ys"
    using find_entry_mem unfolding vm_map_find_entry_def by (metis split_list)
  have e: "ent_start e \<le> va" "va < ent_end e"
    using f find_entry_mem unfolding vm_map_find_entry_def by fastforce+
  have d: "PAGESIZE dvd ent_start e" "off_ok e" "ent_end e \<le> vm_map_end m"
    using map_invD [OF inv es] by simp_all
  have o: "PAGESIZE dvd ent_offset e" "ent_offset e + (ent_end e - ent_start e) \<le> MAXOFF"
    using d(2) by (simp_all add: off_ok_def)
  note p = page_of_sub [OF d(1) e(1)]
  have off: "off = ent_offset e + (va - ent_start e)" "page_of off = ent_offset e + (page_of va - ent_start e)"
    using f(2) p(3) [OF o(1)] by (auto simp: as_at_def)
  have le: "page_of va \<le> va"
    by (rule page_of_le)
  then have lt: "page_of off < MAXOFF"
    using off(2) o(2) e p(1) by linarith
  have "usub (page_of va) (ent_start e) = page_of va - ent_start e"
    using p(1) le e(2) d(3) vm_bounds [of m] by (intro usub_exact) linarith+
  then have "uadd (ent_offset e) (usub (page_of va) (ent_start e)) = page_of off"
    using lt off(2) by (simp add: uadd_exact MAXOFF_def)
  then show thesis
    using that [OF f(1)] f(2) e off p(1) lt by (simp add: as_at_def)
qed

lemma refs_ok_same:
  assumes "refs_ok s es ext" and "\<And>ob. map_option vo_refs (vs_objs s' ob) = map_option vo_refs (vs_objs s ob)"
  shows "refs_ok s' es ext"
  unfolding refs_ok_def
proof
  fix ob
  show "case vs_objs s' ob of None \<Rightarrow> ent_refs es ob = 0 \<and> ext ob = 0
    | Some v \<Rightarrow> vo_refs v = ent_refs es ob + ext ob \<and> 0 < vo_refs v"
    using assms(1) [unfolded refs_ok_def, rule_format, of ob] assms(2) [of ob]
    by (cases "vs_objs s ob"; cases "vs_objs s' ob") auto
qed

text \<open>What a pager does not change: the contents, the frames already present, the pagers and the reference counts.\<close>

definition grows :: "vmsys \<Rightarrow> vmsys \<Rightarrow> bool" where
  "grows s s' \<longleftrightarrow> obj_read s' = obj_read s \<and> (\<forall>ob. obj_page s ob \<subseteq>\<^sub>m obj_page s' ob) \<and>
     (\<forall>ob. map_option vo_pager (vs_objs s' ob) = map_option vo_pager (vs_objs s ob)) \<and>
     (\<forall>ob. map_option vo_refs (vs_objs s' ob) = map_option vo_refs (vs_objs s ob))"

lemma fault_frame:
  assumes inv: "vs_inv s" and ob: "vs_objs s ob = Some v"
    and av: "vo_pager v = VM_ANONYMOUS \<and> vs_free s \<noteq> [] \<or> obj_page s ob off \<noteq> None" and off: "PAGESIZE dvd off" "off < MAXOFF"
  obtains p s' where "(case obj_page s ob off of Some p \<Rightarrow> Some (Some p, s) | None \<Rightarrow> pgr_fault (vo_pager v) s ob off) = Some (Some p, s')"
    and "vs_inv s'" and "grows s s'" and "obj_page s' ob off = Some p" and "vs_mem s' p = obj_read s ob off"
proof (cases "obj_page s ob off")
  case (Some p)
  then show thesis
    using that [of p s] inv by (simp add: grows_def obj_read_def)
next
  case None
  obtain p ps where f: "vs_free s = p # ps" and an: "vo_pager v = VM_ANONYMOUS"
    using av None by (cases "vs_free s") auto
  obtain s' v' where a: "pgr_fault VM_ANONYMOUS s ob off = Some (Some p, s')" "vs_inv s'" "obj_page s' ob = (obj_page s ob)(off \<mapsto> p)"
    "\<And>o'. o' \<noteq> ob \<Longrightarrow> same_obj s s' o'" "vs_objs s' = (vs_objs s)(ob \<mapsto> v')" "vo_refs v' = vo_refs v" "vo_pager v' = vo_pager v"
    "obj_read s' ob = obj_read s ob"
    by (rule anon_fault_ok [OF inv ob f None off]) blast
  have rd: "obj_read s' o' = obj_read s o'" for o'
    using a(8) same_obj_read [OF a(4)] by (cases "o' = ob") auto
  have pg: "obj_page s o' \<subseteq>\<^sub>m obj_page s' o'" for o'
    using a(3) None same_obj_page [OF a(4)] by (cases "o' = ob") (auto simp: map_le_def)
  have "grows s s'"
    using rd pg a(5-7) ob by (auto simp: grows_def)
  moreover have "vs_mem s' p = obj_read s' ob off"
    using a(3) by (simp add: obj_read_def)
  ultimately show thesis
    using that [of p s'] a(1-3) None an rd by simp
qed

lemma page_fault_ok:
  assumes ok: "space_ok s m ext" and at: "as_map m va = Some (Some ob, off, prot, fl)" and perm: "\<not> denied prot ty"
    and ob: "vs_objs s ob = Some v" and av: "vo_pager v = VM_ANONYMOUS \<and> vs_free s \<noteq> [] \<or> obj_page s ob (page_of off) \<noteq> None"
  obtains p s' where "vm_page_fault s m va ty = Some (None, s', m\<lparr>vm_pmap := (vm_pmap m)(page_of va \<mapsto> (p, prot))\<rparr>)"
    and "vs_inv s'" and "grows s s'" and "obj_page s' ob (page_of off) = Some p" and "vs_mem s' p = obj_read s ob (page_of off)"
proof -
  have inv: "vs_inv s" and mi: "map_inv m"
    using ok by (simp_all add: space_ok_def)
  obtain i e where e: "vm_map_find_entry m va = Some (i, e)" "ent_object e = Some ob" "ent_prot e = prot" "ent_start e \<le> va" "va < ent_end e"
    "page_of off < MAXOFF" "uadd (ent_offset e) (usub (page_of va) (ent_start e)) = page_of off"
    by (rule mapped_entry [OF mi at])
  obtain p s' where f: "(case obj_page s ob (page_of off) of Some p \<Rightarrow> Some (Some p, s) | None \<Rightarrow> pgr_fault (vo_pager v) s ob (page_of off)) = Some (Some p, s')"
    "vs_inv s'" "grows s s'" "obj_page s' ob (page_of off) = Some p" "vs_mem s' p = obj_read s ob (page_of off)"
    by (rule fault_frame [OF inv ob av page_of_dvd e(6)])
  have "vm_page_fault s m va ty = Some (None, s', m\<lparr>vm_pmap := (vm_pmap m)(page_of va \<mapsto> (p, prot))\<rparr>)"
    using e perm ob f(1) find_page_total [OF ob] by (auto simp: vm_page_fault_def denied_def page_of_def [symmetric])
  then show thesis
    using that f(2-5) by blast
qed

lemma page_fault_denied:
  assumes "map_inv m"
  shows "as_map m va = None \<Longrightarrow> vm_page_fault s m va ty = Some (Some EFAULT, s, m)"
    and "as_map m va = Some (oo, off, prot, fl) \<Longrightarrow> denied prot ty \<Longrightarrow> vm_page_fault s m va ty = Some (Some EACCES, s, m)"
proof -
  show "vm_page_fault s m va ty = Some (Some EFAULT, s, m)" if "as_map m va = None"
    using that unfolding as_map_def find_entry_as by (simp add: vm_page_fault_def vm_map_find_entry_def)
  show "vm_page_fault s m va ty = Some (Some EACCES, s, m)" if at: "as_map m va = Some (oo, off, prot, fl)" and d: "denied prot ty"
  proof -
    obtain i e where "vm_map_find_entry m va = Some (i, e)" "ent_prot e = prot"
      by (rule mapped_entry [OF assms at])
    then show ?thesis
      using d by (auto simp: vm_page_fault_def denied_def)
  qed
qed
lemma grows_space:
  assumes "space_ok s m ext" and "vs_inv s'" and "grows s s'"
  shows "space_ok s' (m\<lparr>vm_pmap := pm\<rparr>) ext" and "view s' (m\<lparr>vm_pmap := pm\<rparr>) = view s m"
proof -
  have "refs_ok s' (map snd (vm_entries m)) ext"
  proof (rule refs_ok_same)
    show "refs_ok s (map snd (vm_entries m)) ext"
      using assms(1) by (simp add: space_ok_def)
    show "map_option vo_refs (vs_objs s' ob) = map_option vo_refs (vs_objs s ob)" for ob
      using assms(3) unfolding grows_def by blast
  qed
  then show "space_ok s' (m\<lparr>vm_pmap := pm\<rparr>) ext"
    using assms(1,2) by (simp add: space_ok_def map_inv_def vm_map_start_def vm_map_end_def)
  have rd: "obj_read s' = obj_read s"
    using assms(3) by (simp add: grows_def)
  show "view s' (m\<lparr>vm_pmap := pm\<rparr>) = view s m"
    unfolding view_def as_map_def rd by simp
qed


section \<open>Hardware mappings\<close>

text \<open>Every hardware mapping of the process agrees with its address space: it is for a mapped page, with the protection of the
  mapping, and leads to the frame that the mapped object holds for the page.\<close>

definition pmap_ok :: "vmsys \<Rightarrow> vm_map \<Rightarrow> bool" where
  "pmap_ok s m \<longleftrightarrow> (\<forall>va p prot. vm_pmap m va = Some (p, prot) \<longrightarrow> PAGESIZE dvd va \<and>
     (\<exists>ob off fl. as_map m va = Some (Some ob, off, prot, fl) \<and> obj_page s ob off = Some p))"

lemma pmap_okD:
  assumes "pmap_ok s m" and "vm_pmap m va = Some (p, prot)"
  obtains ob off fl where "PAGESIZE dvd va" and "as_map m va = Some (Some ob, off, prot, fl)" and "obj_page s ob off = Some p"
  using assms unfolding pmap_ok_def by blast

lemma pmap_ok_mono:
  assumes "pmap_ok s m" and "vm_pmap m' \<subseteq>\<^sub>m vm_pmap m"
    and "\<And>va ob off prot fl. va \<in> dom (vm_pmap m') \<Longrightarrow> as_map m va = Some (Some ob, off, prot, fl) \<Longrightarrow>
      as_map m' va = as_map m va \<and> obj_page s ob \<subseteq>\<^sub>m obj_page s' ob"
  shows "pmap_ok s' m'"
  unfolding pmap_ok_def
proof (intro allI impI)
  fix va p prot
  assume va: "vm_pmap m' va = Some (p, prot)"
  then have "vm_pmap m va = Some (p, prot)"
    using assms(2) by (force simp: map_le_def dom_def)
  then obtain ob off fl where at: "PAGESIZE dvd va" "as_map m va = Some (Some ob, off, prot, fl)" "obj_page s ob off = Some p"
    by (rule pmap_okD [OF assms(1)])
  have "as_map m' va = as_map m va" "obj_page s ob \<subseteq>\<^sub>m obj_page s' ob"
    using assms(3) [OF _ at(2)] va by auto
  then show "PAGESIZE dvd va \<and> (\<exists>ob off fl. as_map m' va = Some (Some ob, off, prot, fl) \<and> obj_page s' ob off = Some p)"
    using at by (force simp: map_le_def dom_def)
qed

definition proc_ok :: "vmsys \<Rightarrow> vm_map \<Rightarrow> bool" where
  "proc_ok s m \<longleftrightarrow> space_ok s m (\<lambda>ob. 0) \<and> pmap_ok s m \<and> all_objects m \<and> \<not> vm_is_kernel m"

lemma page_of_mapped:
  assumes inv: "map_inv m" and at: "as_map m va = Some (oo, off, prot, fl)"
  shows "as_map m (page_of va) = Some (oo, page_of off, prot, fl)"
proof -
  obtain i e where e: "vm_map_find_entry m va = Some (i, e)" "ent_object e = oo" "ent_prot e = prot" "va < ent_end e"
    "page_of off = ent_offset e + (page_of va - ent_start e)" "ent_start e \<le> page_of va"
    by (rule mapped_entry [OF inv at])
  have "e \<in> set (map snd (vm_entries m))" "as_at e va = (oo, off, prot, fl)"
    using e(1) find_entry_mem at unfolding as_map_def find_entry_as vm_map_find_entry_def by force+
  then have "as_map m (page_of va) = Some (as_at e (page_of va))" "ent_flags e = fl"
    using as_list_mem [of "vm_map_start m" "vm_map_end m" _ e "page_of va"] inv e(4,6) page_of_le [of va]
    by (auto simp: map_inv_def as_map_def as_at_def)
  then show ?thesis
    using e by (simp add: as_at_def)
qed

lemma entered_pmap_ok:
  assumes ok: "pmap_ok s m" and inv: "map_inv m" and g: "grows s s'"
    and at: "as_map m va = Some (Some ob, off, prot, fl)" and p: "obj_page s' ob (page_of off) = Some p"
  shows "pmap_ok s' (m\<lparr>vm_pmap := (vm_pmap m)(page_of va \<mapsto> (p, prot))\<rparr>)"
  unfolding pmap_ok_def
proof (intro allI impI)
  fix va' p' prot'
  let ?m = "m\<lparr>vm_pmap := (vm_pmap m)(page_of va \<mapsto> (p, prot))\<rparr>"
  assume e: "vm_pmap ?m va' = Some (p', prot')"
  have as: "as_map ?m = as_map m"
    by (simp add: as_map_def fun_eq_iff)
  show "PAGESIZE dvd va' \<and> (\<exists>ob off fl. as_map ?m va' = Some (Some ob, off, prot', fl) \<and> obj_page s' ob off = Some p')"
  proof (cases "va' = page_of va")
    case True
    then show ?thesis
      using e p page_of_mapped [OF inv at] unfolding as by simp
  next
    case False
    then have "vm_pmap m va' = Some (p', prot')"
      using e by simp
    then obtain ob' off' fl' where "PAGESIZE dvd va'" "as_map m va' = Some (Some ob', off', prot', fl')" "obj_page s ob' off' = Some p'"
      by (rule pmap_okD [OF ok])
    moreover have "obj_page s ob' \<subseteq>\<^sub>m obj_page s' ob'"
      using g by (simp add: grows_def)
    ultimately show ?thesis
      unfolding as by (force simp: map_le_def dom_def)
  qed
qed

lemma fault_no_frame:
  assumes "map_inv m" and "as_map m va = Some (Some ob, off, prot, fl)" and "\<not> denied prot ty" and ob: "vs_objs s ob = Some v"
    and "\<not> (vo_pager v = VM_ANONYMOUS \<and> vs_free s \<noteq> [] \<or> obj_page s ob (page_of off) \<noteq> None)"
  shows "vm_page_fault s m va ty \<in> {None, Some (Some EFAULT, s, m)}"
proof -
  obtain i e where e: "vm_map_find_entry m va = Some (i, e)" "ent_object e = Some ob" "ent_prot e = prot" "ent_start e \<le> va" "va < ent_end e"
    "uadd (ent_offset e) (usub (page_of va) (ent_start e)) = page_of off"
    by (rule mapped_entry [OF assms(1,2)])
  have "pgr_fault (vo_pager v) s ob (page_of off) \<in> {None, Some (None, s)}"
    using assms(5) by (cases "vo_pager v") (auto simp: page_alloc_def)
  then show ?thesis
    using e assms(3,5) ob find_page_total [OF ob, of "page_of off"] by (auto simp: vm_page_fault_def denied_def page_of_def [symmetric])
qed

lemma fault_proc_ok:
  assumes ok: "proc_ok s m" and f: "vm_page_fault s m va ty = Some (err, s', m')"
  shows "proc_ok s' m'"
proof (cases "as_map m va")
  case None
  then show ?thesis
    using ok f by (auto simp: page_fault_denied(1) proc_ok_def space_ok_def)
next
  case (Some r)
  then obtain oo off prot fl where at: "as_map m va = Some (oo, off, prot, fl)"
    by (cases r) auto
  have inv: "map_inv m" and sp: "space_ok s m (\<lambda>ob. 0)" and pm: "pmap_ok s m" and al: "all_objects m" and um: "\<not> vm_is_kernel m"
    using ok by (simp_all add: proc_ok_def space_ok_def)
  obtain ob where ob: "oo = Some ob"
    using at al find_entry_mem unfolding as_map_def find_entry_as by (fastforce simp: as_at_def all_objects_def)
  obtain v where v: "vs_objs s ob = Some v"
    using as_map_object [OF at [unfolded ob]] sp by (auto simp: space_ok_def)
  consider "denied prot ty" | "\<not> denied prot ty" "\<not> (vo_pager v = VM_ANONYMOUS \<and> vs_free s \<noteq> [] \<or> obj_page s ob (page_of off) \<noteq> None)"
    | "\<not> denied prot ty" "vo_pager v = VM_ANONYMOUS \<and> vs_free s \<noteq> [] \<or> obj_page s ob (page_of off) \<noteq> None"
    by blast
  then show ?thesis
  proof cases
    case 1
    then show ?thesis
      using ok f page_fault_denied(2) [OF inv at] by simp
  next
    case 2
    then show ?thesis
      using ok f fault_no_frame [OF inv at [unfolded ob] 2(1) v 2(2)] by auto
  next
    case 3
    obtain p s1 where f1: "vm_page_fault s m va ty = Some (None, s1, m\<lparr>vm_pmap := (vm_pmap m)(page_of va \<mapsto> (p, prot))\<rparr>)"
      "vs_inv s1" "grows s s1" "obj_page s1 ob (page_of off) = Some p"
      by (rule page_fault_ok [OF sp at [unfolded ob] 3(1) v 3(2)])
    then show ?thesis
      using f entered_pmap_ok [OF pm inv f1(3) at [unfolded ob] f1(4)] grows_space(1) [OF sp f1(2,3)] al um
      by (auto simp: proc_ok_def all_objects_def)
  qed
qed

section \<open>A process over time\<close>

text \<open>The operations a process can perform on its address space; the pool addresses handed out are not in use.\<close>

inductive vm_step :: "vmsys \<times> vm_map \<Rightarrow> vmsys \<times> vm_map \<Rightarrow> bool" where
  step_mmap: "\<lbrakk>do_mmap s m addr len prot flags i ob = Some (err, a, s', m'); i \<notin> fst ` set (vm_entries m); vs_objs s ob = None;
     addr < 2 ^ 62; len \<le> 2 ^ 46\<rbrakk> \<Longrightarrow> vm_step (s, m) (s', m')"
| step_munmap: "\<lbrakk>do_munmap s m start len ids = Some (err, s', m'); fresh_ids m ids; vm_nentries m \<le> length ids; few m (\<lambda>ob. 0);
     start + len < 2 ^ 64\<rbrakk> \<Longrightarrow> vm_step (s, m) (s', m')"
| step_fault: "vm_page_fault s m va ty = Some (err, s', m') \<Longrightarrow> vm_step (s, m) (s', m')"

inductive_cases vm_step_cases: "vm_step (s, m) (s', m')"

lemma all_objects_sub:
  assumes "all_objects m" and "map_inv m'" and sub: "as_map m' \<subseteq>\<^sub>m as_map m"
  shows "all_objects m'"
  unfolding all_objects_def
proof
  fix e
  assume e: "e \<in> set (map snd (vm_entries m'))"
  then have "ent_start e < ent_end e"
    using assms(2) ents_ok_mem unfolding map_inv_def by blast
  then have "as_map m' (ent_start e) = Some (as_at e (ent_start e))"
    using as_list_mem [OF _ e, of "vm_map_start m'" "vm_map_end m'" "ent_start e"] assms(2) by (simp add: map_inv_def as_map_def)
  then have "as_map m (ent_start e) = Some (as_at e (ent_start e))"
    using sub by (metis domI map_le_def)
  then obtain f where "f \<in> set (map snd (vm_entries m))" "as_at f (ent_start e) = as_at e (ent_start e)"
    unfolding as_map_def find_entry_as using find_entry_mem by fastforce
  then show "ent_object e \<noteq> None"
    using assms(1) by (auto simp: all_objects_def as_at_def)
qed

lemma munmap_proc_ok:
  assumes ok: "proc_ok s m" and f: "do_munmap s m start len ids = Some (err, s', m')"
    and ids: "fresh_ids m ids" "vm_nentries m \<le> length ids" "few m (\<lambda>ob. 0)" "start + len < 2 ^ 64"
  shows "proc_ok s' m'"
proof (cases "PAGESIZE dvd start \<and> PAGESIZE dvd len \<and> 0 < len \<and> as_map m start \<noteq> None")
  case True
  have sp: "space_ok s m (\<lambda>ob. 0)" and pm: "pmap_ok s m" and al: "all_objects m" and um: "\<not> vm_is_kernel m"
    using ok by (simp_all add: proc_ok_def)
  obtain s1 m1 where "do_munmap s m start len ids = Some (None, s1, m1)" "space_ok s1 m1 (\<lambda>ob. 0)" "keeps s s1" "unmapped m start (start + len) m1"
    using do_munmap_ok [OF sp ids(3) al ids(1,2) _ _ _ ids(4)] True by metis
  then have m': "space_ok s' m' (\<lambda>ob. 0)" "keeps s s'" "unmapped m start (start + len) m'"
    using f by simp_all
  have sub: "as_map m' \<subseteq>\<^sub>m as_map m" "vm_pmap m' \<subseteq>\<^sub>m vm_pmap m"
    using m'(3) by (auto simp: unmapped_def map_le_def)
  have "pmap_ok s' m'"
  proof (rule pmap_ok_mono [OF pm sub(2)])
    fix va ob off prot fl
    assume va: "va \<in> dom (vm_pmap m')" and at: "as_map m va = Some (Some ob, off, prot, fl)"
    then have eq: "as_map m' va = as_map m va"
      using m'(3) by (auto simp: unmapped_def split: if_splits)
    obtain v where "vs_objs s' ob = Some v"
      using as_map_object [of m' va ob "(off, prot, fl)" s' "\<lambda>ob. 0"] eq at m'(1) by (auto simp: space_ok_def)
    then show "as_map m' va = as_map m va \<and> obj_page s ob \<subseteq>\<^sub>m obj_page s' ob"
      using m'(2) eq by (auto simp: keeps_def)
  qed
  moreover have "all_objects m'"
    using all_objects_sub [OF al _ sub(1)] m'(1) by (simp add: space_ok_def)
  ultimately show ?thesis
    using m'(1,3) um by (simp add: proc_ok_def unmapped_def)
next
  case False
  then have "do_munmap s m start len ids = Some (Some EINVAL, s, m)"
    by (intro munmap_refused) blast
  then show ?thesis
    using f ok by simp
qed

lemma keeps_proc_ok:
  assumes ok: "proc_ok s m" and sp: "space_ok s' m (\<lambda>ob. 0)" and k: "keeps s s'"
  shows "proc_ok s' m"
proof -
  have "pmap_ok s' m"
  proof (rule pmap_ok_mono)
    fix va ob off prot fl
    assume "as_map m va = Some (Some ob, off, prot, fl)"
    then obtain v where "vs_objs s' ob = Some v"
      using as_map_object sp unfolding space_ok_def by blast
    then show "as_map m va = as_map m va \<and> obj_page s ob \<subseteq>\<^sub>m obj_page s' ob"
      using k by (auto simp: keeps_def)
  qed (use ok in \<open>simp_all add: proc_ok_def\<close>)
  then show ?thesis
    using ok sp by (simp add: proc_ok_def)
qed

lemma alloc_proc_ok:
  assumes ok: "proc_ok s m" and f: "vm_map_alloc_entry s m addr n prot flags i ob = Some (err, s', m')"
    and i: "i \<notin> fst ` set (vm_entries m)" and ob: "vs_objs s ob = None" and b: "addr + n < 2 ^ 63" "n \<le> 2 ^ 47" "PAGESIZE dvd n"
    and fl: "flags AND (VM_SHARED OR VM_PRIVATE) \<noteq> VM_SHARED OR VM_PRIVATE"
  shows "proc_ok s' m'"
proof (cases "flags AND VM_ANON \<noteq> 0 \<and> PAGESIZE dvd addr \<and> 0 < n")
  case True
  have sp: "space_ok s m (\<lambda>ob. 0)" and pm: "pmap_ok s m" and al: "all_objects m" and um: "\<not> vm_is_kernel m"
    using ok by (simp_all add: proc_ok_def)
  have t: "flags AND VM_ANON \<noteq> 0" "PAGESIZE dvd addr" "0 < n"
    using True by blast+
  show ?thesis
  proof (cases rule: alloc_entry_ok [OF sp um i ob t(1) fl t(2) b(3) t(3) b(2,1), of prot, case_names mapped failed])
    case (mapped a s1 m1)
    have eq: "s' = s1" "m' = m1"
      using mapped(1) f by simp_all
    have "pmap_ok s1 m1"
    proof (rule pmap_ok_mono [OF pm])
      show "vm_pmap m1 \<subseteq>\<^sub>m vm_pmap m"
        by (simp add: mapped(12))
      fix va o' off p fl
      assume at: "as_map m va = Some (Some o', off, p, fl)"
      then have "\<not> (a \<le> va \<and> va < a + n)"
        using mapped(7) by (auto simp: free_range_def as_map_def)
      moreover have "o' \<noteq> ob"
        using as_map_object [OF at] sp ob unfolding space_ok_def by (metis option.distinct(1))
      ultimately show "as_map m1 va = as_map m va \<and> obj_page s o' \<subseteq>\<^sub>m obj_page s1 o'"
        using mapped(10,14) same_obj_page [of s s1 o'] by auto
    qed
    then show ?thesis
      using mapped(2,13,15) al um by (simp add: proc_ok_def eq)
  next
    case (failed e s1)
    then show ?thesis
      using f keeps_proc_ok [OF ok failed(2,3)] by simp
  qed
next
  case False
  then show ?thesis
    using f ok by (auto simp: vm_map_alloc_entry_def page_aligned_iff split: if_splits)
qed

lemma mmap_proc_ok:
  assumes ok: "proc_ok s m" and f: "do_mmap s m addr len prot flags i ob = Some (err, a, s', m')"
    and i: "i \<notin> fst ` set (vm_entries m)" and ob: "vs_objs s ob = None" and b: "addr < 2 ^ 62" "len \<le> 2 ^ 46"
  shows "proc_ok s' m'"
proof (cases "flags AND (VM_SHARED OR VM_PRIVATE) \<in> {VM_SHARED OR VM_PRIVATE, 0}")
  case True
  then show ?thesis
    using f ok by (auto simp: do_mmap_def Let_def split: if_splits)
next
  case False
  then have fl: "flags AND (VM_SHARED OR VM_PRIVATE) \<noteq> VM_SHARED OR VM_PRIVATE" "flags AND (VM_SHARED OR VM_PRIVATE) \<noteq> 0"
    by simp_all
  let ?n = "roundup len PAGESIZE"
  have n: "addr + ?n < 2 ^ 63" "?n \<le> 2 ^ 47" "PAGESIZE dvd ?n"
    using roundup_page [of len] b by (cases "len = 0"; simp add: roundup_def uadd_def umul_def PAGESIZE_def)+
  obtain err' where "vm_map_alloc_entry s m addr ?n prot flags i ob = Some (err', s', m')"
    using f fl by (auto simp: do_mmap_def Let_def bind_eq_Some_conv split: option.splits)
  then show ?thesis
    by (rule alloc_proc_ok [OF ok _ i ob n fl(1)])
qed

lemma step_proc_ok: "vm_step x y \<Longrightarrow> proc_ok (fst x) (snd x) \<Longrightarrow> proc_ok (fst y) (snd y)"
  by (induction rule: vm_step.induct) (auto dest: mmap_proc_ok munmap_proc_ok fault_proc_ok)

lemma ex_mmap: "do_mmap (ex_sys\<lparr>vs_objs := Map.empty\<rparr>) vm_map_new 0 16384 3 (VM_ANON OR VM_PRIVATE) 1 7 = Some (None, 0x400000, ex_sys, ex_map)"
  by (simp add: do_mmap_def roundup_def uadd_def umul_def usub_def PAGESIZE_def VM_ANON_def VM_PRIVATE_def VM_SHARED_def VM_FIXED_def VM_ENT_SHARED_def
      VM_ENT_PRIVATE_def vm_map_alloc_entry_def page_aligned_iff vm_object_alloc_def ex_sys_def ex_map_def set_obj_def vm_map_new_def
      vm_map_entry_alloc_def vm_map_insert_def vm_map_findspace_nolock_def vm_map_start_def vm_map_end_def USER_SPACE_BEGIN_def
      USER_SPACE_END_def vm_map_insert_after_def Let_def)

lemma ex_fault: "\<exists>s'. vm_page_fault ex_sys ex_map 0x402abc VM_PROT_WRITE = Some (None, s', ex_map\<lparr>vm_pmap := [0x402000 \<mapsto> (5, 3)]\<rparr>)"
  by (simp add: vm_page_fault_def vm_map_find_entry_def ex_map_def ex_sys_def VM_PROT_NONE_def VM_PROT_WRITE_def VM_PROT_READ_def PAGESIZE_def
      uadd_def usub_def vm_object_find_page_def page_alloc_def zero_page_def vm_object_add_page_def page_aligned_iff set_obj_def set_page_def Let_def)


end
