(* ===== verification/VmFork.thy ===== *)
theory VmFork
  imports PageFault
begin

text \<open>
  The copy of an address space that \<^verbatim>\<open>fork\<close> gives to the child: \<^verbatim>\<open>vm_map_clone\<close> of \<^verbatim>\<open>sys/kern/vm_map.c\<close>.
\<close>

section \<open>Copying the entries\<close>

definition entry_pages :: "vmsys \<Rightarrow> vm_map_entry \<Rightarrow> nat" where
  "entry_pages s e = (case ent_object e of None \<Rightarrow> 0 | Some ob \<Rightarrow> (case vs_objs s ob of None \<Rightarrow> 0 | Some v \<Rightarrow> length (vo_pages v)))"

text \<open>The frames needed: one for every page of every private entry.\<close>

definition clone_need :: "vmsys \<Rightarrow> vm_map_entry list \<Rightarrow> nat" where
  "clone_need s es = sum_list (map (\<lambda>e. if ent_flags e AND VM_ENT_SHARED \<noteq> 0 then 0 else entry_pages s e) es)"

text \<open>All that was there is still there, with the same frames, contents and pagers.\<close>

definition old_kept :: "vmsys \<Rightarrow> vmsys \<Rightarrow> bool" where
  "old_kept s s' \<longleftrightarrow> (\<forall>ob v. vs_objs s ob = Some v \<longrightarrow>
     (\<exists>v'. vs_objs s' ob = Some v' \<and> vo_pages v' = vo_pages v \<and> vo_pager v' = vo_pager v) \<and>
     obj_page s' ob = obj_page s ob \<and> obj_read s' ob = obj_read s ob)"

lemma old_kept_refl: "old_kept s s"
  by (simp add: old_kept_def)

lemma old_kept_trans: "old_kept s s' \<Longrightarrow> old_kept s' s'' \<Longrightarrow> old_kept s s''"
  unfolding old_kept_def by metis

text \<open>An entry and its copy.\<close>

definition copy_of :: "vmsys \<Rightarrow> vmsys \<Rightarrow> vm_map_entry \<Rightarrow> vm_map_entry \<Rightarrow> bool" where
  "copy_of s s' e e' \<longleftrightarrow> (\<exists>ob ob'. ent_object e = Some ob \<and> e' = e\<lparr>ent_object := Some ob'\<rparr> \<and> obj_read s' ob' = obj_read s ob \<and>
     (if ent_flags e AND VM_ENT_SHARED \<noteq> 0 then ob' = ob else vs_objs s ob' = None))"

lemma clone_step:
  assumes inv: "vs_inv s" and refs: "refs_ok s es ext" and e: "ent_object e = Some ob" "PAGESIZE dvd ent_start e" "PAGESIZE dvd ent_end e"
    and ob: "vs_objs s ob = Some v" and few: "vo_refs v < UINT_MAX"
    and nob: "vs_objs s nob = None" and need: "ent_flags e AND VM_ENT_SHARED = 0 \<Longrightarrow> entry_pages s e \<le> length (vs_free s)"
  obtains s' ob' where "(if ent_flags e AND VM_ENT_SHARED \<noteq> 0 then do { s \<leftarrow> vm_object_hold s ob; Some (s, ob) }
      else do { s \<leftarrow> vm_object_clone s ob nob; Some (s, nob) }) = Some (s', ob')"
    and "vs_inv s'" and "refs_ok s' (e\<lparr>ent_object := Some ob'\<rparr> # es) ext" and "old_kept s s'" and "copy_of s s' e (e\<lparr>ent_object := Some ob'\<rparr>)"
    and "ob' \<in> {ob, nob}" and "\<forall>o'. o' \<noteq> nob \<longrightarrow> vs_objs s o' = None \<longrightarrow> vs_objs s' o' = None"
    and "vs_objs s' ob' \<noteq> None"
    and "length (vs_free s') = length (vs_free s) - (if ent_flags e AND VM_ENT_SHARED \<noteq> 0 then 0 else entry_pages s e)"
proof (cases "ent_flags e AND VM_ENT_SHARED = 0")
  case False
  obtain s' where h: "vm_object_hold s ob = Some s'" "vs_inv s'" "same_mem s s'" "vs_objs s' = (vs_objs s)(ob \<mapsto> v\<lparr>vo_refs := vo_refs v + 1\<rparr>)"
    by (rule hold_refs [OF inv ob few])
  have "refs_ok s' (e\<lparr>ent_object := Some ob\<rparr> # es) ext"
    by (rule refs_ok_upd [OF refs h(4)]) (use refs [unfolded refs_ok_def, rule_format, of ob] ob in auto)
  moreover have "old_kept s s'" "copy_of s s' e (e\<lparr>ent_object := Some ob\<rparr>)"
    using h(3,4) ob e(1) False by (auto simp: old_kept_def same_mem_def copy_of_def)
  ultimately show thesis
    using False h(1-4) ob by (intro that [of s' ob]) (auto simp: same_mem_def)
next
  case True
  have free: "length (vo_pages v) \<le> length (vs_free s)"
    using need True e(1) ob by (simp add: entry_pages_def)
  obtain s' w where c: "vm_object_clone s ob nob = Some s'" "vs_inv s'" "\<forall>o'. o' \<noteq> nob \<longrightarrow> same_obj s s' o'" "vs_objs s' = (vs_objs s)(nob \<mapsto> w)"
    "vo_refs w = 1" "vs_free s' = drop (length (vo_pages v)) (vs_free s)" "obj_read s' nob = obj_read s ob"
    by (rule vm_object_clone_ok [OF inv ob nob free]) blast
  have "refs_ok s' (e\<lparr>ent_object := Some nob\<rparr> # es) ext"
    by (rule refs_ok_upd [OF refs c(4)]) (use refs [unfolded refs_ok_def, rule_format, of nob] nob c(5) in auto)
  moreover have "old_kept s s'"
    unfolding old_kept_def
  proof (intro allI impI)
    fix o' v'
    assume o': "vs_objs s o' = Some v'"
    then have "o' \<noteq> nob"
      using nob by auto
    then have "same_obj s s' o'"
      using c(3) by blast
    then show "(\<exists>v''. vs_objs s' o' = Some v'' \<and> vo_pages v'' = vo_pages v' \<and> vo_pager v'' = vo_pager v') \<and>
        obj_page s' o' = obj_page s o' \<and> obj_read s' o' = obj_read s o'"
      using o' same_obj_page same_obj_read by (auto simp: same_obj_def)
  qed
  moreover have "copy_of s s' e (e\<lparr>ent_object := Some nob\<rparr>)"
    using True e(1) nob c(7) by (auto simp: copy_of_def)
  ultimately show thesis
    using True c ob e(1) by (intro that [of s' nob]) (auto simp: entry_pages_def)
qed

lemma refs_ok_cong:
  assumes "refs_ok s es ext" and "\<And>ob. ent_refs es' ob + ext' ob = ent_refs es ob + ext ob"
  shows "refs_ok s es' ext'"
  unfolding refs_ok_def
proof
  fix ob
  show "case vs_objs s ob of None \<Rightarrow> ent_refs es' ob = 0 \<and> ext' ob = 0 | Some v \<Rightarrow> vo_refs v = ent_refs es' ob + ext' ob \<and> 0 < vo_refs v"
    using assms(1) [unfolded refs_ok_def, rule_format, of ob] assms(2) [of ob] by (cases "vs_objs s ob") auto
qed

lemma entry_pages_kept: "old_kept s s' \<Longrightarrow> ent_object e = Some ob \<Longrightarrow> vs_objs s ob = Some v \<Longrightarrow> entry_pages s' e = entry_pages s e"
  unfolding old_kept_def by (auto simp: entry_pages_def dest!: spec [of _ ob])

lemma copy_of_later:
  assumes "copy_of s s1 e e'" and "ent_object e' = Some ob'" "vs_objs s1 ob' \<noteq> None" and "old_kept s1 s2"
  shows "copy_of s s2 e e'"
proof -
  have "obj_read s2 ob' = obj_read s1 ob'"
    using assms(3,4) unfolding old_kept_def by blast
  then show ?thesis
    using assms(1,2) unfolding copy_of_def by (elim exE conjE) (intro exI conjI, assumption+, auto)
qed

lemma copy_of_earlier:
  assumes "copy_of s1 s2 e e'" and "ent_object e = Some ob" "vs_objs s ob = Some v" and "old_kept s s1"
  shows "copy_of s s2 e e'"
proof -
  have "vs_objs s o' = None" if "vs_objs s1 o' = None" for o'
    using that assms(4) unfolding old_kept_def by (metis not_None_eq)
  moreover have "obj_read s1 ob = obj_read s ob"
    using assms(3,4) unfolding old_kept_def by blast
  ultimately show ?thesis
    using assms(1,2) unfolding copy_of_def by (elim exE conjE) (intro exI conjI, assumption+, auto split: if_splits)
qed

text \<open>What the copy needs: objects with their reference counts far from the limit, addresses for the new entries and objects,
  and frames.\<close>

definition clone_ready :: "vmsys \<Rightarrow> (nat \<times> vm_map_entry) list \<Rightarrow> vm_map_entry list \<Rightarrow> (nat \<Rightarrow> nat) \<Rightarrow> (nat \<times> nat) list \<Rightarrow> bool" where
  "clone_ready s es all ext ids \<longleftrightarrow>
     (\<forall>e \<in> set (map snd es). PAGESIZE dvd ent_start e \<and> PAGESIZE dvd ent_end e \<and> (\<exists>ob v. ent_object e = Some ob \<and> vs_objs s ob = Some v)) \<and>
     (\<forall>ob. ent_refs all ob + ent_refs (map snd es) ob + ext ob \<le> UINT_MAX) \<and>
     length es \<le> length ids \<and> distinct (map snd ids) \<and> (\<forall>x \<in> set ids. vs_objs s (snd x) = None) \<and>
     clone_need s (map snd es) \<le> length (vs_free s)"

lemma clone_ready_step:
  assumes ready: "clone_ready s ((i, e) # es) all ext ((n, nob) # ids)" and refs: "refs_ok s all ext" and e: "ent_object e = Some ob"
    and ob': "ob' \<in> {ob, nob}" and old: "old_kept s s1" and new: "\<forall>o'. o' \<noteq> nob \<longrightarrow> vs_objs s o' = None \<longrightarrow> vs_objs s1 o' = None"
    and free: "length (vs_free s1) = length (vs_free s) - (if ent_flags e AND VM_ENT_SHARED \<noteq> 0 then 0 else entry_pages s e)"
  shows "clone_ready s1 es (e\<lparr>ent_object := Some ob'\<rparr> # all) ext ids"
proof -
  have obs: "\<exists>ob v. ent_object f = Some ob \<and> vs_objs s ob = Some v" if "f \<in> set (map snd es)" for f
    using ready that by (auto simp: clone_ready_def)
  have nob: "vs_objs s nob = None"
    using ready by (simp add: clone_ready_def)
  have "entry_pages s1 f = entry_pages s f" if "f \<in> set (map snd es)" for f
    using obs [OF that] entry_pages_kept [OF old] by blast
  then have need: "clone_need s1 (map snd es) = clone_need s (map snd es)"
    unfolding clone_need_def by (intro arg_cong [where f = sum_list] map_cong) auto
  have fresh: "vs_objs s1 (snd x) = None" if "x \<in> set ids" for x
  proof -
    have "snd x \<noteq> nob" "vs_objs s (snd x) = None"
      using ready that by (auto simp: clone_ready_def)
    then show ?thesis
      using new by blast
  qed
  have "ent_refs (e\<lparr>ent_object := Some ob'\<rparr> # all) o' + ent_refs (map snd es) o' + ext o' \<le> UINT_MAX" for o'
  proof (cases "o' = nob")
    case True
    have "ent_refs (map snd es) nob = 0"
      using obs nob by (fastforce simp: ent_refs_def filter_empty_conv)
    then show ?thesis
      using refs [unfolded refs_ok_def, rule_format, of nob] nob True by (simp add: UINT_MAX_def)
  next
    case False
    then show ?thesis
      using ready [unfolded clone_ready_def] e ob' by (auto dest!: spec [of _ o'] split: if_splits)
  qed
  moreover have "\<exists>ob v. ent_object f = Some ob \<and> vs_objs s1 ob = Some v" if "f \<in> set (map snd es)" for f
    using obs [OF that] old unfolding old_kept_def by blast
  moreover have "PAGESIZE dvd ent_start f \<and> PAGESIZE dvd ent_end f" if "f \<in> set (map snd es)" for f
    using ready that by (auto simp: clone_ready_def)
  moreover have "length es \<le> length ids" "distinct (map snd ids)" "clone_need s (map snd es) \<le> length (vs_free s1)"
    using ready unfolding clone_ready_def free by (auto simp: clone_need_def split: if_splits)
  ultimately show ?thesis
    using fresh unfolding clone_ready_def need by blast
qed

lemma clone_entries_ok:
  assumes "vs_inv s" and "refs_ok s all ext" and "clone_ready s es all ext ids"
  shows "\<exists>s' es'. clone_entries s es ids = Some (s', es') \<and> vs_inv s' \<and> refs_ok s' (map snd es' @ all) ext \<and> old_kept s s' \<and>
    list_all2 (copy_of s s') (map snd es) (map snd es') \<and> map fst es' = map fst (take (length es) ids)"
  using assms
proof (induction es arbitrary: s all ids)
  case Nil
  then show ?case
    by (simp add: old_kept_refl)
next
  case (Cons x es)
  obtain n nob ids' where ids: "ids = (n, nob) # ids'"
    using Cons.prems(3) by (cases ids) (auto simp: clone_ready_def)
  obtain i e where x: "x = (i, e)"
    by (cases x)
  obtain ob v where e: "ent_object e = Some ob" "PAGESIZE dvd ent_start e" "PAGESIZE dvd ent_end e" and ob: "vs_objs s ob = Some v"
    using Cons.prems(3) by (auto simp: clone_ready_def x)
  have "ent_refs all ob + ent_refs (e # map snd es) ob + ext ob \<le> UINT_MAX"
    using Cons.prems(3) by (simp add: clone_ready_def x)
  then have few: "vo_refs v < UINT_MAX"
    using Cons.prems(2) [unfolded refs_ok_def, rule_format, of ob] ob e(1) by simp
  have nob: "vs_objs s nob = None"
    using Cons.prems(3) by (simp add: clone_ready_def ids)
  have need: "ent_flags e AND VM_ENT_SHARED = 0 \<Longrightarrow> entry_pages s e \<le> length (vs_free s)"
    using Cons.prems(3) by (simp add: clone_ready_def x clone_need_def)
  obtain s1 ob' where c: "(if ent_flags e AND VM_ENT_SHARED \<noteq> 0 then do { s \<leftarrow> vm_object_hold s ob; Some (s, ob) }
      else do { s \<leftarrow> vm_object_clone s ob nob; Some (s, nob) }) = Some (s1, ob')"
    "vs_inv s1" "refs_ok s1 (e\<lparr>ent_object := Some ob'\<rparr> # all) ext" "old_kept s s1" "copy_of s s1 e (e\<lparr>ent_object := Some ob'\<rparr>)"
    "ob' \<in> {ob, nob}" "\<forall>o'. o' \<noteq> nob \<longrightarrow> vs_objs s o' = None \<longrightarrow> vs_objs s1 o' = None" "vs_objs s1 ob' \<noteq> None"
    "length (vs_free s1) = length (vs_free s) - (if ent_flags e AND VM_ENT_SHARED \<noteq> 0 then 0 else entry_pages s e)"
    by (rule clone_step [OF Cons.prems(1,2) e ob few nob need])
  have "clone_ready s1 es (e\<lparr>ent_object := Some ob'\<rparr> # all) ext ids'"
    by (rule clone_ready_step [OF _ Cons.prems(2) e(1) c(6,4,7,9)]) (use Cons.prems(3) ids x in simp)
  then obtain s' es' where r: "clone_entries s1 es ids' = Some (s', es')" "vs_inv s'" "refs_ok s' (map snd es' @ e\<lparr>ent_object := Some ob'\<rparr> # all) ext"
    "old_kept s1 s'" "list_all2 (copy_of s1 s') (map snd es) (map snd es')" "map fst es' = map fst (take (length es) ids')"
    using Cons.IH [OF c(2,3)] by blast
  have "copy_of s s' e (e\<lparr>ent_object := Some ob'\<rparr>)"
    by (rule copy_of_later [OF c(5) _ c(8) r(4)]) simp
  moreover have "list_all2 (copy_of s s') (map snd es) (map snd es')"
    using r(5)
  proof (rule list.rel_mono_strong)
    fix f f'
    assume "f \<in> set (map snd es)" and cp: "copy_of s1 s' f f'"
    then obtain o' w where "ent_object f = Some o'" "vs_objs s o' = Some w"
      using Cons.prems(3) by (auto simp: clone_ready_def)
    then show "copy_of s s' f f'"
      by (rule copy_of_earlier [OF cp _ _ c(4)])
  qed
  moreover have "refs_ok s' (map snd ((n, e\<lparr>ent_object := Some ob'\<rparr>) # es') @ all) ext"
    by (rule refs_ok_cong [OF r(3)]) simp
  moreover have "clone_entries s (x # es) ids = Some (s', (n, e\<lparr>ent_object := Some ob'\<rparr>) # es')"
    using c(1) r(1) e by (simp add: x ids vm_map_entry_alloc_def page_aligned_iff)
  ultimately show ?case
    using r(2,6) old_kept_trans [OF c(4) r(4)] by (simp add: x ids)
qed

section \<open>The copy of an address space\<close>

text \<open>What the address space of the child has at an address, against that of the parent.\<close>

fun copy_at :: "vmsys \<Rightarrow> vmsys \<Rightarrow> nat option \<times> nat \<times> nat \<times> nat \<Rightarrow> nat option \<times> nat \<times> nat \<times> nat \<Rightarrow> bool" where
  "copy_at s s' (Some ob, r) (Some ob', r') \<longleftrightarrow> r' = r \<and> obj_read s' ob' = obj_read s ob \<and>
     (if snd (snd r) AND VM_ENT_SHARED \<noteq> 0 then ob' = ob else vs_objs s ob' = None)"
| "copy_at s s' a b \<longleftrightarrow> False"

lemma copy_at_entry: "copy_of s s' e e' \<Longrightarrow> copy_at s s' (as_at e va) (as_at e' va) \<and> ent_start e' = ent_start e \<and> ent_end e' = ent_end e"
  by (auto simp: copy_of_def as_at_def)

lemma copies_as_list: "list_all2 (copy_of s s') es es' \<Longrightarrow> rel_option (copy_at s s') (as_list es va) (as_list es' va)"
  by (induction rule: list_all2_induct) (simp_all add: copy_at_entry)

lemma copies_ents_ok: "list_all2 (copy_of s s') es es' \<Longrightarrow> ents_ok lo hi es' = ents_ok lo hi es"
proof (induction arbitrary: lo rule: list_all2_induct)
  case (Cons e es e' es')
  then obtain ob' where "e' = e\<lparr>ent_object := Some ob'\<rparr>"
    unfolding copy_of_def by blast
  then show ?case
    using Cons.IH by (simp add: off_ok_def)
qed simp


end
