(* ===== verification/Cred.thy ===== *)
theory Cred
  imports Prelude
begin

text \<open>
  The credentials of a process: the system calls that change user and group identifiers (\<^verbatim>\<open>sys/kern/cred_syscalls.c\<close>), their
  inheritance by \<^verbatim>\<open>fork\<close> and \<^verbatim>\<open>exec\<close> (\<^verbatim>\<open>sys/kern/cred.c\<close>) and the permission checks (\<^verbatim>\<open>sys/kern/cred_checks.c\<close>).  The
  identifiers are 32-bit words, \<open>- 1\<close> standing for \<^emph>\<open>leave as it is\<close>.  The lock of the process is held by every
  operation throughout, so each is one step.
\<close>

section \<open>Credentials\<close>

type_synonym id = "32 word"

abbreviation NOID :: id where "NOID \<equiv> - 1"

definition NGROUPS_MAX :: nat where "NGROUPS_MAX = 16"

record cred =
  cr_euid :: id
  cr_ruid :: id
  cr_suid :: id
  cr_egid :: id
  cr_rgid :: id
  cr_sgid :: id
  cr_ngroups :: "8 word"
  cr_groups :: "id list"

definition cred_fork :: "cred \<Rightarrow> cred \<Rightarrow> cred" where
  "cred_fork to from = from"

definition cred_exec_setid :: "cred \<Rightarrow> id \<Rightarrow> id \<Rightarrow> cred" where
  "cred_exec_setid c uid gid =
     (let c = (if uid \<noteq> NOID then c\<lparr>cr_suid := cr_euid c, cr_euid := uid\<rparr> else c)
      in if gid \<noteq> NOID then c\<lparr>cr_sgid := cr_egid c, cr_egid := gid\<rparr> else c)"

text \<open>A read outside the array of groups is \<open>None\<close>.\<close>

fun groupmember_loop :: "id \<Rightarrow> id list \<Rightarrow> nat \<Rightarrow> bool option" where
  "groupmember_loop gid gs 0 = Some False"
| "groupmember_loop gid [] (Suc n) = None"
| "groupmember_loop gid (g # gs) (Suc n) = (if gid = g then Some True else groupmember_loop gid gs n)"

definition cred_groupmember :: "id \<Rightarrow> cred \<Rightarrow> bool option" where
  "cred_groupmember gid c = groupmember_loop gid (cr_groups c) (unat (cr_ngroups c))"

section \<open>System calls\<close>

text \<open>Pointers of the caller that are null are \<open>False\<close>.\<close>

definition do_getresuid :: "cred \<Rightarrow> bool \<Rightarrow> bool \<Rightarrow> bool \<Rightarrow> id option \<times> id option \<times> id option" where
  "do_getresuid c ruid euid suid =
     (if ruid then Some (cr_ruid c) else None, if euid then Some (cr_euid c) else None, if suid then Some (cr_suid c) else None)"

definition do_getresgid :: "cred \<Rightarrow> bool \<Rightarrow> bool \<Rightarrow> bool \<Rightarrow> id option \<times> id option \<times> id option" where
  "do_getresgid c rgid egid sgid =
     (if rgid then Some (cr_rgid c) else None, if egid then Some (cr_egid c) else None, if sgid then Some (cr_sgid c) else None)"

definition try_change_uid :: "cred \<Rightarrow> id \<Rightarrow> id \<Rightarrow> errno + id" where
  "try_change_uid c old uid =
     (if uid = NOID then Inr old
      else if cr_euid c \<noteq> 0 \<and> (uid \<noteq> cr_ruid c \<and> uid \<noteq> cr_euid c \<and> uid \<noteq> cr_suid c) then Inl EPERM
      else Inr uid)"

definition change_resuid :: "cred \<Rightarrow> id \<Rightarrow> id \<Rightarrow> id \<Rightarrow> errno option \<times> cred" where
  "change_resuid c ruid euid suid =
     (case try_change_uid c (cr_ruid c) ruid of Inl e \<Rightarrow> (Some e, c) | Inr new_ruid \<Rightarrow>
     (case try_change_uid c (cr_euid c) euid of Inl e \<Rightarrow> (Some e, c) | Inr new_euid \<Rightarrow>
     (case try_change_uid c (cr_suid c) suid of Inl e \<Rightarrow> (Some e, c) | Inr new_suid \<Rightarrow>
       (None, c\<lparr>cr_ruid := new_ruid, cr_euid := new_euid, cr_suid := new_suid\<rparr>))))"

definition do_setresuid :: "cred \<Rightarrow> id \<Rightarrow> id \<Rightarrow> id \<Rightarrow> errno option \<times> cred" where
  "do_setresuid c ruid euid suid = change_resuid c ruid euid suid"

definition try_change_gid :: "cred \<Rightarrow> id \<Rightarrow> id \<Rightarrow> errno + id" where
  "try_change_gid c old gid =
     (if gid = NOID then Inr old
      else if cr_euid c \<noteq> 0 \<and> (gid \<noteq> cr_rgid c \<and> gid \<noteq> cr_egid c \<and> gid \<noteq> cr_sgid c) then Inl EPERM
      else Inr gid)"

definition change_resgid :: "cred \<Rightarrow> id \<Rightarrow> id \<Rightarrow> id \<Rightarrow> errno option \<times> cred" where
  "change_resgid c rgid egid sgid =
     (case try_change_gid c (cr_rgid c) rgid of Inl e \<Rightarrow> (Some e, c) | Inr new_rgid \<Rightarrow>
     (case try_change_gid c (cr_egid c) egid of Inl e \<Rightarrow> (Some e, c) | Inr new_egid \<Rightarrow>
     (case try_change_gid c (cr_sgid c) sgid of Inl e \<Rightarrow> (Some e, c) | Inr new_sgid \<Rightarrow>
       (None, c\<lparr>cr_rgid := new_rgid, cr_egid := new_egid, cr_sgid := new_sgid\<rparr>))))"

definition do_setresgid :: "cred \<Rightarrow> id \<Rightarrow> id \<Rightarrow> id \<Rightarrow> errno option \<times> cred" where
  "do_setresgid c rgid egid sgid = change_resgid c rgid egid sgid"

text \<open>The copy of the groups writes over the end of the array when there are too many.\<close>

definition do_setgroups :: "cred \<Rightarrow> int \<Rightarrow> id list \<Rightarrow> (errno option \<times> cred) option" where
  "do_setgroups c ngroups gidset =
     (if cr_euid c \<noteq> 0 then Some (Some EPERM, c)
      else do {
        kassert (0 \<le> ngroups \<and> nat ngroups \<le> length gidset \<and> nat ngroups \<le> length (cr_groups c));
        Some (None, c\<lparr>cr_ngroups := of_int ngroups, cr_groups := take (nat ngroups) gidset @ drop (nat ngroups) (cr_groups c)\<rparr>)
      })"

text \<open>The user's array is an argument, \<open>None\<close> when the copy from user space fails.\<close>

definition sys_setgroups :: "cred \<Rightarrow> int \<Rightarrow> id list option \<Rightarrow> bool \<Rightarrow> (errno option \<times> cred) option" where
  "sys_setgroups c ungroups ugidset mem =
     (if ungroups < 0 \<or> ungroups > int NGROUPS_MAX then Some (Some EINVAL, c)
      else if ungroups > 0 \<and> \<not> mem then Some (Some ENOMEM, c)
      else case ugidset of None \<Rightarrow> Some (Some EFAULT, c) | Some gidset \<Rightarrow> do_setgroups c ungroups gidset)"

definition do_setuid :: "cred \<Rightarrow> id \<Rightarrow> errno option \<times> cred" where
  "do_setuid c uid =
     (let (ruid, suid) = (if cr_euid c \<noteq> 0 then (NOID, NOID) else (uid, uid))
      in change_resuid c ruid uid suid)"

definition do_seteuid :: "cred \<Rightarrow> id \<Rightarrow> errno option \<times> cred" where
  "do_seteuid c euid = change_resuid c NOID euid NOID"

definition do_setreuid :: "cred \<Rightarrow> id \<Rightarrow> id \<Rightarrow> errno option \<times> cred" where
  "do_setreuid c ruid euid =
     (if cr_euid c \<noteq> 0 \<and> ruid \<noteq> NOID \<and> ruid \<noteq> cr_euid c then (Some EPERM, c)
      else
        let new_suid = (if euid = NOID then cr_euid c else euid);
            new_suid = (if ruid = NOID \<and> (euid = cr_ruid c \<or> euid = cr_euid c \<or> euid = cr_suid c \<or> euid = NOID) then NOID else new_suid)
        in change_resuid c ruid euid new_suid)"

definition do_setgid :: "cred \<Rightarrow> id \<Rightarrow> errno option \<times> cred" where
  "do_setgid c gid =
     (let (rgid, sgid) = (if cr_euid c \<noteq> 0 then (NOID, NOID) else (gid, gid))
      in change_resgid c rgid gid sgid)"

definition do_setegid :: "cred \<Rightarrow> id \<Rightarrow> errno option \<times> cred" where
  "do_setegid c egid = change_resgid c NOID egid NOID"

definition do_setregid :: "cred \<Rightarrow> id \<Rightarrow> id \<Rightarrow> errno option \<times> cred" where
  "do_setregid c rgid egid =
     (if cr_euid c \<noteq> 0 \<and> rgid \<noteq> NOID \<and> rgid \<noteq> cr_egid c then (Some EPERM, c)
      else
        let new_sgid = (if egid = NOID then cr_egid c else egid);
            new_sgid = (if rgid = NOID \<and> (egid = cr_rgid c \<or> egid = cr_egid c \<or> egid = cr_sgid c \<or> egid = NOID) then NOID else new_sgid)
        in change_resgid c rgid egid new_sgid)"
section \<open>Permission checks\<close>

definition cred_cansignal :: "cred \<Rightarrow> cred \<Rightarrow> errno option" where
  "cred_cansignal target c =
     (if cr_euid c = 0 then None
      else if cr_ruid c \<noteq> cr_ruid target \<and> cr_ruid c \<noteq> cr_suid target \<and> cr_euid c \<noteq> cr_ruid target \<and> cr_euid c \<noteq> cr_suid target
        then Some EPERM
      else None)"

definition SIGCONT :: nat where "SIGCONT = 19"

text \<open>What the check of a signal reads of a process: its identity, its session and its credentials.\<close>

record sigproc =
  sp_proc :: nat
  sp_session :: nat
  sp_cred :: cred

definition proc_cansignal :: "sigproc \<Rightarrow> sigproc \<Rightarrow> nat \<Rightarrow> errno option" where
  "proc_cansignal p target sig =
     (if sp_proc target = sp_proc p then None
      else if sig = SIGCONT \<and> sp_session p = sp_session target then None
      else cred_cansignal (sp_cred target) (sp_cred p))"

definition S_ISGID :: "32 word" where "S_ISGID = 0x400"
definition S_IRUSR :: "32 word" where "S_IRUSR = 0x100"
definition S_IWUSR :: "32 word" where "S_IWUSR = 0x80"
definition S_IXUSR :: "32 word" where "S_IXUSR = 0x40"
definition S_IRGRP :: "32 word" where "S_IRGRP = 0x20"
definition S_IWGRP :: "32 word" where "S_IWGRP = 0x10"
definition S_IXGRP :: "32 word" where "S_IXGRP = 8"
definition S_IROTH :: "32 word" where "S_IROTH = 4"
definition S_IWOTH :: "32 word" where "S_IWOTH = 2"
definition S_IXOTH :: "32 word" where "S_IXOTH = 1"
definition S_IFMT :: "32 word" where "S_IFMT = 0xF000"
definition S_IFDIR :: "32 word" where "S_IFDIR = 0x4000"

definition S_ISDIR :: "32 word \<Rightarrow> bool" where
  "S_ISDIR m \<longleftrightarrow> m AND S_IFMT = S_IFDIR"

definition VEXEC :: "32 word" where "VEXEC = 1"
definition VWRITE :: "32 word" where "VWRITE = 2"
definition VREAD :: "32 word" where "VREAD = 4"
definition VADMIN :: "32 word" where "VADMIN = 8"

record vattr =
  va_mode :: "32 word"
  va_uid :: id
  va_gid :: id

definition cred_can_chmod :: "id \<Rightarrow> id \<Rightarrow> cred \<Rightarrow> 32 word \<Rightarrow> bool option" where
  "cred_can_chmod f_owner f_group c mode =
     (if cr_euid c = 0 then Some True
      else if f_owner \<noteq> cr_euid c then Some False
      else if mode AND S_ISGID \<noteq> 0 \<and> f_group \<noteq> cr_egid c then cred_groupmember f_group c
      else Some True)"

definition cred_can_chown :: "id \<Rightarrow> cred \<Rightarrow> id \<Rightarrow> id \<Rightarrow> bool option" where
  "cred_can_chown f_owner c new_uid new_gid =
     (if cr_euid c = 0 then Some True
      else if new_uid \<noteq> NOID then Some False
      else if f_owner \<noteq> cr_euid c then Some False
      else cred_groupmember new_gid c)"

definition cred_can_setlogin :: "cred \<Rightarrow> bool" where
  "cred_can_setlogin c \<longleftrightarrow> cr_euid c = 0"

text \<open>The accumulation of the bits granted to one class of users.\<close>

definition grant :: "32 word \<Rightarrow> 32 word \<Rightarrow> 32 word \<Rightarrow> 32 word \<Rightarrow> 32 word \<Rightarrow> 32 word" where
  "grant granted mode r w x =
     (let granted = (if mode AND r \<noteq> 0 then granted OR VREAD else granted);
          granted = (if mode AND w \<noteq> 0 then granted OR VWRITE else granted)
      in if mode AND x \<noteq> 0 then granted OR VEXEC else granted)"

definition cred_can_access :: "vattr \<Rightarrow> cred \<Rightarrow> 32 word \<Rightarrow> errno option option" where
  "cred_can_access va c mode =
     do {
       granted \<leftarrow>
         (if cr_euid c = 0 then
            (let granted = VREAD OR VWRITE OR VADMIN
             in Some (if S_ISDIR (va_mode va) \<or> va_mode va AND (S_IXUSR OR S_IXGRP OR S_IXOTH) \<noteq> 0 then granted OR VEXEC else granted))
          else if cr_euid c = va_uid va then Some (grant VADMIN (va_mode va) S_IRUSR S_IWUSR S_IXUSR)
          else do {
            member \<leftarrow> cred_groupmember (va_gid va) c;
            Some (if member then grant 0 (va_mode va) S_IRGRP S_IWGRP S_IXGRP
                  else grant 0 (va_mode va) S_IROTH S_IWOTH S_IXOTH)
          });
       Some (if mode AND granted = mode then None else Some EACCES)
     }"

text \<open>The attributes of a vnode come from its file system, \<open>Inl\<close> when that fails.\<close>

definition vnode_access_generic :: "errno + vattr \<Rightarrow> 32 word \<Rightarrow> cred \<Rightarrow> errno option option" where
  "vnode_access_generic getattr acc c =
     (case getattr of Inl e \<Rightarrow> Some (Some e) | Inr va \<Rightarrow> cred_can_access va c acc)"

definition VA_UTIMES_NULL :: "32 word" where "VA_UTIMES_NULL = 1"

text \<open>The access check of the file system, \<^verbatim>\<open>VOP_ACCESS\<close>, is an argument.\<close>

definition cred_can_utime :: "(32 word \<Rightarrow> cred \<Rightarrow> errno option option) \<Rightarrow> id \<Rightarrow> cred \<Rightarrow> 32 word \<Rightarrow> bool option" where
  "cred_can_utime vop_access f_owner c vaflags =
     (if f_owner = cr_euid c \<or> cr_euid c = 0 then Some True
      else if vaflags AND VA_UTIMES_NULL = 0 then Some False
      else do { error \<leftarrow> vop_access VWRITE c; Some (error = None) })"

section \<open>No way to new identifiers\<close>

definition cred_ok :: "cred \<Rightarrow> bool" where
  "cred_ok c \<longleftrightarrow> length (cr_groups c) = NGROUPS_MAX \<and> unat (cr_ngroups c) \<le> NGROUPS_MAX"

definition uids :: "cred \<Rightarrow> id set" where
  "uids c = {cr_ruid c, cr_euid c, cr_suid c}"

definition gids :: "cred \<Rightarrow> id set" where
  "gids c = {cr_rgid c, cr_egid c, cr_sgid c}"

definition groups :: "cred \<Rightarrow> id list" where
  "groups c = take (unat (cr_ngroups c)) (cr_groups c)"

lemma groupmember_loop: "n \<le> length gs \<Longrightarrow> groupmember_loop gid gs n = Some (gid \<in> set (take n gs))"
  by (induction gid gs n rule: groupmember_loop.induct) auto

lemma cred_groupmember: "cred_ok c \<Longrightarrow> cred_groupmember gid c = Some (gid \<in> set (groups c))"
  by (simp add: cred_groupmember_def groupmember_loop groups_def cred_ok_def)

text \<open>The identifier in the end is the old one or the one asked for, which an unprivileged process must have already.\<close>

lemma try_change_uid_Inr:
  "try_change_uid c old uid = Inr new \<longleftrightarrow> (if uid = NOID then new = old else new = uid \<and> (cr_euid c = 0 \<or> uid \<in> uids c))"
  by (auto simp: try_change_uid_def uids_def)

lemma try_change_gid_Inr:
  "try_change_gid c old gid = Inr new \<longleftrightarrow> (if gid = NOID then new = old else new = gid \<and> (cr_euid c = 0 \<or> gid \<in> gids c))"
  by (auto simp: try_change_gid_def gids_def)

text \<open>The three identifiers change together or not at all.\<close>

definition new_id :: "id \<Rightarrow> id \<Rightarrow> id" where
  "new_id old i = (if i = NOID then old else i)"

lemma change_resuid_eq:
  "change_resuid c ruid euid suid =
     (if cr_euid c = 0 \<or> {ruid, euid, suid} - {NOID} \<subseteq> uids c
      then (None, c\<lparr>cr_ruid := new_id (cr_ruid c) ruid, cr_euid := new_id (cr_euid c) euid, cr_suid := new_id (cr_suid c) suid\<rparr>)
      else (Some EPERM, c))"
  by (auto simp: change_resuid_def try_change_uid_def uids_def new_id_def)

lemma change_resgid_eq:
  "change_resgid c rgid egid sgid =
     (if cr_euid c = 0 \<or> {rgid, egid, sgid} - {NOID} \<subseteq> gids c
      then (None, c\<lparr>cr_rgid := new_id (cr_rgid c) rgid, cr_egid := new_id (cr_egid c) egid, cr_sgid := new_id (cr_sgid c) sgid\<rparr>)
      else (Some EPERM, c))"
  by (auto simp: change_resgid_def try_change_gid_def gids_def new_id_def)

text \<open>The system calls of a process on its credentials, whether they succeed or not.\<close>

inductive cred_step :: "cred \<Rightarrow> cred \<Rightarrow> bool" where
  "cred_step c (snd (do_setresuid c ruid euid suid))"
| "cred_step c (snd (do_setresgid c rgid egid sgid))"
| "sys_setgroups c n gs mem = Some (err, c') \<Longrightarrow> cred_step c c'"
| "cred_step c (snd (do_setuid c uid))"
| "cred_step c (snd (do_seteuid c euid))"
| "cred_step c (snd (do_setreuid c ruid euid))"
| "cred_step c (snd (do_setgid c gid))"
| "cred_step c (snd (do_setegid c egid))"
| "cred_step c (snd (do_setregid c rgid egid))"

definition confined :: "cred \<Rightarrow> cred \<Rightarrow> bool" where
  "confined c c' \<longleftrightarrow> uids c' \<subseteq> uids c \<and> gids c' \<subseteq> gids c \<and> groups c' = groups c"

lemma confined_refl: "confined c c"
  by (simp add: confined_def)

lemma confined_trans: "confined c c' \<Longrightarrow> confined c' c'' \<Longrightarrow> confined c c''"
  by (auto simp: confined_def)

lemma resuid_confined: "cr_euid c \<noteq> 0 \<Longrightarrow> confined c (snd (change_resuid c ruid euid suid))"
  by (auto simp: change_resuid_eq confined_def uids_def gids_def groups_def new_id_def)

lemma resgid_confined: "cr_euid c \<noteq> 0 \<Longrightarrow> confined c (snd (change_resgid c rgid egid sgid))"
  by (auto simp: change_resgid_eq confined_def uids_def gids_def groups_def new_id_def)

lemma step_confined: "cred_step c c' \<Longrightarrow> cr_euid c \<noteq> 0 \<Longrightarrow> confined c c'"
  by (induction rule: cred_step.induct)
    (auto simp: do_setresuid_def do_setresgid_def do_setuid_def do_seteuid_def do_setreuid_def do_setgid_def do_setegid_def do_setregid_def
      sys_setgroups_def do_setgroups_def Let_def intro: resuid_confined resgid_confined confined_refl split: if_splits option.splits)

lemma reach_confined: "cred_step\<^sup>*\<^sup>* c c' \<Longrightarrow> 0 \<notin> uids c \<Longrightarrow> confined c c'"
proof (induction rule: rtranclp_induct)
  case (step c' c'')
  then have "confined c c'" "cr_euid c' \<noteq> 0"
    by (auto simp: confined_def uids_def)
  then show ?case
    using step_confined [OF step(2)] confined_trans by blast
qed (rule confined_refl)

text \<open>C6: a process none of whose user identifiers is root's cannot gain anything by calling the credential system calls, in
  any order and with any arguments: its user identifiers stay among those it had, its group identifiers among those it had, and its
  supplementary groups do not change.\<close>

theorem no_privilege_escalation:
  assumes "cred_step\<^sup>*\<^sup>* c c'" and "0 \<notin> uids c"
  shows "uids c' \<subseteq> uids c \<and> gids c' \<subseteq> gids c \<and> groups c' = groups c"
  using reach_confined [OF assms] by (simp add: confined_def)

definition ex_cred :: cred where
  "ex_cred = \<lparr>cr_euid = 2, cr_ruid = 1, cr_suid = 3, cr_egid = 5, cr_rgid = 5, cr_sgid = 6, cr_ngroups = 1, cr_groups = replicate 16 5\<rparr>"

theorem no_privilege_escalation_witness:
  "\<exists>c'. cred_step\<^sup>*\<^sup>* ex_cred c' \<and> cr_euid c' = 3 \<and> uids c' \<subseteq> uids ex_cred \<and> gids c' \<subseteq> gids ex_cred \<and> groups c' = groups ex_cred"
proof -
  let ?c = "snd (do_seteuid ex_cred 3)"
  have "cred_step\<^sup>*\<^sup>* ex_cred ?c"
    by (intro r_into_rtranclp cred_step.intros)
  moreover have "0 \<notin> uids ex_cred" "cr_euid ?c = 3"
    by (simp_all add: uids_def ex_cred_def do_seteuid_def change_resuid_def try_change_uid_def)
  ultimately show ?thesis
    using no_privilege_escalation by blast
qed

text \<open>C33: root's \<^verbatim>\<open>setuid\<close> to an ordinary user succeeds and is final: all three identifiers become that user's, and no later sequence
  of credential system calls changes any of them.\<close>

theorem setuid_drop_is_final:
  assumes "cr_euid c = 0" and "u \<noteq> 0" and "u \<noteq> NOID" and "do_setuid c u = (err, c1)" and "cred_step\<^sup>*\<^sup>* c1 c2"
  shows "err = None \<and> uids c1 = {u} \<and> uids c2 = {u}"
proof -
  have c1: "err = None" "uids c1 = {u}"
    using assms(1-4) by (auto simp: do_setuid_def change_resuid_eq new_id_def uids_def)
  then have "uids c2 \<subseteq> {u}"
    using reach_confined [OF assms(5)] assms(2) by (simp add: confined_def)
  then show ?thesis
    using c1 by (auto simp: uids_def)
qed

theorem setuid_drop_is_final_witness:
  "cr_euid (ex_cred\<lparr>cr_euid := 0\<rparr>) = 0 \<and> (\<exists>c1. do_setuid (ex_cred\<lparr>cr_euid := 0\<rparr>) 7 = (None, c1) \<and> uids (snd (do_setresuid c1 0 0 0)) = {7})"
proof -
  obtain err c1 where d: "do_setuid (ex_cred\<lparr>cr_euid := 0\<rparr>) 7 = (err, c1)"
    by fastforce
  have "cred_step\<^sup>*\<^sup>* c1 (snd (do_setresuid c1 0 0 0))"
    by (intro r_into_rtranclp cred_step.intros)
  from setuid_drop_is_final [OF _ _ _ d this] show ?thesis
    using d by (simp add: ex_cred_def)
qed

section \<open>Access to files\<close>

text \<open>The classic rule: the first of the three classes owner, group and others that applies decides, each with its three bits of the
  mode; right \<open>k\<close> is execution (0), writing (1), reading (2) or administration (3).\<close>

definition class_shift :: "vattr \<Rightarrow> cred \<Rightarrow> nat" where
  "class_shift va c = (if cr_euid c = va_uid va then 6 else if va_gid va \<in> set (groups c) then 3 else 0)"

definition may :: "vattr \<Rightarrow> cred \<Rightarrow> nat \<Rightarrow> bool" where
  "may va c k \<longleftrightarrow>
     (if k = 3 then cr_euid c = 0 \<or> cr_euid c = va_uid va
      else if k < 3 then
        (if cr_euid c = 0 then k \<noteq> 0 \<or> S_ISDIR (va_mode va) \<or> bit (va_mode va) 6 \<or> bit (va_mode va) 3 \<or> bit (va_mode va) 0
         else bit (va_mode va) (class_shift va c + k))
      else False)"

lemma mode_bits:
  "S_IRUSR = 2 ^ 8" "S_IWUSR = 2 ^ 7" "S_IXUSR = 2 ^ 6" "S_IRGRP = 2 ^ 5" "S_IWGRP = 2 ^ 4" "S_IXGRP = 2 ^ 3"
  "S_IROTH = 2 ^ 2" "S_IWOTH = 2 ^ 1" "S_IXOTH = 2 ^ 0"
  by (simp_all add: S_IRUSR_def S_IWUSR_def S_IXUSR_def S_IRGRP_def S_IWGRP_def S_IXGRP_def S_IROTH_def S_IWOTH_def S_IXOTH_def)

lemma right_bits:
  "bit VREAD k \<longleftrightarrow> k = 2" "bit VWRITE k \<longleftrightarrow> k = 1" "bit VEXEC k \<longleftrightarrow> k = 0" "bit VADMIN k \<longleftrightarrow> k = 3"
  using bit_exp_iff [where 'a = "32 word", of 2 k] bit_exp_iff [where 'a = "32 word", of 1 k] bit_exp_iff [where 'a = "32 word", of 0 k]
    bit_exp_iff [where 'a = "32 word", of 3 k]
  by (auto simp: VREAD_def VWRITE_def VEXEC_def VADMIN_def)

lemma bit_grant:
  "bit (grant g mode (2 ^ (n + 2)) (2 ^ (n + 1)) (2 ^ n)) k \<longleftrightarrow> bit g k \<or> k < 3 \<and> bit mode (n + k)"
proof -
  have "k < 3 \<longleftrightarrow> k = 0 \<or> k = 1 \<or> k = 2"
    by auto
  then show ?thesis
    unfolding grant_def Let_def and_exp_eq_0_iff_not_bit by (auto simp: right_bits bit_or_iff)
qed

lemma bit_all_in: "m AND g = m \<longleftrightarrow> (\<forall>k. bit m k \<longrightarrow> bit g k)" for m g :: "32 word"
proof
  assume "m AND g = m"
  then have "bit (m AND g) k \<longleftrightarrow> bit m k" for k
    by simp
  then show "\<forall>k. bit m k \<longrightarrow> bit g k"
    unfolding bit_and_iff by blast
next
  assume "\<forall>k. bit m k \<longrightarrow> bit g k"
  then show "m AND g = m"
    by (intro bit_eqI) (auto simp: bit_and_iff)
qed



text \<open>C35: executing a set-user-id program saves the old effective identifier and not the new one, so that a program which gives its privilege up
  for a while cannot take it back: when the owner of the program is neither root nor an identifier of the caller, the way to the old
  identifier is open and the way back is refused.\<close>

theorem exec_setid_one_way:
  assumes "u \<notin> {0, NOID, cr_ruid c, cr_euid c}" and "cr_euid c \<notin> {0, NOID}"
  shows "\<exists>c1. do_seteuid (cred_exec_setid c u NOID) (cr_euid c) = (None, c1) \<and> do_seteuid c1 u = (Some EPERM, c1)"
  using assms by (auto simp: do_seteuid_def cred_exec_setid_def change_resuid_def try_change_uid_def)

theorem exec_setid_one_way_witness:
  "\<exists>c1. do_seteuid (cred_exec_setid ex_cred 9 NOID) 2 = (None, c1) \<and> do_seteuid c1 9 = (Some EPERM, c1)"
  using exec_setid_one_way [of 9 ex_cred] by (simp add: ex_cred_def)

end
