(* ===== verification/Time.thy ===== *)
theory Time
  imports Prelude "HOL-Library.Signed_Division"
begin

text \<open>
  Time: the fixed-point representation and the other types of \<^verbatim>\<open>include/sys/time.h\<close>, the conversions, sleeping and interval
  timers of \<^verbatim>\<open>sys/kern/time.c\<close>.  The clocks are arguments: a reading is passed to the operation that takes it.  Seconds are
  integers (the C type has 64 bits); fractions and ticks are words of their width.
\<close>

section \<open>Fixed-point time\<close>

definition CLK_TCK :: int where "CLK_TCK = 1000"

record bintime =
  bt_sec :: int
  bt_frac :: "64 word"

record timeval =
  tv_sec :: int
  tv_usec :: int

record timespec =
  ts_sec :: int
  ts_nsec :: int

text \<open>The upper half of the fraction times a number of units per second.\<close>

definition bt_scale :: "64 word \<Rightarrow> bintime \<Rightarrow> 64 word" where
  "bt_scale k bt = drop_bit 32 (k * take_bit 32 (drop_bit 32 (bt_frac bt)))"

definition bt2st :: "bintime \<Rightarrow> 32 word" where
  "bt2st bt = of_int (bt_sec bt * CLK_TCK + uint (bt_scale 1000 bt))"

definition bt2ts :: "bintime \<Rightarrow> timespec" where
  "bt2ts bt = \<lparr>ts_sec = bt_sec bt, ts_nsec = uint (bt_scale 1000000000 bt)\<rparr>"

definition bt2tv :: "bintime \<Rightarrow> timeval" where
  "bt2tv bt = \<lparr>tv_sec = bt_sec bt, tv_usec = uint (bt_scale 1000000 bt)\<rparr>"

definition bintime_add_frac :: "bintime \<Rightarrow> 64 word \<Rightarrow> bintime" where
  "bintime_add_frac bt x =
     (let old_frac = bt_frac bt;
          bt = bt\<lparr>bt_frac := bt_frac bt + x\<rparr>
      in if old_frac > bt_frac bt then bt\<lparr>bt_sec := bt_sec bt + 1\<rparr> else bt)"

definition bintime_mul :: "bintime \<Rightarrow> 32 word \<Rightarrow> bintime" where
  "bintime_mul bt x =
     (let p1 = (bt_frac bt AND 0xffffffff) * ucast x;
          p2 = drop_bit 32 (bt_frac bt) * ucast x + drop_bit 32 p1
      in \<lparr>bt_sec = bt_sec bt * uint x + uint (drop_bit 32 p2), bt_frac = push_bit 32 p2 OR (p1 AND 0xffffffff)\<rparr>)"

definition bintime_add :: "bintime \<Rightarrow> bintime \<Rightarrow> bintime" where
  "bintime_add bt bt2 =
     (let bt = bintime_add_frac bt (bt_frac bt2)
      in bt\<lparr>bt_sec := bt_sec bt + bt_sec bt2\<rparr>)"

definition bintime_sub :: "bintime \<Rightarrow> bintime \<Rightarrow> bintime" where
  "bintime_sub bt bt2 =
     (let old_frac = bt_frac bt;
          bt = bt\<lparr>bt_frac := bt_frac bt - bt_frac bt2\<rparr>;
          bt = (if old_frac < bt_frac bt then bt\<lparr>bt_sec := bt_sec bt - 1\<rparr> else bt)
      in bt\<lparr>bt_sec := bt_sec bt - bt_sec bt2\<rparr>)"

text \<open>The time in units of \<open>2 ^ - 64\<close> seconds.\<close>

definition bt_val :: "bintime \<Rightarrow> int" where
  "bt_val bt = bt_sec bt * 2 ^ 64 + uint (bt_frac bt)"

lemma bt_val_add: "bt_val (bintime_add a b) = bt_val a + bt_val b"
proof -
  have "uint (bt_frac a + bt_frac b) = (if uint (bt_frac a) + uint (bt_frac b) < 2 ^ 64 then uint (bt_frac a) + uint (bt_frac b)
      else uint (bt_frac a) + uint (bt_frac b) - 2 ^ 64)"
    by (simp add: uint_plus_if_size size_word_def)
  moreover have "uint (bt_frac a) < 2 ^ 64" "uint (bt_frac b) < 2 ^ 64" "0 \<le> uint (bt_frac b)"
    using uint_lt2p [of "bt_frac a"] uint_lt2p [of "bt_frac b"] by simp_all
  ultimately show ?thesis
    by (auto simp: bt_val_def bintime_add_def bintime_add_frac_def Let_def word_less_def algebra_simps split: if_splits)
qed

lemma bt_val_sub: "bt_val (bintime_sub a b) = bt_val a - bt_val b"
proof -
  have "uint (bt_frac a - bt_frac b) = (if uint (bt_frac b) \<le> uint (bt_frac a) then uint (bt_frac a) - uint (bt_frac b)
      else uint (bt_frac a) - uint (bt_frac b) + 2 ^ 64)"
    by (simp add: uint_sub_if_size size_word_def)
  moreover have "uint (bt_frac a) < 2 ^ 64" "uint (bt_frac b) < 2 ^ 64" "0 \<le> uint (bt_frac b)" "0 \<le> uint (bt_frac a)"
    using uint_lt2p [of "bt_frac a"] uint_lt2p [of "bt_frac b"] by simp_all
  ultimately show ?thesis
    by (auto simp: bt_val_def bintime_sub_def Let_def word_less_def algebra_simps split: if_splits)
qed
lemma low_half: "w AND 0xffffffff = take_bit 32 w" for w :: "64 word"
  by (simp add: take_bit_eq_mask mask_eq_exp_minus_1)

lemma uint_low: "uint (take_bit 32 w) = uint w mod 2 ^ 32" for w :: "64 word"
  by (simp only: unsigned_take_bit_eq) (simp add: take_bit_eq_mod)

lemma uint_high: "uint (drop_bit 32 w) = uint w div 2 ^ 32" for w :: "64 word"
  using uint_lt2p [of w] by (simp only: unsigned_drop_bit_eq) (simp add: drop_bit_eq_div take_bit_int_eq_self)

lemma join_halves: "uint (push_bit 32 p OR take_bit 32 q) = (uint p mod 2 ^ 32) * 2 ^ 32 + uint q mod 2 ^ 32" for p q :: "64 word"
proof -
  have "push_bit 32 p OR take_bit 32 q = push_bit 32 p + take_bit 32 q"
    by (rule disjunctive_add [symmetric]) (auto simp: bit_simps)
  moreover have "uint (push_bit 32 p) = (uint p mod 2 ^ 32) * 2 ^ 32"
    using mod_mult_mult2 [of "uint p" "2 ^ 32" "2 ^ 32"] by (simp only: unsigned_push_bit_eq) (simp add: push_bit_eq_mult take_bit_eq_mod)
  moreover have "(uint p mod 2 ^ 32) * 2 ^ 32 + uint q mod 2 ^ 32 < 2 ^ 64"
    using pos_mod_bound [of "2 ^ 32 :: int" "uint p"] pos_mod_bound [of "2 ^ 32 :: int" "uint q"] by simp
  ultimately show ?thesis
    using uint_plus_if_size [of "push_bit 32 p" "take_bit 32 q"] by (simp add: uint_low size_word_def)
qed

lemma mul_split:
  fixes sec x :: int
  assumes "d * 2 ^ 32 + mh = fh * x + c" and "c * 2 ^ 32 + ml = fl * x" and "fh * 2 ^ 32 + fl = f"
  shows "(sec * x + d) * 2 ^ 64 + mh * 2 ^ 32 + ml = (sec * 2 ^ 64 + f) * x"
proof -
  have "(sec * x + d) * 2 ^ 64 + mh * 2 ^ 32 + ml = sec * 2 ^ 64 * x + (d * 2 ^ 32 + mh) * 2 ^ 32 + ml"
    by (simp add: algebra_simps)
  also have "\<dots> = sec * 2 ^ 64 * x + fh * 2 ^ 32 * x + (c * 2 ^ 32 + ml)"
    unfolding assms(1) by (simp add: algebra_simps)
  finally show ?thesis
    unfolding assms(2) assms(3) [symmetric] by (simp add: algebra_simps)
qed

lemma bt_val_mul: "bt_val (bintime_mul bt x) = bt_val bt * uint x"
proof -
  let ?f = "uint (bt_frac bt)" and ?X = "uint x"
  define p1 where "p1 = take_bit 32 (bt_frac bt) * (ucast x :: 64 word)"
  define p2 where "p2 = drop_bit 32 (bt_frac bt) * (ucast x :: 64 word) + drop_bit 32 p1"
  have X: "0 \<le> ?X" "?X < 2 ^ 32" "uint (ucast x :: 64 word) = ?X"
    using uint_lt2p [of x] by (simp_all add: uint_up_ucast is_up)
  have f: "0 \<le> ?f" "?f < 2 ^ 64"
    using uint_lt2p [of "bt_frac bt"] by simp_all
  then have h: "0 \<le> ?f div 2 ^ 32" "?f div 2 ^ 32 < 2 ^ 32"
    using div_int_pos_iff [of ?f "2 ^ 32"] by (simp_all add: div_less_iff_less_mult)
  have l: "0 \<le> ?f mod 2 ^ 32" "?f mod 2 ^ 32 < 2 ^ 32"
    by simp_all
  have b: "?f mod 2 ^ 32 * ?X \<le> (2 ^ 32 - 1) * (2 ^ 32 - 1)" "?f div 2 ^ 32 * ?X \<le> (2 ^ 32 - 1) * (2 ^ 32 - 1)"
    using X(1,2) h l by (intro mult_mono; simp)+
  then have 1: "uint p1 = ?f mod 2 ^ 32 * ?X"
    using l X by (simp add: p1_def uint_word_ariths uint_low)
  have "uint p1 div 2 ^ 32 < 2 ^ 32" "0 \<le> uint p1 div 2 ^ 32"
    using uint_lt2p [of p1] div_int_pos_iff [of "uint p1" "2 ^ 32"] by (simp_all add: div_less_iff_less_mult)
  moreover have "0 \<le> ?f div 2 ^ 32 * ?X"
    using h(1) X(1) by (rule mult_nonneg_nonneg)
  ultimately have "(?f div 2 ^ 32 * ?X + uint p1 div 2 ^ 32) mod 2 ^ 64 = ?f div 2 ^ 32 * ?X + uint p1 div 2 ^ 32"
    using b(2) by (intro mod_pos_pos_trivial) simp_all
  then have 2: "uint p2 = ?f div 2 ^ 32 * ?X + uint p1 div 2 ^ 32"
    by (simp add: p2_def uint_word_ariths uint_high X(3) mod_add_left_eq)
  have "bintime_mul bt x = \<lparr>bt_sec = bt_sec bt * ?X + uint (drop_bit 32 p2), bt_frac = push_bit 32 p2 OR take_bit 32 p1\<rparr>"
    by (simp add: bintime_mul_def low_half p1_def p2_def Let_def)
  then have "bt_val (bintime_mul bt x) = (bt_sec bt * ?X + uint p2 div 2 ^ 32) * 2 ^ 64 + (uint p2 mod 2 ^ 32) * 2 ^ 32 + uint p1 mod 2 ^ 32"
    unfolding bt_val_def by (simp add: uint_high join_halves)
  also have "\<dots> = bt_val bt * ?X"
    unfolding bt_val_def by (rule mul_split [where c = "uint p1 div 2 ^ 32" and fh = "?f div 2 ^ 32" and fl = "?f mod 2 ^ 32"])
      (simp_all only: div_mult_mod_eq 1 2)
  finally show ?thesis .
qed


section \<open>Conversions\<close>

text \<open>The conversions truncate: the seconds are kept, the fraction is in range and less than one unit (and the lower half of the
  fraction) too small.\<close>

lemma scale_bounds:
  assumes "0 < uint k" "uint k < 2 ^ 32"
  shows "uint (bt_scale k bt) = uint k * (uint (bt_frac bt) div 2 ^ 32) div 2 ^ 32" and "uint (bt_scale k bt) < uint k" and "0 \<le> uint (bt_scale k bt)"
proof -
  let ?h = "uint (bt_frac bt) div 2 ^ 32"
  have h: "0 \<le> ?h" "?h < 2 ^ 32"
    using uint_lt2p [of "bt_frac bt"] div_int_pos_iff [of "uint (bt_frac bt)" "2 ^ 32"] by (simp_all add: div_less_iff_less_mult)
  have "uint k * ?h < uint k * 2 ^ 32"
    using assms(1) h(2) by (intro mult_strict_left_mono) simp_all
  moreover have "0 \<le> uint k * ?h"
    using h(1) by simp
  moreover have "uint k * 2 ^ 32 < 2 ^ 64"
    using assms(2) by simp
  ultimately have "uint k * ?h mod 2 ^ 64 = uint k * ?h" "uint k * ?h < uint k * 2 ^ 32"
    by (simp_all add: mod_pos_pos_trivial)
  then have "uint (k * take_bit 32 (drop_bit 32 (bt_frac bt))) = uint k * ?h"
    using h by (simp add: uint_word_ariths uint_low uint_high)
  then show "uint (bt_scale k bt) = uint k * ?h div 2 ^ 32"
    by (simp add: bt_scale_def uint_high)
  then show "uint (bt_scale k bt) < uint k"
    using \<open>uint k * ?h < uint k * 2 ^ 32\<close> by (simp add: div_less_iff_less_mult)
qed simp

definition ts2hz :: "timespec \<Rightarrow> 32 word" where
  "ts2hz ts =
     (if ts_sec ts < 0 \<or> (ts_sec ts = 0 \<and> ts_nsec ts = 0) then 0
      else if ts_sec ts > (2 ^ 32 - 1) div CLK_TCK then 2 ^ 32 - 1
      else
        let tick = 1000000000 div CLK_TCK;
            nsectck = (ts_nsec ts + tick - 1) sdiv tick;
            ticks = (ts_sec ts * CLK_TCK) mod 2 ^ 32
        in if ticks > (2 ^ 32 - 1) - nsectck - 1 then 2 ^ 32 - 1
           else of_int (ticks + nsectck + 1))"

definition timespec_invalid :: "timespec \<Rightarrow> bool" where
  "timespec_invalid ts \<longleftrightarrow> ts_nsec ts < 0 \<or> ts_nsec ts \<ge> 1000000000 \<or> ts_sec ts < 0"

definition timeval_invalid :: "timeval \<Rightarrow> bool" where
  "timeval_invalid tv \<longleftrightarrow> tv_usec tv < 0 \<or> tv_usec tv \<ge> 1000000 \<or> tv_sec tv < 0"

text \<open>The duration in nanoseconds.\<close>

definition ts_val :: "timespec \<Rightarrow> int" where
  "ts_val ts = ts_sec ts * 1000000000 + ts_nsec ts"

lemma ts2hz_uint:
  assumes "\<not> timespec_invalid ts"
  shows "uint (ts2hz ts) = (if ts_val ts = 0 then 0 else min (2 ^ 32 - 1) (ts_sec ts * 1000 + (ts_nsec ts + 999999) div 1000000 + 1))"
proof -
  let ?k = "(ts_nsec ts + 999999) div 1000000"
  have v: "0 \<le> ts_sec ts" "0 \<le> ts_nsec ts" "ts_nsec ts < 1000000000"
    using assms by (simp_all add: timespec_invalid_def)
  have k: "0 \<le> ?k" "?k \<le> 1000"
    using v by auto
  have hz: "ts2hz ts = (if ts_val ts = 0 then 0 else if ts_sec ts > 4294967 \<or> ts_sec ts * 1000 + ?k > 2 ^ 32 - 2 then 2 ^ 32 - 1
      else of_int (ts_sec ts * 1000 + ?k + 1))"
    using v k by (auto simp: ts2hz_def CLK_TCK_def ts_val_def signed_divide_int_def Let_def add.commute)
  show ?thesis
  proof (cases "ts_sec ts \<le> 4294967 \<and> ts_sec ts * 1000 + ?k \<le> 2 ^ 32 - 2 \<and> ts_val ts \<noteq> 0")
    case True
    then have "ts2hz ts = of_int (ts_sec ts * 1000 + ?k + 1)"
      unfolding hz by simp
    moreover have "(ts_sec ts * 1000 + ?k + 1) mod 2 ^ 32 = ts_sec ts * 1000 + ?k + 1"
      using True v(1) k(1) by (intro mod_pos_pos_trivial) linarith+
    ultimately have "uint (ts2hz ts) = ts_sec ts * 1000 + ?k + 1"
      by (simp only: uint_word_of_int) simp
    then show ?thesis
      using True by auto
  next
    case False
    then have "ts2hz ts = (if ts_val ts = 0 then 0 else 2 ^ 32 - 1)"
      unfolding hz by auto
    then show ?thesis
      using False k by auto
  qed
qed

lemma ts2hz_zero: "\<not> timespec_invalid ts \<Longrightarrow> 0 < ts2hz ts \<longleftrightarrow> ts_val ts \<noteq> 0"
  by (auto simp: word_less_def ts2hz_uint timespec_invalid_def ts_val_def)

text \<open>C38: the number of ticks for a time-out is never too small and at most two ticks too large: for a valid, not empty duration below
  the limit, that many ticks, the first of which may be almost over, last at least the duration and less than two ticks longer. Beyond
  the limit the result saturates, and it is zero exactly for the empty duration.\<close>

theorem ts2hz_bounds:
  assumes "\<not> timespec_invalid ts"
  shows "(ts2hz ts = 0 \<longleftrightarrow> ts_val ts = 0) \<and>
    (0 < ts_val ts \<and> ts2hz ts \<noteq> 2 ^ 32 - 1 \<longrightarrow>
       ts_val ts \<le> (uint (ts2hz ts) - 1) * 1000000 \<and> uint (ts2hz ts) * 1000000 < ts_val ts + 2 * 1000000) \<and>
    (ts2hz ts = 2 ^ 32 - 1 \<longrightarrow> (2 ^ 32 - 3) * 1000000 < ts_val ts)"
proof -
  let ?k = "(ts_nsec ts + 999999) div 1000000"
  have v: "0 \<le> ts_sec ts" "0 \<le> ts_nsec ts" "ts_nsec ts < 1000000000"
    using assms by (simp_all add: timespec_invalid_def)
  have k: "0 \<le> ?k" "?k \<le> 1000" "ts_nsec ts \<le> ?k * 1000000" "?k * 1000000 < ts_nsec ts + 1000000"
    using v by auto
  have "uint (0 :: 32 word) = 0" "uint (2 ^ 32 - 1 :: 32 word) = 2 ^ 32 - 1"
    by simp_all
  then show ?thesis
    using v k unfolding word_uint_eq_iff ts2hz_uint [OF assms] ts_val_def by auto
qed

theorem ts2hz_bounds_witness:
  "1500000 \<le> (uint (ts2hz \<lparr>ts_sec = 0, ts_nsec = 1500000\<rparr>) - 1) * 1000000 \<and> uint (ts2hz \<lparr>ts_sec = 0, ts_nsec = 1500000\<rparr>) * 1000000 < 1500000 + 2 * 1000000"
proof -
  have "ts2hz \<lparr>ts_sec = 0, ts_nsec = 1500000\<rparr> = 3"
    by (simp add: ts2hz_def CLK_TCK_def signed_divide_int_def)
  then show ?thesis
    using ts2hz_bounds [of "\<lparr>ts_sec = 0, ts_nsec = 1500000\<rparr>"] by (simp add: timespec_invalid_def ts_val_def)
qed

section \<open>Clocks and sleeping\<close>

datatype clockid = CLOCK_MONOTONIC | CLOCK_REALTIME | CLOCK_OTHER int

text \<open>The argument \<open>now\<close> is the reading of the two clocks, monotonic and real.\<close>

definition do_clock_gettime :: "bintime \<times> bintime \<Rightarrow> clockid \<Rightarrow> errno + timespec" where
  "do_clock_gettime now clk =
     (case clk of
        CLOCK_REALTIME \<Rightarrow> Inr (bt2ts (snd now))
      | CLOCK_MONOTONIC \<Rightarrow> Inr (bt2ts (fst now))
      | CLOCK_OTHER _ \<Rightarrow> Inl EINVAL)"

definition nanotime :: "bintime \<Rightarrow> timespec" where
  "nanotime bt = bt2ts bt"

definition TIMER_ABSTIME :: "32 word" where "TIMER_ABSTIME = 1"

definition timespecsub :: "timespec \<Rightarrow> timespec \<Rightarrow> timespec" where
  "timespecsub ts us =
     (let vs = \<lparr>ts_sec = ts_sec ts - ts_sec us, ts_nsec = ts_nsec ts - ts_nsec us\<rparr>
      in if ts_nsec vs < 0 then \<lparr>ts_sec = ts_sec vs - 1, ts_nsec = ts_nsec vs + 1000000000\<rparr> else vs)"

text \<open>The result has the time-out, the start and the requested time, which an absolute request turns into a relative one.\<close>

definition ts2timo :: "bintime \<times> bintime \<Rightarrow> clockid \<Rightarrow> 32 word \<Rightarrow> timespec \<Rightarrow> errno + 32 word \<times> timespec \<times> timespec" where
  "ts2timo now clk flags ts =
     (if timespec_invalid ts \<or> flags AND NOT TIMER_ABSTIME \<noteq> 0 then Inl EINVAL
      else case do_clock_gettime now clk of
             Inl e \<Rightarrow> Inl e
           | Inr start \<Rightarrow>
               let ts = (if flags AND TIMER_ABSTIME \<noteq> 0 then timespecsub ts start else ts)
               in if (ts_sec ts = 0 \<and> ts_nsec ts = 0) \<or> ts_sec ts < 0 then Inl ETIMEDOUT
                  else Inr (ts2hz ts, start, ts))"

definition timespecclear :: timespec where
  "timespecclear = \<lparr>ts_sec = 0, ts_nsec = 0\<rparr>"

text \<open>Every round of the loop has the result of the wait and the readings of the clocks after it; the loop that is still waiting when they
  end is \<open>None\<close>.  The result is the error and the remaining time for the caller.\<close>

fun nanosleep_loop ::
  "clockid \<Rightarrow> 32 word \<Rightarrow> timespec \<Rightarrow> timespec \<Rightarrow> (errno option \<times> bintime \<times> bintime) list \<Rightarrow> (errno option \<times> timespec) option" where
  "nanosleep_loop clk flags rqt start [] = None"
| "nanosleep_loop clk flags rqt start ((error, now) # env) =
     (if error = Some ETIMEDOUT then Some (None, timespecclear)
      else case do_clock_gettime now clk of
             Inl e \<Rightarrow> Some (Some e, timespecclear)
           | Inr rmt_end \<Rightarrow>
               let rmt = (if flags = TIMER_ABSTIME then timespecsub rqt rmt_end else timespecsub rqt (timespecsub rmt_end start));
                   rmt = (if ts_sec rmt < 0 then timespecclear else rmt)
               in if error \<noteq> None then Some (error, rmt)
                  else if ts2hz rmt > 0 then nanosleep_loop clk flags rqt start env
                  else Some (None, rmt))"

definition do_clock_nanosleep ::
  "bintime \<times> bintime \<Rightarrow> clockid \<Rightarrow> 32 word \<Rightarrow> timespec \<Rightarrow> (errno option \<times> bintime \<times> bintime) list \<Rightarrow> (errno option \<times> timespec) option" where
  "do_clock_nanosleep now clk flags rqt env =
     (case ts2timo now clk flags rqt of
        Inl e \<Rightarrow> if e = ETIMEDOUT then Some (None, timespecclear) else Some (Some e, timespecclear)
      | Inr (timo, start, rqt) \<Rightarrow> nanosleep_loop clk flags rqt start env)"

lemma timespecsub_val [simp]: "ts_val (timespecsub a b) = ts_val a - ts_val b"
  by (simp add: ts_val_def timespecsub_def Let_def)

definition ts_normal :: "timespec \<Rightarrow> bool" where
  "ts_normal ts \<longleftrightarrow> 0 \<le> ts_nsec ts \<and> ts_nsec ts < 1000000000"

lemma timespecsub_normal [simp]: "ts_normal a \<Longrightarrow> ts_normal b \<Longrightarrow> ts_normal (timespecsub a b)"
  by (auto simp: ts_normal_def timespecsub_def Let_def)

lemma bt2ts_normal: "ts_normal (bt2ts bt)"
  using scale_bounds [of 1000000000 bt] by (simp add: bt2ts_def ts_normal_def)

lemma gettime_normal: "do_clock_gettime now clk = Inr ts \<Longrightarrow> ts_normal ts"
  by (auto simp: do_clock_gettime_def bt2ts_normal split: clockid.splits)

text \<open>What is left of the request, never negative.\<close>

lemma remaining:
  assumes "ts_normal r" and "rmt = (if ts_sec r < 0 then timespecclear else r)"
  shows "\<not> timespec_invalid rmt" and "ts_val rmt = max 0 (ts_val r)"
proof -
  have n: "0 \<le> ts_nsec r" "ts_nsec r < 1000000000"
    using assms(1) by (simp_all add: ts_normal_def)
  show "\<not> timespec_invalid rmt"
    using n assms(2) by (simp add: timespec_invalid_def timespecclear_def)
  have "ts_sec r < 0 \<Longrightarrow> ts_val r \<le> 0" "0 \<le> ts_sec r \<Longrightarrow> 0 \<le> ts_val r"
    using n unfolding ts_val_def by linarith+
  then show "ts_val rmt = max 0 (ts_val r)"
    using assms(2) by (cases "ts_sec r < 0") (simp_all add: ts_val_def [of "\<lparr>ts_sec = 0, ts_nsec = 0\<rparr>"] timespecclear_def)
qed

lemma nanosleep_loop_ok:
  assumes "nanosleep_loop clk 0 rqt start env = Some (err, rmt)" and "ts_normal rqt" "ts_normal start" and "clk = CLOCK_MONOTONIC \<or> clk = CLOCK_REALTIME"
  shows "\<exists>(e, now) \<in> set env. \<exists>t. do_clock_gettime now clk = Inr t \<and>
    (case err of
       None \<Rightarrow> ts_val rmt = 0 \<and> (e = Some ETIMEDOUT \<or> e = None \<and> ts_val rqt \<le> ts_val t - ts_val start)
     | Some er \<Rightarrow> e = Some er \<and> ts_val rmt = max 0 (ts_val rqt - (ts_val t - ts_val start)))"
  using assms
proof (induction env)
  case (Cons x env)
  obtain e now where x: "x = (e, now)"
    by (cases x)
  obtain t where t: "do_clock_gettime now clk = Inr t"
    using Cons.prems(4) by (auto simp: do_clock_gettime_def)
  define r where "r = timespecsub rqt (timespecsub t start)"
  define rm where "rm = (if ts_sec r < 0 then timespecclear else r)"
  have n: "ts_normal r"
    using Cons.prems(2,3) gettime_normal [OF t] by (simp add: r_def)
  note rm = remaining [OF n rm_def]
  have rv: "ts_val r = ts_val rqt - (ts_val t - ts_val start)"
    by (simp add: r_def)
  consider "e = Some ETIMEDOUT" | "e \<noteq> Some ETIMEDOUT" "e \<noteq> None" | "e = None" "ts_val rm = 0" | "e = None" "ts_val rm \<noteq> 0"
    by blast
  then show ?case
  proof cases
    case 1
    then show ?thesis
      using Cons.prems(1) x t by (auto simp: timespecclear_def ts_val_def)
  next
    case 2
    then have "err = e" "rmt = rm"
      using Cons.prems(1) by (auto simp: x t TIMER_ABSTIME_def r_def rm_def Let_def)
    then show ?thesis
      using 2 rm(2) rv by (auto simp: x t)
  next
    case 3
    then have "err = None" "rmt = rm"
      using Cons.prems(1) ts2hz_zero [OF rm(1)] by (auto simp: x t TIMER_ABSTIME_def r_def [symmetric] rm_def [symmetric] Let_def)
    then show ?thesis
      using 3 rm(2) rv by (auto simp: x t)
  next
    case 4
    then have "nanosleep_loop clk 0 rqt start env = Some (err, rmt)"
      using Cons.prems(1) ts2hz_zero [OF rm(1)] by (auto simp: x t TIMER_ABSTIME_def r_def [symmetric] rm_def [symmetric] Let_def)
    then show ?thesis
      using Cons.IH Cons.prems(2-4) by (auto simp: x)
  qed
qed simp



section \<open>Calendar time\<close>

record tm =
  tm_sec :: int
  tm_min :: int
  tm_hour :: int
  tm_mday :: int
  tm_mon :: int
  tm_year :: int

definition month_in_days :: "int list" where
  "month_in_days = [0, 31, 59, 90, 120, 151, 181, 212, 243, 273, 304, 334, 0]"

text \<open>An index outside of the table is \<open>None\<close>.  The last condition is written as C parses it.\<close>

definition tm2sec :: "tm \<Rightarrow> int option" where
  "tm2sec t =
     (if tm_year t < 70 then Some 0
      else do {
        kassert (0 \<le> tm_mon t \<and> tm_mon t < 13);
        let res = month_in_days ! nat (tm_mon t) * 86400;
        let res = res + ((tm_year t + 1900) div 4 - 1970 div 4) * 86400;
        let res = res - ((tm_year t + 1900) div 100 - 1970 div 100) * 86400;
        let res = res + ((tm_year t + 1900) div 400 - 1970 div 400) * 86400;
        let res = (if tm_mon t > 1 \<and> tm_year t mod 4 = 0 \<and> \<not> (tm_year t mod 100 \<noteq> 0 \<or> (tm_year t + 1900) mod 400 \<noteq> 0)
                   then res + 86400 else res);
        Some ((tm_year t - 70) * 31536000 + (tm_mday t - 1) * 86400 + tm_hour t * 3600 + tm_min t * 60 + tm_sec t + res)
      })"

text \<open>The reference: seconds since the beginning of 1970 by the rules of the calendar.\<close>

definition leap :: "int \<Rightarrow> bool" where
  "leap y \<longleftrightarrow> y mod 4 = 0 \<and> (y mod 100 \<noteq> 0 \<or> y mod 400 = 0)"

fun days_before_year :: "nat \<Rightarrow> int" where
  "days_before_year 0 = 0"
| "days_before_year (Suc n) = days_before_year n + 365 + (if leap (1970 + int n) then 1 else 0)"

definition days_in_month :: "int \<Rightarrow> int \<Rightarrow> int" where
  "days_in_month y m = (if m = 1 then (if leap y then 29 else 28) else if m \<in> {3, 5, 8, 10} then 30 else 31)"

fun days_before_month :: "int \<Rightarrow> nat \<Rightarrow> int" where
  "days_before_month y 0 = 0"
| "days_before_month y (Suc m) = days_before_month y m + days_in_month y (int m)"

definition calendar_sec :: "tm \<Rightarrow> int" where
  "calendar_sec t =
     (days_before_year (nat (tm_year t - 70)) + days_before_month (tm_year t + 1900) (nat (tm_mon t)) + tm_mday t - 1) * 86400 +
     tm_hour t * 3600 + tm_min t * 60 + tm_sec t"

lemma div_next:
  fixes a d :: int
  assumes "0 < d"
  shows "(a + 1) div d = a div d + (if (a + 1) mod d = 0 then 1 else 0)"
proof -
  let ?q = "(a + 1) div d" and ?r = "(a + 1) mod d"
  have a: "a = d * ?q + ?r - 1"
    using mult_div_mod_eq [of d "a + 1"] by simp
  have r: "0 \<le> ?r" "?r < d"
    using assms by simp_all
  show ?thesis
  proof (cases "?r = 0")
    case True
    then have "a div d = ?q - 1"
      using a assms by (intro int_div_pos_eq [where r = "d - 1"]) (simp_all add: algebra_simps)
    then show ?thesis
      using True by simp
  next
    case False
    then have "a div d = ?q"
      using a r by (intro int_div_pos_eq [where r = "?r - 1"]) linarith+
    then show ?thesis
      using False by simp
  qed
qed

lemma days_before_year_closed:
  "days_before_year n = 365 * int n + ((1969 + int n) div 4 - 1969 div 4) - ((1969 + int n) div 100 - 1969 div 100) + ((1969 + int n) div 400 - 1969 div 400)"
proof (induction n)
  case (Suc n)
  have "(1969 + int (Suc n)) div d = (1969 + int n) div d + (if (1970 + int n) mod d = 0 then 1 else 0)" if "0 < d" for d
    using div_next [OF that, of "1969 + int n"] by (simp add: add.commute)
  then show ?case
    using Suc by (auto simp: leap_def)
qed simp

lemma month_sum:
  assumes "0 \<le> m" "m < 12"
  shows "days_before_month y (nat m) = month_in_days ! nat m + (if m > 1 \<and> leap y then 1 else 0)"
proof -
  have "m = 0 \<or> m = 1 \<or> m = 2 \<or> m = 3 \<or> m = 4 \<or> m = 5 \<or> m = 6 \<or> m = 7 \<or> m = 8 \<or> m = 9 \<or> m = 10 \<or> m = 11"
    using assms by presburger
  then show ?thesis
    by (elim disjE) (simp_all add: month_in_days_def days_in_month_def numeral_eq_Suc)
qed

lemma tm_balance:
  fixes d y4 y100 y400 n md h :: int
  assumes "(b100 \<longrightarrow> b4) \<and> (b400 \<longrightarrow> b100)" and "lp \<longleftrightarrow> b4 \<and> (b100 \<longrightarrow> b400)"
  shows "(d + (y4 - 492) - (y100 - 19) + (y400 - 4) + of_bool (late \<and> b400) + n * 365 + (md - 1)) * 86400 + h =
    (365 * n + (y4 - of_bool b4 - 492) - (y100 - of_bool b100 - 19) + (y400 - of_bool b400 - 4) + (d + of_bool (late \<and> lp)) + md - 1) * 86400 + h +
    (if lp \<and> (\<not> late \<or> b400) then 86400 else 0)"
  using assms by (cases b4; cases b100; cases b400; cases late) simp_all

text \<open>C39: the conversion of a date to seconds agrees with the calendar except in leap years: for a date from 1970 on, it gives the number of
  seconds since the beginning of 1970, plus one day too many in January and February of every leap year, and in the whole of a leap year that is
  a multiple of 400 such as the year 2000.\<close>

theorem tm2sec_calendar:
  assumes "70 \<le> tm_year t" and "0 \<le> tm_mon t" "tm_mon t < 12"
  shows "tm2sec t = Some (calendar_sec t + (if leap (tm_year t + 1900) \<and> (tm_mon t \<le> 1 \<or> (tm_year t + 1900) mod 400 = 0) then 86400 else 0))"
proof -
  let ?y = "tm_year t + 1900"
  have "?y = (1969 + int (nat (tm_year t - 70))) + 1"
    using assms(1) by simp
  then have d: "?y div k = (1969 + int (nat (tm_year t - 70))) div k + (if ?y mod k = 0 then 1 else 0)" if "0 < k" for k
    using div_next [OF that] by metis
  have y: "tm_year t mod 4 = 0 \<longleftrightarrow> ?y mod 4 = 0" "tm_year t mod 100 = 0 \<longleftrightarrow> ?y mod 100 = 0"
    by presburger+
  have dvd: "?y mod 4 = 0" if "?y mod 100 = 0"
    using that by presburger
  have dvd': "?y mod 100 = 0" if "?y mod 400 = 0"
    using that by presburger
  have n: "int (nat (tm_year t - 70)) = tm_year t - 70"
    using assms(1) by simp
  define b4 b100 b400 where b: "b4 \<longleftrightarrow> ?y mod 4 = 0" "b100 \<longleftrightarrow> ?y mod 100 = 0" "b400 \<longleftrightarrow> ?y mod 400 = 0"
  define late where "late \<longleftrightarrow> tm_mon t > 1"
  have imp: "(b100 \<longrightarrow> b4) \<and> (b400 \<longrightarrow> b100)"
    unfolding b using dvd dvd' by (intro conjI impI)
  have lp: "leap ?y \<longleftrightarrow> b4 \<and> (b100 \<longrightarrow> b400)"
    unfolding b leap_def imp_conv_disj ..
  have nums: "1969 div 4 = (492 :: int)" "1969 div 100 = (19 :: int)" "1969 div 400 = (4 :: int)"
    by simp_all
  have q: "(1969 + int (nat (tm_year t - 70))) div k = ?y div k - of_bool (?y mod k = 0)" if "0 < k" for k
    unfolding d [OF that] of_bool_def by (rule add_diff_cancel_right' [symmetric])
  have days: "days_before_year (nat (tm_year t - 70)) =
      365 * (tm_year t - 70) + (?y div 4 - of_bool b4 - 492) - (?y div 100 - of_bool b100 - 19) + (?y div 400 - of_bool b400 - 4)"
    unfolding days_before_year_closed b nums unfolding q [OF zero_less_numeral] unfolding n ..
  have month: "days_before_month ?y (nat (tm_mon t)) = month_in_days ! nat (tm_mon t) + of_bool (late \<and> leap ?y)"
    unfolding month_sum [OF assms(2,3)] late_def of_bool_def ..
  have "tm_mon t > 1 \<and> tm_year t mod 4 = 0 \<and> \<not> (tm_year t mod 100 \<noteq> 0 \<or> ?y mod 400 \<noteq> 0) \<longleftrightarrow> late \<and> b400"
    unfolding y b [symmetric] late_def [symmetric] using imp by blast
  then have "tm2sec t = Some ((month_in_days ! nat (tm_mon t) + (?y div 4 - 492) - (?y div 100 - 19) + (?y div 400 - 4) + of_bool (late \<and> b400) +
      (tm_year t - 70) * 365 + (tm_mday t - 1)) * 86400 + (tm_hour t * 3600 + tm_min t * 60 + tm_sec t))"
    using assms by (simp only: tm2sec_def Let_def) simp
  moreover have "calendar_sec t = (365 * (tm_year t - 70) + (?y div 4 - of_bool b4 - 492) - (?y div 100 - of_bool b100 - 19) + (?y div 400 - of_bool b400 - 4) +
      (month_in_days ! nat (tm_mon t) + of_bool (late \<and> leap ?y)) + tm_mday t - 1) * 86400 + (tm_hour t * 3600 + tm_min t * 60 + tm_sec t)"
    unfolding calendar_sec_def days month by (simp only: add.assoc)
  moreover have "leap ?y \<and> (tm_mon t \<le> 1 \<or> ?y mod 400 = 0) \<longleftrightarrow> leap ?y \<and> (\<not> late \<or> b400)"
    unfolding b late_def by auto
  ultimately show ?thesis
    using tm_balance [OF imp lp] by (simp only:)
qed

theorem tm2sec_calendar_witness:
  "tm2sec \<lparr>tm_sec = 0, tm_min = 0, tm_hour = 0, tm_mday = 1, tm_mon = 0, tm_year = 72\<rparr> = Some (63072000 + 86400)"
proof -
  let ?t = "\<lparr>tm_sec = 0, tm_min = 0, tm_hour = 0, tm_mday = 1, tm_mon = 0, tm_year = 72\<rparr>"
  have "leap 1972" "days_before_year 2 = 730"
    by (simp_all add: leap_def numeral_2_eq_2)
  then have "calendar_sec ?t = 63072000"
    by (simp add: calendar_sec_def)
  then show ?thesis
    using tm2sec_calendar [of ?t] \<open>leap 1972\<close> by simp
qed

end
