(* ===== verification/Itimer.thy ===== *)
theory Itimer
  imports Time
begin

text \<open>
  Interval timers: the rest of \<^verbatim>\<open>sys/kern/time.c\<close>.  The time is an argument, as is whether the callout could be stopped; the
  result names the tick for which the callout is scheduled.
\<close>

section \<open>Operations on time values\<close>

definition timerclear :: timeval where
  "timerclear = \<lparr>tv_sec = 0, tv_usec = 0\<rparr>"

definition timerisset :: "timeval \<Rightarrow> bool" where
  "timerisset tv \<longleftrightarrow> tv_sec tv \<noteq> 0 \<or> tv_usec tv \<noteq> 0"

definition timercmp_le :: "timeval \<Rightarrow> timeval \<Rightarrow> bool" where
  "timercmp_le tv uv \<longleftrightarrow> (if tv_sec tv = tv_sec uv then tv_usec tv \<le> tv_usec uv else tv_sec tv \<le> tv_sec uv)"

definition timeradd :: "timeval \<Rightarrow> timeval \<Rightarrow> timeval" where
  "timeradd tv uv =
     (let vv = \<lparr>tv_sec = tv_sec tv + tv_sec uv, tv_usec = tv_usec tv + tv_usec uv\<rparr>
      in if tv_usec vv \<ge> 1000000 then \<lparr>tv_sec = tv_sec vv + 1, tv_usec = tv_usec vv - 1000000\<rparr> else vv)"

definition timersub :: "timeval \<Rightarrow> timeval \<Rightarrow> timeval" where
  "timersub tv uv =
     (let vv = \<lparr>tv_sec = tv_sec tv - tv_sec uv, tv_usec = tv_usec tv - tv_usec uv\<rparr>
      in if tv_usec vv < 0 then \<lparr>tv_sec = tv_sec vv - 1, tv_usec = tv_usec vv + 1000000\<rparr> else vv)"

definition tv2ts :: "timeval \<Rightarrow> timespec" where
  "tv2ts tv = \<lparr>ts_sec = tv_sec tv, ts_nsec = tv_usec tv * 1000\<rparr>"

definition tv2hz :: "timeval \<Rightarrow> 32 word" where
  "tv2hz tv = ts2hz (tv2ts tv)"

definition microuptime :: "bintime \<Rightarrow> timeval" where
  "microuptime btnow = bt2tv btnow"

section \<open>The timer of a process\<close>

record kitimer =
  kit_next :: timeval
  kit_interval :: timeval

record itimerval =
  it_interval :: timeval
  it_value :: timeval

definition kitimer_get :: "bintime \<Rightarrow> kitimer \<Rightarrow> itimerval" where
  "kitimer_get btnow it =
     (let now = microuptime btnow
      in \<lparr>it_interval = kit_interval it,
          it_value = (if timercmp_le (kit_next it) now then timerclear else timersub (kit_next it) now)\<rparr>)"

definition ITIMER_REAL :: int where "ITIMER_REAL = 0"
definition ITIMER_VIRTUAL :: int where "ITIMER_VIRTUAL = 1"
definition ITIMER_PROF :: int where "ITIMER_PROF = 2"

definition do_getitimer :: "bintime \<Rightarrow> kitimer \<Rightarrow> int \<Rightarrow> errno + itimerval" where
  "do_getitimer btnow it which =
     (if which = ITIMER_PROF \<or> which = ITIMER_VIRTUAL then Inl ENOTSUP
      else if which \<noteq> ITIMER_REAL then Inl EINVAL
      else Inr (kitimer_get btnow it))"

partial_function (option) skip_periods :: "timeval \<Rightarrow> timeval \<Rightarrow> timeval \<Rightarrow> timeval option" where
  "skip_periods next interval now =
     (if timercmp_le next now then skip_periods (timeradd next interval) interval now else Some next)"

text \<open>The result: whether \<^verbatim>\<open>SIGALRM\<close> is sent, the timer, and the tick for which the callout is set again.\<close>

definition kitimer_timeout :: "bool \<Rightarrow> bintime \<Rightarrow> kitimer \<Rightarrow> (bool \<times> kitimer \<times> 32 word option) option" where
  "kitimer_timeout alive btnow it =
     (if \<not> alive then Some (False, it, None)
      else if \<not> timerisset (kit_interval it) then Some (True, it\<lparr>kit_next := timerclear\<rparr>, None)
      else do {
        next \<leftarrow> skip_periods (timeradd (kit_next it) (kit_interval it)) (kit_interval it) (microuptime btnow);
        Some (True, it\<lparr>kit_next := next\<rparr>, Some (tv2hz next - 1))
      })"

definition kitimer_setup :: "bintime \<Rightarrow> kitimer \<Rightarrow> itimerval \<Rightarrow> kitimer \<times> 32 word option" where
  "kitimer_setup btnow it itval =
     (if timerisset (it_value itval) then
        (let it = \<lparr>kit_next = timeradd (it_value itval) (microuptime btnow), kit_interval = it_interval itval\<rparr>
         in (it, Some (tv2hz (kit_next it) - 1)))
      else (it\<lparr>kit_next := timerclear, kit_interval := timerclear\<rparr>, None))"

text \<open>The answers of \<^verbatim>\<open>callout_stop\<close>; each failure waits for the callout to finish.\<close>

fun kitimer_stop_loop :: "bool list \<Rightarrow> unit option" where
  "kitimer_stop_loop [] = None"
| "kitimer_stop_loop (stopped # stops) = (if stopped then Some () else kitimer_stop_loop stops)"

definition do_setitimer ::
  "bintime \<Rightarrow> bool list \<Rightarrow> kitimer \<Rightarrow> int \<Rightarrow> itimerval \<Rightarrow> bool \<Rightarrow> ((errno option \<times> itimerval option) \<times> kitimer \<times> 32 word option) option" where
  "do_setitimer btnow stops it which itval oval =
     (if which = ITIMER_PROF \<or> which = ITIMER_VIRTUAL then Some ((Some ENOTSUP, None), it, None)
      else if which \<noteq> ITIMER_REAL then Some ((Some EINVAL, None), it, None)
      else if timeval_invalid (it_value itval) \<or> timeval_invalid (it_interval itval) then Some ((Some EINVAL, None), it, None)
      else if tv2hz (it_value itval) = 2 ^ 32 - 1 \<or> tv2hz (it_interval itval) = 2 ^ 32 - 1 then Some ((Some EINVAL, None), it, None)
      else do {
        kitimer_stop_loop stops;
        let old = (if oval then Some (kitimer_get btnow it) else None);
        Some ((None, old), kitimer_setup btnow it itval)
      })"

section \<open>Times as numbers\<close>

definition tv_val :: "timeval \<Rightarrow> int" where
  "tv_val tv = tv_sec tv * 1000000 + tv_usec tv"

definition normal :: "timeval \<Rightarrow> bool" where
  "normal tv \<longleftrightarrow> 0 \<le> tv_usec tv \<and> tv_usec tv < 1000000"

lemma normal_valid: "\<not> timeval_invalid tv \<longleftrightarrow> normal tv \<and> 0 \<le> tv_sec tv"
  by (auto simp: timeval_invalid_def normal_def)

lemma normal_clear [simp]: "normal timerclear" "tv_val timerclear = 0"
  by (simp_all add: normal_def timerclear_def tv_val_def)

lemma add_val [simp]: "tv_val (timeradd a b) = tv_val a + tv_val b"
  by (simp add: tv_val_def timeradd_def Let_def)

lemma sub_val [simp]: "tv_val (timersub a b) = tv_val a - tv_val b"
  by (simp add: tv_val_def timersub_def Let_def)

lemma normal_add [simp]: "normal a \<Longrightarrow> normal b \<Longrightarrow> normal (timeradd a b)"
  by (auto simp: normal_def timeradd_def Let_def)

lemma normal_sub [simp]: "normal a \<Longrightarrow> normal b \<Longrightarrow> normal (timersub a b)"
  by (auto simp: normal_def timersub_def Let_def)

lemma cmp_val: "normal a \<Longrightarrow> normal b \<Longrightarrow> timercmp_le a b \<longleftrightarrow> tv_val a \<le> tv_val b"
  by (auto simp: timercmp_le_def normal_def tv_val_def)

lemma normal_split: "normal a \<Longrightarrow> tv_sec a = tv_val a div 1000000 \<and> tv_usec a = tv_val a mod 1000000"
  by (simp add: normal_def tv_val_def)

lemma normal_eq: "normal a \<Longrightarrow> normal b \<Longrightarrow> tv_val a = tv_val b \<Longrightarrow> a = b"
  using normal_split [of a] normal_split [of b] by simp

lemma isset_val: "normal a \<Longrightarrow> timerisset a \<longleftrightarrow> tv_val a \<noteq> 0"
  using normal_eq [of a timerclear] by (auto simp: timerisset_def timerclear_def tv_val_def normal_def)

lemma normal_uptime [simp]: "normal (microuptime bt)"
  using scale_bounds [of 1000000 bt] by (simp add: microuptime_def bt2tv_def normal_def)

lemma skip_periods_ok:
  assumes "normal next" "normal interval" "normal now" "0 < tv_val interval"
  shows "\<exists>k nx. skip_periods next interval now = Some nx \<and> normal nx \<and> tv_val nx = tv_val next + int k * tv_val interval \<and> tv_val now < tv_val nx \<and>
    (k = 0 \<or> tv_val nx - tv_val interval \<le> tv_val now)"
  using assms
proof (induction "nat (tv_val now + 1 - tv_val next)" arbitrary: "next" rule: less_induct)
  case less
  show ?case
  proof (cases "timercmp_le next now")
    case False
    then show ?thesis
      using less.prems by (intro exI [of _ 0] exI [of _ "next"]) (simp add: skip_periods.simps cmp_val)
  next
    case True
    then have le: "tv_val next \<le> tv_val now"
      using less.prems by (simp add: cmp_val)
    obtain k nx where k: "skip_periods (timeradd next interval) interval now = Some nx" "normal nx"
      "tv_val nx = tv_val (timeradd next interval) + int k * tv_val interval" "tv_val now < tv_val nx" "k = 0 \<or> tv_val nx - tv_val interval \<le> tv_val now"
      using less.hyps [of "timeradd next interval"] less.prems le by auto
    then have "skip_periods next interval now = Some nx"
      using True by (simp add: skip_periods.simps [of "next"])
    then show ?thesis
      using k le by (intro exI [of _ "Suc k"] exI [of _ nx]) (auto simp: algebra_simps)
  qed
qed

text \<open>C36: when a periodic timer fires, the loop that skips missed periods ends, and the timer is set for the first of its expirations that lies
  in the future: the new expiration is a whole number of periods, at least one, after the one that fired, it is later than now, and either it
  is just one period away or the expiration before it has already passed.\<close>

theorem kitimer_timeout_next:
  assumes "\<not> timeval_invalid (kit_interval it)" and "timerisset (kit_interval it)" and "normal (kit_next it)"
  shows "\<exists>k nx. kitimer_timeout True btnow it = Some (True, it\<lparr>kit_next := nx\<rparr>, Some (tv2hz nx - 1)) \<and> 1 \<le> k \<and>
    tv_val nx = tv_val (kit_next it) + int k * tv_val (kit_interval it) \<and> tv_val (microuptime btnow) < tv_val nx \<and>
    (k = 1 \<or> tv_val nx - tv_val (kit_interval it) \<le> tv_val (microuptime btnow))"
proof -
  have n: "normal (kit_interval it)" "0 \<le> tv_sec (kit_interval it)"
    using assms(1) by (simp_all add: normal_valid)
  then have pos: "0 < tv_val (kit_interval it)"
    using assms(2) by (auto simp: timerisset_def tv_val_def normal_def)
  obtain k nx where k: "skip_periods (timeradd (kit_next it) (kit_interval it)) (kit_interval it) (microuptime btnow) = Some nx"
    "tv_val nx = tv_val (timeradd (kit_next it) (kit_interval it)) + int k * tv_val (kit_interval it)" "tv_val (microuptime btnow) < tv_val nx"
    "k = 0 \<or> tv_val nx - tv_val (kit_interval it) \<le> tv_val (microuptime btnow)"
    using skip_periods_ok [OF normal_add [OF assms(3) n(1)] n(1) normal_uptime pos] by blast
  then show ?thesis
    using assms(2) by (intro exI [of _ "Suc k"] exI [of _ nx]) (auto simp: kitimer_timeout_def algebra_simps)
qed

theorem kitimer_timeout_next_witness:
  "\<exists>k nx. kitimer_timeout True \<lparr>bt_sec = 10, bt_frac = 0\<rparr> \<lparr>kit_next = \<lparr>tv_sec = 2, tv_usec = 0\<rparr>, kit_interval = \<lparr>tv_sec = 3, tv_usec = 0\<rparr>\<rparr> =
     Some (True, \<lparr>kit_next = nx, kit_interval = \<lparr>tv_sec = 3, tv_usec = 0\<rparr>\<rparr>, Some (tv2hz nx - 1)) \<and> tv_val nx = 2000000 + int k * 3000000 \<and> 10000000 < tv_val nx"
proof -
  have "tv_val (microuptime \<lparr>bt_sec = 10, bt_frac = 0\<rparr>) = 10000000"
    by (simp add: microuptime_def bt2tv_def bt_scale_def tv_val_def)
  then show ?thesis
    using kitimer_timeout_next [of "\<lparr>kit_next = \<lparr>tv_sec = 2, tv_usec = 0\<rparr>, kit_interval = \<lparr>tv_sec = 3, tv_usec = 0\<rparr>\<rparr>" "\<lparr>bt_sec = 10, bt_frac = 0\<rparr>"]
    by (simp add: timeval_invalid_def timerisset_def normal_def tv_val_def) blast
qed


end
