(* ===== verification/Sched.thy ===== *)
theory Sched
  imports Time
begin

text \<open>
  Threads and the scheduler: \<^verbatim>\<open>sys/kern/sched.c\<close>, \<^verbatim>\<open>sys/kern/runq.c\<close>, \<^verbatim>\<open>include/sys/priority.h\<close>, the scheduler's part of
  \<^verbatim>\<open>include/sys/thread.h\<close> and of \<^verbatim>\<open>sys/kern/thread.c\<close>, and the preemption point of \<^verbatim>\<open>sys/kern/exception.c\<close>.  A thread is named
  by a number that stands for its address.  The kernel runs on one processor, so the state has one running thread, and a call that
  switches the context ends with another thread as the running one.  The readings of the clock are arguments.  The nesting counter
  \<open>td_idnest\<close> counts the sections of the callers (interrupt handlers, other spin locks) that disabled interrupts; the spin lock of a
  thread is never held at its end, so the sections below leave it as it is.  A failed assertion, a panic and the insertion or removal
  of a thread that would corrupt a queue are \<^term>\<open>None\<close>.
\<close>

section \<open>Threads and priorities\<close>

type_synonym prio = "8 word"

definition prio_gt :: "prio \<Rightarrow> prio \<Rightarrow> bool" where "prio_gt p q \<longleftrightarrow> p < q"
definition prio_lt :: "prio \<Rightarrow> prio \<Rightarrow> bool" where "prio_lt p q \<longleftrightarrow> p > q"
definition prio_le :: "prio \<Rightarrow> prio \<Rightarrow> bool" where "prio_le p q \<longleftrightarrow> p \<ge> q"

lemmas prio_defs = prio_gt_def prio_lt_def prio_le_def

definition prio_ithread :: "int \<Rightarrow> prio" where
  "prio_ithread n = of_int (n * (32 - 1) sdiv (256 - 1))"

definition prio_kthread :: "int \<Rightarrow> prio" where
  "prio_kthread n = of_int (32 + n * (64 - 1) sdiv (256 - 1))"

definition prio_uthread :: "int \<Rightarrow> prio" where
  "prio_uthread n = of_int (32 + 64 + n * (160 - 1) sdiv (256 - 1))"

datatype thread_state =
  TDS_INACTIVE | TDS_READY | TDS_RUNNING | TDS_SLEEPING | TDS_BLOCKED | TDS_STOPPED | TDS_DEAD

record thread =
  td_lock :: "nat option"
  td_state :: thread_state
  td_flags :: "32 word"
  td_idnest :: nat
  td_pdnest :: nat
  td_retval :: int
  td_wchan :: "nat option"
  td_waitpt :: "nat option"
  td_blocked :: "nat option"
  td_turnstile :: "nat option"
  td_contested :: "nat list"
  td_base_prio :: prio
  td_prio :: prio
  td_slice :: int
  td_rtime :: bintime
  td_last_rtime :: bintime
  td_slptime :: bintime
  td_last_slptime :: bintime
  td_nctxsw :: "32 word"

definition TDF_SLICEEND :: "32 word" where "TDF_SLICEEND = 0x01"
definition TDF_NEEDSWITCH :: "32 word" where "TDF_NEEDSWITCH = 0x02"
definition TDF_STOPPING :: "32 word" where "TDF_STOPPING = 0x08"
definition TDF_BORROWING :: "32 word" where "TDF_BORROWING = 0x10"

definition td_is_ready :: "thread \<Rightarrow> bool" where "td_is_ready td \<longleftrightarrow> td_state td = TDS_READY"
definition td_is_blocked :: "thread \<Rightarrow> bool" where "td_is_blocked td \<longleftrightarrow> td_state td = TDS_BLOCKED"
definition td_is_running :: "thread \<Rightarrow> bool" where "td_is_running td \<longleftrightarrow> td_state td = TDS_RUNNING"
definition td_is_sleeping :: "thread \<Rightarrow> bool" where "td_is_sleeping td \<longleftrightarrow> td_state td = TDS_SLEEPING"
definition td_is_stopped :: "thread \<Rightarrow> bool" where "td_is_stopped td \<longleftrightarrow> td_state td = TDS_STOPPED"

definition td_is_borrowing :: "thread \<Rightarrow> bool" where
  "td_is_borrowing td \<longleftrightarrow> td_flags td AND TDF_BORROWING \<noteq> 0"

lemmas td_is_defs [simp] = td_is_ready_def td_is_blocked_def td_is_running_def td_is_sleeping_def td_is_stopped_def

section \<open>Run queues\<close>

definition RQ_NQS :: nat where "RQ_NQS = 64"
definition RQ_PPQ :: nat where "RQ_PPQ = 4"

definition runq_init :: "nat list list" where
  "runq_init = replicate RQ_NQS []"

text \<open>The queue of a thread, by its active priority.\<close>

definition rq_index :: "thread \<Rightarrow> nat" where
  "rq_index td = unat (td_prio td) div RQ_PPQ"

definition runq_add :: "nat list list \<Rightarrow> nat \<Rightarrow> thread \<Rightarrow> nat list list option" where
  "runq_add rq t td =
     (if t \<in> set (concat rq) then None else Some (rq[rq_index td := rq ! rq_index td @ [t]]))"

fun runq_choose :: "nat list list \<Rightarrow> nat option" where
  "runq_choose [] = None"
| "runq_choose ([] # qs) = runq_choose qs"
| "runq_choose ((t # _) # _) = Some t"

definition runq_remove :: "nat list list \<Rightarrow> nat \<Rightarrow> thread \<Rightarrow> nat list list option" where
  "runq_remove rq t td =
     (if t \<in> set (rq ! rq_index td) then Some (rq[rq_index td := remove1 t (rq ! rq_index td)]) else None)"

section \<open>State of the scheduler and locks of threads\<close>

record sched =
  threads :: "nat \<Rightarrow> thread option"
  runq :: "nat list list"
  sched_active :: bool
  curthread :: nat
  idle_thread :: "nat option"
  no_switch :: bool

definition spin_owned :: "'a sched_scheme \<Rightarrow> thread \<Rightarrow> bool" where
  "spin_owned s td \<longleftrightarrow> td_lock td = Some (curthread s)"

definition set_td :: "nat \<Rightarrow> thread \<Rightarrow> 'a sched_scheme \<Rightarrow> 'a sched_scheme" where
  "set_td t td s = s\<lparr>threads := (threads s)(t \<mapsto> td)\<rparr>"

definition spin_lock :: "nat \<Rightarrow> 'a sched_scheme \<Rightarrow> 'a sched_scheme option" where
  "spin_lock t s = do {
     td \<leftarrow> threads s t;
     kassert (\<not> spin_owned s td);
     kassert (td_lock td = None);
     Some (set_td t (td\<lparr>td_lock := Some (curthread s)\<rparr>) s)
   }"

definition spin_unlock :: "nat \<Rightarrow> 'a sched_scheme \<Rightarrow> 'a sched_scheme option" where
  "spin_unlock t s = do {
     td \<leftarrow> threads s t;
     kassert (spin_owned s td);
     Some (set_td t (td\<lparr>td_lock := None\<rparr>) s)
   }"

definition with_td_lock :: "nat \<Rightarrow> ('a sched_scheme \<Rightarrow> 'a sched_scheme option) \<Rightarrow> 'a sched_scheme \<Rightarrow> 'a sched_scheme option" where
  "with_td_lock t f s = do {
     s \<leftarrow> spin_lock t s;
     s \<leftarrow> f s;
     spin_unlock t s
   }"

section \<open>Waking threads and changing priorities\<close>

definition SLICE :: int where "SLICE = 10"

definition sched_wakeup :: "bintime \<Rightarrow> nat \<Rightarrow> int \<Rightarrow> 'a sched_scheme \<Rightarrow> 'a sched_scheme option" where
  "sched_wakeup now t reason s = do {
     td \<leftarrow> threads s t;
     kassert (spin_owned s td);
     kassert (t \<noteq> curthread s);
     kassert (\<not> td_is_running td);
     let td = td\<lparr>td_slptime := bintime_add (td_slptime td) (bintime_sub now (td_last_slptime td)),
                 td_state := TDS_READY, td_slice := SLICE, td_retval := reason\<rparr>;
     rq \<leftarrow> runq_add (runq s) t td;
     let s = set_td t td s\<lparr>runq := rq\<rparr>;
     oldtd \<leftarrow> threads s (curthread s);
     Some (if prio_gt (td_prio td) (td_prio oldtd)
           then set_td (curthread s) (oldtd\<lparr>td_flags := td_flags oldtd OR TDF_NEEDSWITCH\<rparr>) s else s)
   }"

definition sched_add :: "bintime \<Rightarrow> nat \<Rightarrow> 'a sched_scheme \<Rightarrow> 'a sched_scheme option" where
  "sched_add now t s = with_td_lock t (sched_wakeup now t 0) s"

definition sched_set_active_prio :: "nat \<Rightarrow> prio \<Rightarrow> 'a sched_scheme \<Rightarrow> 'a sched_scheme option" where
  "sched_set_active_prio t prio s = do {
     td \<leftarrow> threads s t;
     kassert (spin_owned s td);
     if td_prio td = prio then Some s
     else if td_is_ready td then do {
       rq \<leftarrow> runq_remove (runq s) t td;
       let td = td\<lparr>td_prio := prio\<rparr>;
       rq \<leftarrow> runq_add rq t td;
       Some (set_td t td s\<lparr>runq := rq\<rparr>)
     } else Some (set_td t (td\<lparr>td_prio := prio\<rparr>) s)
   }"

definition sched_lend_prio :: "nat \<Rightarrow> prio \<Rightarrow> 'a sched_scheme \<Rightarrow> 'a sched_scheme option" where
  "sched_lend_prio t prio s = do {
     td \<leftarrow> threads s t;
     kassert (spin_owned s td);
     kassert (prio_lt (td_prio td) prio);
     sched_set_active_prio t prio (set_td t (td\<lparr>td_flags := td_flags td OR TDF_BORROWING\<rparr>) s)
   }"

definition sched_unlend_prio :: "nat \<Rightarrow> prio \<Rightarrow> 'a sched_scheme \<Rightarrow> 'a sched_scheme option" where
  "sched_unlend_prio t prio s = do {
     td \<leftarrow> threads s t;
     kassert (spin_owned s td);
     if prio_le prio (td_base_prio td)
     then sched_set_active_prio t (td_base_prio td) (set_td t (td\<lparr>td_flags := td_flags td AND NOT TDF_BORROWING\<rparr>) s)
     else sched_lend_prio t prio s
   }"

section \<open>Switching threads\<close>

definition sched_choose :: "bintime \<Rightarrow> 'a sched_scheme \<Rightarrow> (nat \<times> 'a sched_scheme) option" where
  "sched_choose now s =
     (case runq_choose (runq s) of
        None \<Rightarrow> do { i \<leftarrow> idle_thread s; Some (i, s) }
      | Some t \<Rightarrow> do {
          td \<leftarrow> threads s t;
          rq \<leftarrow> runq_remove (runq s) t td;
          Some (t, set_td t (td\<lparr>td_state := TDS_RUNNING, td_last_rtime := now\<rparr>) s\<lparr>runq := rq\<rparr>)
        })"

text \<open>On AArch64 the context switch makes its argument the running thread and restores the registers that were saved when it was switched
  out.\<close>

definition ctx_switch :: "nat \<Rightarrow> 'a sched_scheme \<Rightarrow> 'a sched_scheme option" where
  "ctx_switch newt s = do { _ \<leftarrow> threads s newt; Some (s\<lparr>curthread := newt\<rparr>) }"

definition sched_switch :: "bintime \<Rightarrow> bintime \<Rightarrow> 'a sched_scheme \<Rightarrow> 'a sched_scheme option" where
  "sched_switch now now' s = do {
     let t = curthread s;
     td \<leftarrow> threads s t;
     if \<not> sched_active s then spin_unlock t s
     else do {
       kassert (spin_owned s td);
       kassert (\<not> td_is_running td);
       let now = bintime_sub now (td_last_rtime td);
       let td = td\<lparr>td_flags := td_flags td AND NOT (TDF_SLICEEND OR TDF_NEEDSWITCH), td_rtime := bintime_add (td_rtime td) now\<rparr>;
       rq \<leftarrow> (if td_is_ready td \<and> Some t \<noteq> idle_thread s then runq_add (runq s) t td else Some (runq s));
       let td = (if td_is_sleeping td then td\<lparr>td_last_slptime := now\<rparr> else td);
       (newt, s) \<leftarrow> sched_choose now' (set_td t td s\<lparr>runq := rq\<rparr>);
       if t = newt then spin_unlock t s
       else do {
         td \<leftarrow> threads s t;
         let s = set_td t (td\<lparr>td_nctxsw := td_nctxsw td + 1\<rparr>) s;
         kassert (\<not> no_switch s);
         s \<leftarrow> spin_unlock t s;
         ctx_switch newt s
       }
     }
   }"

definition thread_yield :: "bintime \<Rightarrow> bintime \<Rightarrow> 'a sched_scheme \<Rightarrow> 'a sched_scheme option" where
  "thread_yield now now' s = do {
     s \<leftarrow> spin_lock (curthread s) s;
     td \<leftarrow> threads s (curthread s);
     sched_switch now now' (set_td (curthread s) (td\<lparr>td_state := TDS_READY\<rparr>) s)
   }"

section \<open>Preemption\<close>

definition sched_clock :: "'a sched_scheme \<Rightarrow> 'a sched_scheme option" where
  "sched_clock s = do {
     let t = curthread s;
     td \<leftarrow> threads s t;
     kassert (td_idnest td > 0);
     if Some t = idle_thread s then Some s
     else do {
       s \<leftarrow> spin_lock t s;
       td \<leftarrow> threads s t;
       let td = td\<lparr>td_slice := td_slice td - 1\<rparr>;
       spin_unlock t (set_td t (if td_slice td \<le> 0 then td\<lparr>td_flags := td_flags td OR (TDF_NEEDSWITCH OR TDF_SLICEEND)\<rparr> else td) s)
     }
   }"

definition sched_maybe_preempt :: "bintime \<Rightarrow> bintime \<Rightarrow> 'a sched_scheme \<Rightarrow> 'a sched_scheme option" where
  "sched_maybe_preempt now now' s = do {
     let t = curthread s;
     td \<leftarrow> threads s t;
     if td_pdnest td > 0 \<or> td_idnest td > 0 then Some s
     else do {
       s \<leftarrow> spin_lock t s;
       td \<leftarrow> threads s t;
       if td_flags td AND TDF_NEEDSWITCH \<noteq> 0 then sched_switch now now' (set_td t (td\<lparr>td_state := TDS_READY\<rparr>) s)
       else spin_unlock t s
     }
   }"

definition preempt_disable :: "'a sched_scheme \<Rightarrow> 'a sched_scheme option" where
  "preempt_disable s = do {
     td \<leftarrow> threads s (curthread s);
     Some (set_td (curthread s) (td\<lparr>td_pdnest := td_pdnest td + 1\<rparr>) s)
   }"

definition preempt_enable :: "bintime \<Rightarrow> bintime \<Rightarrow> 'a sched_scheme \<Rightarrow> 'a sched_scheme option" where
  "preempt_enable now now' s = do {
     td \<leftarrow> threads s (curthread s);
     kassert (td_pdnest td > 0);
     sched_maybe_preempt now now' (set_td (curthread s) (td\<lparr>td_pdnest := td_pdnest td - 1\<rparr>) s)
   }"

definition on_exc_leave :: "bintime \<Rightarrow> bintime \<Rightarrow> 'a sched_scheme \<Rightarrow> 'a sched_scheme option" where
  "on_exc_leave now now' s = do {
     let t = curthread s;
     td \<leftarrow> threads s t;
     if td_pdnest td > 0 then Some s
     else if td_flags td AND TDF_NEEDSWITCH \<noteq> 0 then do {
       s \<leftarrow> spin_lock t s;
       td \<leftarrow> threads s t;
       sched_switch now now' (set_td t (td\<lparr>td_state := TDS_READY\<rparr>) s)
     } else Some s
   }"

definition thread_continue :: "bintime \<Rightarrow> nat \<Rightarrow> 'a sched_scheme \<Rightarrow> 'a sched_scheme option" where
  "thread_continue now t s = do {
     td \<leftarrow> threads s t;
     kassert (spin_owned s td);
     if td_flags td AND TDF_STOPPING \<noteq> 0 then Some (set_td t (td\<lparr>td_flags := td_flags td AND NOT TDF_STOPPING\<rparr>) s)
     else do {
       kassert (td_is_stopped td);
       sched_wakeup now t 0 s
     }
   }"

text \<open>The running thread becomes the idle thread; the loop that follows asks for a switch over and over.\<close>

definition sched_run_init :: "'a sched_scheme \<Rightarrow> 'a sched_scheme option" where
  "sched_run_init s = do {
     let t = curthread s;
     td \<leftarrow> threads s t;
     kassert (idle_thread s = None);
     Some (set_td t (td\<lparr>td_slice := 0\<rparr>) s\<lparr>idle_thread := Some t, sched_active := True\<rparr>)
   }"

definition sched_run_loop :: "'a sched_scheme \<Rightarrow> 'a sched_scheme option" where
  "sched_run_loop s = do {
     let t = curthread s;
     s \<leftarrow> spin_lock t s;
     td \<leftarrow> threads s t;
     spin_unlock t (set_td t (td\<lparr>td_flags := td_flags td OR TDF_NEEDSWITCH\<rparr>) s)
   }"

section \<open>The run queues hold the ready threads\<close>

definition ready_threads :: "'a sched_scheme \<Rightarrow> nat set" where
  "ready_threads s = {t. \<exists>td. threads s t = Some td \<and> td_is_ready td}"

definition thread_index :: "'a sched_scheme \<Rightarrow> nat \<Rightarrow> nat" where
  "thread_index s t = rq_index (the (threads s t))"

text \<open>Every ready thread outside of \<open>X\<close> is on the queue of its priority, once, and nothing else is on a queue.\<close>

definition runq_inv :: "nat set \<Rightarrow> 'a sched_scheme \<Rightarrow> bool" where
  "runq_inv X s \<longleftrightarrow> buckets (runq s) RQ_NQS (ready_threads s - X) (thread_index s)"

lemma rq_index_bound [simp]: "rq_index td < RQ_NQS"
proof -
  have "unat (td_prio td) < 2 ^ 8"
    by (rule order_less_le_trans [OF unsigned_less]) simp
  then show ?thesis
    by (simp add: rq_index_def RQ_NQS_def RQ_PPQ_def)
qed

lemma set_td_simps [simp]:
  "threads (set_td t td s) = (threads s)(t \<mapsto> td)" "runq (set_td t td s) = runq s" "curthread (set_td t td s) = curthread s"
  "idle_thread (set_td t td s) = idle_thread s" "sched_active (set_td t td s) = sched_active s" "no_switch (set_td t td s) = no_switch s"
  by (simp_all add: set_td_def)

lemma set_td_twice [simp]: "set_td t td (set_td t td0 s) = set_td t td s"
  by (simp add: set_td_def)

lemma rq_index_simps [simp]:
  "rq_index (td\<lparr>td_lock := l\<rparr>) = rq_index td" "rq_index (td\<lparr>td_state := st\<rparr>) = rq_index td" "rq_index (td\<lparr>td_flags := f\<rparr>) = rq_index td"
  "rq_index (td\<lparr>td_nctxsw := n\<rparr>) = rq_index td" "rq_index (td\<lparr>td_last_rtime := b\<rparr>) = rq_index td"
  by (simp_all add: rq_index_def)

lemma set_td_runq: "set_td t td s\<lparr>runq := rq\<rparr> = set_td t td (s\<lparr>runq := rq\<rparr>)"
  by (simp add: set_td_def)

lemma ready_threads_upd: "ready_threads (set_td t td s) = (if td_is_ready td then insert t (ready_threads s) else ready_threads s - {t})"
  by (auto simp: ready_threads_def)

lemma ready_threads_runq [simp]: "ready_threads (s\<lparr>runq := rq\<rparr>) = ready_threads s"
  by (simp add: ready_threads_def)

lemma thread_index_upd: "thread_index (set_td t td s) = (thread_index s)(t := rq_index td)"
  by (auto simp: thread_index_def)

lemma thread_index_runq [simp]: "thread_index (s\<lparr>runq := rq\<rparr>) = thread_index s"
  by (auto simp: thread_index_def)

lemma runq_inv_set:
  assumes "runq_inv X s" and "t \<in> X \<or> (td_is_ready td \<longleftrightarrow> t \<in> ready_threads s) \<and> (td_is_ready td \<longrightarrow> rq_index td = thread_index s t)"
  shows "runq_inv X (set_td t td s)"
proof -
  have "ready_threads (set_td t td s) - X = ready_threads s - X"
    using assms(2) by (auto simp: ready_threads_upd)
  then show ?thesis
    using assms by (auto simp: runq_inv_def thread_index_upd ready_threads_upd intro: buckets_cong)
qed

lemma runq_inv_drop: "runq_inv (insert t X) s \<Longrightarrow> t \<notin> ready_threads s \<Longrightarrow> runq_inv X s"
  by (simp add: runq_inv_def)

lemma runq_inv_insert: "runq_inv X s \<Longrightarrow> t \<notin> ready_threads s \<Longrightarrow> runq_inv (insert t X) s"
  by (simp add: runq_inv_def)

lemma runq_inv_add:
  assumes "runq_inv X s" and "t \<in> X \<or> t \<notin> ready_threads s" and "td_is_ready td"
  obtains rq where "runq_add (runq s) t td = Some rq" and "rq = (runq s)[rq_index td := runq s ! rq_index td @ [t]]"
    and "runq_inv (X - {t}) (set_td t td s\<lparr>runq := rq\<rparr>)"
proof -
  let ?i = "thread_index (set_td t td s)"
  have b: "buckets (runq s) RQ_NQS (ready_threads s - X) ?i"
    using assms(1,2) by (auto simp: runq_inv_def thread_index_upd intro: buckets_cong)
  have "t \<notin> set (concat (runq s))"
    unfolding buckets_set [OF b] using assms(2) by auto
  moreover have "ready_threads (set_td t td s) - (X - {t}) = insert t (ready_threads s - X)"
    using assms(3) by (auto simp: ready_threads_upd)
  moreover have "buckets ((runq s)[rq_index td := runq s ! rq_index td @ [t]]) RQ_NQS (insert t (ready_threads s - X)) ?i"
    using buckets_append [OF b, of t] assms(2) by (auto simp: thread_index_upd)
  ultimately show ?thesis
    by (intro that) (simp_all add: runq_add_def runq_inv_def)
qed

lemma runq_inv_remove:
  assumes "runq_inv X s" and "threads s t = Some td" "td_is_ready td" "t \<notin> X"
  obtains rq where "runq_remove (runq s) t td = Some rq" and "rq = (runq s)[rq_index td := remove1 t (runq s ! rq_index td)]"
    and "runq_inv (insert t X) (s\<lparr>runq := rq\<rparr>)"
proof -
  have b: "buckets (runq s) RQ_NQS (ready_threads s - X) (thread_index s)"
    using assms(1) by (simp add: runq_inv_def)
  have t: "t \<in> ready_threads s - X" "thread_index s t = rq_index td"
    using assms(2-4) by (auto simp: ready_threads_def thread_index_def)
  have "t \<in> set (runq s ! rq_index td)"
    using buckets_mem [OF b t(1)] t(2) by simp
  moreover have "ready_threads s - insert t X = ready_threads s - X - {t}"
    by blast
  ultimately show ?thesis
    using buckets_remove_at [OF b t(1)] t(2) by (intro that) (simp_all add: runq_remove_def runq_inv_def)
qed

lemma runq_choose_None: "runq_choose rq = None \<longleftrightarrow> concat rq = []"
  by (induction rq rule: runq_choose.induct) simp_all

lemma runq_choose_Some:
  "runq_choose rq = Some t \<Longrightarrow> \<exists>i < length rq. rq ! i \<noteq> [] \<and> hd (rq ! i) = t \<and> (\<forall>j < i. rq ! j = [])"
proof (induction rq rule: runq_choose.induct)
  case (2 qs)
  then obtain i where "i < length qs" "qs ! i \<noteq> []" "hd (qs ! i) = t" "\<forall>j < i. qs ! j = []"
    by auto
  then show ?case
    by (intro exI [of _ "Suc i"]) (auto simp: less_Suc_eq_0_disj)
qed auto

lemma runq_chooseI:
  "i < length rq \<Longrightarrow> rq ! i = t # q \<Longrightarrow> \<forall>j < i. rq ! j = [] \<Longrightarrow> runq_choose rq = Some t"
proof (induction rq arbitrary: i)
  case (Cons r rq)
  show ?case
  proof (cases i)
    case (Suc k)
    have "(r # rq) ! 0 = []" "\<forall>j < k. (r # rq) ! Suc j = []"
      using Cons.prems(3) Suc by (blast, blast)
    then show ?thesis
      using Cons.IH [of k] Cons.prems(1,2) Suc by simp
  qed (use Cons.prems in simp)
qed simp

lemma runq_inv_head:
  assumes "runq_inv X s" and "runq_choose (runq s) = Some t"
  obtains td where "threads s t = Some td" "td_is_ready td" "t \<notin> X" "runq s ! rq_index td \<noteq> []" "hd (runq s ! rq_index td) = t"
    "\<forall>j < rq_index td. runq s ! j = []"
proof -
  obtain i where i: "i < length (runq s)" "runq s ! i \<noteq> []" "hd (runq s ! i) = t" "\<forall>j < i. runq s ! j = []"
    using runq_choose_Some [OF assms(2)] by auto
  then have "t \<in> ready_threads s - X" "thread_index s t = i"
    using assms(1) hd_in_set [OF i(2)] by (auto simp: runq_inv_def buckets_def)
  then show ?thesis
    using i that by (auto simp: ready_threads_def thread_index_def)
qed

section \<open>Invariant of the scheduler\<close>

definition running_threads :: "'a sched_scheme \<Rightarrow> nat set" where
  "running_threads s = {t. \<exists>td. threads s t = Some td \<and> td_is_running td}"

text \<open>What holds at every moment, also while the running thread is giving up the processor.\<close>

definition base_inv :: "nat \<Rightarrow> 'a sched_scheme \<Rightarrow> bool" where
  "base_inv i s \<longleftrightarrow> sched_active s \<and> idle_thread s = Some i \<and> {curthread s, i} \<subseteq> dom (threads s) \<and> runq_inv {curthread s, i} s \<and>
     running_threads s \<subseteq> {curthread s, i}"

text \<open>The threads whose locks the running thread holds.\<close>

definition locked :: "nat set \<Rightarrow> 'a sched_scheme \<Rightarrow> bool" where
  "locked L s \<longleftrightarrow> (\<forall>t td. threads s t = Some td \<longrightarrow> td_lock td = (if t \<in> L then Some (curthread s) else None))"

text \<open>Between operations the running thread is marked as running, unless it is the idle one, and no lock of a thread is held.\<close>

definition sched_inv :: "'a sched_scheme \<Rightarrow> bool" where
  "sched_inv s \<longleftrightarrow> (\<exists>i. base_inv i s \<and> locked {} s \<and> (curthread s = i \<or> curthread s \<in> running_threads s))"

lemma running_threads_upd: "running_threads (set_td t td s) = (if td_is_running td then insert t (running_threads s) else running_threads s - {t})"
  by (auto simp: running_threads_def)

lemma running_threads_runq [simp]: "running_threads (s\<lparr>runq := rq\<rparr>) = running_threads s"
  by (simp add: running_threads_def)

lemma running_threadsI: "threads s t = Some td \<Longrightarrow> t \<in> running_threads s \<longleftrightarrow> td_is_running td"
  by (simp add: running_threads_def)

lemma ready_threadsI: "threads s t = Some td \<Longrightarrow> t \<in> ready_threads s \<longleftrightarrow> td_is_ready td"
  by (simp add: ready_threads_def)

text \<open>A change to a thread that keeps its state, or the running thread's change to a state in which it does not run, and keeps the
  priority of a ready thread.\<close>

lemma base_inv_set:
  assumes "base_inv i s" and "threads s t = Some td"
    and "t \<in> {curthread s, i} \<or> td_state td' = td_state td \<and> (td_is_ready td \<longrightarrow> td_prio td' = td_prio td)"
  shows "base_inv i (set_td t td' s)"
proof -
  have "runq_inv {curthread s, i} (set_td t td' s)"
    using assms by (intro runq_inv_set) (auto simp: base_inv_def ready_threads_def thread_index_def rq_index_def)
  moreover have "running_threads (set_td t td' s) \<subseteq> {curthread s, i}"
    using assms(1,3) assms(2) [THEN running_threadsI] by (auto simp: running_threads_upd base_inv_def)
  ultimately show ?thesis
    using assms by (auto simp: base_inv_def)
qed

lemma locked_set: "locked L s \<Longrightarrow> td_lock td' = (if t \<in> L then Some (curthread s) else None) \<Longrightarrow> locked L (set_td t td' s)"
  by (simp add: locked_def)

lemma spin_lock_ok:
  assumes "locked L s" and "threads s t = Some td" and "t \<notin> L"
  shows "spin_lock t s = Some (set_td t (td\<lparr>td_lock := Some (curthread s)\<rparr>) s)"
    and "locked (insert t L) (set_td t (td\<lparr>td_lock := Some (curthread s)\<rparr>) s)"
  using assms by (auto simp: spin_lock_def locked_def spin_owned_def)

lemma spin_unlock_ok:
  assumes "locked L s" and "threads s t = Some td" and "t \<in> L"
  shows "spin_unlock t s = Some (set_td t (td\<lparr>td_lock := None\<rparr>) s)" and "locked (L - {t}) (set_td t (td\<lparr>td_lock := None\<rparr>) s)"
  using assms by (auto simp: spin_unlock_def locked_def spin_owned_def)

section \<open>Correctness of a switch\<close>

text \<open>The thread taken from the queues, as it is afterwards, and the queues without it.\<close>

definition chosen :: "nat \<Rightarrow> bintime \<Rightarrow> 'a sched_scheme \<Rightarrow> nat \<Rightarrow> nat list list \<Rightarrow> thread \<Rightarrow> bool" where
  "chosen i now s newt rq td \<longleftrightarrow>
     runq_choose (runq s) = None \<and> newt = i \<and> rq = runq s \<and> threads s i = Some td \<or>
     (\<exists>h q. runq_choose (runq s) = Some newt \<and> newt \<noteq> i \<and> threads s newt = Some h \<and> td_is_ready h \<and> td = h\<lparr>td_state := TDS_RUNNING, td_last_rtime := now\<rparr> \<and>
        runq s ! rq_index h = newt # q \<and> rq = (runq s)[rq_index h := q] \<and> (\<forall>j < rq_index h. runq s ! j = []))"

lemma sched_choose_ok:
  assumes "runq_inv {i} s" and "idle_thread s = Some i" and "i \<in> dom (threads s)"
  obtains newt rq td where "sched_choose now s = Some (newt, set_td newt td s\<lparr>runq := rq\<rparr>)" and "runq_inv {newt, i} (set_td newt td s\<lparr>runq := rq\<rparr>)"
    and "chosen i now s newt rq td"
proof (cases "runq_choose (runq s)")
  case None
  obtain td where td: "threads s i = Some td"
    using assms(3) by blast
  then have "set_td i td s\<lparr>runq := runq s\<rparr> = s"
    by (simp add: set_td_def fun_upd_idem)
  then show ?thesis
    using None assms(1,2) td that [of i "runq s" td] by (simp add: sched_choose_def chosen_def)
next
  case (Some t)
  obtain h where h: "threads s t = Some h" "td_is_ready h" "t \<notin> {i}" "runq s ! rq_index h \<noteq> []" "hd (runq s ! rq_index h) = t"
    "\<forall>j < rq_index h. runq s ! j = []"
    using runq_inv_head [OF assms(1) Some] by blast
  obtain rq where rq: "runq_remove (runq s) t h = Some rq" "rq = (runq s)[rq_index h := remove1 t (runq s ! rq_index h)]"
    "runq_inv (insert t {i}) (s\<lparr>runq := rq\<rparr>)"
    using runq_inv_remove [OF assms(1) h(1-3)] by blast
  let ?td = "h\<lparr>td_state := TDS_RUNNING, td_last_rtime := now\<rparr>"
  have "runq_inv {t, i} (set_td t ?td s\<lparr>runq := rq\<rparr>)"
    using runq_inv_set [OF rq(3), of t] by (simp add: set_td_runq)
  moreover have "runq s ! rq_index h = t # remove1 t (runq s ! rq_index h)"
    using h(4,5) by (cases "runq s ! rq_index h") auto
  ultimately show ?thesis
    using Some h rq(1,2) that [of t rq ?td] by (simp add: sched_choose_def chosen_def) blast
qed

text \<open>What a switch leaves alone: all of a thread but its lock, state, flags and statistics.\<close>

definition td_view :: "thread \<Rightarrow> nat option \<times> nat option \<times> nat list \<times> prio \<times> prio \<times> nat option" where
  "td_view td = (td_blocked td, td_turnstile td, td_contested td, td_base_prio td, td_prio td, td_wchan td)"

text \<open>The queues just before the choice, with the running thread put back if it is ready.\<close>

definition requeued :: "nat \<Rightarrow> 'a sched_scheme \<Rightarrow> nat list list" where
  "requeued i s = (let t = curthread s; td = the (threads s t)
     in if td_is_ready td \<and> t \<noteq> i then (runq s)[rq_index td := runq s ! rq_index td @ [t]] else runq s)"

lemma sched_switch_requeue:
  assumes "base_inv i s" and "threads s (curthread s) = Some td" and "td_is_ready td1 \<longleftrightarrow> td_is_ready td" "rq_index td1 = rq_index td"
  shows "(if td_is_ready td1 \<and> Some (curthread s) \<noteq> idle_thread s then runq_add (runq s) (curthread s) td1 else Some (runq s)) = Some (requeued i s)"
    and "runq_inv {i} (set_td (curthread s) td1 s\<lparr>runq := requeued i s\<rparr>)"
proof -
  let ?t = "curthread s"
  have b: "runq_inv {?t, i} s" "idle_thread s = Some i"
    using assms(1) by (simp_all add: base_inv_def)
  show "(if td_is_ready td1 \<and> Some ?t \<noteq> idle_thread s then runq_add (runq s) ?t td1 else Some (runq s)) = Some (requeued i s) "
    "runq_inv {i} (set_td ?t td1 s\<lparr>runq := requeued i s\<rparr>)"
  proof (atomize(full), cases "td_is_ready td1 \<and> ?t \<noteq> i")
    case True
    then have "insert ?t {i} - {?t} = {i}"
      by auto
    then show "(if td_is_ready td1 \<and> Some ?t \<noteq> idle_thread s then runq_add (runq s) ?t td1 else Some (runq s)) = Some (requeued i s) \<and>
        runq_inv {i} (set_td ?t td1 s\<lparr>runq := requeued i s\<rparr>)"
      using runq_inv_add [OF b(1), of ?t td1] True assms(2-4) b(2) by (auto simp: requeued_def)
  next
    case False
    have "runq_inv {?t, i} (set_td ?t td1 s)"
      using runq_inv_set [OF b(1)] by simp
    moreover have "?t = i \<or> ?t \<notin> ready_threads (set_td ?t td1 s)"
      using False by (auto simp: ready_threads_upd)
    ultimately have "runq_inv {i} (set_td ?t td1 s)"
      using runq_inv_drop by (cases "?t = i") auto
    moreover have "requeued i s = runq s"
      using False assms(2-4) by (auto simp: requeued_def)
    ultimately show "(if td_is_ready td1 \<and> Some ?t \<noteq> idle_thread s then runq_add (runq s) ?t td1 else Some (runq s)) = Some (requeued i s) \<and>
        runq_inv {i} (set_td ?t td1 s\<lparr>runq := requeued i s\<rparr>)"
      using False b(2) by (auto simp: set_td_runq)
  qed
qed

lemma curthread_upd_simps [simp]:
  "ready_threads (s\<lparr>curthread := c\<rparr>) = ready_threads s" "running_threads (s\<lparr>curthread := c\<rparr>) = running_threads s"
  "runq_inv X (s\<lparr>curthread := c\<rparr>) = runq_inv X s"
  by (simp_all add: ready_threads_def running_threads_def runq_inv_def thread_index_def [abs_def])

text \<open>The outcome of a switch away from thread \<open>t\<close>: which thread runs, what is left on the queues, and what stays as it was.\<close>

definition switched :: "nat \<Rightarrow> 'a sched_scheme \<Rightarrow> 'a sched_scheme \<Rightarrow> bool" where
  "switched i s s' \<longleftrightarrow>
     (\<exists>T R C. s' = s\<lparr>threads := T, runq := R, curthread := C\<rparr>) \<and>
     map_option td_view \<circ> threads s' = map_option td_view \<circ> threads s \<and>
     (\<forall>t. t \<noteq> curthread s' \<longrightarrow> map_option td_state (threads s' t) = map_option td_state (threads s t)) \<and>
     (\<forall>t. map_option td_is_blocked (threads s' t) = map_option td_is_blocked (threads s t)) \<and>
     (runq_choose (requeued i s) = None \<and> curthread s' = i \<and> runq s' = requeued i s \<or>
      (\<exists>h q. runq_choose (requeued i s) = Some (curthread s') \<and> curthread s' \<noteq> i \<and> threads s' (curthread s') = Some h \<and> td_is_running h \<and>
         requeued i s ! rq_index h = curthread s' # q \<and> runq s' = (requeued i s)[rq_index h := q] \<and> (\<forall>j < rq_index h. requeued i s ! j = [])))"

text \<open>The state that a switch ends in, in terms of the thread chosen.\<close>

definition switch_result :: "nat \<Rightarrow> nat list list \<Rightarrow> thread \<Rightarrow> thread \<Rightarrow> 'a sched_scheme \<Rightarrow> 'a sched_scheme" where
  "switch_result newt rq ntd td s =
     (if curthread s = newt then set_td newt (ntd\<lparr>td_lock := None\<rparr>) s\<lparr>runq := rq\<rparr>
      else set_td (curthread s) (td\<lparr>td_nctxsw := td_nctxsw td + 1, td_lock := None\<rparr>) (set_td newt ntd s\<lparr>runq := rq\<rparr>)\<lparr>curthread := newt\<rparr>)"

lemma sched_switch_eq:
  assumes b: "base_inv i s" and l: "locked {curthread s} s" and td: "threads s (curthread s) = Some td" "\<not> td_is_running td" and ns: "\<not> no_switch s"
  obtains td' newt rq ntd where "sched_switch now now' s = Some (switch_result newt rq ntd td' (set_td (curthread s) td' s\<lparr>runq := requeued i s\<rparr>))"
    and "runq_inv {newt, i} (set_td newt ntd (set_td (curthread s) td' s)\<lparr>runq := rq\<rparr>)"
    and "chosen i now' (set_td (curthread s) td' s\<lparr>runq := requeued i s\<rparr>) newt rq ntd"
    and "td_state td' = td_state td" "rq_index td' = rq_index td" "td_view td' = td_view td" "td_lock td' = Some (curthread s)"
proof -
  let ?t = "curthread s"
  define ran where "ran = bintime_sub now (td_last_rtime td)"
  define td1 where "td1 = td\<lparr>td_flags := td_flags td AND NOT (TDF_SLICEEND OR TDF_NEEDSWITCH), td_rtime := bintime_add (td_rtime td) ran\<rparr>"
  define td2 where "td2 = (if td_is_sleeping td1 then td1\<lparr>td_last_slptime := ran\<rparr> else td1)"
  define s1 where "s1 = set_td ?t td2 s\<lparr>runq := requeued i s\<rparr>"
  have td1: "td_is_ready td1 \<longleftrightarrow> td_is_ready td" "rq_index td1 = rq_index td" and
    td2: "td_state td2 = td_state td" "td_is_ready td2 \<longleftrightarrow> td_is_ready td" "rq_index td2 = rq_index td" "td_lock td2 = Some ?t" "td_view td2 = td_view td"
    using l td(1) by (auto simp: td1_def td2_def rq_index_def locked_def td_view_def)
  have i: "idle_thread s1 = Some i" "i \<in> dom (threads s1)" "sched_active s"
    using b by (auto simp: base_inv_def s1_def)
  have s1: "curthread s1 = ?t" "threads s1 = (threads s)(?t \<mapsto> td2)" "\<not> no_switch s1"
    using ns by (simp_all add: s1_def)
  have "runq_inv {i} s1"
    unfolding s1_def by (rule sched_switch_requeue(2) [OF b td(1) td2(2,3)])
  then obtain newt rq ntd where c: "sched_choose now' s1 = Some (newt, set_td newt ntd s1\<lparr>runq := rq\<rparr>)"
      "runq_inv {newt, i} (set_td newt ntd s1\<lparr>runq := rq\<rparr>)" "chosen i now' s1 newt rq ntd"
    using sched_choose_ok i(1,2) by metis
  let ?s2 = "set_td newt ntd s1\<lparr>runq := rq\<rparr>"
  have own: "spin_owned s td" "threads ?s2 ?t = Some (if ?t = newt then ntd else td2)" "td_lock ntd = td_lock (the (threads s1 newt))"
    using l td(1) c(3) by (auto simp: spin_owned_def locked_def s1(2) chosen_def)
  have "sched_switch now now' s = (if ?t = newt then spin_unlock ?t ?s2
       else spin_unlock ?t (set_td ?t (td2\<lparr>td_nctxsw := td_nctxsw td2 + 1\<rparr>) ?s2) \<bind> ctx_switch newt)"
    unfolding sched_switch_def Let_def td(1) bind.simps(2) ran_def [symmetric] td1_def [symmetric] td2_def [symmetric]
      sched_switch_requeue(1) [OF b td(1) td1] s1_def [symmetric] c(1) prod.case own(2)
    using own(1) td(2) s1(3) i(3) by simp
  also have "\<dots> = Some (switch_result newt rq ntd td2 s1)"
    using own(2,3) td2(4) s1(1,2) by (auto simp: spin_unlock_def spin_owned_def ctx_switch_def set_td_def switch_result_def)
  finally show thesis
    using that c(2,3) td2 unfolding s1_def by (simp add: set_td_runq)
qed

lemma sched_switch_ok:
  assumes b: "base_inv i s" and l: "locked {curthread s} s" and td: "threads s (curthread s) = Some td" "\<not> td_is_running td" and ns: "\<not> no_switch s"
  obtains s' where "sched_switch now now' s = Some s'" and "sched_inv s'" and "switched i s s'"
proof -
  let ?t = "curthread s"
  obtain td' newt rq ntd where sw: "sched_switch now now' s = Some (switch_result newt rq ntd td' (set_td ?t td' s\<lparr>runq := requeued i s\<rparr>))"
    and inv: "runq_inv {newt, i} (set_td newt ntd (set_td ?t td' s)\<lparr>runq := rq\<rparr>)"
    and c: "chosen i now' (set_td ?t td' s\<lparr>runq := requeued i s\<rparr>) newt rq ntd"
    and td': "td_state td' = td_state td" "rq_index td' = rq_index td" "td_view td' = td_view td" "td_lock td' = Some ?t"
    using sched_switch_eq [OF assms] by metis
  define s' where "s' = switch_result newt rq ntd td' (set_td ?t td' s\<lparr>runq := requeued i s\<rparr>)"
  note s' = s'_def switch_result_def set_td_runq
  obtain ntd0 where ntd0: "threads (set_td ?t td' s) newt = Some ntd0" "td_view ntd = td_view ntd0" "td_lock ntd = td_lock ntd0"
    "newt = i \<and> ntd = ntd0 \<or> td_is_running ntd"
    using c by (auto simp: td_view_def rq_index_def chosen_def)
  have "runq_inv {newt, i} s'"
  proof (cases "?t = newt")
    case True
    then show ?thesis
      using runq_inv_set [OF inv, of ?t "ntd\<lparr>td_lock := None\<rparr>"] unfolding s' by simp
  next
    case False
    then show ?thesis
      using inv td'(1,2) unfolding s' by (auto intro!: runq_inv_set simp: ready_threads_upd thread_index_upd split: if_splits)
  qed
  moreover have "curthread s' = newt" "newt = i \<or> newt \<in> running_threads s'" "runq s' = rq"
    "threads s' newt = Some (if ?t = newt then ntd\<lparr>td_lock := None\<rparr> else ntd)"
    using ntd0(4) unfolding s' by (auto simp: running_threads_upd)
  moreover have "running_threads s' \<subseteq> {newt, i}" "{newt, i} \<subseteq> dom (threads s')" "sched_active s'" "idle_thread s' = Some i"
    using b td(2) td'(1) ntd0 unfolding base_inv_def s' by (auto simp: running_threads_upd)
  moreover have "locked {} s'"
    using l ntd0 unfolding s' by (auto simp: locked_def split: if_splits)
  ultimately have inv': "sched_inv s'"
    unfolding sched_inv_def base_inv_def by blast
  have "s' = s\<lparr>threads := threads s', runq := runq s', curthread := curthread s'\<rparr>"
    unfolding s' by (simp add: set_td_def)
  moreover have "map_option td_view (threads s' x) = map_option td_view (threads s x)" for x
    using ntd0(1,2) td(1) td'(3) unfolding s' by (auto simp: td_view_def split: if_splits)
  moreover have "map_option td_state (threads s' x) = map_option td_state (threads s x)" if "x \<noteq> newt" for x
    using that td(1) td'(1) unfolding s' by auto
  moreover have "map_option td_is_blocked (threads s' x) = map_option td_is_blocked (threads s x)" for x
    using td(1) td'(1) c unfolding s' chosen_def by (auto split: if_splits)
  moreover have "runq s' = rq" "curthread s' = newt" "threads s' newt = Some (if ?t = newt then ntd\<lparr>td_lock := None\<rparr> else ntd)"
    unfolding s' by auto
  ultimately have "switched i s s'"
    using c unfolding switched_def chosen_def fun_eq_iff by auto
  then show thesis
    using that sw inv' unfolding s'_def by blast
qed

section \<open>The operations keep the invariant\<close>

text \<open>Operations that leave everything but the state, lock and statistics of threads and the queues.\<close>

definition frame :: "'a sched_scheme \<Rightarrow> 'a sched_scheme \<Rightarrow> bool" where
  "frame s s' \<longleftrightarrow> s' = s\<lparr>threads := threads s', runq := runq s'\<rparr>"

lemma frame_set_td [simp]: "frame s (set_td t td s)" "frame s (set_td t td s\<lparr>runq := rq\<rparr>)"
  by (simp_all add: frame_def set_td_def)

lemma frame_refl [simp]: "frame s s"
  by (simp add: frame_def)

lemma frame_trans: "frame s s' \<Longrightarrow> frame s' s'' \<Longrightarrow> frame s s''"
  by (cases s; cases s'; cases s'') (simp add: frame_def)

lemma frame_simps: "frame s s' \<Longrightarrow> curthread s' = curthread s \<and> idle_thread s' = idle_thread s \<and> no_switch s' = no_switch s \<and> sched_active s' = sched_active s"
  by (cases s; cases s') (simp add: frame_def)

lemma sched_wakeup_ok:
  assumes inv: "runq_inv X s" and l: "locked L s" and t: "t \<in> L" "threads s t = Some td" "\<not> td_is_ready td" "\<not> td_is_running td" "t \<noteq> curthread s"
    and cur: "curthread s \<in> dom (threads s)" "curthread s \<in> X"
  obtains s' td' where "sched_wakeup now t reason s = Some s'" and "runq_inv (X - {t}) s'" and "frame s s'" and "locked L s'"
    and "threads s' t = Some td'" "td_is_ready td'" "td_view td' = td_view td"
    and "\<forall>x. x \<noteq> t \<longrightarrow> map_option td_view (threads s' x) = map_option td_view (threads s x) \<and> map_option td_state (threads s' x) = map_option td_state (threads s x)"
proof -
  define td' where "td' = td\<lparr>td_slptime := bintime_add (td_slptime td) (bintime_sub now (td_last_slptime td)),
                 td_state := TDS_READY, td_slice := SLICE, td_retval := reason\<rparr>"
  have td': "td_is_ready td'" "td_lock td' = td_lock td" "td_view td' = td_view td" "td_lock td = Some (curthread s)"
    using l t(1,2) by (simp_all add: td'_def td_view_def locked_def)
  obtain rq where rq: "runq_add (runq s) t td' = Some rq" "runq_inv (X - {t}) (set_td t td' s\<lparr>runq := rq\<rparr>)"
    using runq_inv_add [OF inv _ td'(1), of t] t(2,3) by (auto simp: ready_threadsI)
  obtain ctd where ctd: "threads s (curthread s) = Some ctd"
    using cur by blast
  let ?s = "set_td t td' s\<lparr>runq := rq\<rparr>"
  define s' where "s' = (if prio_gt (td_prio td') (td_prio ctd) then set_td (curthread s) (ctd\<lparr>td_flags := td_flags ctd OR TDF_NEEDSWITCH\<rparr>) ?s else ?s)"
  have w: "sched_wakeup now t reason s = Some s'"
    unfolding sched_wakeup_def Let_def t(2) bind.simps(2) td'_def [symmetric] rq(1) using t(4,5) td'(4) ctd by (simp add: spin_owned_def s'_def)
  have "frame s ?s" "frame ?s s'"
    by (simp_all add: s'_def)
  moreover have "runq_inv (X - {t}) s'"
    using rq(2) runq_inv_set [OF rq(2)] cur(2) t(5) by (auto simp: s'_def)
  moreover have "locked L s'"
    using l td'(2,4) ctd t(1) t(5) by (auto simp: s'_def locked_def)
  moreover have "threads s' t = Some td'" "\<forall>x. x \<noteq> t \<longrightarrow> map_option td_view (threads s' x) = map_option td_view (threads s x) \<and>
      map_option td_state (threads s' x) = map_option td_state (threads s x)"
    using ctd t(5) by (auto simp: s'_def td_view_def)
  ultimately show thesis
    using that [OF w] td'(1,3) frame_trans by blast
qed

lemma sched_set_active_prio_ok:
  assumes inv: "runq_inv X s" and l: "locked L s" and t: "t \<in> L" "threads s t = Some td" "td_is_ready td \<Longrightarrow> t \<notin> X"
  obtains s' where "sched_set_active_prio t prio s = Some s'" and "runq_inv X s'" and "frame s s'" and "threads s' = (threads s)(t \<mapsto> td\<lparr>td_prio := prio\<rparr>)"
proof -
  have own: "spin_owned s td"
    using l t(1,2) by (simp add: locked_def spin_owned_def)
  let ?td = "td\<lparr>td_prio := prio\<rparr>"
  consider (same) "td_prio td = prio" | (ready) "td_prio td \<noteq> prio" "td_is_ready td" | (other) "td_prio td \<noteq> prio" "\<not> td_is_ready td"
    by blast
  then show thesis
  proof cases
    case same
    then have "(threads s)(t \<mapsto> ?td) = threads s"
      using t(2) by (auto simp: fun_upd_idem)
    then show thesis
      using that [of s] inv own t(2) same by (simp add: sched_set_active_prio_def)
  next
    case ready
    obtain rq where rq: "runq_remove (runq s) t td = Some rq" "runq_inv (insert t X) (s\<lparr>runq := rq\<rparr>)"
      using runq_inv_remove [OF inv t(2) ready(2) t(3) [OF ready(2)]] by blast
    obtain rq' where rq': "runq_add rq t ?td = Some rq'" "runq_inv X (set_td t ?td (s\<lparr>runq := rq'\<rparr>))"
      using runq_inv_add [OF rq(2), of t ?td] ready(2) t(3) by (auto simp: set_td_runq)
    have "frame s (set_td t ?td (s\<lparr>runq := rq'\<rparr>))"
      by (simp flip: set_td_runq)
    then show thesis
      using that [of "set_td t ?td (s\<lparr>runq := rq'\<rparr>)"] rq(1) rq' own t(2) ready by (simp add: sched_set_active_prio_def set_td_runq)
  next
    case other
    have "runq_inv X (set_td t ?td s)"
      using runq_inv_set [OF inv, of t ?td] other(2) ready_threadsI [OF t(2)] by simp
    then show thesis
      using that [of "set_td t ?td s"] own t(2) other by (simp add: sched_set_active_prio_def)
  qed
qed

lemma leave_ok:
  assumes "sched_inv s" and "\<not> no_switch s" and "st \<noteq> TDS_RUNNING" and "threads s (curthread s) = Some td"
  obtains i s' where "base_inv i s" and "sched_switch now now' (set_td (curthread s) (td\<lparr>td_lock := Some (curthread s), td_state := st\<rparr>) s) = Some s'"
    and "sched_inv s'" and "switched i (set_td (curthread s) (td\<lparr>td_lock := Some (curthread s), td_state := st\<rparr>) s) s'"
proof -
  let ?s = "set_td (curthread s) (td\<lparr>td_lock := Some (curthread s), td_state := st\<rparr>) s"
  obtain i where i: "base_inv i s" "locked {} s"
    using assms(1) by (auto simp: sched_inv_def)
  have "base_inv i ?s" "locked {curthread ?s} ?s"
    using base_inv_set [OF i(1) assms(4)] i(2) by (auto simp: locked_def)
  then show thesis
    using sched_switch_ok [of i ?s "td\<lparr>td_lock := Some (curthread s), td_state := st\<rparr>" now now'] assms(2,3) that [OF i(1)] by auto
qed

lemma sched_inv_cur:
  assumes "sched_inv s"
  obtains td where "threads s (curthread s) = Some td"
  using assms by (auto simp: sched_inv_def base_inv_def)

lemma sched_inv_lock:
  assumes "sched_inv s" and "threads s (curthread s) = Some td"
  shows "td_lock td = None" and "spin_lock (curthread s) s = Some (set_td (curthread s) (td\<lparr>td_lock := Some (curthread s)\<rparr>) s)"
proof -
  have l: "locked {} s"
    using assms(1) by (auto simp: sched_inv_def)
  show "td_lock td = None" "spin_lock (curthread s) s = Some (set_td (curthread s) (td\<lparr>td_lock := Some (curthread s)\<rparr>) s)"
    using spin_lock_ok(1) [OF l assms(2)] l assms(2) by (simp_all add: locked_def)
qed

lemma thread_yield_ok:
  assumes "sched_inv s" and "\<not> no_switch s" and "threads s (curthread s) = Some td"
  obtains i s' where "base_inv i s" "thread_yield now now' s = Some s'" "sched_inv s'"
    "switched i (set_td (curthread s) (td\<lparr>td_lock := Some (curthread s), td_state := TDS_READY\<rparr>) s) s'"
proof -
  have "thread_yield now now' s = sched_switch now now' (set_td (curthread s) (td\<lparr>td_lock := Some (curthread s), td_state := TDS_READY\<rparr>) s)"
    using sched_inv_lock [OF assms(1,3)] by (simp add: thread_yield_def)
  then show thesis
    using leave_ok [OF assms(1,2) _ assms(3), of TDS_READY now now' thesis] that by simp
qed

text \<open>The running thread may change itself freely in all that is not its lock or state.\<close>

lemma sched_inv_cur_set:
  assumes "sched_inv s" and "threads s (curthread s) = Some td" and "td_lock td' = None" "td_state td' = td_state td"
  shows "sched_inv (set_td (curthread s) td' s)"
proof -
  obtain i where i: "base_inv i s" "locked {} s" "curthread s = i \<or> curthread s \<in> running_threads s"
    using assms(1) by (auto simp: sched_inv_def)
  have "base_inv i (set_td (curthread s) td' s)"
    using base_inv_set [OF i(1) assms(2), of td'] by simp
  moreover have "locked {} (set_td (curthread s) td' s)"
    using i(2) assms(3) by (simp add: locked_def)
  ultimately show ?thesis
    using i(3) assms(4) running_threadsI [OF assms(2)] by (auto simp: sched_inv_def running_threads_upd)
qed

lemma sched_clock_inv:
  assumes "sched_inv s" and "sched_clock s = Some s'"
  shows "sched_inv s'"
proof -
  obtain td where td: "threads s (curthread s) = Some td"
    using sched_inv_cur [OF assms(1)] .
  note lock = sched_inv_lock [OF assms(1) td]
  have "s' = s \<or> (\<exists>td'. s' = set_td (curthread s) td' s \<and> td_lock td' = None \<and> td_state td' = td_state td)"
    using assms(2) td lock by (auto simp: sched_clock_def spin_unlock_def spin_owned_def Let_def split: if_splits)
  then show ?thesis
    using assms(1) sched_inv_cur_set [OF assms(1) td] by auto
qed

lemma sched_maybe_preempt_inv:
  assumes "sched_inv s" and "\<not> no_switch s" and "sched_maybe_preempt now now' s = Some s'"
  shows "sched_inv s'"
proof -
  obtain td where td: "threads s (curthread s) = Some td"
    using sched_inv_cur [OF assms(1)] .
  note lock = sched_inv_lock [OF assms(1) td]
  obtain i s1 where "sched_switch now now' (set_td (curthread s) (td\<lparr>td_lock := Some (curthread s), td_state := TDS_READY\<rparr>) s) = Some s1" "sched_inv s1"
    using leave_ok [OF assms(1,2) _ td, of TDS_READY now now'] by blast
  moreover have "set_td (curthread s) (td\<lparr>td_lock := None\<rparr>) s = s"
    using td lock(1) by (auto simp: set_td_def fun_upd_idem)
  ultimately show ?thesis
    using assms(1,3) td lock by (auto simp: sched_maybe_preempt_def spin_unlock_def spin_owned_def Let_def split: if_splits)
qed

lemma preempt_enable_pre:
  assumes "sched_inv s" and "preempt_enable now now' s = Some s'"
  obtains td where "threads s (curthread s) = Some td" "sched_inv (set_td (curthread s) (td\<lparr>td_pdnest := td_pdnest td - 1\<rparr>) s)"
    "sched_maybe_preempt now now' (set_td (curthread s) (td\<lparr>td_pdnest := td_pdnest td - 1\<rparr>) s) = Some s'"
proof -
  obtain td where td: "threads s (curthread s) = Some td"
    "sched_maybe_preempt now now' (set_td (curthread s) (td\<lparr>td_pdnest := td_pdnest td - 1\<rparr>) s) = Some s'"
    using assms(2) by (auto simp: preempt_enable_def bind_eq_Some_conv)
  have "sched_inv (set_td (curthread s) (td\<lparr>td_pdnest := td_pdnest td - 1\<rparr>) s)"
    using sched_inv_cur_set [OF assms(1) td(1)] sched_inv_lock(1) [OF assms(1) td(1)] by simp
  then show thesis
    using that td by blast
qed

lemma on_exc_leave_inv:
  assumes "sched_inv s" and "\<not> no_switch s" and "on_exc_leave now now' s = Some s'"
  shows "sched_inv s'"
proof -
  obtain td where td: "threads s (curthread s) = Some td"
    using sched_inv_cur [OF assms(1)] .
  note lock = sched_inv_lock [OF assms(1) td]
  obtain i s1 where "sched_switch now now' (set_td (curthread s) (td\<lparr>td_lock := Some (curthread s), td_state := TDS_READY\<rparr>) s) = Some s1" "sched_inv s1"
    using leave_ok [OF assms(1,2) _ td, of TDS_READY now now'] by blast
  then show ?thesis
    using assms(1,3) td lock by (auto simp: on_exc_leave_def Let_def split: if_splits)
qed

text \<open>Operations on another thread, under its lock.\<close>

lemma base_inv_frame:
  assumes "base_inv i s" and "frame s s'" and "runq_inv {curthread s, i} s'" and "dom (threads s') = dom (threads s)"
    and "running_threads s' = running_threads s"
  shows "base_inv i s'"
  using assms frame_simps [OF assms(2)] by (simp add: base_inv_def)

lemma states_eq:
  assumes "\<forall>x. map_option td_state (threads s' x) = map_option td_state (threads s x)"
  shows "dom (threads s') = dom (threads s)" and "running_threads s' = running_threads s" and "ready_threads s' = ready_threads s"
proof -
  have "threads s' x = None \<longleftrightarrow> threads s x = None"
    "(\<exists>td. threads s' x = Some td \<and> td_state td = st) \<longleftrightarrow> (\<exists>td. threads s x = Some td \<and> td_state td = st)" for x st
    using assms [rule_format, of x] by (cases "threads s x"; cases "threads s' x"; auto)+
  then show "dom (threads s') = dom (threads s)" "running_threads s' = running_threads s" "ready_threads s' = ready_threads s"
    unfolding dom_def running_threads_def ready_threads_def td_is_defs by blast+
qed

lemma sched_wakeup_pre:
  assumes "base_inv i s" and "t \<noteq> i" and "sched_wakeup now t reason s = Some s'"
  obtains td where "threads s t = Some td" "\<not> td_is_ready td" "\<not> td_is_running td" "t \<noteq> curthread s"
proof -
  obtain td where td: "threads s t = Some td" "t \<noteq> curthread s" "\<not> td_is_running td" "t \<notin> set (concat (runq s))"
    using assms(3) by (auto simp: sched_wakeup_def runq_add_def Let_def split: bind_splits if_splits)
  have "set (concat (runq s)) = ready_threads s - {curthread s, i}"
    using assms(1) by (intro buckets_set [where n = RQ_NQS and idx = "thread_index s"]) (simp add: base_inv_def runq_inv_def)
  then have "\<not> td_is_ready td"
    using td(2,4) assms(2) ready_threadsI [OF td(1)] by auto
  then show thesis
    using that td by blast
qed

lemma sched_wakeup_inv:
  assumes b: "base_inv i s" and l: "locked L s" and t: "t \<in> L" "t \<noteq> i" "threads s t = Some td" and w: "sched_wakeup now t reason s = Some s'"
  obtains td' where "base_inv i s'" and "locked L s'" and "frame s s'" and "threads s' t = Some td'" "td_is_ready td'" "td_view td' = td_view td" "\<not> td_is_ready td"
    and "\<forall>x. x \<noteq> t \<longrightarrow> map_option td_view (threads s' x) = map_option td_view (threads s x) \<and> map_option td_state (threads s' x) = map_option td_state (threads s x)"
proof -
  have td: "\<not> td_is_ready td" "\<not> td_is_running td" "t \<noteq> curthread s"
    using sched_wakeup_pre [OF b t(2) w] t(3) by auto
  have "runq_inv {curthread s, i} s" "curthread s \<in> dom (threads s)" "curthread s \<in> {curthread s, i}"
    using b by (simp_all add: base_inv_def)
  then obtain s2 td' where s2: "sched_wakeup now t reason s = Some s2" "runq_inv ({curthread s, i} - {t}) s2" "frame s s2" "locked L s2"
    "threads s2 t = Some td'" "td_is_ready td'" "td_view td' = td_view td" "\<forall>x. x \<noteq> t \<longrightarrow> map_option td_view (threads s2 x) = map_option td_view (threads s x) \<and> map_option td_state (threads s2 x) = map_option td_state (threads s x)"
    by (rule sched_wakeup_ok [OF _ l t(1,3) td, where X = "{curthread s, i}" and now = now and reason = reason])
  have "\<forall>x. map_option td_state (threads s2 x) = map_option td_state (threads (set_td t td' s) x)"
    using s2(5,8) by auto
  note st = states_eq [OF this]
  have "{curthread s, i} - {t} = {curthread s, i}"
    using td(3) t(2) by auto
  then have "base_inv i s2"
    using s2(2,3) st s2(6) td(2) t(3) b running_threadsI [OF t(3)] by (intro base_inv_frame [OF b]) (auto simp: running_threads_upd)
  then show thesis
    using that s2 w td(1) by auto
qed

lemma unlocked_inv:
  assumes "base_inv i s" and "locked {t} s" and "spin_unlock t s = Some s'" and "curthread s = i \<or> curthread s \<in> running_threads s"
  shows "sched_inv s'"
proof -
  obtain td where td: "threads s t = Some td"
    using assms(3) by (auto simp: spin_unlock_def split: bind_splits)
  have "s' = set_td t (td\<lparr>td_lock := None\<rparr>) s" "locked {} s'"
    using spin_unlock_ok [OF assms(2) td] assms(3) by auto
  then show ?thesis
    using base_inv_set [OF assms(1) td, of "td\<lparr>td_lock := None\<rparr>"] assms(4) running_threadsI [OF td] by (auto simp: sched_inv_def running_threads_upd)
qed

lemma locked_inv:
  assumes "sched_inv s" and "spin_lock t s = Some s'"
  obtains i td where "base_inv i s'" "locked {t} s'" "curthread s' = i \<or> curthread s' \<in> running_threads s'" "frame s s'" "threads s' t = Some td"
    "idle_thread s = Some i"
proof -
  obtain i where i: "base_inv i s" "locked {} s" "curthread s = i \<or> curthread s \<in> running_threads s"
    using assms(1) by (auto simp: sched_inv_def)
  obtain td where td: "threads s t = Some td"
    using assms(2) by (auto simp: spin_lock_def split: bind_splits)
  have s': "s' = set_td t (td\<lparr>td_lock := Some (curthread s)\<rparr>) s" "locked {t} s'"
    using spin_lock_ok [OF i(2) td] assms(2) by auto
  have "base_inv i s'" "curthread s' = i \<or> curthread s' \<in> running_threads s'"
    using base_inv_set [OF i(1) td, of "td\<lparr>td_lock := Some (curthread s)\<rparr>"] i(3) running_threadsI [OF td] by (auto simp: s'(1) running_threads_upd)
  moreover have "frame s s'" "threads s' t = Some (td\<lparr>td_lock := Some (curthread s)\<rparr>)" "idle_thread s = Some i"
    using i(1) by (simp_all add: s'(1) base_inv_def)
  ultimately show ?thesis
    using that s'(2) by blast
qed

lemma sched_add_inv:
  assumes "sched_inv s" and "Some t \<noteq> idle_thread s" and "sched_add now t s = Some s'"
  shows "sched_inv s'"
proof -
  obtain s1 s2 where s12: "spin_lock t s = Some s1" "sched_wakeup now t 0 s1 = Some s2" "spin_unlock t s2 = Some s'"
    using assms(3) by (auto simp: sched_add_def with_td_lock_def bind_eq_Some_conv)
  obtain i td where i: "base_inv i s1" "locked {t} s1" "curthread s1 = i \<or> curthread s1 \<in> running_threads s1" "t \<noteq> i" "threads s1 t = Some td"
    using locked_inv [OF assms(1) s12(1)] assms(2) by metis
  obtain td' where s2: "base_inv i s2" "locked {t} s2" "frame s1 s2" "threads s2 t = Some td'" "td_is_ready td'"
    "\<forall>x. x \<noteq> t \<longrightarrow> map_option td_state (threads s2 x) = map_option td_state (threads s1 x)"
    using sched_wakeup_inv [OF i(1,2) singletonI i(4,5) s12(2)] by metis
  have "curthread s2 = curthread s1" "t \<noteq> curthread s1"
    using frame_simps [OF s2(3)] sched_wakeup_pre [OF i(1,4) s12(2)] by auto
  then have "curthread s2 = i \<or> curthread s2 \<in> running_threads s2"
    using i(3) s2(6) by (force simp: running_threads_def)
  then show ?thesis
    by (rule unlocked_inv [OF s2(1,2) s12(3)])
qed

lemma set_prio_ok:
  assumes b: "base_inv i s" and l: "locked L s" and t: "t \<in> L" "threads s t = Some td" "td_is_ready td \<Longrightarrow> t \<notin> {curthread s, i}"
  obtains s' where "sched_set_active_prio t prio (set_td t (td\<lparr>td_flags := f\<rparr>) s) = Some s'" and "base_inv i s'" and "locked L s'" and "frame s s'"
    and "threads s' = (threads s)(t \<mapsto> td\<lparr>td_flags := f, td_prio := prio\<rparr>)"
proof -
  let ?td = "td\<lparr>td_flags := f\<rparr>"
  let ?s = "set_td t ?td s"
  have b': "base_inv i ?s" and l': "locked L ?s"
    using base_inv_set [OF b t(2), of ?td] l t(1,2) by (simp_all add: locked_def)
  then have r: "runq_inv {curthread s, i} ?s"
    by (simp add: base_inv_def)
  obtain s' where s': "sched_set_active_prio t prio ?s = Some s'" "runq_inv {curthread s, i} s'" "frame ?s s'" "threads s' = (threads ?s)(t \<mapsto> ?td\<lparr>td_prio := prio\<rparr>)"
    using sched_set_active_prio_ok [OF r l' t(1), where td = ?td and prio = prio] t(3) by auto
  then have th: "threads s' = (threads s)(t \<mapsto> td\<lparr>td_flags := f, td_prio := prio\<rparr>)" "frame s s'"
    using frame_trans [OF frame_set_td(1) s'(3)] by simp_all
  have "\<forall>x. map_option td_state (threads s' x) = map_option td_state (threads ?s x)"
    by (simp add: s'(4))
  note st = states_eq [OF this]
  have "base_inv i s'"
    using base_inv_frame [OF b' s'(3) _ st(1,2)] s'(2) by simp
  moreover have "locked L s'"
    using l t frame_simps [OF th(2)] by (simp add: locked_def th(1))
  ultimately show thesis
    using that s'(1) th by blast
qed

lemma sched_lend_prio_ok:
  assumes b: "base_inv i s" and l: "locked L s" and t: "t \<in> L" "threads s t = Some td" "td_is_ready td \<Longrightarrow> t \<notin> {curthread s, i}"
    and p: "prio_lt (td_prio td) prio"
  obtains s' where "sched_lend_prio t prio s = Some s'" and "base_inv i s'" and "locked L s'" and "frame s s'"
    and "threads s' = (threads s)(t \<mapsto> td\<lparr>td_flags := td_flags td OR TDF_BORROWING, td_prio := prio\<rparr>)"
proof -
  have "sched_lend_prio t prio s = sched_set_active_prio t prio (set_td t (td\<lparr>td_flags := td_flags td OR TDF_BORROWING\<rparr>) s)"
    using l t(1,2) p by (simp add: sched_lend_prio_def spin_owned_def locked_def)
  then show thesis
    using set_prio_ok [OF b l t, of prio "td_flags td OR TDF_BORROWING"] that by metis
qed

lemma sched_unlend_prio_ok:
  assumes b: "base_inv i s" and l: "locked L s" and t: "t \<in> L" "threads s t = Some td" "td_is_ready td \<Longrightarrow> t \<notin> {curthread s, i}"
    and p: "prio_le prio (td_base_prio td)"
  obtains s' where "sched_unlend_prio t prio s = Some s'" and "base_inv i s'" and "locked L s'" and "frame s s'"
    and "threads s' = (threads s)(t \<mapsto> td\<lparr>td_flags := td_flags td AND NOT TDF_BORROWING, td_prio := td_base_prio td\<rparr>)"
proof -
  have "sched_unlend_prio t prio s = sched_set_active_prio t (td_base_prio td) (set_td t (td\<lparr>td_flags := td_flags td AND NOT TDF_BORROWING\<rparr>) s)"
    using l t(1,2) p by (simp add: sched_unlend_prio_def spin_owned_def locked_def)
  then show thesis
    using set_prio_ok [OF b l t, of "td_base_prio td" "td_flags td AND NOT TDF_BORROWING"] that by metis
qed

lemma sched_lend_prio_pre:
  assumes "sched_lend_prio t prio s = Some s'" and "threads s t = Some td"
  shows "prio_lt (td_prio td) prio"
  using assms by (simp add: sched_lend_prio_def)

text \<open>A thread's priority is lent or taken back under its lock.\<close>

lemma sched_prio_inv:
  assumes "sched_inv s" and "Some t \<noteq> idle_thread s" and "op = sched_lend_prio \<or> op = sched_unlend_prio"
    and "with_td_lock t (op t prio) s = Some s'"
  shows "sched_inv s'"
proof -
  obtain s1 s2 where s12: "spin_lock t s = Some s1" "op t prio s1 = Some s2" "spin_unlock t s2 = Some s'"
    using assms(4) by (auto simp: with_td_lock_def bind_eq_Some_conv)
  obtain i td where i: "base_inv i s1" "locked {t} s1" "curthread s1 = i \<or> curthread s1 \<in> running_threads s1" "t \<noteq> i" "threads s1 t = Some td"
    using locked_inv [OF assms(1) s12(1)] assms(2) by metis
  have r: "td_is_ready td \<Longrightarrow> t \<notin> {curthread s1, i}"
    using i(3-5) running_threadsI [OF i(5)] by auto
  have "\<exists>f p. base_inv i s2 \<and> locked {t} s2 \<and> frame s1 s2 \<and> threads s2 = (threads s1)(t \<mapsto> td\<lparr>td_flags := f, td_prio := p\<rparr>)"
  proof (cases "op = sched_unlend_prio \<and> prio_le prio (td_base_prio td)")
    case True
    then show ?thesis
      using sched_unlend_prio_ok [OF i(1,2) singletonI i(5) r, of prio] s12(2) by (metis option.inject)
  next
    case False
    then have "sched_lend_prio t prio s1 = Some s2"
      using assms(3) s12(2) i(5) by (auto simp: sched_unlend_prio_def split: if_splits)
    then show ?thesis
      using sched_lend_prio_ok [OF i(1,2) singletonI i(5) r, of prio] sched_lend_prio_pre i(5) by (metis option.inject)
  qed
  then obtain f p where s2: "base_inv i s2" "locked {t} s2" "frame s1 s2" "threads s2 = (threads s1)(t \<mapsto> td\<lparr>td_flags := f, td_prio := p\<rparr>)"
    by blast
  have "running_threads s2 = running_threads s1" "curthread s2 = curthread s1"
    using i(5) frame_simps [OF s2(3)] by (auto simp: running_threads_def s2(4))
  then show ?thesis
    using unlocked_inv [OF s2(1,2) s12(3)] i(3) by simp
qed

section \<open>The scheduler as a state machine\<close>

definition no_time :: bintime where "no_time = \<lparr>bt_sec = 0, bt_frac = 0\<rparr>"

definition new_thread :: "prio \<Rightarrow> nat \<Rightarrow> thread" where
  "new_thread prio ts =
     \<lparr>td_lock = None, td_state = TDS_INACTIVE, td_flags = 0, td_idnest = 0, td_pdnest = 0, td_retval = 0, td_wchan = None, td_waitpt = None,
      td_blocked = None, td_turnstile = Some ts, td_contested = [], td_base_prio = prio, td_prio = prio, td_slice = 0,
      td_rtime = no_time, td_last_rtime = no_time, td_slptime = no_time, td_last_slptime = no_time, td_nctxsw = 0\<rparr>"

definition thread0 :: "nat \<Rightarrow> thread" where
  "thread0 ts = (new_thread 255 ts)\<lparr>td_state := TDS_RUNNING, td_idnest := 1, td_pdnest := 1\<rparr>"

definition init_sched :: "nat \<Rightarrow> nat \<Rightarrow> sched" where
  "init_sched t0 ts =
     \<lparr>threads = [t0 \<mapsto> thread0 ts], runq = runq_init, sched_active = False, curthread = t0, idle_thread = None, no_switch = False\<rparr>"

text \<open>One operation of the running thread, or of an interrupt taken by it.  A thread sleeps, blocks, stops or dies by setting its state under its
  lock and switching; the idle thread does none of this and nobody wakes it or changes its priority.\<close>

inductive sched_step :: "sched \<Rightarrow> sched \<Rightarrow> bool" where
  yield: "\<not> no_switch s \<Longrightarrow> thread_yield now now' s = Some s' \<Longrightarrow> sched_step s s'"
| leave: "\<not> no_switch s \<Longrightarrow> Some (curthread s) \<noteq> idle_thread s \<Longrightarrow> st \<in> {TDS_SLEEPING, TDS_BLOCKED, TDS_STOPPED, TDS_DEAD} \<Longrightarrow>
    spin_lock (curthread s) s = Some s1 \<Longrightarrow> threads s1 (curthread s) = Some td \<Longrightarrow>
    sched_switch now now' (set_td (curthread s) (td\<lparr>td_state := st\<rparr>) s1) = Some s' \<Longrightarrow> sched_step s s'"
| add: "Some t \<noteq> idle_thread s \<Longrightarrow> sched_add now t s = Some s' \<Longrightarrow> sched_step s s'"
| preempt: "\<not> no_switch s \<Longrightarrow> sched_maybe_preempt now now' s = Some s' \<Longrightarrow> sched_step s s'"
| exc_leave: "\<not> no_switch s \<Longrightarrow> on_exc_leave now now' s = Some s' \<Longrightarrow> sched_step s s'"
| clock: "sched_clock s = Some s' \<Longrightarrow> sched_step s s'"
| disable: "preempt_disable s = Some s' \<Longrightarrow> sched_step s s'"
| enable: "\<not> no_switch s \<Longrightarrow> preempt_enable now now' s = Some s' \<Longrightarrow> sched_step s s'"
| lend: "Some t \<noteq> idle_thread s \<Longrightarrow> with_td_lock t (sched_lend_prio t prio) s = Some s' \<Longrightarrow> sched_step s s'"
| unlend: "Some t \<noteq> idle_thread s \<Longrightarrow> with_td_lock t (sched_unlend_prio t prio) s = Some s' \<Longrightarrow> sched_step s s'"
| create: "threads s t = None \<Longrightarrow> sched_step s (set_td t (new_thread prio ts) s)"
| interrupt: "threads s (curthread s) = Some td \<Longrightarrow> sched_step s (set_td (curthread s) (td\<lparr>td_idnest := n\<rparr>) s\<lparr>no_switch := b\<rparr>)"
| idle: "sched_run_loop s = Some s' \<Longrightarrow> sched_step s s'"

text \<open>The states from boot on: threads are created and added, the first thread turns into the idle thread, and then everything may happen.\<close>

inductive reachable :: "sched \<Rightarrow> bool" where
  boot: "reachable (init_sched t0 ts)"
| boot_create: "reachable s \<Longrightarrow> \<not> sched_active s \<Longrightarrow> threads s t = None \<Longrightarrow> reachable (set_td t (new_thread prio ts) s)"
| boot_add: "reachable s \<Longrightarrow> \<not> sched_active s \<Longrightarrow> threads s t = Some td \<Longrightarrow> td_state td = TDS_INACTIVE \<Longrightarrow> sched_add now t s = Some s' \<Longrightarrow> reachable s'"
| run: "reachable s \<Longrightarrow> \<not> sched_active s \<Longrightarrow> sched_run_init s = Some s' \<Longrightarrow> reachable s'"
| step: "reachable s \<Longrightarrow> sched_active s \<Longrightarrow> sched_step s s' \<Longrightarrow> reachable s'"

definition boot_inv :: "'a sched_scheme \<Rightarrow> bool" where
  "boot_inv s \<longleftrightarrow> \<not> sched_active s \<and> idle_thread s = None \<and> runq_inv {curthread s} s \<and> locked {} s \<and> running_threads s = {curthread s}"

lemma new_thread_state [simp]: "td_state (new_thread prio ts) = TDS_INACTIVE" "td_lock (new_thread prio ts) = None"
  by (simp_all add: new_thread_def)

lemma boot_inv_init: "boot_inv (init_sched t0 ts)"
proof -
  have "ready_threads (init_sched t0 ts) = {}" "running_threads (init_sched t0 ts) = {t0}"
    by (auto simp: init_sched_def ready_threads_def running_threads_def thread0_def split: if_splits)
  then show ?thesis
    using buckets_empty [of RQ_NQS "thread_index (init_sched t0 ts)"]
    by (simp add: boot_inv_def runq_inv_def init_sched_def runq_init_def locked_def thread0_def)
qed

lemma boot_inv_create:
  assumes "boot_inv s" and "threads s t = None"
  shows "boot_inv (set_td t (new_thread prio ts) s)"
proof -
  have "t \<notin> ready_threads s" "t \<notin> running_threads s"
    using assms(2) by (auto simp: ready_threads_def running_threads_def)
  then show ?thesis
    using assms runq_inv_set [of "{curthread s}" s t "new_thread prio ts"] by (auto simp: boot_inv_def running_threads_upd locked_def)
qed

lemma boot_inv_add:
  assumes b: "boot_inv s" and t: "threads s t = Some td" "td_state td = TDS_INACTIVE" and a: "sched_add now t s = Some s'"
  shows "boot_inv s'"
proof -
  let ?td = "td\<lparr>td_lock := Some (curthread s)\<rparr>"
  let ?s = "set_td t ?td s"
  have run: "running_threads s = {curthread s}" and n3: "locked {} s"
    using b by (simp_all add: boot_inv_def)
  then have "curthread s \<in> running_threads s"
    by simp
  then have n: "t \<noteq> curthread s" "curthread s \<in> dom (threads s)" "locked {} s"
    using t n3 by (auto simp: running_threads_def)
  have l: "spin_lock t s = Some ?s" "locked {t} ?s"
    using spin_lock_ok [OF n(3) t(1)] by simp_all
  have r: "runq_inv {curthread ?s} ?s"
    using b runq_inv_set [of "{curthread s}" s t ?td] t ready_threadsI [OF t(1)] by (simp add: boot_inv_def)
  obtain s1 td1 where s1: "sched_wakeup now t 0 ?s = Some s1" "runq_inv ({curthread ?s} - {t}) s1" "frame ?s s1" "locked {t} s1"
    "threads s1 t = Some td1" "td_is_ready td1" "\<forall>x. x \<noteq> t \<longrightarrow> map_option td_state (threads s1 x) = map_option td_state (threads ?s x)"
  proof -
    have pre: "threads ?s t = Some ?td" "\<not> td_is_ready ?td" "\<not> td_is_running ?td" "t \<noteq> curthread ?s" "curthread ?s \<in> dom (threads ?s)"
      using t n by auto
    show thesis
      by (rule sched_wakeup_ok [OF r l(2) singletonI pre singletonI]) (rule that, assumption+, blast)
  qed
  have s': "s' = set_td t (td1\<lparr>td_lock := None\<rparr>) s1" "locked {} s'"
    using a l(1) s1(1) spin_unlock_ok [OF s1(4,5)] by (auto simp: sched_add_def with_td_lock_def)
  have "\<forall>x. map_option td_state (threads s' x) = map_option td_state (threads (set_td t td1 s) x)"
    using s1(5,7) by (auto simp: s'(1))
  note st = states_eq [OF this]
  have "runq_inv {curthread s} s1"
    using s1(2) n(1) by simp
  then have "runq_inv {curthread s} s'"
    using runq_inv_set [of "{curthread s}" s1 t "td1\<lparr>td_lock := None\<rparr>"] s1(6) ready_threadsI [OF s1(5)] s1(5) by (simp add: s'(1) thread_index_def)
  then show ?thesis
    using b frame_simps [OF s1(3)] s'(2) st s1(6) n(1) t by (auto simp: boot_inv_def s'(1) running_threads_upd)
qed

lemma flags_upd_simps [simp]:
  "runq_inv X (s\<lparr>idle_thread := j\<rparr>) = runq_inv X s" "runq_inv X (s\<lparr>sched_active := b\<rparr>) = runq_inv X s" "runq_inv X (s\<lparr>no_switch := b\<rparr>) = runq_inv X s"
  "running_threads (s\<lparr>idle_thread := j\<rparr>) = running_threads s" "running_threads (s\<lparr>sched_active := b\<rparr>) = running_threads s"
  "running_threads (s\<lparr>no_switch := b\<rparr>) = running_threads s"
  "locked L (s\<lparr>idle_thread := j\<rparr>) = locked L s" "locked L (s\<lparr>sched_active := b\<rparr>) = locked L s" "locked L (s\<lparr>no_switch := b\<rparr>) = locked L s"
  by (simp_all add: runq_inv_def ready_threads_def running_threads_def thread_index_def [abs_def] locked_def)

lemma sched_run_init_inv:
  assumes "boot_inv s" and "sched_run_init s = Some s'"
  shows "sched_inv s'"
proof -
  let ?t = "curthread s"
  have r: "running_threads s = {?t}" "runq_inv {?t} s" "locked {} s" "idle_thread s = None"
    using assms(1) by (simp_all add: boot_inv_def)
  then obtain td where td: "threads s ?t = Some td" "td_is_running td"
    by (auto simp: running_threads_def)
  let ?td = "td\<lparr>td_slice := 0\<rparr>"
  have s': "s' = set_td ?t ?td s\<lparr>idle_thread := Some ?t, sched_active := True\<rparr>"
    using assms(2) td(1) r(4) by (simp add: sched_run_init_def Let_def)
  have "runq_inv {?t} (set_td ?t ?td s)" "running_threads (set_td ?t ?td s) = {?t}" "locked {} (set_td ?t ?td s)"
    using runq_inv_set [OF r(2)] r td by (auto simp: running_threads_upd locked_def)
  then show ?thesis
    unfolding sched_inv_def base_inv_def s' by simp
qed

lemma sched_inv_create:
  assumes "sched_inv s" and "threads s t = None"
  shows "sched_inv (set_td t (new_thread prio ts) s)"
proof -
  obtain i where i: "base_inv i s" "locked {} s" "curthread s = i \<or> curthread s \<in> running_threads s"
    using assms(1) by (auto simp: sched_inv_def)
  have t: "t \<notin> ready_threads s" "t \<notin> running_threads s"
    using assms(2) by (auto simp: ready_threads_def running_threads_def)
  then have "base_inv i (set_td t (new_thread prio ts) s)" "locked {} (set_td t (new_thread prio ts) s)"
    using i runq_inv_set [of "{curthread s, i}" s t "new_thread prio ts"] by (auto simp: base_inv_def running_threads_upd locked_def)
  then show ?thesis
    using i(3) t by (auto simp: sched_inv_def running_threads_upd)
qed

lemma sched_inv_interrupt:
  assumes "sched_inv s" and "threads s (curthread s) = Some td"
  shows "sched_inv (set_td (curthread s) (td\<lparr>td_idnest := n\<rparr>) s\<lparr>no_switch := b\<rparr>)"
proof -
  have "sched_inv (set_td (curthread s) (td\<lparr>td_idnest := n\<rparr>) s)"
    using sched_inv_cur_set [OF assms] sched_inv_lock(1) [OF assms] by simp
  then show ?thesis
    unfolding sched_inv_def base_inv_def by simp
qed

lemma sched_step_inv:
  assumes "sched_step s s'" and "sched_inv s"
  shows "sched_inv s'"
  using assms
proof cases
  case (yield now now')
  obtain td where "threads s (curthread s) = Some td"
    using sched_inv_cur [OF assms(2)] .
  then show ?thesis
    using thread_yield_ok [OF assms(2) yield(1), of td now now'] yield(2) by auto
next
  case (leave st s1 td now now')
  obtain td0 where td0: "threads s (curthread s) = Some td0"
    using sched_inv_cur [OF assms(2)] .
  have "st \<noteq> TDS_RUNNING" "set_td (curthread s) (td\<lparr>td_state := st\<rparr>) s1 = set_td (curthread s) (td0\<lparr>td_lock := Some (curthread s), td_state := st\<rparr>) s"
    using leave(3-5) sched_inv_lock(2) [OF assms(2) td0] by auto
  then show ?thesis
    using leave_ok [OF assms(2) leave(1) _ td0, of st now now'] leave(6) by auto
next
  case disable
  then show ?thesis
    using sched_inv_cur_set [OF assms(2)] sched_inv_lock(1) [OF assms(2)] by (auto simp: preempt_disable_def split: bind_splits)
next
  case (enable now now')
  obtain td where "sched_inv (set_td (curthread s) (td\<lparr>td_pdnest := td_pdnest td - 1\<rparr>) s)"
    "sched_maybe_preempt now now' (set_td (curthread s) (td\<lparr>td_pdnest := td_pdnest td - 1\<rparr>) s) = Some s'"
    using preempt_enable_pre [OF assms(2) enable(2)] .
  then show ?thesis
    using sched_maybe_preempt_inv enable(1) by fastforce
next
  case (create t prio ts)
  then show ?thesis
    using sched_inv_create [OF assms(2)] by simp
next
  case (interrupt td b n)
  then show ?thesis
    using sched_inv_interrupt [OF assms(2)] by simp
next
  case idle
  obtain td where td: "threads s (curthread s) = Some td"
    using sched_inv_cur [OF assms(2)] .
  then have "s' = set_td (curthread s) (td\<lparr>td_flags := td_flags td OR TDF_NEEDSWITCH, td_lock := None\<rparr>) s"
    using idle sched_inv_lock [OF assms(2) td] by (auto simp: sched_run_loop_def spin_unlock_def spin_owned_def)
  then show ?thesis
    using sched_inv_cur_set [OF assms(2) td] by simp
next
  case (add t now)
  then show ?thesis
    using sched_add_inv [OF assms(2)] by simp
next
  case (preempt now now')
  then show ?thesis
    using sched_maybe_preempt_inv [OF assms(2)] by simp
next
  case (exc_leave now now')
  then show ?thesis
    using on_exc_leave_inv [OF assms(2)] by simp
next
  case clock
  then show ?thesis
    using sched_clock_inv [OF assms(2)] by simp
next
  case (lend t prio)
  then show ?thesis
    using sched_prio_inv [OF assms(2), of t sched_lend_prio] by simp
next
  case (unlend t prio)
  then show ?thesis
    using sched_prio_inv [OF assms(2), of t sched_unlend_prio] by simp
qed

lemma reachable_inv: "reachable s \<Longrightarrow> (if sched_active s then sched_inv s else boot_inv s)"
proof (induction rule: reachable.induct)
  case (boot_create s t prio ts)
  then show ?case
    using boot_inv_create by simp
next
  case (boot_add s t td now s')
  then show ?case
    using boot_inv_add [of s t td now s'] by (simp add: boot_inv_def)
next
  case (run s s')
  then have "sched_inv s'"
    using sched_run_init_inv by simp
  then show ?case
    by (auto simp: sched_inv_def base_inv_def)
next
  case (step s s')
  then have "sched_inv s'"
    using sched_step_inv by simp
  then show ?case
    by (auto simp: sched_inv_def base_inv_def)
qed (use boot_inv_init in \<open>simp add: init_sched_def\<close>)

section \<open>Fairness among equals\<close>

text \<open>The running threads give up the processor one after the other, with the given readings of the clock.\<close>

fun yields :: "(bintime \<times> bintime) list \<Rightarrow> 'a sched_scheme \<Rightarrow> 'a sched_scheme option" where
  "yields [] s = Some s"
| "yields ((now, now') # ns) s = do { s \<leftarrow> thread_yield now now' s; yields ns s }"

text \<open>The running thread is an ordinary one, and no thread is ready in a queue of higher priority than its own queue \<open>b\<close>.\<close>

definition top_queue :: "nat \<Rightarrow> 'a sched_scheme \<Rightarrow> bool" where
  "top_queue b s \<longleftrightarrow> sched_inv s \<and> \<not> no_switch s \<and> Some (curthread s) \<noteq> idle_thread s \<and>
     (\<exists>td. threads s (curthread s) = Some td \<and> rq_index td = b) \<and> (\<forall>j < b. runq s ! j = [])"

lemma yield_rotates:
  assumes "top_queue b s"
  obtains s' where "thread_yield now now' s = Some s'" and "top_queue b s'" and "curthread s' # runq s' ! b = rotate1 (curthread s # runq s ! b)"
proof -
  obtain td where a: "sched_inv s" "\<not> no_switch s" "Some (curthread s) \<noteq> idle_thread s" "threads s (curthread s) = Some td" "rq_index td = b"
    "\<forall>j < b. runq s ! j = []"
    using assms by (auto simp: top_queue_def)
  let ?td = "td\<lparr>td_lock := Some (curthread s), td_state := TDS_READY\<rparr>"
  let ?s = "set_td (curthread s) ?td s"
  obtain i s' where s': "base_inv i s" "thread_yield now now' s = Some s'" "sched_inv s'" "switched i ?s s'"
    using thread_yield_ok [OF a(1,2,4), of now now'] by metis
  let ?rq = "(runq s)[b := runq s ! b @ [curthread s]]"
  have i: "curthread s \<noteq> i" "idle_thread s = Some i" "length (runq s) = RQ_NQS" "b < RQ_NQS"
    using s'(1) a(3) rq_index_bound [of td] by (auto simp: base_inv_def runq_inv_def buckets_def a(5))
  then have rq: "requeued i ?s = ?rq"
    by (simp add: requeued_def a(5))
  have b: "?rq ! b = runq s ! b @ [curthread s]" "\<forall>j < b. ?rq ! j = []"
    using i(3,4) a(6) by simp_all
  have "runq_choose ?rq \<noteq> None"
    using b(1) i(3,4) nth_mem [of b ?rq] by (auto simp: runq_choose_None)
  then obtain h q where h: "curthread s' \<noteq> i" "threads s' (curthread s') = Some h" "?rq ! rq_index h = curthread s' # q" "runq s' = ?rq[rq_index h := q]"
    "\<forall>j < rq_index h. ?rq ! j = []"
    using s'(4) unfolding switched_def rq by auto
  have "rq_index h = b"
    using h(3,5) b by (metis append_is_Nil_conv linorder_neqE_nat list.distinct(1))
  moreover have "idle_thread s' = Some i" "no_switch s' = no_switch s"
    using s'(4) i(2) by (auto simp: switched_def)
  ultimately have "top_queue b s'"
    using s'(3) h a(2) b(2) i(3,4) by (auto simp: top_queue_def)
  moreover have "curthread s' # runq s' ! b = rotate1 (curthread s # runq s ! b)"
    using h(3,4) b(1) i(3,4) \<open>rq_index h = b\<close> by simp
  ultimately show thesis
    using that s'(2) by blast
qed

lemma yields_rotate:
  "top_queue b s \<Longrightarrow> \<exists>s'. yields ns s = Some s' \<and> top_queue b s' \<and> curthread s' # runq s' ! b = rotate (length ns) (curthread s # runq s ! b)"
proof (induction ns s rule: yields.induct)
  case (2 now now' ns s)
  obtain s1 where s1: "thread_yield now now' s = Some s1" "top_queue b s1" "curthread s1 # runq s1 ! b = rotate1 (curthread s # runq s ! b)"
    using yield_rotates [OF "2.prems"] .
  then show ?case
    using "2.IH" [OF s1(1,2)] s1(1,3) by (auto simp: rotate1_rotate_swap)
qed simp

text \<open>C7: in every reachable state of the running system, the queue of index q holds exactly the ready threads whose priority divided by four is
  q, the running thread and the idle thread excepted; no thread is queued twice; and only the running thread and the idle thread can be marked
  as running.\<close>

theorem runq_invariant:
  assumes "reachable s" and "sched_active s"
  shows "distinct (concat (runq s)) \<and>
    (\<forall>q < 64. \<forall>t. t \<in> set (runq s ! q) \<longleftrightarrow>
       (\<exists>td. threads s t = Some td \<and> td_is_ready td \<and> t \<noteq> curthread s \<and> Some t \<noteq> idle_thread s \<and> unat (td_prio td) div 4 = q)) \<and>
    (\<forall>t td. threads s t = Some td \<and> td_is_running td \<longrightarrow> t = curthread s \<or> Some t = idle_thread s)"
proof -
  obtain i where i: "base_inv i s"
    using reachable_inv [OF assms(1)] assms(2) by (auto simp: sched_inv_def)
  then have "buckets (runq s) 64 (ready_threads s - {curthread s, i}) (thread_index s)" "idle_thread s = Some i" "running_threads s \<subseteq> {curthread s, i}"
    by (simp_all add: base_inv_def runq_inv_def RQ_NQS_def)
  then show ?thesis
    by (auto simp: buckets_def ready_threads_def running_threads_def thread_index_def rq_index_def RQ_PPQ_def)
qed

text \<open>C25: threads of the highest occupied queue take turns: if an ordinary thread runs and no queue of higher priority than its own is occupied,
  then any number of yields succeed, and the thread that runs after n of them is the one at place n modulo the number of threads taking part,
  the running thread being first and the others in the order of the queue.  So each of them runs after at most as many yields as there are
  threads in the queue, and then again and again.\<close>

theorem yield_round_robin:
  assumes "reachable s" and "sched_active s" and "\<not> no_switch s" and "threads s (curthread s) = Some td" and "Some (curthread s) \<noteq> idle_thread s"
    and "\<forall>j < rq_index td. runq s ! j = []"
  shows "\<exists>s'. yields ns s = Some s' \<and>
    curthread s' = (curthread s # runq s ! rq_index td) ! (length ns mod Suc (length (runq s ! rq_index td)))"
proof -
  have "top_queue (rq_index td) s"
    using assms reachable_inv [OF assms(1)] by (simp add: top_queue_def)
  then obtain s' where "yields ns s = Some s'" "curthread s' # runq s' ! rq_index td = rotate (length ns) (curthread s # runq s ! rq_index td)"
    using yields_rotate by blast
  then show ?thesis
    by (metis hd_rotate_conv_nth length_Cons list.distinct(1) list.sel(1))
qed

text \<open>A state reached by booting with two user threads and letting the idle thread give up the processor.\<close>

definition demo1 :: "sched option" where
  "demo1 = sched_add no_time 1 (set_td 1 (new_thread 200 101) (init_sched 0 100))"

definition demo2 :: "sched option" where
  "demo2 = do { s \<leftarrow> demo1; sched_add no_time 2 (set_td 2 (new_thread 201 102) s) }"

definition demo3 :: "sched option" where
  "demo3 = do { s \<leftarrow> demo2; sched_run_init s }"

definition demo4 :: "sched option" where
  "demo4 = do { s \<leftarrow> demo3; thread_yield no_time no_time s }"

lemma demo_eval:
  "map_option (\<lambda>s. (sched_active s, Option.is_none (threads s 2))) demo1 = Some (False, True)"
  "map_option sched_active demo2 = Some False"
  "map_option (\<lambda>s. (sched_active s, no_switch s)) demo3 = Some (True, False)"
  "map_option (\<lambda>s. (sched_active s, no_switch s, curthread s, idle_thread s, map_option rq_index (threads s 1), runq s)) demo4 =
     Some (True, False, 1, Some 0, Some 50, (replicate 64 [])[50 := [2]])"
  by code_simp+

lemma demo_state:
  obtains s td where "demo4 = Some s" "reachable s" "sched_active s" "\<not> no_switch s" "idle_thread s = Some 0" "curthread s = 1"
    "threads s 1 = Some td" "rq_index td = 50" "runq s = (replicate 64 [])[50 := [2]]"
proof -
  obtain s1 where s1: "demo1 = Some s1" "\<not> sched_active s1" "threads s1 2 = None"
    using demo_eval(1) by (auto simp: Option.is_none_def)
  obtain s2 where s2: "demo2 = Some s2" "\<not> sched_active s2"
    using demo_eval(2) by auto
  obtain s3 where s3: "demo3 = Some s3" "sched_active s3" "\<not> no_switch s3"
    using demo_eval(3) by auto
  obtain s td where s: "demo4 = Some s" "sched_active s" "\<not> no_switch s" "idle_thread s = Some 0" "curthread s = 1"
    "threads s 1 = Some td" "rq_index td = 50" "runq s = (replicate 64 [])[50 := [2]]"
    using demo_eval(4) by auto
  have "reachable (set_td 1 (new_thread 200 101) (init_sched 0 100))"
    by (rule reachable.boot_create [OF reachable.boot]) (simp_all add: init_sched_def)
  then have "reachable s1"
    by (rule reachable.boot_add [where t = 1 and now = no_time and td = "new_thread 200 101"]) (use s1(1) in \<open>simp_all add: init_sched_def demo1_def\<close>)
  then have "reachable (set_td 2 (new_thread 201 102) s1)"
    using s1(2,3) by (rule reachable.boot_create)
  then have "reachable s2"
    by (rule reachable.boot_add [where t = 2 and now = no_time and td = "new_thread 201 102"]) (use s1(2) s2(1) [unfolded demo2_def s1(1)] in simp_all)
  then have "reachable s3"
    by (rule reachable.run) (use s2(2) s3(1) [unfolded demo3_def s2(1)] in simp_all)
  then have "reachable s"
    using s3(2) by (rule reachable.step) (rule sched_step.yield [where now = no_time and now' = no_time], use s3(3) s(1) [unfolded demo4_def s3(1)] in simp_all)
  then show thesis
    using that s by blast
qed

theorem runq_invariant_witness: "\<exists>s. demo4 = Some s \<and> (\<exists>td. threads s 2 = Some td \<and> td_is_ready td \<and> unat (td_prio td) div 4 = 50)"
proof -
  obtain s td where s: "demo4 = Some s" "reachable s" "sched_active s" "runq s = (replicate 64 [])[50 := [2]]"
    using demo_state .
  have "(2 :: nat) \<in> set (runq s ! 50)"
    by (simp add: s(4))
  then show ?thesis
    using runq_invariant [OF s(2,3)] s(1) by auto
qed

theorem yield_round_robin_witness:
  "\<exists>s s'. demo4 = Some s \<and> curthread s = 1 \<and> yields [(no_time, no_time)] s = Some s' \<and> curthread s' = 2"
proof -
  obtain s td where s: "demo4 = Some s" "reachable s" "sched_active s" "\<not> no_switch s" "idle_thread s = Some 0" "curthread s = 1"
    "threads s 1 = Some td" "rq_index td = 50" "runq s = (replicate 64 [])[50 := [2]]"
    using demo_state .
  have "\<exists>s'. yields [(no_time, no_time)] s = Some s' \<and> curthread s' = (curthread s # runq s ! rq_index td) ! (length [(no_time, no_time)] mod Suc (length (runq s ! rq_index td)))"
    using s by (intro yield_round_robin) simp_all
  then show ?thesis
    using s by auto
qed

end
