(* ===== verification/Turnstile.thy ===== *)
theory Turnstile
  imports Sched "HOL-Library.Multiset"
begin

text \<open>
  Turnstiles: \<^verbatim>\<open>sys/kern/turnstile.c\<close> and \<open>sched_set_prio\<close> of \<^verbatim>\<open>sys/kern/sched.c\<close>.  The state of the
  scheduler is extended by the turnstiles, the chains that find them and the mutexes, all named by their addresses.  A turnstile's lists are
  lists of addresses.  The owner word of a mutex is the address of a thread with the flag \<^verbatim>\<open>MTX_CONTESTED\<close> in its lowest bit, which an address
  leaves clear; the model keeps the two apart.  Removing an element from a list that does not hold it is \<^term>\<open>None\<close>, as is a failed assertion.
  The time at which a thread is woken is an argument.  The lemmas show that the threads blocked on a turnstile stay sorted by priority and that
  propagation ends with every owner of a lock having at least the priority of those that wait for it.
\<close>

section \<open>State\<close>

datatype ts_state = FREE_UNBLOCKED | FREE_BLOCKED | USED_BLOCKED

record turnstile =
  ts_free :: "nat list"
  ts_blocked :: "nat list"
  ts_wchan :: "nat option"
  ts_owner :: "nat option"
  ts_state :: ts_state

record mtx =
  m_recursive :: bool
  m_count :: "32 word"
  m_owner :: "nat option"
  m_contested :: bool

record tsys = sched +
  turnstiles :: "nat \<Rightarrow> turnstile option"
  turnstile_chains :: "nat list list"
  mutexes :: "nat \<Rightarrow> mtx option"

definition TC_TABLESIZE :: nat where "TC_TABLESIZE = 256"

definition TC_HASH :: "nat \<Rightarrow> nat" where
  "TC_HASH wc = (drop_bit 8 wc XOR wc) AND (TC_TABLESIZE - 1)"

definition set_ts :: "nat \<Rightarrow> turnstile \<Rightarrow> tsys \<Rightarrow> tsys" where
  "set_ts a ts s = s\<lparr>turnstiles := (turnstiles s)(a \<mapsto> ts)\<rparr>"

definition turnstile_ctor :: turnstile where
  "turnstile_ctor = \<lparr>ts_free = [], ts_blocked = [], ts_wchan = None, ts_owner = None, ts_state = FREE_UNBLOCKED\<rparr>"

text \<open>The active priority of a thread on a list.\<close>

definition prio_of :: "'a sched_scheme \<Rightarrow> nat \<Rightarrow> prio" where
  "prio_of s t = td_prio (the (threads s t))"

section \<open>Order of the blocked threads\<close>

definition move_forward :: "(nat \<Rightarrow> prio) \<Rightarrow> nat \<Rightarrow> nat list \<Rightarrow> nat list" where
  "move_forward p t xs =
     (let pre = takeWhile (\<lambda>x. x \<noteq> t) xs; post = tl (dropWhile (\<lambda>x. x \<noteq> t) xs)
      in pre @ takeWhile (\<lambda>x. prio_gt (p x) (p t)) post @ t # dropWhile (\<lambda>x. prio_gt (p x) (p t)) post)"

definition move_backward :: "(nat \<Rightarrow> prio) \<Rightarrow> nat \<Rightarrow> nat list \<Rightarrow> nat list" where
  "move_backward p t xs =
     (let pre = takeWhile (\<lambda>x. x \<noteq> t) xs; post = tl (dropWhile (\<lambda>x. x \<noteq> t) xs)
      in rev (dropWhile (\<lambda>x. prio_lt (p x) (p t)) (rev pre)) @ t # rev (takeWhile (\<lambda>x. prio_lt (p x) (p t)) (rev pre)) @ post)"

definition adjust_thread_forward :: "nat \<Rightarrow> nat \<Rightarrow> tsys \<Rightarrow> tsys option" where
  "adjust_thread_forward a t s = do {
     ts \<leftarrow> turnstiles s a;
     kassert (ts_state ts = USED_BLOCKED);
     kassert (t \<in> set (ts_blocked ts));
     Some (set_ts a (ts\<lparr>ts_blocked := move_forward (prio_of s) t (ts_blocked ts)\<rparr>) s)
   }"

definition adjust_thread_backward :: "nat \<Rightarrow> nat \<Rightarrow> tsys \<Rightarrow> tsys option" where
  "adjust_thread_backward a t s = do {
     ts \<leftarrow> turnstiles s a;
     kassert (ts_state ts = USED_BLOCKED);
     kassert (t \<in> set (ts_blocked ts));
     Some (set_ts a (ts\<lparr>ts_blocked := move_backward (prio_of s) t (ts_blocked ts)\<rparr>) s)
   }"

definition adjust_thread :: "nat \<Rightarrow> nat \<Rightarrow> prio \<Rightarrow> tsys \<Rightarrow> tsys option" where
  "adjust_thread a t oldprio s = do {
     ts \<leftarrow> turnstiles s a;
     kassert (ts_state ts = USED_BLOCKED);
     td \<leftarrow> threads s t;
     kassert (td_is_blocked td);
     if prio_gt (td_prio td) oldprio then adjust_thread_backward a t s
     else if prio_lt (td_prio td) oldprio then adjust_thread_forward a t s
     else Some s
   }"

section \<open>Propagation of priorities\<close>

definition acquire_owner :: "nat \<Rightarrow> tsys \<Rightarrow> (nat \<times> tsys) option" where
  "acquire_owner a s = do {
     ts \<leftarrow> turnstiles s a;
     kassert (ts_state ts = USED_BLOCKED);
     t \<leftarrow> ts_owner ts;
     s \<leftarrow> spin_lock t s;
     td \<leftarrow> threads s t;
     kassert (\<not> td_is_sleeping td);
     Some (t, s)
   }"

partial_function (option) propagate_loop :: "prio \<Rightarrow> nat \<Rightarrow> tsys \<Rightarrow> (nat \<times> tsys) option" where
  "propagate_loop prio t s = do {
     td \<leftarrow> threads s t;
     if prio_lt (td_prio td) prio \<and> \<not> td_is_ready td \<and> \<not> td_is_running td then do {
       kassert (t \<noteq> curthread s);
       kassert (td_is_blocked td);
       s \<leftarrow> sched_lend_prio t prio s;
       a \<leftarrow> td_blocked td;
       s \<leftarrow> adjust_thread a t (td_prio td) s;
       s \<leftarrow> spin_unlock t s;
       (t, s) \<leftarrow> acquire_owner a s;
       propagate_loop prio t s
     } else Some (t, s)
   }"

definition propagate_priority :: "nat \<Rightarrow> tsys \<Rightarrow> tsys option" where
  "propagate_priority t s = do {
     td \<leftarrow> threads s t;
     a \<leftarrow> td_blocked td;
     let prio = td_prio td;
     (t, s) \<leftarrow> acquire_owner a s;
     (t, s) \<leftarrow> propagate_loop prio t s;
     td \<leftarrow> threads s t;
     s \<leftarrow> (if prio_lt (td_prio td) prio \<and> (td_is_ready td \<or> td_is_running td) then do {
             s \<leftarrow> sched_lend_prio t prio s;
             kassert (td_blocked td = None);
             Some s
           } else Some s);
     spin_unlock t s
   }"

definition turnstile_adjust :: "nat \<Rightarrow> prio \<Rightarrow> tsys \<Rightarrow> tsys option" where
  "turnstile_adjust t oldprio s = do {
     td \<leftarrow> threads s t;
     kassert (spin_owned s td);
     kassert (td_is_blocked td);
     a \<leftarrow> td_blocked td;
     ts \<leftarrow> turnstiles s a;
     kassert (ts_state ts = USED_BLOCKED);
     s \<leftarrow> adjust_thread a t oldprio s;
     ts \<leftarrow> turnstiles s a;
     if ts_blocked ts \<noteq> [] \<and> hd (ts_blocked ts) = t \<and> prio_gt (td_prio td) oldprio then propagate_priority t s else Some s
   }"

definition sched_set_prio :: "nat \<Rightarrow> prio \<Rightarrow> tsys \<Rightarrow> tsys option" where
  "sched_set_prio t prio s = do {
     td \<leftarrow> threads s t;
     kassert (spin_owned s td);
     let s = set_td t (td\<lparr>td_base_prio := prio\<rparr>) s;
     if td_is_borrowing td \<and> prio_gt (td_prio td) prio then Some s
     else do {
       s \<leftarrow> sched_set_active_prio t prio s;
       if td_is_blocked td \<and> td_prio td \<noteq> prio then turnstile_adjust t (td_prio td) s else Some s
     }
   }"

section \<open>Blocking\<close>

definition switch_away :: "bintime \<Rightarrow> bintime \<Rightarrow> nat \<Rightarrow> nat \<Rightarrow> tsys \<Rightarrow> tsys option" where
  "switch_away now now' a waitpt s = do {
     ts \<leftarrow> turnstiles s a;
     kassert (ts_state ts = USED_BLOCKED);
     let t = curthread s;
     s \<leftarrow> spin_lock t s;
     td \<leftarrow> threads s t;
     let s = set_td t (td\<lparr>td_turnstile := None, td_blocked := Some a, td_wchan := ts_wchan ts, td_waitpt := Some waitpt, td_state := TDS_BLOCKED\<rparr>) s;
     s \<leftarrow> propagate_priority t s;
     sched_switch now now' s
   }"

fun lookup_loop :: "nat \<Rightarrow> nat list \<Rightarrow> tsys \<Rightarrow> nat option option" where
  "lookup_loop w [] s = Some None"
| "lookup_loop w (a # as) s = do {
     ts \<leftarrow> turnstiles s a;
     kassert (ts_state ts = USED_BLOCKED);
     if ts_wchan ts = Some w then Some (Some a) else lookup_loop w as s
   }"

definition turnstile_lookup :: "nat \<Rightarrow> tsys \<Rightarrow> nat option option" where
  "turnstile_lookup w s = lookup_loop w (turnstile_chains s ! TC_HASH w) s"

definition preempt_disabled :: "'a sched_scheme \<Rightarrow> bool" where
  "preempt_disabled s \<longleftrightarrow> (case threads s (curthread s) of Some td \<Rightarrow> td_pdnest td > 0 | None \<Rightarrow> False)"

definition turnstile_take :: "nat \<Rightarrow> tsys \<Rightarrow> (nat \<times> tsys) option" where
  "turnstile_take w s = do {
     kassert (preempt_disabled s);
     r \<leftarrow> turnstile_lookup w s;
     case r of
       Some a \<Rightarrow> Some (a, s)
     | None \<Rightarrow> do {
         td \<leftarrow> threads s (curthread s);
         a \<leftarrow> td_turnstile td;
         ts \<leftarrow> turnstiles s a;
         Some (a, set_ts a (ts\<lparr>ts_wchan := Some w\<rparr>) s)
       }
   }"

definition turnstile_give :: "nat \<Rightarrow> tsys \<Rightarrow> tsys option" where
  "turnstile_give a s = do {
     kassert (preempt_disabled s);
     td \<leftarrow> threads s (curthread s);
     if td_turnstile td = Some a then do {
       ts \<leftarrow> turnstiles s a;
       Some (set_ts a (ts\<lparr>ts_wchan := None\<rparr>) s)
     } else Some s
   }"

text \<open>The two ways to block: on the turnstile of those who wait already, or on the thread's own.\<close>

definition wait_join :: "nat \<Rightarrow> nat \<Rightarrow> tsys \<Rightarrow> tsys option" where
  "wait_join a owner s = do {
     let t = curthread s;
     td \<leftarrow> threads s t;
     ts \<leftarrow> turnstiles s a;
     kassert (ts_state ts = USED_BLOCKED);
     s \<leftarrow> adjust_thread_forward a t (set_ts a (ts\<lparr>ts_blocked := t # ts_blocked ts\<rparr>) s);
     let s = set_td t (td\<lparr>td_turnstile := None\<rparr>) s;
     kassert (ts_owner ts = Some owner);
     n \<leftarrow> td_turnstile td;
     nts \<leftarrow> turnstiles s n;
     kassert (ts_state nts = FREE_UNBLOCKED);
     let s = set_ts n (nts\<lparr>ts_state := FREE_BLOCKED\<rparr>) s;
     ts \<leftarrow> turnstiles s a;
     Some (set_ts a (ts\<lparr>ts_free := n # ts_free ts\<rparr>) s)
   }"

definition wait_first :: "nat \<Rightarrow> nat \<Rightarrow> tsys \<Rightarrow> tsys option" where
  "wait_first a owner s = do {
     let t = curthread s;
     ts \<leftarrow> turnstiles s a;
     kassert (ts_blocked ts = []);
     kassert (ts_free ts = []);
     kassert (ts_owner ts = None);
     w \<leftarrow> ts_wchan ts;
     kassert (ts_state ts = FREE_UNBLOCKED);
     otd \<leftarrow> threads s owner;
     let s = set_td owner (otd\<lparr>td_contested := a # td_contested otd\<rparr>) s;
     let s = s\<lparr>turnstile_chains := (turnstile_chains s)[TC_HASH w := a # turnstile_chains s ! TC_HASH w]\<rparr>;
     Some (set_ts a (ts\<lparr>ts_owner := Some owner, ts_blocked := [t], ts_state := USED_BLOCKED\<rparr>) s)
   }"

definition turnstile_wait :: "bintime \<Rightarrow> bintime \<Rightarrow> nat \<Rightarrow> nat \<Rightarrow> nat \<Rightarrow> tsys \<Rightarrow> tsys option" where
  "turnstile_wait now now' a owner waitpt s = do {
     kassert (preempt_disabled s);
     td \<leftarrow> threads s (curthread s);
     s \<leftarrow> (if td_turnstile td \<noteq> Some a then wait_join a owner s else wait_first a owner s);
     switch_away now now' a waitpt s
   }"

section \<open>Waking the blocked\<close>

fun give_back_loop :: "nat \<Rightarrow> nat list \<Rightarrow> tsys \<Rightarrow> tsys option" where
  "give_back_loop a [] s = Some s"
| "give_back_loop a (t # rest) s = do {
     ts \<leftarrow> turnstiles s a;
     td \<leftarrow> threads s t;
     s \<leftarrow> (case ts_free ts of
        [] \<Rightarrow> do {
          kassert (rest = []);
          kassert (ts_state ts = USED_BLOCKED);
          w \<leftarrow> ts_wchan ts;
          kassert (a \<in> set (turnstile_chains s ! TC_HASH w));
          let s = s\<lparr>turnstile_chains := (turnstile_chains s)[TC_HASH w := remove1 a (turnstile_chains s ! TC_HASH w)]\<rparr>;
          Some (set_td t (td\<lparr>td_turnstile := Some a\<rparr>) (set_ts a (ts\<lparr>ts_wchan := None, ts_state := FREE_UNBLOCKED\<rparr>) s))
        }
      | f # fs \<Rightarrow> do {
          fts \<leftarrow> turnstiles s f;
          kassert (ts_state fts = FREE_BLOCKED);
          kassert (ts_wchan fts = None);
          let s = set_ts f (fts\<lparr>ts_state := FREE_UNBLOCKED\<rparr>) (set_ts a (ts\<lparr>ts_free := fs\<rparr>) s);
          Some (set_td t (td\<lparr>td_turnstile := Some f\<rparr>) s)
        });
     give_back_loop a rest s
   }"

definition give_back_turnstiles :: "nat \<Rightarrow> tsys \<Rightarrow> tsys option" where
  "give_back_turnstiles a s = do {
     ts \<leftarrow> turnstiles s a;
     kassert (ts_state ts = USED_BLOCKED);
     kassert (ts_owner ts = Some (curthread s));
     give_back_loop a (ts_blocked ts) s
   }"

fun max_prio_loop :: "nat list \<Rightarrow> prio \<Rightarrow> tsys \<Rightarrow> prio option" where
  "max_prio_loop [] prio s = Some prio"
| "max_prio_loop (a # as) prio s = do {
     ts \<leftarrow> turnstiles s a;
     kassert (ts_owner ts = Some (curthread s));
     kassert (ts_blocked ts \<noteq> []);
     let p = prio_of s (hd (ts_blocked ts));
     max_prio_loop as (if prio_gt p prio then p else prio) s
   }"

definition unlend_self :: "nat \<Rightarrow> tsys \<Rightarrow> tsys option" where
  "unlend_self a s = do {
     let t = curthread s;
     ts \<leftarrow> turnstiles s a;
     kassert (ts_owner ts = Some t);
     td \<leftarrow> threads s t;
     kassert (a \<in> set (td_contested td));
     let s = set_td t (td\<lparr>td_contested := remove1 a (td_contested td)\<rparr>) (set_ts a (ts\<lparr>ts_owner := None\<rparr>) s);
     prio \<leftarrow> max_prio_loop (remove1 a (td_contested td)) (prio_uthread 255) s;
     with_td_lock t (sched_unlend_prio t prio) s
   }"

fun wakeup_blocked :: "(nat \<Rightarrow> bintime) \<Rightarrow> nat \<Rightarrow> nat list \<Rightarrow> tsys \<Rightarrow> tsys option" where
  "wakeup_blocked now a [] s = Some s"
| "wakeup_blocked now a (t # rest) s = do {
     ts \<leftarrow> turnstiles s a;
     s \<leftarrow> with_td_lock t (\<lambda>s. do {
         td \<leftarrow> threads s t;
         kassert (td_is_blocked td);
         sched_wakeup (now t) t 0 (set_td t (td\<lparr>td_blocked := None, td_wchan := None, td_waitpt := None\<rparr>) s)
       }) (set_ts a (ts\<lparr>ts_blocked := rest\<rparr>) s);
     wakeup_blocked now a rest s
   }"

definition turnstile_broadcast :: "(nat \<Rightarrow> bintime) \<Rightarrow> nat \<Rightarrow> tsys \<Rightarrow> tsys option" where
  "turnstile_broadcast now w s = do {
     kassert (preempt_disabled s);
     r \<leftarrow> turnstile_lookup w s;
     a \<leftarrow> r;
     ts \<leftarrow> turnstiles s a;
     kassert (ts_state ts = USED_BLOCKED);
     kassert (ts_owner ts = Some (curthread s));
     kassert (ts_blocked ts \<noteq> []);
     s \<leftarrow> give_back_turnstiles a s;
     s \<leftarrow> unlend_self a s;
     s \<leftarrow> wakeup_blocked now a (ts_blocked ts) s;
     ts \<leftarrow> turnstiles s a;
     kassert (ts_state ts = FREE_UNBLOCKED);
     Some s
   }"

section \<open>The blocked threads stay sorted\<close>

lemma split_at:
  assumes "t \<in> set xs"
  obtains pre post where "xs = pre @ t # post" "t \<notin> set pre" "takeWhile (\<lambda>x. x \<noteq> t) xs = pre" "tl (dropWhile (\<lambda>x. x \<noteq> t) xs) = post"
proof -
  obtain pre post where x: "xs = pre @ t # post" "t \<notin> set pre"
    using split_list_first [OF assms] by blast
  then have "takeWhile (\<lambda>x. x \<noteq> t) xs = pre" "dropWhile (\<lambda>x. x \<noteq> t) xs = t # post"
    by (auto simp: takeWhile_append dropWhile_append takeWhile_eq_all_conv)
  then show thesis
    using that x by simp
qed

lemma move_set: "t \<in> set xs \<Longrightarrow> mset (move_forward p t xs) = mset xs" "t \<in> set xs \<Longrightarrow> mset (move_backward p t xs) = mset xs"
proof -
  assume "t \<in> set xs"
  then obtain pre post where x: "xs = pre @ t # post" "takeWhile (\<lambda>x. x \<noteq> t) xs = pre" "tl (dropWhile (\<lambda>x. x \<noteq> t) xs) = post"
    by (rule split_at)
  have "mset (takeWhile P l) + mset (dropWhile P l) = mset l" for P and l :: "nat list"
    by (simp flip: mset_append)
  then show "mset (move_forward p t xs) = mset xs" "mset (move_backward p t xs) = mset xs"
    unfolding move_forward_def move_backward_def x(2,3) Let_def
    by (simp_all add: x(1) add.commute add.left_commute)
qed

lemma dropWhile_sorted: "sorted (map p xs) \<Longrightarrow> x \<in> set (dropWhile (\<lambda>x. p x < k) xs) \<Longrightarrow> (k :: 'b :: linorder) \<le> p x"
  by (induction xs) (auto split: if_splits)

lemma dropWhile_rev_sorted: "sorted (map p (rev xs)) \<Longrightarrow> x \<in> set (dropWhile (\<lambda>x. k < p x) xs) \<Longrightarrow> p x \<le> (k :: 'b :: linorder)"
  by (induction xs) (auto simp: sorted_append split: if_splits dest: order_trans)

lemma takeWhile_less: "x \<in> set (takeWhile (\<lambda>x. p x < k) xs) \<Longrightarrow> p x < (k :: 'b :: linorder)"
  by (auto dest: set_takeWhileD)

lemma sorted_insert_at:
  assumes "sorted (map p xs)"
  shows "sorted (map p (takeWhile (\<lambda>x. p x < p t) xs @ (t :: nat) # dropWhile (\<lambda>x. p x < (p t :: 'b :: linorder)) xs))"
proof -
  have "sorted (map p (takeWhile (\<lambda>x. p x < p t) xs @ dropWhile (\<lambda>x. p x < p t) xs))"
    using assms by simp
  then show ?thesis
    using takeWhile_less [of _ p "p t" xs] dropWhile_sorted [OF assms, of _ "p t"] by (auto simp: sorted_append simp del: takeWhile_dropWhile_id intro: less_imp_le)
qed

lemma move_forward_new: "t \<notin> set xs \<Longrightarrow> move_forward p t (t # xs) = takeWhile (\<lambda>x. p x < p t) xs @ t # dropWhile (\<lambda>x. p x < p t) xs"
  by (simp add: move_forward_def prio_gt_def)

text \<open>A thread whose priority was raised moves towards the head, past those that now have a lower one.\<close>

lemma move_backward_sorted:
  assumes "sorted (map p xs)" and "distinct xs" "t \<in> set xs" and "q t \<le> p t" "\<And>x. x \<noteq> t \<Longrightarrow> q x = p x"
  shows "sorted (map q (move_backward q t xs))"
proof -
  obtain pre post where x: "xs = pre @ t # post" "takeWhile (\<lambda>x. x \<noteq> t) xs = pre" "tl (dropWhile (\<lambda>x. x \<noteq> t) xs) = post"
    using assms(3) by (rule split_at)
  let ?P = "\<lambda>x. q t < q x"
  have pq: "map q pre = map p pre" "map q post = map p post"
    using assms(2,5) unfolding x(1) map_eq_conv by (metis distinct.simps(2) distinct_append disjoint_iff list.set_intros(1))+
  have "sorted (map p pre)" "sorted (map p post)" "\<forall>y \<in> set pre. \<forall>z \<in> set post. p y \<le> p z" "\<forall>z \<in> set post. p t \<le> p z"
    using assms(1) by (auto simp: x(1) sorted_append)
  moreover have "\<forall>y \<in> set pre \<union> set post. q y = p y"
    using pq by (auto simp: map_eq_conv)
  ultimately have so: "sorted (map q pre)" "sorted (map q post)" "\<forall>y \<in> set pre. \<forall>z \<in> set post. q y \<le> q z" "\<forall>z \<in> set post. q t \<le> q z"
    using assms(4) unfolding pq by (auto intro: order_trans)
  have split: "rev pre = takeWhile ?P (rev pre) @ dropWhile ?P (rev pre)"
    by simp
  then have pre: "pre = rev (dropWhile ?P (rev pre)) @ rev (takeWhile ?P (rev pre))"
    by (metis rev_append rev_rev_ident)
  have hi: "\<forall>y \<in> set (takeWhile ?P (rev pre)). q t \<le> q y"
    by (auto dest: set_takeWhileD)
  have lo: "\<forall>y \<in> set (dropWhile ?P (rev pre)). q y \<le> q t"
    using dropWhile_rev_sorted [of q "rev pre" _ "q t"] so(1) by simp
  have "sorted (map q (rev (dropWhile ?P (rev pre)) @ rev (takeWhile ?P (rev pre))))" "set (takeWhile ?P (rev pre)) \<subseteq> set pre" "set (dropWhile ?P (rev pre)) \<subseteq> set pre"
    using so(1) pre by (auto dest: set_takeWhileD set_dropWhileD)
  then show ?thesis
    unfolding move_backward_def x(2,3) Let_def prio_lt_def using hi lo so by (auto simp: sorted_append)
qed

section \<open>Invariant of turnstiles and blocked threads\<close>

lemma set_ts_simps [simp]:
  "threads (set_ts a ts s) = threads s" "runq (set_ts a ts s) = runq s" "curthread (set_ts a ts s) = curthread s" "idle_thread (set_ts a ts s) = idle_thread s"
  "sched_active (set_ts a ts s) = sched_active s" "no_switch (set_ts a ts s) = no_switch s" "turnstiles (set_ts a ts s) = (turnstiles s)(a \<mapsto> ts)"
  "turnstile_chains (set_ts a ts s) = turnstile_chains s" "mutexes (set_ts a ts s) = mutexes s"
  by (simp_all add: set_ts_def)

lemma set_td_tsys [simp]:
  "turnstiles (set_td t td s) = turnstiles s" "turnstile_chains (set_td t td s) = turnstile_chains s" "mutexes (set_td t td s) = mutexes s"
  by (simp_all add: set_td_def)

lemma sched_part:
  assumes "threads s' = threads s" "runq s' = runq s" "curthread s' = curthread s" "idle_thread s' = idle_thread s" "sched_active s' = sched_active s"
  shows "base_inv i s' = base_inv i s" "locked L s' = locked L s" "running_threads s' = running_threads s"
  using assms by (simp_all add: base_inv_def locked_def runq_inv_def running_threads_def ready_threads_def thread_index_def [abs_def])

lemma set_ts_sched [simp]: "base_inv i (set_ts a ts s) = base_inv i s" "locked L (set_ts a ts s) = locked L s" "running_threads (set_ts a ts s) = running_threads s"
  by (rule sched_part; simp)+

lemma frame_tsys: "frame s s' \<Longrightarrow> turnstiles s' = turnstiles s \<and> turnstile_chains s' = turnstile_chains s \<and> mutexes s' = mutexes s"
  by (cases s; cases s') (simp add: frame_def)

definition used :: "tsys \<Rightarrow> nat \<Rightarrow> turnstile \<Rightarrow> bool" where
  "used s a ts \<longleftrightarrow> turnstiles s a = Some ts \<and> ts_state ts = USED_BLOCKED"

text \<open>A turnstile in use has an owner, which knows of it, and a queue of threads blocked on it, sorted by priority.\<close>

definition ts_ok :: "tsys \<Rightarrow> nat \<Rightarrow> turnstile \<Rightarrow> bool" where
  "ts_ok s a ts \<longleftrightarrow> (\<exists>ow otd. ts_owner ts = Some ow \<and> threads s ow = Some otd \<and> a \<in> set (td_contested otd)) \<and>
     distinct (ts_blocked ts) \<and> sorted (map (prio_of s) (ts_blocked ts)) \<and> (\<forall>t \<in> set (ts_blocked ts). \<exists>td. threads s t = Some td \<and> td_blocked td = Some a)"

text \<open>A blocked thread is on the turnstile it names, and a thread owns the contested turnstiles on its list.\<close>

definition td_ok :: "tsys \<Rightarrow> nat \<Rightarrow> thread \<Rightarrow> bool" where
  "td_ok s t td \<longleftrightarrow> (td_is_blocked td \<longleftrightarrow> td_blocked td \<noteq> None) \<and>
     (\<forall>a. td_blocked td = Some a \<longrightarrow> (\<exists>ts. used s a ts \<and> t \<in> set (ts_blocked ts))) \<and>
     distinct (td_contested td) \<and> (\<forall>a \<in> set (td_contested td). \<exists>ts. used s a ts \<and> ts_owner ts = Some t)"

definition lock_inv :: "tsys \<Rightarrow> bool" where
  "lock_inv s \<longleftrightarrow> (\<forall>a ts. used s a ts \<longrightarrow> ts_ok s a ts) \<and> (\<forall>t td. threads s t = Some td \<longrightarrow> td_ok s t td)"

text \<open>The owner of a contested turnstile has at least the priority of each thread blocked on it, those in \<open>X\<close> excepted.\<close>

definition inherits :: "nat set \<Rightarrow> tsys \<Rightarrow> bool" where
  "inherits X s \<longleftrightarrow> (\<forall>a ts ow t. used s a ts \<and> ts_owner ts = Some ow \<and> t \<in> set (ts_blocked ts) - X \<longrightarrow> prio_of s ow \<le> prio_of s t)"

definition lock_view :: "thread \<Rightarrow> nat option \<times> nat list \<times> prio \<times> bool" where
  "lock_view td = (td_blocked td, td_contested td, td_prio td, td_is_blocked td)"

lemma lock_view_eq:
  assumes "map_option lock_view (threads s' t) = map_option lock_view (threads s t)" and "threads s' t = Some td'"
  obtains td where "threads s t = Some td" "td_blocked td' = td_blocked td" "td_contested td' = td_contested td" "td_prio td' = td_prio td" "td_is_blocked td' = td_is_blocked td"
  using assms by (cases "threads s t") (auto simp: lock_view_def)

lemma prio_of_view:
  assumes "map_option lock_view (threads s' t) = map_option lock_view (threads s t)"
  shows "prio_of s' t = prio_of s t"
  using assms by (cases "threads s t"; cases "threads s' t") (auto simp: lock_view_def prio_of_def)

lemma lock_inv_view:
  assumes v: "\<And>t. map_option lock_view (threads s' t) = map_option lock_view (threads s t)" and ts: "turnstiles s' = turnstiles s"
  shows "lock_inv s \<Longrightarrow> lock_inv s'" and "inherits X s \<Longrightarrow> inherits X s'"
proof -
  have p: "prio_of s' = prio_of s"
    using prio_of_view v by blast
  have u: "used s' = used s"
    by (simp add: used_def [abs_def] ts)
  have f: "\<exists>td'. threads s' t = Some td' \<and> td_blocked td' = td_blocked td \<and> td_contested td' = td_contested td" if "threads s t = Some td" for t td
    using lock_view_eq [OF v [symmetric] that] by metis
  assume l: "lock_inv s"
  have "ts_ok s' a ts" if "ts_ok s a ts" for a ts
    using that f unfolding ts_ok_def p by metis
  moreover have "td_ok s' t td'" if "threads s' t = Some td'" for t td'
    using lock_view_eq [OF v that] l unfolding lock_inv_def td_ok_def u by metis
  ultimately show "lock_inv s'"
    using l by (simp add: lock_inv_def u)
next
  assume "inherits X s"
  moreover have "prio_of s' = prio_of s" "used s' = used s"
    using prio_of_view v by (blast, simp add: used_def [abs_def] ts)
  ultimately show "inherits X s'"
    by (simp add: inherits_def)
qed

lemma lock_inv_ts: "lock_inv s \<Longrightarrow> used s a ts \<Longrightarrow> ts_ok s a ts"
  by (simp add: lock_inv_def)

lemma lock_inv_td: "lock_inv s \<Longrightarrow> threads s t = Some td \<Longrightarrow> td_ok s t td"
  by (simp add: lock_inv_def)

text \<open>A thread is on the queue of the turnstile it is blocked on, and on no other.\<close>

lemma on_queue:
  assumes "lock_inv s" and "threads s t = Some td" and "used s a ts"
  shows "t \<in> set (ts_blocked ts) \<longleftrightarrow> td_blocked td = Some a"
proof
  assume "t \<in> set (ts_blocked ts)"
  then show "td_blocked td = Some a"
    using lock_inv_ts [OF assms(1,3)] assms(2) by (auto simp: ts_ok_def)
next
  assume "td_blocked td = Some a"
  then show "t \<in> set (ts_blocked ts)"
    using lock_inv_td [OF assms(1,2)] assms(3) by (auto simp: td_ok_def used_def)
qed

text \<open>The effect on a thread of lending it a priority.\<close>

definition raised :: "prio \<Rightarrow> thread \<Rightarrow> thread \<Rightarrow> bool" where
  "raised p td td' \<longleftrightarrow> td_blocked td' = td_blocked td \<and> td_contested td' = td_contested td \<and> td_is_blocked td' = td_is_blocked td \<and> td_prio td' = p"

lemma raise_prio_of:
  assumes "threads s t = Some td" and "threads s' = (threads s)(t \<mapsto> td')" and "raised p td td'"
  shows "prio_of s' = (prio_of s)(t := p)"
  using assms by (auto simp: prio_of_def raised_def)

text \<open>A new queue for a turnstile that holds the same threads.\<close>

lemma raise_lock_inv:
  assumes l: "lock_inv s" and t: "threads s t = Some td" and td': "threads s' = (threads s)(t \<mapsto> td')" "raised p td td'"
    and ts': "\<And>a ts'. used s' a ts' \<longleftrightarrow> (\<exists>ts q. used s a ts \<and> ts' = ts\<lparr>ts_blocked := q\<rparr> \<and> new a ts = q)"
    and new: "\<And>a ts. used s a ts \<Longrightarrow> mset (new a ts) = mset (ts_blocked ts)" "\<And>a ts. used s a ts \<Longrightarrow> sorted (map (prio_of s') (new a ts))"
  shows "lock_inv s'"
  unfolding lock_inv_def
proof (intro conjI allI impI)
  have same: "\<exists>td'. threads s' y = Some td' \<and> td_blocked td' = td_blocked ytd \<and> td_contested td' = td_contested ytd" if "threads s y = Some ytd" for y ytd
    using that t td' by (auto simp: raised_def)
  have set: "set (new a ts) = set (ts_blocked ts)" "distinct (new a ts) = distinct (ts_blocked ts)" if "used s a ts" for a ts
    using mset_eq_setD [OF new(1) [OF that]] mset_eq_imp_distinct_iff [OF new(1) [OF that]] by simp_all
  fix a ts'
  assume "used s' a ts'"
  then obtain ts where ts: "used s a ts" "ts' = ts\<lparr>ts_blocked := new a ts\<rparr>"
    by (auto simp: ts')
  then show "ts_ok s' a ts'"
    using lock_inv_ts [OF l ts(1)] same set [OF ts(1)] new(2) [OF ts(1)] unfolding ts_ok_def by (simp add: ts(2)) metis
next
  have set: "set (new a ts) = set (ts_blocked ts)" if "used s a ts" for a ts
    by (rule mset_eq_setD [OF new(1) [OF that]])
  have u: "\<exists>ts'. used s' a ts' \<and> set (ts_blocked ts') = set (ts_blocked ts) \<and> ts_owner ts' = ts_owner ts" if "used s a ts" for a ts
    using that set ts' by fastforce
  fix y ytd'
  assume "threads s' y = Some ytd'"
  then obtain ytd where ytd: "threads s y = Some ytd" "td_blocked ytd' = td_blocked ytd" "td_contested ytd' = td_contested ytd" "td_is_blocked ytd' = td_is_blocked ytd"
    using t td' by (auto simp: raised_def split: if_splits)
  then show "td_ok s' y ytd'"
    using lock_inv_td [OF l ytd(1)] u unfolding td_ok_def by metis
qed

lemma raise_inherits:
  assumes l: "lock_inv s" and inh: "inherits {x} s" and t: "threads s t = Some td" and td': "threads s' = (threads s)(t \<mapsto> td')" "raised p td td'" "p \<le> td_prio td"
    and x: "threads s x = Some xtd" "td_blocked xtd = Some a" "td_prio xtd = p" and a: "used s a ats" "ts_owner ats = Some t"
    and ts': "\<And>a ts'. used s' a ts' \<longleftrightarrow> (\<exists>ts q. used s a ts \<and> ts' = ts\<lparr>ts_blocked := q\<rparr> \<and> new a ts = q)"
    and new: "\<And>a ts. used s a ts \<Longrightarrow> mset (new a ts) = mset (ts_blocked ts)"
  shows "inherits {t} s'"
  unfolding inherits_def
proof (intro allI impI, elim conjE)
  fix c cts' ow y
  assume c: "used s' c cts'" "ts_owner cts' = Some ow" and y: "y \<in> set (ts_blocked cts') - {t}"
  obtain cts where cts: "used s c cts" "ts_owner cts = Some ow" "y \<in> set (ts_blocked cts)" "y \<noteq> t"
    using c y mset_eq_setD [OF new] by (auto simp: ts')
  note pr = raise_prio_of [OF t td'(1,2)]
  have le: "prio_of s' ow \<le> prio_of s ow"
    using td'(3) t by (simp add: pr prio_of_def)
  show "prio_of s' ow \<le> prio_of s' y"
  proof (cases "y = x")
    case True
    then have "c = a"
      using on_queue [OF l x(1) cts(1)] cts(3) x(2) by simp
    then have "ow = t"
      using cts(1,2) a by (simp add: used_def)
    then show ?thesis
      using True cts(4) x(1,3) by (simp add: pr prio_of_def)
  next
    case False
    then have "prio_of s ow \<le> prio_of s y"
      using inh cts(1-3) unfolding inherits_def by blast
    then show ?thesis
      using le cts(4) by (simp add: pr)
  qed
qed

lemma inherits_subset: "inherits X s \<Longrightarrow> X \<subseteq> Y \<Longrightarrow> inherits Y s"
  unfolding inherits_def by blast

text \<open>The exception may be dropped when its owner has the priority, or when the thread is not blocked.\<close>

lemma inherits_drop:
  assumes l: "lock_inv s" and inh: "inherits {x} s" and x: "threads s x = Some xtd"
    and ok: "\<And>a ts ow. td_blocked xtd = Some a \<Longrightarrow> used s a ts \<Longrightarrow> ts_owner ts = Some ow \<Longrightarrow> prio_of s ow \<le> td_prio xtd"
  shows "inherits {} s"
  unfolding inherits_def
proof (intro allI impI, elim conjE)
  fix a ts ow y
  assume a: "used s a ts" "ts_owner ts = Some ow" and y: "y \<in> set (ts_blocked ts) - {}"
  show "prio_of s ow \<le> prio_of s y"
  proof (cases "y = x")
    case True
    then show ?thesis
      using on_queue [OF l x a(1)] y ok [OF _ a] x by (simp add: prio_of_def)
  next
    case False
    then show ?thesis
      using inh a y unfolding inherits_def by blast
  qed
qed

text \<open>Raising a blocked thread and moving it on its queue, or raising one that is not blocked.\<close>

lemma raise_blocked:
  assumes l: "lock_inv s" and inh: "inherits {x} s" and t: "threads s t = Some td" and td': "threads s' = (threads s)(t \<mapsto> td')" "raised p td td'" "p \<le> td_prio td"
    and x: "threads s x = Some xtd" "td_blocked xtd = Some a" "td_prio xtd = p" and a: "used s a ats" "ts_owner ats = Some t"
    and b: "td_blocked td = Some b" "used s b bts" and ts': "turnstiles s' = (turnstiles s)(b \<mapsto> bts\<lparr>ts_blocked := move_backward (prio_of s') t (ts_blocked bts)\<rparr>)"
  shows "lock_inv s'" and "inherits {t} s'"
proof -
  let ?new = "\<lambda>c cts. if c = b then move_backward (prio_of s') t (ts_blocked bts) else ts_blocked cts"
  have tb: "t \<in> set (ts_blocked bts)"
    using on_queue [OF l t b(2)] b(1) by simp
  have u: "used s' c cts' \<longleftrightarrow> (\<exists>cts q. used s c cts \<and> cts' = cts\<lparr>ts_blocked := q\<rparr> \<and> ?new c cts = q)" for c cts'
    using b(2) by (auto simp: used_def ts')
  have m: "mset (?new c cts) = mset (ts_blocked cts)" if "used s c cts" for c cts
    using that b(2) move_set(2) [OF tb] by (auto simp: used_def)
  have pr: "prio_of s' = (prio_of s)(t := p)" "prio_of s' t \<le> prio_of s t"
    using raise_prio_of [OF t td'(1,2)] td'(3) t by (simp_all add: prio_of_def)
  have so: "sorted (map (prio_of s') (?new c cts))" if "used s c cts" for c cts
  proof (cases "c = b")
    case True
    then show ?thesis
      using lock_inv_ts [OF l b(2)] tb pr by (auto simp: ts_ok_def intro!: move_backward_sorted [where p = "prio_of s"])
  next
    case False
    then have "t \<notin> set (ts_blocked cts)"
      using on_queue [OF l t that] b(1) by simp
    then have "map (prio_of s') (ts_blocked cts) = map (prio_of s) (ts_blocked cts)"
      by (simp add: pr(1))
    then show ?thesis
      using False lock_inv_ts [OF l that] by (simp add: ts_ok_def del: map_eq_conv)
  qed
  show "lock_inv s'"
    by (rule raise_lock_inv [where new = ?new, OF l t td'(1,2) u m so])
  show "inherits {t} s'"
    by (rule raise_inherits [where new = ?new, OF l inh t td' x a u m])
qed

lemma raise_unblocked:
  assumes l: "lock_inv s" and inh: "inherits {x} s" and t: "threads s t = Some td" and td': "threads s' = (threads s)(t \<mapsto> td')" "raised p td td'" "p \<le> td_prio td"
    and x: "threads s x = Some xtd" "td_blocked xtd = Some a" "td_prio xtd = p" and a: "used s a ats" "ts_owner ats = Some t"
    and b: "td_blocked td = None" and ts': "turnstiles s' = turnstiles s"
  shows "lock_inv s'" and "inherits {} s'"
proof -
  have u: "used s' c cts' \<longleftrightarrow> (\<exists>cts q. used s c cts \<and> cts' = cts\<lparr>ts_blocked := q\<rparr> \<and> ts_blocked cts = q)" for c cts'
    by (auto simp: used_def ts')
  have pr: "prio_of s' = (prio_of s)(t := p)"
    using raise_prio_of [OF t td'(1,2)] .
  have "map (prio_of s') (ts_blocked cts) = map (prio_of s) (ts_blocked cts)" if "used s c cts" for c cts
    using on_queue [OF l t that] b by (auto simp: pr)
  then have "sorted (map (prio_of s') (ts_blocked cts))" if "used s c cts" for c cts
    using lock_inv_ts [OF l that] that by (simp add: ts_ok_def del: map_eq_conv)
  then show l': "lock_inv s'"
    by (rule raise_lock_inv [OF l t td'(1,2) u refl])
  have "inherits {t} s'"
    by (rule raise_inherits [OF l inh t td' x a u refl])
  then show "inherits {} s'"
    using inherits_drop [OF l', of t td'] td'(1,2) b by (simp add: raised_def)
qed

section \<open>Propagation restores inheritance\<close>

text \<open>What propagation leaves alone: who owns and waits for what.\<close>

definition same_graph :: "tsys \<Rightarrow> tsys \<Rightarrow> bool" where
  "same_graph s s' \<longleftrightarrow> curthread s' = curthread s \<and> idle_thread s' = idle_thread s \<and> no_switch s' = no_switch s \<and> turnstile_chains s' = turnstile_chains s \<and> mutexes s' = mutexes s \<and>
     (\<forall>a. map_option (\<lambda>ts. (ts_wchan ts, ts_owner ts, ts_state ts, ts_free ts, set (ts_blocked ts))) (turnstiles s' a) =
          map_option (\<lambda>ts. (ts_wchan ts, ts_owner ts, ts_state ts, ts_free ts, set (ts_blocked ts))) (turnstiles s a)) \<and>
     (\<forall>t. map_option (\<lambda>td. (td_state td, td_blocked td, td_contested td, td_turnstile td)) (threads s' t) =
          map_option (\<lambda>td. (td_state td, td_blocked td, td_contested td, td_turnstile td)) (threads s t))"

lemma same_graph_refl [simp]: "same_graph s s"
  by (simp add: same_graph_def)

lemma same_graph_trans: "same_graph s s' \<Longrightarrow> same_graph s' s'' \<Longrightarrow> same_graph s s''"
  by (simp add: same_graph_def)

lemma same_graph_lock:
  assumes "threads s t = Some td"
  shows "same_graph s (set_td t (td\<lparr>td_lock := l\<rparr>) s)"
  using assms by (auto simp: same_graph_def)

definition idle_free :: "nat \<Rightarrow> tsys \<Rightarrow> bool" where
  "idle_free i s \<longleftrightarrow> (\<forall>a ts. used s a ts \<longrightarrow> ts_owner ts \<noteq> Some i)"

lemma same_graph_idle:
  assumes "same_graph s s'" and "idle_free i s"
  shows "idle_free i s'"
proof -
  have "\<exists>ts. used s a ts \<and> ts_owner ts = ts_owner ts'" if "used s' a ts'" for a ts'
    using assms(1) that unfolding same_graph_def used_def by (cases "turnstiles s a") (auto dest!: spec [of _ a])
  then show ?thesis
    using assms(2) unfolding idle_free_def by metis
qed

text \<open>The running thread and thread \<open>t\<close> are locked; \<open>t\<close> owns what \<open>x\<close> is blocked on and is the only one that may lack its priority.\<close>

definition chasing :: "nat \<Rightarrow> nat \<Rightarrow> prio \<Rightarrow> nat \<Rightarrow> tsys \<Rightarrow> bool" where
  "chasing i x prio t s \<longleftrightarrow> base_inv i s \<and> locked {curthread s, t} s \<and> t \<noteq> curthread s \<and> idle_free i s \<and> lock_inv s \<and> inherits {x} s \<and>
     (\<exists>xtd a ats. threads s x = Some xtd \<and> td_blocked xtd = Some a \<and> td_prio xtd = prio \<and> used s a ats \<and> ts_owner ats = Some t)"

lemma lock_change:
  assumes "threads s t = Some td" and "lock_inv s" and "inherits X s"
  shows "lock_inv (set_td t (td\<lparr>td_lock := l\<rparr>) s)" and "inherits X (set_td t (td\<lparr>td_lock := l\<rparr>) s)"
  using assms by (auto intro: lock_inv_view [where s = s] simp: lock_view_def)

lemma acquire_owner_ok:
  assumes l: "lock_inv s" "inherits {x} s" and b: "base_inv i s" "locked {curthread s} s" "idle_free i s" and a: "acquire_owner a s = Some (t, s')"
    and x: "threads s x = Some xtd" "td_blocked xtd = Some a"
  shows "chasing i x (td_prio xtd) t s'" and "same_graph s s'"
proof -
  obtain ts td where ts: "used s a ts" "ts_owner ts = Some t" "spin_lock t s = Some s'" "threads s t = Some td"
    using a by (auto simp: acquire_owner_def used_def spin_lock_def bind_eq_Some_conv)
  have t: "t \<noteq> curthread s"
    using ts(3,4) b(2) by (auto simp: spin_lock_def locked_def bind_eq_Some_conv)
  let ?td = "td\<lparr>td_lock := Some (curthread s)\<rparr>"
  have s': "s' = set_td t ?td s" "locked {curthread s, t} s'"
    using spin_lock_ok [OF b(2) ts(4)] t ts(3) by (auto simp: insert_commute)
  show g: "same_graph s s'"
    unfolding s'(1) by (rule same_graph_lock [OF ts(4)])
  have "base_inv i s'"
    using base_inv_set [OF b(1) ts(4), of ?td] by (simp add: s'(1))
  moreover have "lock_inv s'" "inherits {x} s'" "idle_free i s'"
    using lock_change [OF ts(4) l] same_graph_idle [OF g b(3)] by (simp_all add: s'(1))
  moreover have "used s' a ts" "\<exists>xtd'. threads s' x = Some xtd' \<and> td_blocked xtd' = Some a \<and> td_prio xtd' = td_prio xtd"
    using ts(1,4) x by (auto simp: s'(1) used_def)
  moreover have "curthread s' = curthread s"
    by (simp add: s'(1))
  ultimately show "chasing i x (td_prio xtd) t s'"
    using s'(2) t ts(2) unfolding chasing_def by metis
qed

text \<open>Lending a priority to a blocked thread and moving it on its queue.\<close>

lemma lend_adjust_ok:
  assumes c: "chasing i x prio t s" and t: "threads s t = Some td" "prio_lt (td_prio td) prio" "td_is_blocked td" "td_blocked td = Some b"
    and s1: "sched_lend_prio t prio s = Some s1" and s2: "adjust_thread b t (td_prio td) s1 = Some s2"
  obtains td' where "threads s2 t = Some td'" "td_prio td' = prio" "td_blocked td' = Some b"
    and "base_inv i s2" "locked {curthread s2, t} s2" "lock_inv s2" "inherits {t} s2" "same_graph s s2"
proof -
  obtain xtd a ats where x: "threads s x = Some xtd" "td_blocked xtd = Some a" "td_prio xtd = prio" "used s a ats" "ts_owner ats = Some t"
    and b: "base_inv i s" "locked {curthread s, t} s" "lock_inv s" "inherits {x} s"
    using c unfolding chasing_def by blast
  let ?td = "td\<lparr>td_flags := td_flags td OR TDF_BORROWING, td_prio := prio\<rparr>"
  have s1': "base_inv i s1" "locked {curthread s, t} s1" "frame s s1" "threads s1 = (threads s)(t \<mapsto> ?td)"
    using sched_lend_prio_ok [OF b(1,2) _ t(1) _ t(2)] t(3) s1 by auto
  obtain bts where bts: "used s b bts" "t \<in> set (ts_blocked bts)"
    using lock_inv_td [OF b(3) t(1)] t(4) by (auto simp: td_ok_def)
  have p: "prio < td_prio td"
    using t(2) by (simp add: prio_lt_def)
  have s2': "s2 = set_ts b (bts\<lparr>ts_blocked := move_backward (prio_of s1) t (ts_blocked bts)\<rparr>) s1"
    using s2 bts frame_tsys [OF s1'(3)] t(3) p by (auto simp: adjust_thread_def adjust_thread_backward_def used_def s1'(4) prio_gt_def)
  have th2: "threads s2 = (threads s)(t \<mapsto> ?td)" "turnstiles s2 = (turnstiles s)(b \<mapsto> bts\<lparr>ts_blocked := move_backward (prio_of s2) t (ts_blocked bts)\<rparr>)"
    using frame_tsys [OF s1'(3)] by (simp_all add: s2' s1'(4) prio_of_def [abs_def])
  have "raised prio td ?td"
    by (simp add: raised_def)
  then have "lock_inv s2" "inherits {t} s2"
    using raise_blocked [OF b(3,4) t(1) th2(1) _ _ x t(4) bts(1) th2(2)] p by auto
  moreover have fr: "curthread s1 = curthread s" "no_switch s1 = no_switch s" "idle_thread s1 = idle_thread s"
    using frame_simps [OF s1'(3)] by simp_all
  moreover have "base_inv i s2" "locked {curthread s2, t} s2"
    using s1'(1,2) fr by (simp_all add: s2')
  moreover have "same_graph s s2"
    using frame_tsys [OF s1'(3)] fr t(1) bts mset_eq_setD [OF move_set(2) [OF bts(2)]]
    by (auto simp: same_graph_def s2' used_def s1'(4))
  ultimately show thesis
    using that [of ?td] t(4) by (simp add: th2(1))
qed

lemma propagate_step:
  assumes c: "chasing i x prio t s" and t: "threads s t = Some td" "prio_lt (td_prio td) prio" "td_is_blocked td" "td_blocked td = Some b"
    and s1: "sched_lend_prio t prio s = Some s1" and s2: "adjust_thread b t (td_prio td) s1 = Some s2" and s3: "spin_unlock t s2 = Some s3"
    and s4: "acquire_owner b s3 = Some (t', s4)"
  shows "chasing i t prio t' s4" and "same_graph s s4"
proof -
  obtain td' where td': "threads s2 t = Some td'" "td_prio td' = prio" "td_blocked td' = Some b"
    and b: "base_inv i s2" "locked {curthread s2, t} s2" "lock_inv s2" "inherits {t} s2" and g2: "same_graph s s2"
    using lend_adjust_ok [OF c t s1 s2] .
  have c': "t \<noteq> curthread s2" "idle_free i s2"
    using c g2 same_graph_idle [OF g2] by (auto simp: chasing_def same_graph_def)
  let ?td = "td'\<lparr>td_lock := None\<rparr>"
  have s3': "s3 = set_td t ?td s2" "locked {curthread s3} s3"
    using spin_unlock_ok [OF b(2) td'(1)] s3 c'(1) by (auto simp: insert_Diff_if)
  have g3: "same_graph s2 s3"
    unfolding s3'(1) by (rule same_graph_lock [OF td'(1)])
  have "base_inv i s3" "lock_inv s3" "inherits {t} s3" "idle_free i s3" "threads s3 t = Some ?td" "td_blocked ?td = Some b"
    using base_inv_set [OF b(1) td'(1), of ?td] lock_change [OF td'(1) b(3,4)] same_graph_idle [OF g3 c'(2)] td'(3) by (simp_all add: s3'(1))
  then show "chasing i t prio t' s4" "same_graph s s4"
    using acquire_owner_ok [of s3 t i b t' s4 ?td] s3'(2) s4 td'(2) same_graph_trans [OF g2 same_graph_trans [OF g3]] by auto
qed

text \<open>The loop ends at an owner that has the priority or can run.\<close>

definition chased :: "nat \<Rightarrow> prio \<Rightarrow> tsys \<Rightarrow> nat \<times> tsys \<Rightarrow> bool" where
  "chased i prio s r \<longleftrightarrow> (\<exists>x td. chasing i x prio (fst r) (snd r) \<and> same_graph s (snd r) \<and> threads (snd r) (fst r) = Some td \<and>
     (prio_lt (td_prio td) prio \<longrightarrow> td_is_ready td \<or> td_is_running td))"

lemma propagate_loop_ok:
  assumes "propagate_loop prio t s = Some r"
  shows "\<forall>x. chasing i x prio t s \<longrightarrow> chased i prio s r"
proof (rule propagate_loop.raw_induct [OF _ assms, where P = "\<lambda>prio t s r. \<forall>x. chasing i x prio t s \<longrightarrow> chased i prio s r"], intro allI impI, goal_cases)
  case (1 loop prio t s r x)
  obtain td where td: "threads s t = Some td"
    using "1"(2) by (auto simp: bind_eq_Some_conv)
  show ?case
  proof (cases "prio_lt (td_prio td) prio \<and> \<not> td_is_ready td \<and> \<not> td_is_running td")
    case True
    obtain b s1 s2 s3 t' s4 where st: "td_is_blocked td" "td_blocked td = Some b" "sched_lend_prio t prio s = Some s1"
        "adjust_thread b t (td_prio td) s1 = Some s2" "spin_unlock t s2 = Some s3" "acquire_owner b s3 = Some (t', s4)" "loop prio t' s4 = Some r"
      using "1"(2) td True by (auto simp: bind_eq_Some_conv)
    have "chasing i t prio t' s4" and g: "same_graph s s4"
      using propagate_step [OF "1"(3) td _ st(1-6)] True by blast+
    then have "chased i prio s4 r"
      using "1"(1) [OF st(7)] by blast
    then show ?thesis
      unfolding chased_def using same_graph_trans [OF g] by blast
  next
    case False
    then have "r = (t, s)"
      using "1"(2) td by auto
    then show ?thesis
      using "1"(3) td False unfolding chased_def by auto
  qed
qed

text \<open>What a propagation leaves behind.\<close>

lemma propagate_last:
  assumes c: "chasing i x prio t s" and t: "threads s t = Some td" "prio_lt (td_prio td) prio" "td_is_ready td \<or> td_is_running td" and b: "td_blocked td = None"
    and s1: "sched_lend_prio t prio s = Some s1"
  obtains td' where "threads s1 t = Some td'" "base_inv i s1" "locked {curthread s1, t} s1" "lock_inv s1" "inherits {} s1" "same_graph s s1"
proof -
  obtain xtd a ats where x: "threads s x = Some xtd" "td_blocked xtd = Some a" "td_prio xtd = prio" "used s a ats" "ts_owner ats = Some t"
    and bi: "base_inv i s" "locked {curthread s, t} s" "lock_inv s" "inherits {x} s" "t \<noteq> curthread s" "idle_free i s"
    using c unfolding chasing_def by blast
  have "t \<notin> {curthread s, i}"
    using bi(5,6) x(4,5) by (auto simp: idle_free_def)
  let ?td = "td\<lparr>td_flags := td_flags td OR TDF_BORROWING, td_prio := prio\<rparr>"
  have s1': "base_inv i s1" "locked {curthread s, t} s1" "frame s s1" "threads s1 = (threads s)(t \<mapsto> ?td)"
    using sched_lend_prio_ok [OF bi(1,2) _ t(1) _ t(2)] \<open>t \<notin> {curthread s, i}\<close> s1 by auto
  have fr: "curthread s1 = curthread s" "no_switch s1 = no_switch s" "turnstiles s1 = turnstiles s" "turnstile_chains s1 = turnstile_chains s" "mutexes s1 = mutexes s"
      "idle_thread s1 = idle_thread s"
    using frame_simps [OF s1'(3)] frame_tsys [OF s1'(3)] by simp_all
  have "raised prio td ?td" "prio \<le> td_prio td"
    using t(2) by (simp_all add: raised_def prio_lt_def)
  then have "lock_inv s1" "inherits {} s1"
    using raise_unblocked [OF bi(3,4) t(1) s1'(4) _ _ x b fr(3)] by auto
  moreover have "same_graph s s1"
    using fr t(1) by (auto simp: same_graph_def s1'(4))
  ultimately show thesis
    using that [of ?td] s1' fr by simp
qed

lemma propagate_priority_ok:
  assumes b: "base_inv i s" "locked {curthread s} s" "idle_free i s" and l: "lock_inv s" "inherits {x} s"
    and p: "propagate_priority x s = Some s'"
  shows "base_inv i s'" and "locked {curthread s'} s'" and "lock_inv s'" and "inherits {} s'" and "same_graph s s'"
proof -
  obtain xtd a t1 s1 t2 s2 td where x: "threads s x = Some xtd" "td_blocked xtd = Some a" "acquire_owner a s = Some (t1, s1)"
      "propagate_loop (td_prio xtd) t1 s1 = Some (t2, s2)" "threads s2 t2 = Some td"
    and rest: "(if prio_lt (td_prio td) (td_prio xtd) \<and> (td_is_ready td \<or> td_is_running td)
      then sched_lend_prio t2 (td_prio xtd) s2 \<bind> (\<lambda>s. kassert (td_blocked td = None) \<bind> (\<lambda>_. Some s)) else Some s2) \<bind> spin_unlock t2 = Some s'"
    using p unfolding propagate_priority_def Let_def by (auto simp: bind_eq_Some_conv)
  have "chasing i x (td_prio xtd) t1 s1" and g1: "same_graph s s1"
    using acquire_owner_ok [OF l b x(3,1,2)] .
  then obtain y where c: "chasing i y (td_prio xtd) t2 s2" "same_graph s1 s2" "prio_lt (td_prio td) (td_prio xtd) \<longrightarrow> td_is_ready td \<or> td_is_running td"
    using propagate_loop_ok [OF x(4)] x(5) unfolding chased_def by fastforce
  obtain s3 td3 where s3: "threads s3 t2 = Some td3" "base_inv i s3" "locked {curthread s3, t2} s3" "lock_inv s3" "inherits {} s3" "same_graph s2 s3" "spin_unlock t2 s3 = Some s'"
  proof (cases "prio_lt (td_prio td) (td_prio xtd)")
    case True
    then obtain s3 where "sched_lend_prio t2 (td_prio xtd) s2 = Some s3" "td_blocked td = None" "spin_unlock t2 s3 = Some s'"
      using rest c(3) by (auto simp: bind_eq_Some_conv split: if_splits)
    then show thesis
      using propagate_last [OF c(1) x(5) True] c(3) True that by metis
  next
    case False
    obtain ytd ya yts where y: "threads s2 y = Some ytd" "td_blocked ytd = Some ya" "td_prio ytd = td_prio xtd" "used s2 ya yts" "ts_owner yts = Some t2"
      "base_inv i s2" "locked {curthread s2, t2} s2" "lock_inv s2" "inherits {y} s2"
      using c(1) unfolding chasing_def by blast
    have "inherits {} s2"
      by (rule inherits_drop [OF y(8,9,1)]) (use y(2-5) False x(5) in \<open>auto simp: used_def prio_of_def prio_lt_def\<close>)
    then show thesis
      using that [OF x(5) y(6-8)] rest False by simp
  qed
  have "t2 \<noteq> curthread s3"
    using c(1) s3(6) by (simp add: chasing_def same_graph_def)
  then have s': "s' = set_td t2 (td3\<lparr>td_lock := None\<rparr>) s3" "locked {curthread s'} s'"
    using spin_unlock_ok [OF s3(3,1)] s3(7) by (auto simp: insert_Diff_if)
  then show "base_inv i s'" "locked {curthread s'} s'" "lock_inv s'" "inherits {} s'"
    using base_inv_set [OF s3(2,1), of "td3\<lparr>td_lock := None\<rparr>"] lock_change [OF s3(1,4,5)] by simp_all
  show "same_graph s s'"
    using same_graph_trans [OF g1 same_graph_trans [OF c(2) same_graph_trans [OF s3(6) same_graph_lock [OF s3(1)]]]] by (simp add: s'(1))
qed

section \<open>Blocking keeps the invariant\<close>

text \<open>A thread that is not blocked joins the queue of a turnstile in use.\<close>

definition blocks_on :: "nat \<Rightarrow> thread \<Rightarrow> thread \<Rightarrow> bool" where
  "blocks_on a td td' \<longleftrightarrow> td_blocked td' = Some a \<and> td_contested td' = td_contested td \<and> td_prio td' = td_prio td \<and> td_is_blocked td'"

lemma join_queue:
  fixes p :: "nat \<Rightarrow> prio"
  assumes "distinct xs" "t \<notin> set xs" "sorted (map p xs)" and ys: "ys = takeWhile (\<lambda>x. p x < p t) xs @ t # dropWhile (\<lambda>x. p x < p t) xs"
  shows "set ys = insert t (set xs)" and "distinct ys" and "sorted (map p ys)"
proof -
  have "mset ys = mset (t # xs)"
    using mset_append [of "takeWhile (\<lambda>x. p x < p t) xs" "dropWhile (\<lambda>x. p x < p t) xs"] by (simp add: ys)
  from mset_eq_setD [OF this] mset_eq_imp_distinct_iff [OF this]
  show "set ys = insert t (set xs)" "distinct ys" "sorted (map p ys)"
    using assms(1,2) sorted_insert_at [OF assms(3), of t] by (simp_all add: ys)
qed

lemma td_ok_mono:
  assumes "td_ok s t td" and "\<And>c cts. used s c cts \<Longrightarrow> \<exists>cts'. used s' c cts' \<and> set (ts_blocked cts) \<subseteq> set (ts_blocked cts') \<and> ts_owner cts' = ts_owner cts"
  shows "td_ok s' t td"
proof -
  have "\<exists>ts. used s' a ts \<and> t \<in> set (ts_blocked ts)" if "td_blocked td = Some a" for a
    using assms that unfolding td_ok_def by (metis subsetD)
  moreover have "\<exists>ts. used s' a ts \<and> ts_owner ts = Some t" if "a \<in> set (td_contested td)" for a
    using assms that unfolding td_ok_def by metis
  ultimately show ?thesis
    using assms(1) unfolding td_ok_def by blast
qed

lemma td_ok_blocks:
  assumes "td_ok s t td" and "blocks_on a td td'" and "used s a ats" "t \<in> set (ts_blocked ats)"
  shows "td_ok s t td'"
  using assms unfolding td_ok_def blocks_on_def by auto

lemma block_join_ok:
  assumes l: "lock_inv s" "inherits {} s" and t: "threads s t = Some td" "td_blocked td = None" and a: "used s a ts"
    and th: "threads s' = (threads s)(t \<mapsto> td')" "blocks_on a td td'"
    and u: "\<And>c cts'. used s' c cts' \<longleftrightarrow> (if c = a then cts' = ats else used s c cts')"
    and ats: "ts_blocked ats = takeWhile (\<lambda>x. prio_of s x < prio_of s t) (ts_blocked ts) @ t # dropWhile (\<lambda>x. prio_of s x < prio_of s t) (ts_blocked ts)"
      "ts_owner ats = ts_owner ts"
  shows "lock_inv s'" and "inherits {t} s'"
proof -
  have pr: "prio_of s' = prio_of s"
    using t(1) th by (auto simp: prio_of_def blocks_on_def)
  have tq: "t \<notin> set (ts_blocked cts)" if "used s c cts" for c cts
    using on_queue [OF l(1) t(1) that] t(2) by simp
  note q = join_queue [OF _ tq [OF a] _ ats(1)]
  have q: "set (ts_blocked ats) = insert t (set (ts_blocked ts))" "distinct (ts_blocked ats)" "sorted (map (prio_of s') (ts_blocked ats))"
    using q lock_inv_ts [OF l(1) a] by (simp_all add: ts_ok_def pr)
  have same: "\<exists>td'. threads s' y = Some td' \<and> (td_blocked td' = td_blocked ytd \<or> y = t) \<and> td_contested td' = td_contested ytd" if "threads s y = Some ytd" for y ytd
    using that t(1) th by (auto simp: blocks_on_def)
  have "ts_ok s' c cts" if "used s' c cts" for c cts
  proof (cases "c = a")
    case True
    have "\<exists>td'. threads s' y = Some td' \<and> td_blocked td' = Some a" if "y \<in> set (ts_blocked ats)" for y
      using that q(1) th lock_inv_ts [OF l(1) a] by (cases "y = t") (auto simp: ts_ok_def blocks_on_def)
    then show ?thesis
      using True that u lock_inv_ts [OF l(1) a] same q(2,3) ats(2) unfolding ts_ok_def by (metis (no_types, lifting))
  next
    case False
    then have c: "used s c cts" "ts_ok s c cts"
      using that u lock_inv_ts [OF l(1)] by simp_all
    then show ?thesis
      using same tq [OF c(1)] unfolding ts_ok_def pr by (metis (no_types, lifting))
  qed
  moreover have us: "\<exists>cts'. used s' c cts' \<and> set (ts_blocked cts) \<subseteq> set (ts_blocked cts') \<and> ts_owner cts' = ts_owner cts" if "used s c cts" for c cts
    using that a u q(1) ats(2) by (cases "c = a") (auto simp: used_def)
  have mono: "td_ok s' y ytd" if "threads s y = Some ytd" for y ytd
    by (rule td_ok_mono [OF lock_inv_td [OF l(1) that]]) (rule us)
  have "used s' a ats" "t \<in> set (ts_blocked ats)"
    using u q(1) by simp_all
  then have "td_ok s' t td'"
    by (rule td_ok_blocks [OF mono [OF t(1)] th(2)])
  then have "td_ok s' y ytd'" if "threads s' y = Some ytd'" for y ytd'
    using that mono by (cases "y = t") (simp_all add: th(1))
  ultimately show "lock_inv s'"
    by (simp add: lock_inv_def)
  show "inherits {t} s'"
    using l(2) a u q(1) ats(2) unfolding inherits_def pr by (auto split: if_splits)
qed

text \<open>A thread that is not blocked puts up a turnstile for a lock and becomes the first on its queue.\<close>

lemma block_first_ok:
  assumes l: "lock_inv s" "inherits {} s" and t: "threads s t = Some td" "td_blocked td = None" and a: "\<And>ts. \<not> used s a ts"
    and ow: "threads s ow = Some otd" "ow \<noteq> t"
    and th: "threads s' = (threads s)(ow \<mapsto> otd\<lparr>td_contested := a # td_contested otd\<rparr>, t \<mapsto> td')" "blocks_on a td td'"
    and u: "\<And>c cts'. used s' c cts' \<longleftrightarrow> (if c = a then cts' = ats else used s c cts')" and ats: "ts_blocked ats = [t]" "ts_owner ats = Some ow"
  shows "lock_inv s'" and "inherits {t} s'"
proof -
  have pr: "prio_of s' = prio_of s"
    using t(1) ow th by (auto simp: prio_of_def blocks_on_def)
  have tq: "t \<notin> set (ts_blocked cts)" if "used s c cts" for c cts
    using on_queue [OF l(1) t(1) that] t(2) by simp
  have na: "c \<noteq> a" if "used s c cts" for c cts
    using that a by blast
  have same: "\<exists>td'. threads s' y = Some td' \<and> (td_blocked td' = td_blocked ytd \<or> y = t) \<and> set (td_contested ytd) \<subseteq> set (td_contested td')" if "threads s y = Some ytd" for y ytd
    using that t(1) ow th by (auto simp: blocks_on_def)
  have "ts_ok s' c cts" if "used s' c cts" for c cts
  proof (cases "c = a")
    case True
    then show ?thesis
      using that u ats ow th by (auto simp: ts_ok_def blocks_on_def)
  next
    case False
    then have c: "used s c cts" "ts_ok s c cts"
      using that u lock_inv_ts [OF l(1)] by simp_all
    then show ?thesis
      using same tq [OF c(1)] unfolding ts_ok_def pr by (metis (no_types, lifting) subsetD)
  qed
  moreover have us: "\<exists>cts'. used s' c cts' \<and> set (ts_blocked cts) \<subseteq> set (ts_blocked cts') \<and> ts_owner cts' = ts_owner cts" if "used s c cts" for c cts
    using that na u by auto
  have mono: "td_ok s' y ytd" if "threads s y = Some ytd" for y ytd
    by (rule td_ok_mono [OF lock_inv_td [OF l(1) that]]) (rule us)
  have "used s' a ats" "t \<in> set (ts_blocked ats)" and ac: "a \<notin> set (td_contested otd)"
    using u ats lock_inv_td [OF l(1) ow(1)] a by (auto simp: td_ok_def)
  then have "td_ok s' t td'" "td_ok s' ow (otd\<lparr>td_contested := a # td_contested otd\<rparr>)"
    using td_ok_blocks [OF mono [OF t(1)] th(2)] mono [OF ow(1)] ats(2) by (auto simp: td_ok_def)
  then have "td_ok s' y ytd'" if "threads s' y = Some ytd'" for y ytd'
    using that mono by (cases "y = t"; cases "y = ow") (simp_all add: th(1))
  ultimately show "lock_inv s'"
    by (simp add: lock_inv_def)
  show "inherits {t} s'"
    using l(2) u ats(1) unfolding inherits_def pr by (auto split: if_splits)
qed

end
