(* ===== verification/Mutex.thy ===== *)
theory Mutex
  imports Turnstile
begin

text \<open>
  Mutexes: \<^verbatim>\<open>sys/kern/mutex.c\<close>.  The invariant of the locks joins the mutexes, the turnstiles and the scheduler; every operation on a mutex keeps
  it, with the turnstiles that threads lend and get back, the priorities they lend and the threads that wake.
\<close>

section \<open>Mutexes\<close>

definition set_mtx :: "nat \<Rightarrow> mtx \<Rightarrow> tsys \<Rightarrow> tsys" where
  "set_mtx m mx s = s\<lparr>mutexes := (mutexes s)(m \<mapsto> mx)\<rparr>"

definition mtx_init :: "bool \<Rightarrow> mtx" where
  "mtx_init recursive = \<lparr>m_recursive = recursive, m_count = 0, m_owner = None, m_contested = False\<rparr>"

definition mtx_owned :: "nat \<Rightarrow> tsys \<Rightarrow> bool" where
  "mtx_owned m s \<longleftrightarrow> (case mutexes s m of Some mx \<Rightarrow> m_owner mx = Some (curthread s) | None \<Rightarrow> False)"

text \<open>\<^verbatim>\<open>_mtx_lock\<close> is a loop that a thread goes through once at first and again each time it was woken.  Its two halves are separate, since the thread may
  be preempted between them: the attempt to take the mutex, which says whether the lock is held, and the block without preemption, in which the
  thread waits or finds the mutex free.  Waiting ends with another thread running; the waiting thread enables preemption when it runs again.\<close>

definition mtx_try :: "nat \<Rightarrow> tsys \<Rightarrow> (bool \<times> tsys) option" where
  "mtx_try m s = do {
     mx \<leftarrow> mutexes s m;
     if mtx_owned m s then do {
       kassert (m_recursive mx);
       Some (True, set_mtx m (mx\<lparr>m_count := m_count mx + 1\<rparr>) s)
     } else if m_owner mx = None \<and> \<not> m_contested mx then Some (True, set_mtx m (mx\<lparr>m_owner := Some (curthread s)\<rparr>) s)
     else Some (False, s)
   }"

definition mtx_block :: "bintime \<Rightarrow> bintime \<Rightarrow> nat \<Rightarrow> nat \<Rightarrow> tsys \<Rightarrow> tsys option" where
  "mtx_block now now' m waitpt s = do {
     s \<leftarrow> preempt_disable s;
     (a, s) \<leftarrow> turnstile_take m s;
     td \<leftarrow> threads s (curthread s);
     mx \<leftarrow> mutexes s m;
     if m_owner mx \<noteq> None \<or> m_contested mx then do {
       let s = (if td_turnstile td = Some a then set_mtx m (mx\<lparr>m_contested := True\<rparr>) s else s);
       owner \<leftarrow> m_owner mx;
       turnstile_wait now now' a owner waitpt s
     } else do {
       s \<leftarrow> turnstile_give a s;
       preempt_enable now now' s
     }
   }"

definition mtx_unlock :: "(nat \<Rightarrow> bintime) \<Rightarrow> bintime \<Rightarrow> bintime \<Rightarrow> nat \<Rightarrow> tsys \<Rightarrow> tsys option" where
  "mtx_unlock wake now now' m s = do {
     mx \<leftarrow> mutexes s m;
     kassert (mtx_owned m s);
     if m_count mx > 0 then do {
       kassert (m_recursive mx);
       Some (set_mtx m (mx\<lparr>m_count := m_count mx - 1\<rparr>) s)
     } else if \<not> m_contested mx then Some (set_mtx m (mx\<lparr>m_owner := None\<rparr>) s)
     else do {
       s \<leftarrow> preempt_disable s;
       s \<leftarrow> turnstile_broadcast wake m (set_mtx m (mx\<lparr>m_owner := None, m_contested := False\<rparr>) s);
       preempt_enable now now' s
     }
   }"

section \<open>Invariant of the whole system\<close>

text \<open>Every turnstile is in one place: with a thread that is not blocked, on the free list of a turnstile in use, or in use itself.\<close>

definition own_inv :: "tsys \<Rightarrow> bool" where
  "own_inv s \<longleftrightarrow>
     (\<forall>t td a. threads s t = Some td \<and> td_turnstile td = Some a \<longrightarrow> (\<exists>ts. turnstiles s a = Some ts \<and> ts_state ts = FREE_UNBLOCKED)) \<and>
     (\<forall>t td t' td' a. threads s t = Some td \<and> threads s t' = Some td' \<and> td_turnstile td = Some a \<and> td_turnstile td' = Some a \<longrightarrow> t = t')"

definition list_inv :: "tsys \<Rightarrow> bool" where
  "list_inv s \<longleftrightarrow>
     (\<forall>a ts f. used s a ts \<and> f \<in> set (ts_free ts) \<longrightarrow> (\<exists>fts. turnstiles s f = Some fts \<and> ts_state fts = FREE_BLOCKED)) \<and>
     (\<forall>a ts. used s a ts \<longrightarrow> distinct (ts_free ts)) \<and>
     (\<forall>a ts b bts f. used s a ts \<and> used s b bts \<and> f \<in> set (ts_free ts) \<and> f \<in> set (ts_free bts) \<longrightarrow> a = b)"

definition free_inv :: "tsys \<Rightarrow> bool" where
  "free_inv s \<longleftrightarrow> own_inv s \<and> list_inv s"

lemmas free_inv_defs = free_inv_def own_inv_def list_inv_def

definition used_set :: "tsys \<Rightarrow> nat set" where
  "used_set s = {a. \<exists>ts. used s a ts}"

definition chain_index :: "tsys \<Rightarrow> nat \<Rightarrow> nat" where
  "chain_index s a = TC_HASH (the (ts_wchan (the (turnstiles s a))))"

text \<open>The turnstiles in use are on the chains of their mutexes, one for each contested mutex, and have the owner of the mutex.  The idle thread
  owns no mutex.\<close>

definition mtx_inv :: "tsys \<Rightarrow> bool" where
  "mtx_inv s \<longleftrightarrow> buckets (turnstile_chains s) TC_TABLESIZE (used_set s) (chain_index s) \<and>
     (\<forall>a ts. used s a ts \<longrightarrow> (\<exists>m mx. ts_wchan ts = Some m \<and> mutexes s m = Some mx \<and> m_contested mx \<and> m_owner mx = ts_owner ts)) \<and>
     (\<forall>a ts b bts. used s a ts \<and> used s b bts \<and> ts_wchan ts = ts_wchan bts \<longrightarrow> a = b) \<and>
     (\<forall>m mx. mutexes s m = Some mx \<and> m_contested mx \<longrightarrow> (\<exists>a ts. used s a ts \<and> ts_wchan ts = Some m)) \<and>
     (\<forall>m mx. mutexes s m = Some mx \<longrightarrow> m_owner mx = None \<or> m_owner mx \<noteq> idle_thread s)"

lemma mtx_invD:
  assumes "mtx_inv s"
  shows mtx_chains: "buckets (turnstile_chains s) TC_TABLESIZE (used_set s) (chain_index s)"
    and mtx_used: "used s a ts \<Longrightarrow> \<exists>m mx. ts_wchan ts = Some m \<and> mutexes s m = Some mx \<and> m_contested mx \<and> m_owner mx = ts_owner ts"
    and mtx_unique: "used s a ts \<Longrightarrow> used s b bts \<Longrightarrow> ts_wchan ts = ts_wchan bts \<Longrightarrow> a = b"
    and mtx_waiters: "mutexes s m = Some mx \<Longrightarrow> m_contested mx \<Longrightarrow> \<exists>a ts. used s a ts \<and> ts_wchan ts = Some m"
    and mtx_idle: "mutexes s m = Some mx \<Longrightarrow> m_owner mx = None \<or> m_owner mx \<noteq> idle_thread s"
  using assms unfolding mtx_inv_def by blast+

lemma mtx_invI:
  assumes "buckets (turnstile_chains s) TC_TABLESIZE (used_set s) (chain_index s)"
    and "\<And>a ts. used s a ts \<Longrightarrow> \<exists>m mx. ts_wchan ts = Some m \<and> mutexes s m = Some mx \<and> m_contested mx \<and> m_owner mx = ts_owner ts"
    and "\<And>a ts b bts. used s a ts \<Longrightarrow> used s b bts \<Longrightarrow> ts_wchan ts = ts_wchan bts \<Longrightarrow> a = b"
    and "\<And>m mx. mutexes s m = Some mx \<Longrightarrow> m_contested mx \<Longrightarrow> \<exists>a ts. used s a ts \<and> ts_wchan ts = Some m"
    and "\<And>m mx. mutexes s m = Some mx \<Longrightarrow> m_owner mx = None \<or> m_owner mx \<noteq> idle_thread s"
  shows "mtx_inv s"
  using assms unfolding mtx_inv_def by blast

lemma same_graph_sym: "same_graph s s' \<Longrightarrow> same_graph s' s"
  by (simp add: same_graph_def)

lemma same_graph_used:
  assumes "same_graph s s'" and "used s' a ts'"
  obtains ts where "used s a ts" "ts_wchan ts = ts_wchan ts'" "ts_owner ts = ts_owner ts'" "ts_free ts = ts_free ts'" "set (ts_blocked ts) = set (ts_blocked ts')"
  using assms unfolding same_graph_def used_def by (cases "turnstiles s a") (auto dest!: spec [of _ a])

lemma same_graph_state:
  assumes "same_graph s s'" and "turnstiles s a = Some ts"
  obtains ts' where "turnstiles s' a = Some ts'" "ts_state ts' = ts_state ts"
  using assms unfolding same_graph_def by (cases "turnstiles s' a") (auto dest!: spec [of _ a])

lemma same_graph_td:
  assumes "same_graph s s'" and "threads s' t = Some td'"
  obtains td where "threads s t = Some td" "td_turnstile td' = td_turnstile td"
  using assms unfolding same_graph_def by (cases "threads s t") (auto dest!: spec [of _ t])

lemma same_graph_free:
  assumes g: "same_graph s s'" and f: "free_inv s"
  shows "free_inv s'"
proof -
  note u = same_graph_used [OF g] and st = same_graph_state [OF g] and td = same_graph_td [OF g]
  have "\<exists>ts'. turnstiles s' a = Some ts' \<and> ts_state ts' = FREE_UNBLOCKED" if "threads s' t = Some td'" "td_turnstile td' = Some a" for t td' a
    using f that td st unfolding free_inv_defs by metis
  moreover have "t = t'" if "threads s' t = Some td" "threads s' t' = Some td'" "td_turnstile td = Some a" "td_turnstile td' = Some a" for t td t' td' a
    using f that td unfolding free_inv_defs by metis
  moreover have "\<exists>fts. turnstiles s' f = Some fts \<and> ts_state fts = FREE_BLOCKED" if "used s' a ts" "f \<in> set (ts_free ts)" for a ts f
    using f that u st unfolding free_inv_defs by metis
  moreover have "distinct (ts_free ts)" if "used s' a ts" for a ts
    using f that u unfolding free_inv_defs by metis
  moreover have "a = b" if "used s' a ts" "used s' b bts" "x \<in> set (ts_free ts)" "x \<in> set (ts_free bts)" for a ts b bts x
    using f that u unfolding free_inv_defs by metis
  ultimately show ?thesis
    unfolding free_inv_defs by blast
qed

lemma same_graph_mtx:
  assumes g: "same_graph s s'" and m: "mtx_inv s"
  shows "mtx_inv s'"
proof -
  note u = same_graph_used [OF g] and u' = same_graph_used [OF same_graph_sym [OF g]]
  have c: "turnstile_chains s' = turnstile_chains s" "mutexes s' = mutexes s" "idle_thread s' = idle_thread s"
    using g by (simp_all add: same_graph_def)
  have us: "used_set s' = used_set s"
    unfolding used_set_def by (auto elim: u u')
  have "chain_index s a = chain_index s' a" if a: "a \<in> used_set s" for a
  proof -
    obtain ts where ts: "used s a ts"
      using a by (auto simp: used_set_def)
    obtain ts' where "used s' a ts'" "ts_wchan ts' = ts_wchan ts"
      by (rule u' [OF ts])
    then show ?thesis
      using ts by (simp add: chain_index_def used_def)
  qed
  then have "buckets (turnstile_chains s') TC_TABLESIZE (used_set s') (chain_index s')"
    using m by (auto simp: c us mtx_inv_def intro: buckets_cong)
  moreover have "\<exists>m mx. ts_wchan ts = Some m \<and> mutexes s' m = Some mx \<and> m_contested mx \<and> m_owner mx = ts_owner ts" if "used s' a ts" for a ts
    using that u m unfolding mtx_inv_def c by metis
  moreover have "a = b" if "used s' a ts" "used s' b bts" "ts_wchan ts = ts_wchan bts" for a ts b bts
    using that u m unfolding mtx_inv_def by metis
  moreover have "\<exists>a ts. used s' a ts \<and> ts_wchan ts = Some w" if "mutexes s' w = Some mx" "m_contested mx" for w mx
    using that u' m unfolding mtx_inv_def c by metis
  ultimately show ?thesis
    using m unfolding mtx_inv_def c by blast
qed

text \<open>Operations of the scheduler leave the locks alone.\<close>

definition full_view :: "thread \<Rightarrow> (nat option \<times> nat list \<times> prio \<times> bool) \<times> nat option" where
  "full_view td = (lock_view td, td_turnstile td)"

definition same_locks :: "tsys \<Rightarrow> tsys \<Rightarrow> bool" where
  "same_locks s s' \<longleftrightarrow> turnstiles s' = turnstiles s \<and> turnstile_chains s' = turnstile_chains s \<and> mutexes s' = mutexes s \<and> idle_thread s' = idle_thread s \<and>
     (\<forall>t. map_option full_view (threads s' t) = map_option full_view (threads s t))"

definition idle_ok :: "tsys \<Rightarrow> bool" where
  "idle_ok s \<longleftrightarrow> (\<forall>i td. idle_thread s = Some i \<and> threads s i = Some td \<longrightarrow> \<not> td_is_blocked td)"

definition locks_inv :: "tsys \<Rightarrow> bool" where
  "locks_inv s \<longleftrightarrow> lock_inv s \<and> inherits {} s \<and> free_inv s \<and> mtx_inv s \<and> idle_ok s"

definition sys_inv :: "tsys \<Rightarrow> bool" where
  "sys_inv s \<longleftrightarrow> sched_inv s \<and> locks_inv s"

lemma same_locks_trans: "same_locks s s' \<Longrightarrow> same_locks s' s'' \<Longrightarrow> same_locks s s''"
  by (simp add: same_locks_def)

lemma same_locks_set: "threads s t = Some td \<Longrightarrow> full_view td' = full_view td \<Longrightarrow> same_locks s (set_td t td' s)"
  by (auto simp: same_locks_def)

lemma switched_same_locks:
  assumes "switched i s s'"
  shows "same_locks s s'"
proof -
  have v: "map_option td_view (threads s' t) = map_option td_view (threads s t)" "map_option td_is_blocked (threads s' t) = map_option td_is_blocked (threads s t)" for t
    using assms by (auto simp: switched_def fun_eq_iff)
  have "map_option full_view (threads s' t) = map_option full_view (threads s t)" for t
    using v [of t] by (cases "threads s t"; cases "threads s' t") (auto simp: full_view_def lock_view_def td_view_def)
  then show ?thesis
    using assms by (auto simp: same_locks_def switched_def)
qed

lemma same_locks_inv:
  assumes g: "same_locks s s'" and l: "locks_inv s"
  shows "locks_inv s'"
proof -
  have e: "turnstiles s' = turnstiles s" "turnstile_chains s' = turnstile_chains s" "mutexes s' = mutexes s" "idle_thread s' = idle_thread s"
    and v: "map_option full_view (threads s' t) = map_option full_view (threads s t)" for t
    using g by (simp_all add: same_locks_def)
  have u: "used s' = used s"
    by (simp add: used_def [abs_def] e)
  have lv: "map_option lock_view (threads s' t) = map_option lock_view (threads s t)" for t
    using v [of t] by (cases "threads s t"; cases "threads s' t") (auto simp: full_view_def)
  have td: "\<exists>td. threads s t = Some td \<and> td_turnstile td = td_turnstile td'" if "threads s' t = Some td'" for t td'
    using v [of t] that by (cases "threads s t") (auto simp: full_view_def)
  have f: "own_inv s" "list_inv s"
    using l by (simp_all add: locks_inv_def free_inv_def)
  have "\<exists>ts. turnstiles s a = Some ts \<and> ts_state ts = FREE_UNBLOCKED" if "threads s' t = Some td'" "td_turnstile td' = Some a" for t td' a
    using f(1) that td unfolding own_inv_def by metis
  moreover have "t = t'" if "threads s' t = Some tda" "threads s' t' = Some tdb" "td_turnstile tda = Some a" "td_turnstile tdb = Some a" for t tda t' tdb a
    using f(1) td [OF that(1)] td [OF that(2)] that(3,4) unfolding own_inv_def by metis
  ultimately have "own_inv s'"
    unfolding own_inv_def e by blast
  then have "free_inv s'"
    using f(2) unfolding free_inv_def list_inv_def u e by blast
  moreover have "mtx_inv s'"
    using l unfolding locks_inv_def mtx_inv_def used_set_def chain_index_def [abs_def] u e by simp
  moreover have "idle_ok s'"
    using l lock_view_eq [OF lv] unfolding locks_inv_def idle_ok_def e by metis
  ultimately show ?thesis
    using l lock_inv_view [of s' s, OF lv e(1)] by (simp add: locks_inv_def)
qed

text \<open>The running thread is not blocked.\<close>

lemma cur_not_blocked:
  assumes "sys_inv s" and "threads s (curthread s) = Some td"
  shows "\<not> td_is_blocked td" and "td_blocked td = None"
proof -
  obtain i where "base_inv i s" "curthread s = i \<or> curthread s \<in> running_threads s" "locks_inv s"
    using assms(1) by (auto simp: sys_inv_def sched_inv_def)
  then show "\<not> td_is_blocked td"
    using assms(2) by (auto simp: base_inv_def running_threads_def locks_inv_def idle_ok_def)
  then show "td_blocked td = None"
    using lock_inv_td [of s "curthread s" td] assms(2) \<open>locks_inv s\<close> by (auto simp: locks_inv_def td_ok_def)
qed

lemma sched_switch_sys:
  assumes "base_inv i s" "locked {curthread s} s" "\<not> no_switch s" and "threads s (curthread s) = Some td" "\<not> td_is_running td" and "locks_inv s"
    and "sched_switch now now' s = Some s'"
  shows "sys_inv s'"
proof -
  have "sched_inv s'" "switched i s s'"
    using sched_switch_ok [OF assms(1,2,4,5,3), of now now'] assms(7) by (metis option.inject)+
  then show ?thesis
    using same_locks_inv [OF switched_same_locks assms(6)] by (simp add: sys_inv_def)
qed

section \<open>Taking a mutex\<close>

lemma TC_HASH_bound [simp]: "TC_HASH w < TC_TABLESIZE"
proof -
  have "TC_HASH w = take_bit 8 (drop_bit 8 w XOR w)"
    by (simp add: TC_HASH_def TC_TABLESIZE_def take_bit_eq_mask mask_eq_exp_minus_1)
  then show ?thesis
    using take_bit_nat_less_exp [of 8 "drop_bit 8 w XOR w"] by (simp add: TC_TABLESIZE_def)
qed

lemma lookup_loop_ok:
  assumes "lookup_loop w as s = Some r"
  shows "case r of Some a \<Rightarrow> a \<in> set as \<and> (\<exists>ts. used s a ts \<and> ts_wchan ts = Some w) | None \<Rightarrow> \<forall>a \<in> set as. \<forall>ts. used s a ts \<longrightarrow> ts_wchan ts \<noteq> Some w"
  using assms by (induction as) (auto simp: used_def bind_eq_Some_conv split: if_splits option.splits)

lemma turnstile_lookup_ok:
  assumes m: "mtx_inv s" and r: "turnstile_lookup w s = Some r"
  shows "case r of Some a \<Rightarrow> (\<exists>ts. used s a ts \<and> ts_wchan ts = Some w) | None \<Rightarrow> \<forall>a ts. used s a ts \<longrightarrow> ts_wchan ts \<noteq> Some w"
proof (cases r)
  case None
  have "a \<in> set (turnstile_chains s ! TC_HASH w)" if "used s a ts" "ts_wchan ts = Some w" for a ts
    using m that by (auto simp: mtx_inv_def buckets_def used_set_def chain_index_def used_def)
  then show ?thesis
    using lookup_loop_ok [OF r [unfolded turnstile_lookup_def]] None by auto
next
  case (Some a)
  then show ?thesis
    using lookup_loop_ok [OF r [unfolded turnstile_lookup_def]] by auto
qed

lemma own_inv_state: "own_inv s \<Longrightarrow> threads s t = Some td \<Longrightarrow> td_turnstile td = Some a \<Longrightarrow> \<exists>ts. turnstiles s a = Some ts \<and> ts_state ts = FREE_UNBLOCKED"
  unfolding own_inv_def by blast

lemma own_inv_inj: "own_inv s \<Longrightarrow> threads s t = Some td \<Longrightarrow> threads s t' = Some td' \<Longrightarrow> td_turnstile td = Some a \<Longrightarrow> td_turnstile td' = Some a \<Longrightarrow> t = t'"
  unfolding own_inv_def by blast

text \<open>A thread gives its turnstile away; no other turnstile that a thread holds changes its state.\<close>

lemma own_inv_release:
  assumes o: "own_inv s" and t: "threads s t = Some td" "td_turnstile td = Some n"
    and th: "\<And>y ytd'. threads s' y = Some ytd' \<Longrightarrow> td_turnstile ytd' \<noteq> None \<Longrightarrow> y \<noteq> t \<and> (\<exists>ytd. threads s y = Some ytd \<and> td_turnstile ytd = td_turnstile ytd')"
    and tu: "\<And>c cts. turnstiles s c = Some cts \<Longrightarrow> ts_state cts = FREE_UNBLOCKED \<Longrightarrow> c \<noteq> n \<Longrightarrow> turnstiles s' c = Some cts"
  shows "own_inv s'"
proof -
  have "\<exists>ts. turnstiles s' c = Some ts \<and> ts_state ts = FREE_UNBLOCKED" if y: "threads s' y = Some ytd'" "td_turnstile ytd' = Some c" for y ytd' c
  proof -
    obtain ytd where ytd: "y \<noteq> t" "threads s y = Some ytd" "td_turnstile ytd = Some c"
      using th [OF y(1)] y(2) by auto
    then have "c \<noteq> n"
      using own_inv_inj [OF o ytd(2) t(1) ytd(3)] t(2) by blast
    then show ?thesis
      using own_inv_state [OF o ytd(2,3)] tu by blast
  qed
  moreover have "y = z" if "threads s' y = Some ytd" "threads s' z = Some ztd" "td_turnstile ytd = Some c" "td_turnstile ztd = Some c" for y ytd z ztd c
    using th [OF that(1)] th [OF that(2)] that(3,4) own_inv_inj [OF o] by fastforce
  ultimately show ?thesis
    unfolding own_inv_def by blast
qed

lemma list_inv_state: "list_inv s \<Longrightarrow> used s a ts \<Longrightarrow> f \<in> set (ts_free ts) \<Longrightarrow> \<exists>fts. turnstiles s f = Some fts \<and> ts_state fts = FREE_BLOCKED"
  unfolding list_inv_def by blast

lemma list_inv_shrink:
  assumes l: "list_inv s" and u: "\<And>c cts. used s' c cts \<Longrightarrow> ts_free cts = [] \<or> used s c cts"
    and tu: "\<And>x xts. turnstiles s x = Some xts \<Longrightarrow> ts_state xts = FREE_BLOCKED \<Longrightarrow> turnstiles s' x = Some xts"
  shows "list_inv s'"
proof -
  have "\<exists>xts. turnstiles s' x = Some xts \<and> ts_state xts = FREE_BLOCKED" if "used s' c cts" "x \<in> set (ts_free cts)" for c cts x
    using u [OF that(1)] that(2) list_inv_state [OF l] tu by fastforce
  moreover have "distinct (ts_free cts)" if "used s' c cts" for c cts
    using u [OF that] l unfolding list_inv_def by auto
  moreover have "c = d" if "used s' c cts" "used s' d dts" "x \<in> set (ts_free cts)" "x \<in> set (ts_free dts)" for c cts d dts x
    using u [OF that(1)] u [OF that(2)] that(3,4) l unfolding list_inv_def by (metis empty_iff list.set(1))
  ultimately show ?thesis
    unfolding list_inv_def by blast
qed

lemma join_locks:
  assumes l: "locks_inv s" and t: "threads s t = Some td" "td_blocked td = None" "td_turnstile td = Some n" and a: "used s a ts" and n: "turnstiles s n = Some nts"
    and th: "threads s' = (threads s)(t \<mapsto> td')" "blocks_on a td td'" "td_turnstile td' = None"
    and tu: "turnstiles s' = (turnstiles s)(n \<mapsto> nts\<lparr>ts_state := FREE_BLOCKED\<rparr>, a \<mapsto> ts\<lparr>ts_blocked := q, ts_free := n # ts_free ts\<rparr>)"
    and q: "q = takeWhile (\<lambda>x. prio_of s x < prio_of s t) (ts_blocked ts) @ t # dropWhile (\<lambda>x. prio_of s x < prio_of s t) (ts_blocked ts)"
    and e: "turnstile_chains s' = turnstile_chains s" "mutexes s' = mutexes s" "idle_thread s' = idle_thread s"
  shows "lock_inv s'" and "inherits {t} s'" and "free_inv s'" and "mtx_inv s'"
proof -
  let ?ats = "ts\<lparr>ts_blocked := q, ts_free := n # ts_free ts\<rparr>"
  have f: "own_inv s" "list_inv s" "mtx_inv s" "lock_inv s" "inherits {} s"
    using l by (simp_all add: locks_inv_def free_inv_def)
  have ns: "ts_state nts = FREE_UNBLOCKED" "n \<noteq> a"
    using own_inv_state [OF f(1) t(1,3)] n a by (auto simp: used_def)
  have u: "used s' c cts' \<longleftrightarrow> (if c = a then cts' = ?ats else used s c cts')" for c cts'
    using ns n a by (auto simp: used_def tu)
  show "lock_inv s'" "inherits {t} s'"
    using block_join_ok [OF f(4,5) t(1,2) a th(1,2), of ?ats] u q by auto
  have "own_inv s'"
    by (rule own_inv_release [OF f(1) t(1,3)]) (use a in \<open>auto simp: th(1,3) tu used_def split: if_splits\<close>)
  moreover have "list_inv s'"
  proof -
    have nf: "n \<notin> set (ts_free cts)" if "used s c cts" for c cts
      using list_inv_state [OF f(2) that] n ns(1) by force
    have "\<exists>xts. turnstiles s' x = Some xts \<and> ts_state xts = FREE_BLOCKED" if "used s c cts" "x \<in> set (ts_free cts)" for c cts x
      using list_inv_state [OF f(2) that] a unfolding tu used_def by (cases "x = a") auto
    then have "\<exists>xts. turnstiles s' x = Some xts \<and> ts_state xts = FREE_BLOCKED" if "used s' c cts" "x \<in> set (ts_free cts)" for c cts x
      using that u a ns(2) by (cases "c = a"; cases "x = n") (auto simp: tu)
    moreover have "distinct (ts_free cts)" if "used s' c cts" for c cts
      using that u a nf f(2) unfolding list_inv_def by (cases "c = a") auto
    moreover have "c = d" if "used s' c cts" "used s' d dts" "x \<in> set (ts_free cts)" "x \<in> set (ts_free dts)" for c cts d dts x
    proof -
      have "x = n \<and> c = a \<or> (\<exists>cts. used s c cts \<and> x \<in> set (ts_free cts))" "x = n \<and> d = a \<or> (\<exists>dts. used s d dts \<and> x \<in> set (ts_free dts))"
        using that u a by (auto split: if_splits)
      then show ?thesis
        using nf f(2) unfolding list_inv_def by blast
    qed
    ultimately show ?thesis
      unfolding list_inv_def by blast
  qed
  ultimately show "free_inv s'"
    by (simp add: free_inv_def)
  have us: "used_set s' = used_set s" "\<And>c. c \<in> used_set s \<Longrightarrow> chain_index s c = chain_index s' c"
    using u a ns n by (auto simp: used_set_def chain_index_def tu used_def split: if_splits)
  have up: "\<exists>cts. used s c cts \<and> ts_wchan cts = ts_wchan cts' \<and> ts_owner cts = ts_owner cts'" if "used s' c cts'" for c cts'
    using that u a by (auto split: if_splits)
  have down: "\<exists>cts'. used s' c cts' \<and> ts_wchan cts' = ts_wchan cts" if "used s c cts" for c cts
    using that u a by (cases "c = a") (auto simp: used_def)
  show "mtx_inv s'"
  proof (rule mtx_invI)
    show "buckets (turnstile_chains s') TC_TABLESIZE (used_set s') (chain_index s')"
      using mtx_chains [OF f(3)] us by (auto simp: e intro: buckets_cong)
    show "\<exists>m mx. ts_wchan cts = Some m \<and> mutexes s' m = Some mx \<and> m_contested mx \<and> m_owner mx = ts_owner cts" if "used s' c cts" for c cts
      using up [OF that] mtx_used [OF f(3)] unfolding e by metis
    show "c = d" if "used s' c cts" "used s' d dts" "ts_wchan cts = ts_wchan dts" for c cts d dts
      using up [OF that(1)] up [OF that(2)] that(3) mtx_unique [OF f(3)] by metis
    show "\<exists>c cts. used s' c cts \<and> ts_wchan cts = Some m" if "mutexes s' m = Some mx" "m_contested mx" for m mx
      using mtx_waiters [OF f(3)] that down unfolding e by metis
  qed (use mtx_idle [OF f(3)] in \<open>simp add: e\<close>)
qed

lemma first_locks:
  assumes l: "locks_inv s" and t: "threads s t = Some td" "td_blocked td = None" "td_turnstile td = Some a"
    and ow: "threads s ow = Some otd" "ow \<noteq> t" and m: "mutexes s m = Some mx" "m_owner mx = Some ow" and new: "\<And>c cts. used s c cts \<Longrightarrow> ts_wchan cts \<noteq> Some m"
    and th: "threads s' = (threads s)(ow \<mapsto> otd\<lparr>td_contested := a # td_contested otd\<rparr>, t \<mapsto> td')" "blocks_on a td td'" "td_turnstile td' = None"
    and tu: "turnstiles s' = (turnstiles s)(a \<mapsto> ats)" "ats = \<lparr>ts_free = [], ts_blocked = [t], ts_wchan = Some m, ts_owner = Some ow, ts_state = USED_BLOCKED\<rparr>"
    and e: "turnstile_chains s' = (turnstile_chains s)[TC_HASH m := a # turnstile_chains s ! TC_HASH m]" "mutexes s' = (mutexes s)(m \<mapsto> mx\<lparr>m_contested := True\<rparr>)"
      "idle_thread s' = idle_thread s"
  shows "lock_inv s'" and "inherits {t} s'" and "free_inv s'" and "mtx_inv s'"
proof -
  have f: "own_inv s" "list_inv s" "mtx_inv s" "lock_inv s" "inherits {} s"
    using l by (simp_all add: locks_inv_def free_inv_def)
  obtain ts where ts: "turnstiles s a = Some ts" "ts_state ts = FREE_UNBLOCKED"
    using own_inv_state [OF f(1) t(1,3)] by blast
  then have na: "\<not> used s a cts" for cts
    by (auto simp: used_def)
  have u: "used s' c cts' \<longleftrightarrow> (if c = a then cts' = ats else used s c cts')" for c cts'
    using tu by (auto simp: used_def)
  show "lock_inv s'" "inherits {t} s'"
    using block_first_ok [OF f(4,5) t(1,2) na ow th(1,2) u] tu(2) by simp_all
  have "own_inv s'"
    by (rule own_inv_release [OF f(1) t(1,3)]) (use ow in \<open>auto simp: th(1,3) tu(1) split: if_splits\<close>)
  moreover have "list_inv s'"
    by (rule list_inv_shrink [OF f(2)]) (use u tu ts in \<open>auto split: if_splits\<close>)
  ultimately show "free_inv s'"
    by (simp add: free_inv_def)
  have us: "used_set s' = insert a (used_set s)" "a \<notin> used_set s" "chain_index s' a = TC_HASH m" "\<And>c. c \<in> used_set s \<Longrightarrow> chain_index s c = chain_index s' c"
    using u na by (auto simp: used_set_def chain_index_def tu split: if_splits)
  have "buckets (turnstile_chains s) TC_TABLESIZE (used_set s) (chain_index s')"
    using f(3) us(4) by (auto simp: mtx_inv_def intro: buckets_cong)
  then have b: "buckets (turnstile_chains s') TC_TABLESIZE (used_set s') (chain_index s')"
    using buckets_insert [OF _ us(2)] us(1,3) by (metis TC_HASH_bound e(1))
  show "mtx_inv s'"
  proof (rule mtx_invI [OF b])
    show "\<exists>w wx. ts_wchan cts = Some w \<and> mutexes s' w = Some wx \<and> m_contested wx \<and> m_owner wx = ts_owner cts" if c: "used s' c cts" for c cts
    proof (cases "c = a")
      case True
      then show ?thesis
        using c u m tu(2) by (simp add: e(2))
    next
      case False
      then have "used s c cts"
        using c u by simp
      then show ?thesis
        using mtx_used [OF f(3)] new unfolding e(2) by (metis fun_upd_apply)
    qed
    show "c = d" if "used s' c cts" "used s' d dts" "ts_wchan cts = ts_wchan dts" for c cts d dts
    proof -
      have "c = a \<and> ts_wchan cts = Some m \<or> used s c cts" "d = a \<and> ts_wchan dts = Some m \<or> used s d dts"
        using that(1,2) u tu(2) by (simp_all split: if_splits)
      then show ?thesis
        using mtx_unique [OF f(3)] new that(3) by metis
    qed
    show "\<exists>c cts. used s' c cts \<and> ts_wchan cts = Some w" if w: "mutexes s' w = Some wx" "m_contested wx" for w wx
    proof (cases "w = m")
      case True
      then show ?thesis
        using u tu(2) by (intro exI [of _ a] exI [of _ ats]) simp
    next
      case False
      then obtain c cts where "used s c cts" "ts_wchan cts = Some w"
        using mtx_waiters [OF f(3)] w unfolding e(2) by (metis fun_upd_apply)
      then show ?thesis
        using u na by metis
    qed
    show "m_owner wx = None \<or> m_owner wx \<noteq> idle_thread s'" if "mutexes s' w = Some wx" for w wx
      using mtx_idle [OF f(3)] mtx_idle [OF f(3) m(1)] that unfolding e by (cases "w = m") auto
  qed
qed

lemma sys_preempt:
  assumes "sys_inv s" and "\<not> no_switch s" and "sched_maybe_preempt now now' s = Some s'"
  shows "sys_inv s'"
proof -
  have sys: "sched_inv s" "locks_inv s"
    using assms(1) by (simp_all add: sys_inv_def)
  obtain td where td: "threads s (curthread s) = Some td"
    using sched_inv_cur [OF sys(1)] .
  note lock = sched_inv_lock [OF sys(1) td]
  let ?s = "set_td (curthread s) (td\<lparr>td_lock := Some (curthread s), td_state := TDS_READY\<rparr>) s"
  obtain i s1 where s1: "sched_switch now now' ?s = Some s1" "sched_inv s1" "switched i ?s s1"
    using leave_ok [OF sys(1) assms(2) _ td, of TDS_READY now now'] by blast
  have same: "set_td (curthread s) (td\<lparr>td_lock := None\<rparr>) s = s"
    using td lock(1) by (auto simp: set_td_def fun_upd_idem)
  have "s' = s \<or> s' = s1"
    using assms(3) td lock s1(1) same by (auto simp: sched_maybe_preempt_def spin_unlock_def spin_owned_def Let_def split: if_splits)
  moreover have "same_locks s ?s"
    using same_locks_set [OF td] cur_not_blocked [OF assms(1) td] by (simp add: full_view_def lock_view_def)
  then have "locks_inv s1"
    using same_locks_inv [OF same_locks_trans [OF _ switched_same_locks [OF s1(3)]] sys(2)] by blast
  ultimately show ?thesis
    using assms(1) s1(2) by (auto simp: sys_inv_def)
qed

section \<open>Waiting for a mutex\<close>

lemma mtx_idle_free:
  assumes "mtx_inv s" and "idle_thread s = Some i"
  shows "idle_free i s"
  unfolding idle_free_def
proof (intro allI impI)
  fix a ts
  assume "used s a ts"
  then obtain m mx where "mutexes s m = Some mx" "m_owner mx = ts_owner ts"
    using mtx_used [OF assms(1)] by blast
  then show "ts_owner ts \<noteq> Some i"
    using mtx_idle [OF assms(1), of m mx] assms(2) by auto
qed

lemma same_graph_idle_ok:
  assumes "same_graph s s'" and "idle_ok s"
  shows "idle_ok s'"
proof -
  have "\<exists>td. threads s t = Some td \<and> td_state td = td_state td'" if "threads s' t = Some td'" for t td'
    using assms(1) that unfolding same_graph_def by (cases "threads s t") (auto dest!: spec [of _ t])
  moreover have "idle_thread s' = idle_thread s"
    using assms(1) by (simp add: same_graph_def)
  ultimately show ?thesis
    using assms(2) unfolding idle_ok_def by (metis td_is_blocked_def)
qed

text \<open>Once the running thread is on the queue and marked as blocked, it lends its priority and another thread runs.\<close>

lemma away_ok:
  assumes b: "base_inv i s" "locked {} s" "\<not> no_switch s"
    and s2: "threads s2 = (threads s)(curthread s \<mapsto> td')" "runq s2 = runq s" "curthread s2 = curthread s" "idle_thread s2 = idle_thread s" "sched_active s2 = sched_active s"
      "no_switch s2 = no_switch s"
    and td': "td_lock td' = Some (curthread s)" "td_is_blocked td'" and l: "lock_inv s2" "inherits {curthread s} s2" "free_inv s2" "mtx_inv s2" "idle_ok s2"
    and p: "propagate_priority (curthread s) s2 = Some s3" "sched_switch now now' s3 = Some s'"
  shows "sys_inv s'"
proof -
  obtain td where td: "threads s (curthread s) = Some td"
    using b(1) by (auto simp: base_inv_def)
  have e: "threads s2 = threads (set_td (curthread s) td' s)" "runq s2 = runq (set_td (curthread s) td' s)"
    "curthread s2 = curthread (set_td (curthread s) td' s)" "idle_thread s2 = idle_thread (set_td (curthread s) td' s)"
    "sched_active s2 = sched_active (set_td (curthread s) td' s)"
    by (simp_all add: s2)
  have b2: "base_inv i s2" "locked {curthread s2} s2"
    using base_inv_set [OF b(1) td, of td'] b(2) td'(1) unfolding sched_part [OF e] by (auto simp: locked_def s2)
  have "idle_free i s2"
    using mtx_idle_free [OF l(4)] b2(1) by (simp add: base_inv_def)
  note pr = propagate_priority_ok [OF b2 this l(1,2) p(1)]
  obtain td3 where td3: "threads s3 (curthread s3) = Some td3" "\<not> td_is_running td3"
    using pr(5) s2(1,3) td'(2) unfolding same_graph_def by (cases "threads s3 (curthread s)") (auto dest!: spec [of _ "curthread s"])
  have "locks_inv s3"
    using pr(3,4) same_graph_free [OF pr(5) l(3)] same_graph_mtx [OF pr(5) l(4)] same_graph_idle_ok [OF pr(5) l(5)] by (simp add: locks_inv_def)
  then show ?thesis
    using sched_switch_sys [OF pr(1,2) _ td3 _ p(2)] pr(5) s2(6) b(3) by (simp add: same_graph_def)
qed

lemma switch_away_pre:
  assumes "switch_away now now' a waitpt s = Some s'" and "threads s (curthread s) = Some td" "td_lock td = None"
  obtains w s3 where "propagate_priority (curthread s) (set_td (curthread s) (td\<lparr>td_lock := Some (curthread s), td_turnstile := None, td_blocked := Some a, td_wchan := w,
      td_waitpt := Some waitpt, td_state := TDS_BLOCKED\<rparr>) s) = Some s3" "sched_switch now now' s3 = Some s'"
  using assms by (auto simp: switch_away_def spin_lock_def spin_owned_def Let_def set_td_def bind_eq_Some_conv)

lemma wait_join_pre:
  assumes w: "wait_join a owner s = Some s1" and td: "threads s (curthread s) = Some td" "td_turnstile td = Some n" and a: "turnstiles s a = Some ts" "n \<noteq> a"
    and q: "curthread s \<notin> set (ts_blocked ts)"
  obtains nts where "turnstiles s n = Some nts"
    "s1 = set_td (curthread s) (td\<lparr>td_turnstile := None\<rparr>) s\<lparr>turnstiles := (turnstiles s)(n \<mapsto> nts\<lparr>ts_state := FREE_BLOCKED\<rparr>,
       a \<mapsto> ts\<lparr>ts_blocked := takeWhile (\<lambda>x. prio_of s x < prio_of s (curthread s)) (ts_blocked ts) @ curthread s # dropWhile (\<lambda>x. prio_of s x < prio_of s (curthread s)) (ts_blocked ts),
                ts_free := n # ts_free ts\<rparr>)\<rparr>"
proof -
  have [simp]: "prio_of (s\<lparr>turnstiles := x\<rparr>) = prio_of s" for x
    by (simp add: prio_of_def [abs_def])
  obtain nts where "turnstiles s n = Some nts"
    using w td a by (auto simp: wait_join_def adjust_thread_forward_def Let_def bind_eq_Some_conv)
  then show thesis
    using w td a that by (auto simp: wait_join_def adjust_thread_forward_def Let_def bind_eq_Some_conv move_forward_new [OF q] set_ts_def set_td_def fun_upd_twist)
qed

lemma idle_ok_set:
  assumes "idle_ok s" and "Some t \<noteq> idle_thread s" and "threads s' = (threads s)(t \<mapsto> td)" "idle_thread s' = idle_thread s"
  shows "idle_ok s'"
  using assms by (auto simp: idle_ok_def)

lemma block_join:
  assumes sys: "sys_inv s" "\<not> no_switch s" "Some (curthread s) \<noteq> idle_thread s" and a: "used s a ts"
    and w: "wait_join a owner s = Some s1" "switch_away now now' a waitpt s1 = Some s'"
  shows "sys_inv s'"
proof -
  obtain i where i: "base_inv i s" "locked {} s" and l: "locks_inv s"
    using sys(1) by (auto simp: sys_inv_def sched_inv_def)
  obtain td n where td: "threads s (curthread s) = Some td" "td_turnstile td = Some n"
    using w(1) by (auto simp: wait_join_def adjust_thread_forward_def Let_def bind_eq_Some_conv)
  note nb = cur_not_blocked [OF sys(1) td(1)]
  have n: "n \<noteq> a" "curthread s \<notin> set (ts_blocked ts)" "td_lock td = None"
    using own_inv_state [of s, OF _ td] l on_queue [OF _ td(1) a] a nb i(2) td(1) by (auto simp: locks_inv_def free_inv_def used_def locked_def)
  obtain nts where nts: "turnstiles s n = Some nts"
    and s1: "s1 = set_td (curthread s) (td\<lparr>td_turnstile := None\<rparr>) s\<lparr>turnstiles := (turnstiles s)(n \<mapsto> nts\<lparr>ts_state := FREE_BLOCKED\<rparr>,
       a \<mapsto> ts\<lparr>ts_blocked := takeWhile (\<lambda>x. prio_of s x < prio_of s (curthread s)) (ts_blocked ts) @ curthread s # dropWhile (\<lambda>x. prio_of s x < prio_of s (curthread s)) (ts_blocked ts),
                ts_free := n # ts_free ts\<rparr>)\<rparr>"
    using wait_join_pre [OF w(1) td _ n(1,2)] a unfolding used_def by metis
  have c1: "curthread s1 = curthread s" "threads s1 (curthread s1) = Some (td\<lparr>td_turnstile := None\<rparr>)"
    by (simp_all add: s1)
  obtain wc s3 where s3: "propagate_priority (curthread s) (set_td (curthread s) (td\<lparr>td_turnstile := None, td_lock := Some (curthread s), td_turnstile := None, td_blocked := Some a,
      td_wchan := wc, td_waitpt := Some waitpt, td_state := TDS_BLOCKED\<rparr>) s1) = Some s3" "sched_switch now now' s3 = Some s'"
    using switch_away_pre [OF w(2) c1(2)] n(3) unfolding c1(1) by auto
  let ?td = "td\<lparr>td_turnstile := None, td_lock := Some (curthread s), td_turnstile := None, td_blocked := Some a, td_wchan := wc, td_waitpt := Some waitpt, td_state := TDS_BLOCKED\<rparr>"
  let ?s2 = "set_td (curthread s) ?td s1"
  have e: "threads ?s2 = (threads s)(curthread s \<mapsto> ?td)" "idle_thread ?s2 = idle_thread s"
    by (simp_all add: s1)
  have "blocks_on a td ?td"
    by (simp add: blocks_on_def)
  then have lk: "lock_inv ?s2" "inherits {curthread s} ?s2" "free_inv ?s2" "mtx_inv ?s2"
    using join_locks [OF l td(1) nb(2) td(2) a nts e(1), OF _ _ _ refl] by (simp_all add: s1)
  have "idle_ok ?s2"
    using idle_ok_set [OF _ sys(3) e] l by (simp add: locks_inv_def)
  then show ?thesis
    using away_ok [OF i sys(2) e(1) _ _ _ _ _ _ _ lk _ s3] by (simp add: s1)
qed

lemma wait_first_pre:
  assumes w: "wait_first a ow (set_mtx m mx' (set_ts a (ts\<lparr>ts_wchan := Some m\<rparr>) s)) = Some s1"
  obtains otd where "threads s ow = Some otd"
    and "s1 = set_td ow (otd\<lparr>td_contested := a # td_contested otd\<rparr>) s\<lparr>mutexes := (mutexes s)(m \<mapsto> mx'),
       turnstile_chains := (turnstile_chains s)[TC_HASH m := a # turnstile_chains s ! TC_HASH m],
       turnstiles := (turnstiles s)(a \<mapsto> \<lparr>ts_free = [], ts_blocked = [curthread s], ts_wchan = Some m, ts_owner = Some ow, ts_state = USED_BLOCKED\<rparr>)\<rparr>"
proof -
  obtain otd where o: "threads s ow = Some otd" "ts_free ts = []"
    using w by (auto simp: wait_first_def Let_def bind_eq_Some_conv set_mtx_def set_ts_def)
  have t: "ts\<lparr>ts_wchan := Some m, ts_owner := Some ow, ts_blocked := [curthread s], ts_state := USED_BLOCKED\<rparr> =
      \<lparr>ts_free = [], ts_blocked = [curthread s], ts_wchan = Some m, ts_owner = Some ow, ts_state = USED_BLOCKED\<rparr>"
    using o(2) by (cases ts) simp
  have c: "s\<lparr>mutexes := x, threads := y\<rparr> = s\<lparr>threads := y, mutexes := x\<rparr>" for x y
    by simp
  show thesis
    using w o that by (auto simp: t c wait_first_def Let_def bind_eq_Some_conv set_ts_def set_td_def set_mtx_def)
qed

lemma block_first:
  assumes sys: "sys_inv s" "\<not> no_switch s" "Some (curthread s) \<noteq> idle_thread s"
    and td: "threads s (curthread s) = Some td" "td_turnstile td = Some a" and m: "mutexes s m = Some mx" "m_owner mx = Some ow" "ow \<noteq> curthread s"
    and new: "\<And>c cts. used s c cts \<Longrightarrow> ts_wchan cts \<noteq> Some m"
    and w: "wait_first a ow (set_mtx m (mx\<lparr>m_contested := True\<rparr>) (set_ts a (ts\<lparr>ts_wchan := Some m\<rparr>) s)) = Some s1" "switch_away now now' a waitpt s1 = Some s'"
  shows "sys_inv s'"
proof -
  obtain i where i: "base_inv i s" "locked {} s" and l: "locks_inv s"
    using sys(1) by (auto simp: sys_inv_def sched_inv_def)
  note nb = cur_not_blocked [OF sys(1) td(1)]
  have n: "td_lock td = None"
    using i(2) td(1) by (auto simp: locked_def)
  obtain otd where ow: "threads s ow = Some otd"
    and s1: "s1 = set_td ow (otd\<lparr>td_contested := a # td_contested otd\<rparr>) s\<lparr>mutexes := (mutexes s)(m \<mapsto> mx\<lparr>m_contested := True\<rparr>),
       turnstile_chains := (turnstile_chains s)[TC_HASH m := a # turnstile_chains s ! TC_HASH m],
       turnstiles := (turnstiles s)(a \<mapsto> \<lparr>ts_free = [], ts_blocked = [curthread s], ts_wchan = Some m, ts_owner = Some ow, ts_state = USED_BLOCKED\<rparr>)\<rparr>"
    using wait_first_pre [OF w(1)] .
  have c1: "curthread s1 = curthread s" "threads s1 (curthread s1) = Some td"
    using td m(3) by (simp_all add: s1)
  let ?td = "\<lambda>wc. td\<lparr>td_lock := Some (curthread s), td_turnstile := None, td_blocked := Some a, td_wchan := wc, td_waitpt := Some waitpt, td_state := TDS_BLOCKED\<rparr>"
  obtain wc s3 where s3: "propagate_priority (curthread s) (set_td (curthread s) (?td wc) s1) = Some s3" "sched_switch now now' s3 = Some s'"
    using switch_away_pre [OF w(2) c1(2) n] unfolding c1(1) by auto
  let ?s2 = "set_td (curthread s) (?td wc) s1" and ?s = "set_td ow (otd\<lparr>td_contested := a # td_contested otd\<rparr>) s"
  have b: "base_inv i ?s" "locked {} ?s"
    using base_inv_set [OF i(1) ow] i(2) ow by (auto simp: locked_def)
  have e: "threads ?s2 = (threads s)(ow \<mapsto> otd\<lparr>td_contested := a # td_contested otd\<rparr>, curthread s \<mapsto> ?td wc)" "threads ?s2 = (threads ?s)(curthread ?s \<mapsto> ?td wc)"
    by (simp_all add: s1)
  have "blocks_on a td (?td wc)"
    by (simp add: blocks_on_def)
  then have lk: "lock_inv ?s2" "inherits {curthread ?s} ?s2" "free_inv ?s2" "mtx_inv ?s2"
    using first_locks [OF l td(1) nb(2) td(2) ow m(3,1,2) new e(1), OF _ _ _ _ refl] by (simp_all add: s1)
  have "idle_ok ?s2"
    using l sys(3) ow by (auto simp: locks_inv_def idle_ok_def s1)
  then show ?thesis
    using away_ok [OF b _ e(2) _ _ _ _ _ _ _ lk, of s3 now now' s'] sys(2) s3 by (simp add: s1)
qed

text \<open>The channel of a turnstile that is not in use does not matter.\<close>

lemma locks_unused:
  assumes l: "locks_inv s" and a: "turnstiles s a = Some ts" "ts_state ts = FREE_UNBLOCKED"
  shows "locks_inv (set_ts a (ts\<lparr>ts_wchan := w\<rparr>) s)"
proof -
  let ?s = "set_ts a (ts\<lparr>ts_wchan := w\<rparr>) s"
  have u: "used ?s = used s"
    using a by (auto simp: used_def fun_eq_iff)
  have p: "prio_of ?s = prio_of s"
    by (simp add: prio_of_def [abs_def])
  have f: "lock_inv s" "inherits {} s" "own_inv s" "list_inv s" "mtx_inv s" "idle_ok s"
    using l by (simp_all add: locks_inv_def free_inv_def)
  have "lock_inv ?s" "inherits {} ?s" "idle_ok ?s"
    using f(1,2,6) by (simp_all add: lock_inv_def ts_ok_def td_ok_def inherits_def idle_ok_def u p)
  moreover have "own_inv ?s"
    using f(3) a unfolding own_inv_def by fastforce
  moreover have "list_inv ?s"
    using f(4) a unfolding list_inv_def u by fastforce
  moreover have "mtx_inv ?s"
  proof -
    have "chain_index s c = chain_index ?s c" if "c \<in> used_set s" for c
      using that a by (auto simp: chain_index_def used_set_def used_def)
    then have "buckets (turnstile_chains ?s) TC_TABLESIZE (used_set ?s) (chain_index ?s)"
      using mtx_chains [OF f(5)] by (auto simp: used_set_def u intro: buckets_cong)
    then show ?thesis
      using f(5) by (simp add: mtx_inv_def u)
  qed
  ultimately show ?thesis
    by (simp add: locks_inv_def free_inv_def)
qed

lemma sys_unused:
  assumes "sys_inv s" and "turnstiles s a = Some ts" "ts_state ts = FREE_UNBLOCKED"
  shows "sys_inv (set_ts a (ts\<lparr>ts_wchan := w\<rparr>) s)"
  using assms locks_unused by (auto simp: sys_inv_def sched_inv_def)

lemma sys_cur_set:
  assumes "sys_inv s" and "threads s (curthread s) = Some td" and "td_lock td' = None" "td_state td' = td_state td" "full_view td' = full_view td"
  shows "sys_inv (set_td (curthread s) td' s)"
  using assms sched_inv_cur_set [OF _ assms(2-4)] same_locks_inv [OF same_locks_set [OF assms(2,5)]] by (simp add: sys_inv_def)

lemma sys_preempt_disable:
  assumes "sys_inv s" and "preempt_disable s = Some s'"
  obtains td where "threads s (curthread s) = Some td" "s' = set_td (curthread s) (td\<lparr>td_pdnest := td_pdnest td + 1\<rparr>) s" "sys_inv s'"
proof -
  obtain td where td: "threads s (curthread s) = Some td" "s' = set_td (curthread s) (td\<lparr>td_pdnest := td_pdnest td + 1\<rparr>) s"
    using assms(2) by (auto simp: preempt_disable_def bind_eq_Some_conv)
  then show thesis
    using that sys_cur_set [OF assms(1) td(1)] sched_inv_lock(1) [OF _ td(1)] assms(1) by (simp add: sys_inv_def full_view_def lock_view_def)
qed

lemma sys_preempt_enable:
  assumes "sys_inv s" and "\<not> no_switch s" and "preempt_enable now now' s = Some s'"
  shows "sys_inv s'"
proof -
  obtain td where td: "threads s (curthread s) = Some td" "sched_inv (set_td (curthread s) (td\<lparr>td_pdnest := td_pdnest td - 1\<rparr>) s)"
    "sched_maybe_preempt now now' (set_td (curthread s) (td\<lparr>td_pdnest := td_pdnest td - 1\<rparr>) s) = Some s'"
    using preempt_enable_pre [OF _ assms(3)] assms(1) unfolding sys_inv_def by blast
  have "sys_inv (set_td (curthread s) (td\<lparr>td_pdnest := td_pdnest td - 1\<rparr>) s)"
    using sys_cur_set [OF assms(1) td(1)] sched_inv_lock(1) [OF _ td(1)] assms(1) by (simp add: sys_inv_def full_view_def lock_view_def)
  then show ?thesis
    using sys_preempt [OF _ _ td(3)] assms(2) by simp
qed

lemma mtx_block_inv:
  assumes sys: "sys_inv s" "\<not> no_switch s" "Some (curthread s) \<noteq> idle_thread s" "\<not> mtx_owned m s" and b: "mtx_block now now' m waitpt s = Some s'"
  shows "sys_inv s'"
proof -
  obtain s1 where s1: "preempt_disable s = Some s1"
    using b by (auto simp: mtx_block_def bind_eq_Some_conv)
  obtain td0 where td0: "s1 = set_td (curthread s) (td0\<lparr>td_pdnest := td_pdnest td0 + 1\<rparr>) s" "sys_inv s1"
    by (rule sys_preempt_disable [OF sys(1) s1])
  then have sys1: "sys_inv s1" "\<not> no_switch s1" "Some (curthread s1) \<noteq> idle_thread s1" "\<not> mtx_owned m s1"
    using sys(2-4) by (simp_all add: mtx_owned_def split: option.splits)
  obtain td where td: "threads s1 (curthread s1) = Some td"
    by (simp add: td0(1))
  have l: "mtx_inv s1" "own_inv s1"
    using sys1(1) by (simp_all add: sys_inv_def locks_inv_def free_inv_def)
  obtain r where r: "turnstile_lookup m s1 = Some r"
    using b s1 by (auto simp: mtx_block_def turnstile_take_def bind_eq_Some_conv)
  show ?thesis
  proof (cases r)
    case (Some a)
    obtain ts where ts: "used s1 a ts" "ts_wchan ts = Some m"
      using turnstile_lookup_ok [OF l(1) r] Some by auto
    obtain mx ow where mx: "mutexes s1 m = Some mx" "m_owner mx = Some ow"
      using mtx_used [OF l(1) ts(1)] ts lock_inv_ts [OF _ ts(1)] sys1(1) by (auto simp: sys_inv_def locks_inv_def ts_ok_def)
    have na: "td_turnstile td \<noteq> Some a"
      using own_inv_state [OF l(2) td] ts(1) by (auto simp: used_def)
    then obtain s2 where "wait_join a ow s1 = Some s2" "switch_away now now' a waitpt s2 = Some s'"
      using b s1 r Some td mx by (auto simp: mtx_block_def turnstile_take_def turnstile_wait_def bind_eq_Some_conv)
    then show ?thesis
      by (rule block_join [OF sys1(1-3) ts(1)])
  next
    case None
    have new: "\<And>c cts. used s1 c cts \<Longrightarrow> ts_wchan cts \<noteq> Some m"
      using turnstile_lookup_ok [OF l(1) r] None by auto
    obtain a ts mx where a: "td_turnstile td = Some a" "turnstiles s1 a = Some ts" "mutexes s1 m = Some mx"
      using b s1 r None td by (auto simp: mtx_block_def turnstile_take_def bind_eq_Some_conv)
    have st: "ts_state ts = FREE_UNBLOCKED"
      using own_inv_state [OF l(2) td a(1)] a(2) by simp
    show ?thesis
    proof (cases "m_owner mx")
      case (Some ow)
      then have ow: "ow \<noteq> curthread s1"
        using sys1(4) a(3) by (auto simp: mtx_owned_def)
      obtain s2 where w: "wait_first a ow (set_mtx m (mx\<lparr>m_contested := True\<rparr>) (set_ts a (ts\<lparr>ts_wchan := Some m\<rparr>) s1)) = Some s2"
        "switch_away now now' a waitpt s2 = Some s'"
        using b s1 r None td a Some by (auto simp: mtx_block_def turnstile_take_def turnstile_wait_def bind_eq_Some_conv Let_def set_mtx_def set_ts_def)
      show ?thesis
        using block_first [OF sys1(1-3) td a(1,3) Some ow _ w] new by blast
    next
      case none: None
      have "\<not> m_contested mx"
        using mtx_waiters [OF l(1) a(3)] new by blast
      then have "preempt_enable now now' (set_ts a (ts\<lparr>ts_wchan := None\<rparr>) s1) = Some s'"
        using b s1 r None td a none by (auto simp: mtx_block_def turnstile_take_def turnstile_give_def bind_eq_Some_conv set_ts_def)
      then show ?thesis
        using sys_preempt_enable [OF sys_unused [OF sys1(1) a(2) st, of None]] sys1(2) by simp
    qed
  qed
qed

section \<open>Releasing a mutex\<close>

text \<open>What the release of a contested mutex does to the threads: those blocked on it are ready and have a turnstile each, and the owner has priority
  \<open>p\<close> and one turnstile less.\<close>

definition release_td :: "nat \<Rightarrow> nat set \<Rightarrow> (nat \<Rightarrow> nat) \<Rightarrow> prio \<Rightarrow> nat \<Rightarrow> nat \<Rightarrow> thread \<Rightarrow> thread" where
  "release_td a Q g p t x td =
     (if x \<in> Q then td\<lparr>td_blocked := None, td_state := TDS_READY, td_turnstile := Some (g x)\<rparr>
      else if x = t then td\<lparr>td_contested := remove1 a (td_contested td), td_prio := p\<rparr>
      else td)"

definition freed_ts :: "nat \<Rightarrow> turnstile \<Rightarrow> (nat \<Rightarrow> turnstile option) \<Rightarrow> (nat \<Rightarrow> turnstile option) \<Rightarrow> bool" where
  "freed_ts a ts T T' \<longleftrightarrow> (\<exists>ats. T' a = Some ats \<and> ts_state ats = FREE_UNBLOCKED) \<and>
     (\<forall>c. c \<noteq> a \<longrightarrow> T' c = (if c \<in> set (ts_free ts) then map_option (\<lambda>cts. cts\<lparr>ts_state := FREE_UNBLOCKED\<rparr>) (T c) else T c))"

definition released :: "nat \<Rightarrow> turnstile \<Rightarrow> (nat \<Rightarrow> nat) \<Rightarrow> prio \<Rightarrow> nat \<Rightarrow> nat \<Rightarrow> tsys \<Rightarrow> tsys \<Rightarrow> bool" where
  "released a ts g p t m s s' \<longleftrightarrow>
     (\<forall>x. map_option full_view (threads s' x) = map_option (\<lambda>td. full_view (release_td a (set (ts_blocked ts)) g p t x td)) (threads s x)) \<and>
     bij_betw g (set (ts_blocked ts)) (insert a (set (ts_free ts))) \<and> freed_ts a ts (turnstiles s) (turnstiles s') \<and>
     turnstile_chains s' = (turnstile_chains s)[TC_HASH m := remove1 a (turnstile_chains s ! TC_HASH m)] \<and>
     (\<exists>mx. mutexes s' = (mutexes s)(m \<mapsto> mx) \<and> m_owner mx = None \<and> \<not> m_contested mx) \<and> idle_thread s' = idle_thread s"

lemma released_td:
  assumes "released a ts g p t m s s'"
  shows "threads s' x = Some td' \<Longrightarrow> \<exists>td. threads s x = Some td \<and> full_view td' = full_view (release_td a (set (ts_blocked ts)) g p t x td)"
    and "threads s x = Some td \<Longrightarrow> \<exists>td'. threads s' x = Some td' \<and> full_view td' = full_view (release_td a (set (ts_blocked ts)) g p t x td)"
proof -
  have e: "map_option full_view (threads s' x) = map_option (\<lambda>td. full_view (release_td a (set (ts_blocked ts)) g p t x td)) (threads s x)"
    using assms by (simp add: released_def)
  show "threads s' x = Some td' \<Longrightarrow> \<exists>td. threads s x = Some td \<and> full_view td' = full_view (release_td a (set (ts_blocked ts)) g p t x td)"
    "threads s x = Some td \<Longrightarrow> \<exists>td'. threads s' x = Some td' \<and> full_view td' = full_view (release_td a (set (ts_blocked ts)) g p t x td)"
    using e by (cases "threads s x"; cases "threads s' x"; simp)+
qed

lemma full_view_eq:
  "full_view td' = full_view td \<longleftrightarrow> td_blocked td' = td_blocked td \<and> td_contested td' = td_contested td \<and> td_prio td' = td_prio td \<and> td_is_blocked td' = td_is_blocked td \<and>
     td_turnstile td' = td_turnstile td"
  by (auto simp: full_view_def lock_view_def)

lemma released_used:
  assumes r: "released a ts g p t m s s'" and l: "list_inv s" and a: "used s a ts"
  shows "used s' c cts \<longleftrightarrow> c \<noteq> a \<and> used s c cts"
proof (cases "c = a")
  case True
  then show ?thesis
    using r by (auto simp: released_def freed_ts_def used_def)
next
  case False
  have "\<not> used s c cts" if "c \<in> set (ts_free ts)"
    using list_inv_state [OF l a that] by (auto simp: used_def)
  moreover have "turnstiles s' c = (if c \<in> set (ts_free ts) then map_option (\<lambda>cts. cts\<lparr>ts_state := FREE_UNBLOCKED\<rparr>) (turnstiles s c) else turnstiles s c)"
    using r False by (simp add: released_def freed_ts_def)
  ultimately show ?thesis
    using False by (auto simp: used_def)
qed

lemma release_lock_inv:
  assumes r: "released a ts g p t m s s'" and l: "lock_inv s" "list_inv s" and a: "used s a ts" "ts_owner ts = Some t" and t: "threads s t = Some td" "td_blocked td = None"
  shows "lock_inv s'" and "prio_of s' = (prio_of s)(t := p)"
proof -
  have nq: "t \<notin> set (ts_blocked cts)" if "used s c cts" for c cts
    using on_queue [OF l(1) t(1) that] t(2) by simp
  note u = released_used [OF r l(2) a(1)] and td1 = released_td(1) [OF r] and td2 = released_td(2) [OF r]
  have "prio_of s' x = ((prio_of s)(t := p)) x" for x
    using td1 [of x] td2 [of x] nq [OF a(1)] t(1)
    by (cases "threads s x"; cases "threads s' x") (auto simp: prio_of_def full_view_eq release_td_def split: if_splits)
  then show pr: "prio_of s' = (prio_of s)(t := p)"
    by blast
  have "ts_ok s' c cts" if "used s' c cts" for c cts
  proof -
    have c: "c \<noteq> a" "used s c cts" "ts_ok s c cts"
      using that u lock_inv_ts [OF l(1)] by simp_all
    obtain ow otd where ow: "ts_owner cts = Some ow" "threads s ow = Some otd" "c \<in> set (td_contested otd)"
      using c(3) by (auto simp: ts_ok_def)
    obtain otd' where otd': "threads s' ow = Some otd'" "c \<in> set (td_contested otd')"
      using td2 [OF ow(2)] ow(3) c(1) by (auto simp: full_view_eq release_td_def split: if_splits)
    have "\<exists>ytd'. threads s' y = Some ytd' \<and> td_blocked ytd' = Some c" if y: "y \<in> set (ts_blocked cts)" for y
    proof -
      obtain ytd where ytd: "threads s y = Some ytd" "td_blocked ytd = Some c"
        using c(3) y by (auto simp: ts_ok_def)
      then have "y \<notin> set (ts_blocked ts)" "y \<noteq> t"
        using on_queue [OF l(1) ytd(1) a(1)] c(1) nq [OF c(2)] y by auto
      then show ?thesis
        using td2 [OF ytd(1)] ytd(2) by (auto simp: full_view_eq release_td_def)
    qed
    moreover have "map (prio_of s') (ts_blocked cts) = map (prio_of s) (ts_blocked cts)"
      using nq [OF c(2)] by (simp add: pr)
    ultimately show ?thesis
      using c(3) ow(1) otd' unfolding ts_ok_def by metis
  qed
  moreover have "td_ok s' x xtd'" if x: "threads s' x = Some xtd'" for x xtd'
  proof -
    obtain xtd where xtd: "threads s x = Some xtd" "full_view xtd' = full_view (release_td a (set (ts_blocked ts)) g p t x xtd)"
      using td1 [OF x] by blast
    note ok = lock_inv_td [OF l(1) xtd(1), unfolded td_ok_def] and q = on_queue [OF l(1) xtd(1) a(1)]
    have "a \<notin> set (td_contested xtd)" if "x \<noteq> t"
      using ok that a by (auto simp: used_def)
    then have con: "distinct (td_contested xtd')" "set (td_contested xtd') = set (td_contested xtd) - {a}"
      using xtd(2) ok nq [OF a(1)] by (auto simp: full_view_eq release_td_def split: if_splits)
    have blk: "td_is_blocked xtd' \<longleftrightarrow> td_blocked xtd' \<noteq> None" "td_blocked xtd' = Some c \<Longrightarrow> td_blocked xtd = Some c \<and> c \<noteq> a" for c
      using xtd(2) ok q by (auto simp: full_view_eq release_td_def split: if_splits)
    show ?thesis
      unfolding td_ok_def
    proof (intro conjI allI impI ballI)
      show "\<exists>cts. used s' c cts \<and> x \<in> set (ts_blocked cts)" if "td_blocked xtd' = Some c" for c
        using blk(2) [OF that] ok u by blast
      show "\<exists>cts. used s' c cts \<and> ts_owner cts = Some x" if "c \<in> set (td_contested xtd')" for c
        using that con(2) ok u by blast
    qed (fact blk(1) con(1))+
  qed
  ultimately show "lock_inv s'"
    by (simp add: lock_inv_def)
qed

lemma release_inherits:
  assumes r: "released a ts g p t m s s'" and l: "lock_inv s" "list_inv s" "inherits {} s" and a: "used s a ts" "ts_owner ts = Some t" and t: "threads s t = Some td" "td_blocked td = None"
    and p: "\<And>c cts x. c \<noteq> a \<Longrightarrow> used s c cts \<Longrightarrow> ts_owner cts = Some t \<Longrightarrow> x \<in> set (ts_blocked cts) \<Longrightarrow> p \<le> prio_of s x"
  shows "inherits {} s'"
  unfolding inherits_def
proof (intro allI impI, elim conjE)
  fix c cts ow x
  assume c: "used s' c cts" "ts_owner cts = Some ow" "x \<in> set (ts_blocked cts) - {}"
  then have c': "c \<noteq> a" "used s c cts"
    using released_used [OF r l(2) a(1)] by simp_all
  have "x \<noteq> t"
    using on_queue [OF l(1) t(1) c'(2)] t(2) c(3) by auto
  then show "prio_of s' ow \<le> prio_of s' x"
    using release_lock_inv(2) [OF r l(1,2) a t] p [OF c'] c l(3) c'(2) unfolding inherits_def by auto
qed

lemma release_own_inv:
  assumes r: "released a ts g p t m s s'" and f: "own_inv s" "list_inv s" and a: "used s a ts"
  shows "own_inv s'"
proof -
  have g: "inj_on g (set (ts_blocked ts))" "g ` set (ts_blocked ts) = insert a (set (ts_free ts))" and tu: "freed_ts a ts (turnstiles s) (turnstiles s')"
    using r by (auto simp: released_def bij_betw_def)
  have held: "if x \<in> set (ts_blocked ts) then c = g x \<and> c \<in> insert a (set (ts_free ts)) else \<exists>td. threads s x = Some td \<and> td_turnstile td = Some c"
    if x: "threads s' x = Some td'" "td_turnstile td' = Some c" for x td' c
    using released_td(1) [OF r x(1)] x(2) g(2) by (auto simp: full_view_eq release_td_def split: if_splits)
  have free: "\<exists>cts. turnstiles s' c = Some cts \<and> ts_state cts = FREE_UNBLOCKED" if c: "c \<in> insert a (set (ts_free ts))" for c
  proof (cases "c = a")
    case False
    then show ?thesis
      using c tu list_inv_state [OF f(2) a, of c] by (auto simp: freed_ts_def)
  qed (use tu in \<open>auto simp: freed_ts_def\<close>)
  have out: "c \<notin> insert a (set (ts_free ts))" if "threads s x = Some td" "td_turnstile td = Some c" for x td c
    using own_inv_state [OF f(1) that] list_inv_state [OF f(2) a, of c] a by (auto simp: used_def)
  have "\<exists>cts. turnstiles s' c = Some cts \<and> ts_state cts = FREE_UNBLOCKED" if x: "threads s' x = Some td'" "td_turnstile td' = Some c" for x td' c
  proof (cases "x \<in> set (ts_blocked ts)")
    case False
    then obtain td where td: "threads s x = Some td" "td_turnstile td = Some c"
      using held [OF x] by auto
    then have "turnstiles s' c = turnstiles s c"
      using out [OF td] tu by (auto simp: freed_ts_def)
    then show ?thesis
      using own_inv_state [OF f(1) td] by simp
  qed (use held [OF x] free in auto)
  moreover have "x = y" if x: "threads s' x = Some xtd" "threads s' y = Some ytd" "td_turnstile xtd = Some c" "td_turnstile ytd = Some c" for x xtd y ytd c
    using held [OF x(1,3)] held [OF x(2,4)] out own_inv_inj [OF f(1)] inj_onD [OF g(1), of x y] by (metis (full_types))
  ultimately show ?thesis
    unfolding own_inv_def by blast
qed

lemma release_list_inv:
  assumes r: "released a ts g p t m s s'" and f: "list_inv s" and a: "used s a ts"
  shows "list_inv s'"
proof -
  note u = released_used [OF r f a]
  have tu: "freed_ts a ts (turnstiles s) (turnstiles s')"
    using r by (simp add: released_def)
  have "\<exists>fts. turnstiles s' x = Some fts \<and> ts_state fts = FREE_BLOCKED" if x: "used s' c cts" "x \<in> set (ts_free cts)" for c cts x
  proof -
    have c: "c \<noteq> a" "used s c cts"
      using x(1) u by simp_all
    then have "x \<notin> set (ts_free ts)" "x \<noteq> a"
      using f a x(2) list_inv_state [OF f c(2) x(2)] unfolding list_inv_def by (blast, auto simp: used_def)
    then show ?thesis
      using tu list_inv_state [OF f c(2) x(2)] by (simp add: freed_ts_def)
  qed
  moreover have "distinct (ts_free cts)" if "used s' c cts" for c cts
    using f that u unfolding list_inv_def by blast
  moreover have "c = d" if "used s' c cts" "used s' d dts" "x \<in> set (ts_free cts)" "x \<in> set (ts_free dts)" for c cts d dts x
    using f that u unfolding list_inv_def by blast
  ultimately show ?thesis
    unfolding list_inv_def by blast
qed

lemma release_mtx_inv:
  assumes r: "released a ts g p t m s s'" and l: "mtx_inv s" "list_inv s" and a: "used s a ts" "ts_wchan ts = Some m"
  shows "mtx_inv s'"
proof -
  note u = released_used [OF r l(2) a(1)]
  obtain mx where e: "turnstile_chains s' = (turnstile_chains s)[TC_HASH m := remove1 a (turnstile_chains s ! TC_HASH m)]" "mutexes s' = (mutexes s)(m \<mapsto> mx)"
    "m_owner mx = None" "\<not> m_contested mx" "idle_thread s' = idle_thread s"
    using r by (auto simp: released_def)
  have us: "used_set s' = used_set s - {a}" "a \<in> used_set s" "chain_index s a = TC_HASH m"
    using u a by (auto simp: used_set_def chain_index_def used_def)
  have "chain_index s c = chain_index s' c" if c: "c \<in> used_set s - {a}" for c
  proof -
    obtain cts where "used s c cts" "used s' c cts"
      using c u by (auto simp: used_set_def)
    then show ?thesis
      by (simp add: chain_index_def used_def)
  qed
  then have b: "buckets (turnstile_chains s') TC_TABLESIZE (used_set s') (chain_index s')"
    using buckets_remove_at [OF mtx_chains [OF l(1)] us(2)] by (auto simp: e(1) us intro: buckets_cong)
  have other: "ts_wchan cts \<noteq> Some m" if "used s' c cts" for c cts
    using that u mtx_unique [OF l(1) _ a(1), of c cts] a(2) by auto
  show ?thesis
  proof (rule mtx_invI [OF b])
    show "\<exists>w wx. ts_wchan cts = Some w \<and> mutexes s' w = Some wx \<and> m_contested wx \<and> m_owner wx = ts_owner cts" if c: "used s' c cts" for c cts
      using mtx_used [OF l(1), of c cts] other [OF c] c u by (auto simp: e(2))
    show "c = d" if "used s' c cts" "used s' d dts" "ts_wchan cts = ts_wchan dts" for c cts d dts
      using that u mtx_unique [OF l(1)] by blast
    show "\<exists>c cts. used s' c cts \<and> ts_wchan cts = Some w" if w: "mutexes s' w = Some wx" "m_contested wx" for w wx
    proof -
      have "w \<noteq> m" "mutexes s w = Some wx"
        using w e(2,4) by (auto split: if_splits)
      then show ?thesis
        using mtx_waiters [OF l(1) _ w(2)] u a by (metis option.inject used_def)
    qed
    show "m_owner wx = None \<or> m_owner wx \<noteq> idle_thread s'" if "mutexes s' w = Some wx" for w wx
      using mtx_idle [OF l(1), of w wx] that e by (auto split: if_splits)
  qed
qed

lemma release_locks:
  assumes r: "released a ts g p t m s s'" and l: "locks_inv s" and a: "used s a ts" "ts_owner ts = Some t" "ts_wchan ts = Some m"
    and t: "threads s t = Some td" "td_blocked td = None"
    and p: "\<And>c cts x. c \<noteq> a \<Longrightarrow> used s c cts \<Longrightarrow> ts_owner cts = Some t \<Longrightarrow> x \<in> set (ts_blocked cts) \<Longrightarrow> p \<le> prio_of s x"
  shows "locks_inv s'"
proof -
  have f: "lock_inv s" "list_inv s" "own_inv s" "mtx_inv s" "inherits {} s" "idle_ok s"
    using l by (simp_all add: locks_inv_def free_inv_def)
  have "idle_ok s'"
    unfolding idle_ok_def
  proof (intro allI impI, elim conjE)
    fix i itd'
    assume i: "idle_thread s' = Some i" "threads s' i = Some itd'"
    obtain itd where "threads s i = Some itd" "full_view itd' = full_view (release_td a (set (ts_blocked ts)) g p t i itd)"
      using released_td(1) [OF r i(2)] by blast
    moreover have "idle_thread s = Some i"
      using i(1) r by (simp add: released_def)
    ultimately show "\<not> td_is_blocked itd'"
      using f(6) by (auto simp: full_view_eq release_td_def idle_ok_def split: if_splits)
  qed
  then show ?thesis
    using release_lock_inv(1) [OF r f(1,2) a(1,2) t] release_inherits [OF r f(1,2,5) a(1,2) t] p release_own_inv [OF r f(3,2) a(1)]
      release_list_inv [OF r f(2) a(1)] release_mtx_inv [OF r f(4,2) a(1,3)] by (auto simp: locks_inv_def free_inv_def)
qed

text \<open>The turnstiles that the blocked threads get back.\<close>

lemma sched_inv_part:
  assumes "threads s' = threads s" "runq s' = runq s" "curthread s' = curthread s" "idle_thread s' = idle_thread s" "sched_active s' = sched_active s"
  shows "sched_inv s' = sched_inv s"
  using sched_part [OF assms] assms(3) by (simp add: sched_inv_def)

lemma sched_inv_set:
  assumes "sched_inv s" and "threads s t = Some td" and "td_lock td' = td_lock td" "td_state td' = td_state td" "td_prio td' = td_prio td"
  shows "sched_inv (set_td t td' s)"
proof -
  obtain i where i: "base_inv i s" "locked {} s" "curthread s = i \<or> curthread s \<in> running_threads s"
    using assms(1) by (auto simp: sched_inv_def)
  have "base_inv i (set_td t td' s)" "locked {} (set_td t td' s)"
    using base_inv_set [OF i(1) assms(2), of td'] i(2) assms(2-5) by (auto simp: locked_def)
  then show ?thesis
    using i(3) assms(4) running_threadsI [OF assms(2)] by (auto simp: sched_inv_def running_threads_upd)
qed

lemma give_back_sched:
  assumes "give_back_loop a q s = Some s'" and "sched_inv s"
  shows "sched_inv s'"
  using assms
proof (induction q arbitrary: s)
  case (Cons t q)
  obtain ts td where ts: "turnstiles s a = Some ts" "threads s t = Some td"
    using Cons.prems(1) by (auto simp: bind_eq_Some_conv)
  have step: "sched_inv (set_td t (td\<lparr>td_turnstile := z\<rparr>) s1)" if "threads s1 = threads s" "runq s1 = runq s" "curthread s1 = curthread s"
      "idle_thread s1 = idle_thread s" "sched_active s1 = sched_active s" for z s1
    using sched_inv_set [of s1 t td "td\<lparr>td_turnstile := z\<rparr>"] sched_inv_part [OF that] that(1) ts(2) Cons.prems(2) by simp
  obtain s1 where "give_back_loop a q s1 = Some s'" "sched_inv s1"
  proof (cases "ts_free ts")
    case Nil
    then show thesis
      using Cons.prems(1) ts by (auto simp: bind_eq_Some_conv Let_def intro!: that step)
  next
    case fr: (Cons f fs)
    then show thesis
      using Cons.prems(1) ts by (auto simp: bind_eq_Some_conv Let_def intro!: that step)
  qed
  then show ?case
    by (rule Cons.IH)
qed simp

definition gave_back :: "nat \<Rightarrow> turnstile \<Rightarrow> nat \<Rightarrow> nat list \<Rightarrow> (nat \<Rightarrow> nat) \<Rightarrow> tsys \<Rightarrow> tsys \<Rightarrow> bool" where
  "gave_back a ts m q g s s' \<longleftrightarrow> bij_betw g (set q) (insert a (set (ts_free ts))) \<and> set q \<subseteq> dom (threads s) \<and>
     threads s' = (\<lambda>x. if x \<in> set q then map_option (\<lambda>td. td\<lparr>td_turnstile := Some (g x)\<rparr>) (threads s x) else threads s x) \<and>
     turnstiles s' a = Some (ts\<lparr>ts_free := [], ts_wchan := None, ts_state := FREE_UNBLOCKED\<rparr>) \<and>
     (\<forall>c. c \<noteq> a \<longrightarrow> turnstiles s' c = (if c \<in> set (ts_free ts) then map_option (\<lambda>cts. cts\<lparr>ts_state := FREE_UNBLOCKED\<rparr>) (turnstiles s c) else turnstiles s c)) \<and>
     turnstile_chains s' = (turnstile_chains s)[TC_HASH m := remove1 a (turnstile_chains s ! TC_HASH m)] \<and>
     mutexes s' = mutexes s \<and> idle_thread s' = idle_thread s \<and> curthread s' = curthread s \<and> no_switch s' = no_switch s"

lemma give_back_loop_ok:
  assumes "give_back_loop a q s = Some s'" and "turnstiles s a = Some ts" "ts_state ts = USED_BLOCKED" "ts_wchan ts = Some m"
    and "distinct q" "distinct (ts_free ts)" "a \<notin> set (ts_free ts)" and "turnstiles s' a = Some ats" "ts_state ats = FREE_UNBLOCKED"
  obtains g where "gave_back a ts m q g s s'"
  using assms
proof (induction q arbitrary: s ts thesis)
  case (Cons t q)
  obtain td where td: "threads s t = Some td"
    using Cons.prems(2,3) by (auto simp: bind_eq_Some_conv)
  show ?case
  proof (cases "ts_free ts")
    case Nil
    then have "gave_back a ts m (t # q) (\<lambda>_. a) s s'"
      using Cons.prems(2-5) td by (auto simp: gave_back_def bind_eq_Some_conv Let_def bij_betw_def fun_eq_iff)
    then show thesis
      by (rule Cons.prems(1))
  next
    case fr: (Cons f fs)
    let ?s = "\<lambda>fts. set_td t (td\<lparr>td_turnstile := Some f\<rparr>) (set_ts f (fts\<lparr>ts_state := FREE_UNBLOCKED\<rparr>) (set_ts a (ts\<lparr>ts_free := fs\<rparr>) s))"
    obtain fts where fts: "turnstiles s f = Some fts" "give_back_loop a q (?s fts) = Some s'"
      using Cons.prems(2,3) td fr by (auto simp: bind_eq_Some_conv Let_def)
    have ne: "f \<noteq> a" "f \<notin> set fs" "t \<notin> set q"
      using Cons.prems(6-8) fr by auto
    obtain g where g: "gave_back a (ts\<lparr>ts_free := fs\<rparr>) m q g (?s fts) s'"
      by (rule Cons.IH [OF _ fts(2), of "ts\<lparr>ts_free := fs\<rparr>"]) (use Cons.prems(4-10) fr ne in auto)
    have "bij_betw (g(t := f)) (set (t # q)) (insert a (set (ts_free ts)))"
    proof -
      have "inj_on g (set q)" "g ` set q = insert a (set fs)"
        using g by (auto simp: gave_back_def bij_betw_def)
      then show ?thesis
        using ne fr by (auto simp: bij_betw_def inj_on_def image_iff)
    qed
    then have "gave_back a ts m (t # q) (g(t := f)) s s'"
      using g td fts(1) ne fr by (auto simp: gave_back_def fun_eq_iff)
    then show thesis
      by (rule Cons.prems(1))
  qed
qed simp

text \<open>The priority that the owner is left with.\<close>

lemma max_prio_loop_ok:
  assumes "max_prio_loop as p s = Some p'"
  shows "p' \<le> p" and "c \<in> set as \<Longrightarrow> \<exists>ts. turnstiles s c = Some ts \<and> ts_blocked ts \<noteq> [] \<and> p' \<le> prio_of s (hd (ts_blocked ts))"
proof -
  have "p' \<le> p \<and> (\<forall>c \<in> set as. \<exists>ts. turnstiles s c = Some ts \<and> ts_blocked ts \<noteq> [] \<and> p' \<le> prio_of s (hd (ts_blocked ts)))"
    using assms
  proof (induction as arbitrary: p)
    case (Cons a as)
    obtain ts where ts: "turnstiles s a = Some ts" "ts_blocked ts \<noteq> []"
      "max_prio_loop as (if prio_gt (prio_of s (hd (ts_blocked ts))) p then prio_of s (hd (ts_blocked ts)) else p) s = Some p'"
      using Cons.prems by (auto simp: bind_eq_Some_conv Let_def)
    show ?case
      using Cons.IH [OF ts(3)] ts(1,2) by (auto simp: prio_gt_def split: if_splits)
  qed simp
  then show "p' \<le> p" "c \<in> set as \<Longrightarrow> \<exists>ts. turnstiles s c = Some ts \<and> ts_blocked ts \<noteq> [] \<and> p' \<le> prio_of s (hd (ts_blocked ts))"
    by blast+
qed

lemma max_prio_loop_lower:
  assumes "max_prio_loop as p s = Some p'" and "q \<le> p" and "\<And>c ts. c \<in> set as \<Longrightarrow> turnstiles s c = Some ts \<Longrightarrow> ts_blocked ts \<noteq> [] \<Longrightarrow> q \<le> prio_of s (hd (ts_blocked ts))"
  shows "q \<le> p'"
  using assms
proof (induction as arbitrary: p)
  case (Cons a as)
  obtain ts where ts: "turnstiles s a = Some ts" "ts_blocked ts \<noteq> []"
    "max_prio_loop as (if prio_gt (prio_of s (hd (ts_blocked ts))) p then prio_of s (hd (ts_blocked ts)) else p) s = Some p'"
    using Cons.prems(1) by (auto simp: bind_eq_Some_conv Let_def)
  show ?case
    by (rule Cons.IH [OF ts(3)]) (use Cons.prems(2,3) ts in auto)
qed simp

lemma unlend_ok:
  assumes s: "sched_inv s" "Some (curthread s) \<noteq> idle_thread s" and td: "threads s (curthread s) = Some td"
    and w: "with_td_lock (curthread s) (sched_unlend_prio (curthread s) prio) s = Some s'"
  obtains f p where "sched_inv s'" "frame s s'" "p \<le> prio" "threads s' = (threads s)(curthread s \<mapsto> td\<lparr>td_flags := f, td_prio := p, td_lock := None\<rparr>)"
proof -
  let ?t = "curthread s"
  have inv: "sched_inv s'"
    by (rule sched_prio_inv [OF s disjI2 [OF refl] w])
  let ?td = "td\<lparr>td_lock := Some ?t\<rparr>"
  note l = sched_inv_lock [OF s(1) td]
  have td1: "threads (set_td ?t ?td s) ?t = Some ?td"
    by simp
  obtain s2 where s2: "sched_unlend_prio ?t prio (set_td ?t ?td s) = Some s2" "spin_unlock ?t s2 = Some s'"
    using w l(2) by (auto simp: with_td_lock_def bind_eq_Some_conv)
  obtain i where i: "base_inv i s" "locked {} s" "?t = i \<or> ?t \<in> running_threads s"
    using s(1) by (auto simp: sched_inv_def)
  have b: "base_inv i (set_td ?t ?td s)" "locked {?t} (set_td ?t ?td s)" "td_is_ready ?td \<Longrightarrow> ?t \<notin> {curthread (set_td ?t ?td s), i}"
    using base_inv_set [OF i(1) td, of ?td] spin_lock_ok(2) [OF i(2) td] i(1,3) s(2) running_threadsI [OF td] by (auto simp: base_inv_def)
  obtain f p where s3: "frame s s2" "p \<le> prio" "threads s2 = (threads s)(?t \<mapsto> ?td\<lparr>td_flags := f, td_prio := p\<rparr>)"
  proof (cases "prio_le prio (td_base_prio ?td)")
    case True
    obtain s3 where s3: "sched_unlend_prio ?t prio (set_td ?t ?td s) = Some s3" "frame (set_td ?t ?td s) s3"
      "threads s3 = (threads (set_td ?t ?td s))(?t \<mapsto> ?td\<lparr>td_flags := td_flags ?td AND NOT TDF_BORROWING, td_prio := td_base_prio ?td\<rparr>)"
      by (rule sched_unlend_prio_ok [OF b(1,2) _ td1 b(3) True]) auto
    show thesis
      by (rule that [OF frame_trans [OF frame_set_td(1)], of ?t ?td "td_base_prio td"]) (use s3 s2(1) True in \<open>auto simp: prio_le_def\<close>)
  next
    case False
    then have e: "sched_lend_prio ?t prio (set_td ?t ?td s) = Some s2"
      using s2(1) by (auto simp: sched_unlend_prio_def bind_eq_Some_conv split: if_splits)
    obtain s3 where s3: "sched_lend_prio ?t prio (set_td ?t ?td s) = Some s3" "frame (set_td ?t ?td s) s3"
      "threads s3 = (threads (set_td ?t ?td s))(?t \<mapsto> ?td\<lparr>td_flags := td_flags ?td OR TDF_BORROWING, td_prio := prio\<rparr>)"
      by (rule sched_lend_prio_ok [OF b(1,2) _ td1 b(3) sched_lend_prio_pre [OF e td1]]) auto
    show thesis
      by (rule that [OF frame_trans [OF frame_set_td(1)], of ?t ?td prio]) (use s3 e in auto)
  qed
  have "s' = set_td ?t (td\<lparr>td_flags := f, td_prio := p, td_lock := None\<rparr>) s2"
    using s2(2) frame_simps [OF s3(1)] by (auto simp: spin_unlock_def s3(3) bind_eq_Some_conv)
  then show thesis
    using that [OF inv _ s3(2)] frame_trans [OF s3(1) frame_set_td(1)] by (simp add: s3(3))
qed

lemma unlend_self_ok:
  assumes s: "sched_inv s" "Some (curthread s) \<noteq> idle_thread s" and td: "threads s (curthread s) = Some td" and a: "turnstiles s a = Some ts" and w: "unlend_self a s = Some s'"
  obtains f p R where "sched_inv s'" "s' = s\<lparr>threads := (threads s)(curthread s \<mapsto> td\<lparr>td_contested := remove1 a (td_contested td), td_flags := f, td_prio := p, td_lock := None\<rparr>),
      runq := R, turnstiles := (turnstiles s)(a \<mapsto> ts\<lparr>ts_owner := None\<rparr>)\<rparr>"
    and "\<forall>c \<in> set (remove1 a (td_contested td)). \<exists>cts. turnstiles s' c = Some cts \<and> ts_blocked cts \<noteq> [] \<and> p \<le> prio_of s (hd (ts_blocked cts))"
proof -
  let ?s = "set_td (curthread s) (td\<lparr>td_contested := remove1 a (td_contested td)\<rparr>) (set_ts a (ts\<lparr>ts_owner := None\<rparr>) s)"
  obtain prio where p: "max_prio_loop (remove1 a (td_contested td)) (prio_uthread 255) ?s = Some prio"
    and l: "with_td_lock (curthread ?s) (sched_unlend_prio (curthread ?s) prio) ?s = Some s'"
    using w td a by (auto simp: unlend_self_def bind_eq_Some_conv Let_def)
  have "sched_inv ?s"
    using sched_inv_set [of "set_ts a (ts\<lparr>ts_owner := None\<rparr>) s" "curthread s" td] s(1) td sched_inv_part [of "set_ts a (ts\<lparr>ts_owner := None\<rparr>) s" s] by simp
  then obtain f p where s': "sched_inv s'" "frame ?s s'" "p \<le> prio"
    "threads s' = (threads ?s)(curthread ?s \<mapsto> td\<lparr>td_contested := remove1 a (td_contested td), td_flags := f, td_prio := p, td_lock := None\<rparr>)"
    by (rule unlend_ok [OF _ _ _ l]) (use s(2) in auto)
  have "s' = ?s\<lparr>threads := threads s', runq := runq s'\<rparr>"
    using s'(2) by (simp add: frame_def)
  then have e: "s' = s\<lparr>threads := (threads s)(curthread s \<mapsto> td\<lparr>td_contested := remove1 a (td_contested td), td_flags := f, td_prio := p, td_lock := None\<rparr>),
      runq := runq s', turnstiles := (turnstiles s)(a \<mapsto> ts\<lparr>ts_owner := None\<rparr>)\<rparr>"
    using s'(4) by (cases s'; cases s) (simp add: set_td_def set_ts_def)
  have "prio_of ?s = prio_of s" "turnstiles ?s = turnstiles s'"
    using td frame_tsys [OF s'(2)] by (auto simp: prio_of_def fun_eq_iff)
  then show thesis
    using that [OF s'(1) e] max_prio_loop_ok(2) [OF p] s'(3) by (metis order_trans)
qed

text \<open>Waking the blocked threads one by one.\<close>

definition woken :: "nat set \<Rightarrow> tsys \<Rightarrow> tsys \<Rightarrow> bool" where
  "woken Q s s' \<longleftrightarrow> curthread s' = curthread s \<and> idle_thread s' = idle_thread s \<and> no_switch s' = no_switch s \<and> turnstile_chains s' = turnstile_chains s \<and> mutexes s' = mutexes s \<and>
     (\<forall>x. map_option full_view (threads s' x) =
          map_option (\<lambda>td. full_view (if x \<in> Q then td\<lparr>td_blocked := None, td_state := TDS_READY\<rparr> else td)) (threads s x))"

lemma wake_one:
  assumes s: "sched_inv s" "Some t \<noteq> idle_thread s"
    and w: "with_td_lock t (\<lambda>s. do { td \<leftarrow> threads s t; kassert (td_is_blocked td);
         sched_wakeup now t 0 (set_td t (td\<lparr>td_blocked := None, td_wchan := None, td_waitpt := None\<rparr>) s) }) s = Some s'"
  shows "sched_inv s'" and "woken {t} s s'" and "turnstiles s' = turnstiles s"
proof -
  obtain s1 td1 s3 where s1: "spin_lock t s = Some s1" "threads s1 t = Some td1" "td_is_blocked td1"
    and s3: "sched_wakeup now t 0 (set_td t (td1\<lparr>td_blocked := None, td_wchan := None, td_waitpt := None\<rparr>) s1) = Some s3" "spin_unlock t s3 = Some s'"
    using w by (auto simp: with_td_lock_def bind_eq_Some_conv)
  let ?td = "td1\<lparr>td_blocked := None, td_wchan := None, td_waitpt := None\<rparr>" and ?s = "set_td t (td1\<lparr>td_blocked := None, td_wchan := None, td_waitpt := None\<rparr>) s1"
  obtain i where i: "base_inv i s1" "locked {t} s1" "curthread s1 = i \<or> curthread s1 \<in> running_threads s1" "frame s s1" "idle_thread s = Some i"
    by (rule locked_inv [OF s(1) s1(1)])
  obtain td where td: "threads s t = Some td" "s1 = set_td t (td\<lparr>td_lock := Some (curthread s)\<rparr>) s" "td1 = td\<lparr>td_lock := Some (curthread s)\<rparr>"
    using s1(1,2) by (auto simp: spin_lock_def bind_eq_Some_conv)
  have b: "base_inv i ?s" "locked {t} ?s" "t \<noteq> i" "threads ?s t = Some ?td"
    using base_inv_set [OF i(1) s1(2), of ?td] i(2,5) s(2) s1(2) by (auto simp: locked_def)
  obtain td' where w: "base_inv i s3" "locked {t} s3" "frame ?s s3" "threads s3 t = Some td'" "td_is_ready td'" "td_view td' = td_view ?td"
    "\<forall>x. x \<noteq> t \<longrightarrow> map_option td_view (threads s3 x) = map_option td_view (threads ?s x) \<and> map_option td_state (threads s3 x) = map_option td_state (threads ?s x)"
    by (rule sched_wakeup_inv [OF b(1,2) _ b(3,4) s3(1)]) auto
  have nc: "t \<noteq> curthread s"
    using sched_wakeup_pre [OF b(1,3) s3(1)] td(2) by auto
  note f = frame_simps [OF w(3)] frame_tsys [OF w(3)]
  have "curthread s3 = i \<or> curthread s3 \<in> running_threads s3"
  proof (cases "curthread s = i")
    case False
    then obtain ctd where "threads s (curthread s) = Some ctd" "td_is_running ctd"
      using i(3) nc by (auto simp: td(2) running_threads_upd running_threads_def)
    then show ?thesis
      using w(7) [rule_format, of "curthread s"] nc f by (auto simp: running_threads_def td(2))
  qed (use f td(2) in simp)
  then show "sched_inv s'"
    by (rule unlocked_inv [OF w(1,2) s3(2)])
  have s': "s' = set_td t (td'\<lparr>td_lock := None\<rparr>) s3"
    using s3(2) w(4) by (auto simp: spin_unlock_def bind_eq_Some_conv)
  show "turnstiles s' = turnstiles s"
    using f by (simp add: s' td(2))
  have "map_option full_view (threads s' x) = map_option full_view (threads s x)" if "x \<noteq> t" for x
    using w(7) [rule_format, OF that] that
    by (cases "threads s x"; cases "threads s3 x") (auto simp: s' td(2) full_view_def lock_view_def td_view_def)
  moreover have "full_view (td'\<lparr>td_lock := None\<rparr>) = full_view (td\<lparr>td_blocked := None, td_state := TDS_READY\<rparr>)"
    using w(5,6) by (simp add: full_view_eq td_view_def td(3))
  ultimately show "woken {t} s s'"
    using f td by (auto simp: woken_def s' td(2))
qed

lemma woken_insert:
  assumes "woken {t} s s1" and "woken Q s1 s'" and "t \<notin> Q"
  shows "woken (insert t Q) s s'"
proof -
  have "map_option full_view (threads s' x) =
      map_option (\<lambda>td. full_view (if x \<in> insert t Q then td\<lparr>td_blocked := None, td_state := TDS_READY\<rparr> else td)) (threads s x)" for x
    using assms(1) [unfolded woken_def] assms(2) [unfolded woken_def] assms(3)
    by (cases "threads s x"; cases "threads s1 x"; cases "threads s' x") (auto simp: full_view_eq split: if_splits dest!: spec [of _ x])
  then show ?thesis
    using assms by (simp add: woken_def)
qed

lemma wakeup_blocked_ok:
  assumes "wakeup_blocked now a q s = Some s'" and "sched_inv s" and "\<forall>t \<in> set q. Some t \<noteq> idle_thread s" and "distinct q"
  shows "sched_inv s' \<and> woken (set q) s s' \<and> (\<forall>c. c \<noteq> a \<longrightarrow> turnstiles s' c = turnstiles s c) \<and> map_option ts_state (turnstiles s' a) = map_option ts_state (turnstiles s a)"
  using assms
proof (induction q arbitrary: s)
  case Nil
  then show ?case
    by (simp add: woken_def)
next
  case (Cons t q)
  obtain ts where ts: "turnstiles s a = Some ts"
    using Cons.prems(1) by (auto simp: bind_eq_Some_conv)
  let ?s = "set_ts a (ts\<lparr>ts_blocked := q\<rparr>) s"
  obtain s1 where s1: "with_td_lock t (\<lambda>s. do { td \<leftarrow> threads s t; kassert (td_is_blocked td);
         sched_wakeup (now t) t 0 (set_td t (td\<lparr>td_blocked := None, td_wchan := None, td_waitpt := None\<rparr>) s) }) ?s = Some s1" "wakeup_blocked now a q s1 = Some s'"
    using Cons.prems(1) ts by (auto simp: bind_eq_Some_conv)
  have "sched_inv ?s" "Some t \<noteq> idle_thread ?s"
    using Cons.prems(2,3) sched_inv_part [of ?s s] by simp_all
  note w = wake_one [OF this s1(1)]
  have t: "t \<notin> set q"
    using Cons.prems(4) by simp
  have w1: "woken {t} s s1"
    using w(2) by (simp add: woken_def)
  then have "sched_inv s' \<and> woken (set q) s1 s' \<and> (\<forall>c. c \<noteq> a \<longrightarrow> turnstiles s' c = turnstiles s1 c) \<and> map_option ts_state (turnstiles s' a) = map_option ts_state (turnstiles s1 a)"
    using Cons.IH [OF s1(2) w(1)] Cons.prems(3,4) by (simp add: woken_def)
  then show ?case
    using woken_insert [OF w1 _ t] w(3) ts by simp
qed

lemma lookup_loop_mtx: "lookup_loop w as (set_mtx m mx s) = lookup_loop w as s"
  by (induction as) (simp_all add: set_mtx_def cong: if_cong)

lemma sorted_hd: "sorted (map f xs) \<Longrightarrow> x \<in> set xs \<Longrightarrow> f (hd xs) \<le> (f x :: 'b :: linorder)"
  by (cases xs) auto

lemma broadcast_pre:
  assumes "turnstile_broadcast now m (set_mtx m mx s) = Some s'" and "mtx_inv s"
  obtains a ts s2 s3 where "used s a ts" "ts_wchan ts = Some m" "ts_owner ts = Some (curthread s)" "give_back_loop a (ts_blocked ts) (set_mtx m mx s) = Some s2"
    "unlend_self a s2 = Some s3" "wakeup_blocked now a (ts_blocked ts) s3 = Some s'" "map_option ts_state (turnstiles s' a) = Some FREE_UNBLOCKED"
proof -
  have mx: "turnstiles (set_mtx m mx s) = turnstiles s" "turnstile_chains (set_mtx m mx s) = turnstile_chains s" "curthread (set_mtx m mx s) = curthread s"
    by (simp_all add: set_mtx_def)
  obtain a where a: "turnstile_lookup m s = Some (Some a)"
    using assms(1) by (auto simp: turnstile_broadcast_def turnstile_lookup_def lookup_loop_mtx mx bind_eq_Some_conv)
  obtain ts where ts: "used s a ts" "ts_wchan ts = Some m"
    using turnstile_lookup_ok [OF assms(2) a] by auto
  then show thesis
    using assms(1) a that [OF ts]
    by (auto simp: turnstile_broadcast_def give_back_turnstiles_def turnstile_lookup_def lookup_loop_mtx mx bind_eq_Some_conv used_def)
qed

lemma give_back_frame:
  assumes "give_back_loop a q s = Some s'" and "turnstiles s a \<noteq> None"
  shows "curthread s' = curthread s \<and> idle_thread s' = idle_thread s \<and> (\<forall>c. map_option ts_blocked (turnstiles s' c) = map_option ts_blocked (turnstiles s c)) \<and>
    (\<forall>x. map_option td_prio (threads s' x) = map_option td_prio (threads s x)) \<and> (\<forall>x. x \<notin> set q \<longrightarrow> threads s' x = threads s x)"
  using assms
proof (induction q arbitrary: s)
  case (Cons t q)
  obtain ts td where ts: "turnstiles s a = Some ts" "threads s t = Some td"
    using Cons.prems(1) by (auto simp: bind_eq_Some_conv)
  obtain s1 td' where s1: "give_back_loop a q s1 = Some s'" "threads s1 = (threads s)(t \<mapsto> td')" "td_prio td' = td_prio td" "curthread s1 = curthread s" "idle_thread s1 = idle_thread s"
    and b1: "\<forall>c. map_option ts_blocked (turnstiles s1 c) = map_option ts_blocked (turnstiles s c)"
  proof (cases "ts_free ts")
    case Nil
    then show thesis
      using Cons.prems(1) ts by (auto simp: bind_eq_Some_conv Let_def intro!: that)
  next
    case fr: (Cons f fs)
    then show thesis
      using Cons.prems(1) ts by (auto simp: bind_eq_Some_conv Let_def intro!: that)
  qed
  have "turnstiles s1 a \<noteq> None"
    using b1 [rule_format, of a] ts(1) by auto
  then show ?case
    using Cons.IH [OF s1(1)] s1(2-5) b1 ts(2) by auto
qed simp

lemma phases_released:
  assumes g: "gave_back a ts m (ts_blocked ts) g (set_mtx m mx s) s2" and mx: "m_owner mx = None" "\<not> m_contested mx"
    and s3: "s3 = s2\<lparr>threads := (threads s2)(t \<mapsto> td\<lparr>td_contested := remove1 a (td_contested td), td_flags := f, td_prio := p, td_lock := None\<rparr>),
      runq := R, turnstiles := (turnstiles s2)(a \<mapsto> ts2\<lparr>ts_owner := None\<rparr>)\<rparr>"
    and w: "woken (set (ts_blocked ts)) s3 s'" "\<forall>c. c \<noteq> a \<longrightarrow> turnstiles s' c = turnstiles s3 c" "map_option ts_state (turnstiles s' a) = Some FREE_UNBLOCKED"
    and td: "threads s t = Some td" "t \<notin> set (ts_blocked ts)"
  shows "released a ts g p t m s s'"
proof -
  have e: "mutexes s' = (mutexes s)(m \<mapsto> mx)" "idle_thread s' = idle_thread s"
    "turnstile_chains s' = (turnstile_chains s)[TC_HASH m := remove1 a (turnstile_chains s ! TC_HASH m)]" "bij_betw g (set (ts_blocked ts)) (insert a (set (ts_free ts)))"
    using g w(1) by (simp_all add: gave_back_def woken_def s3 set_mtx_def)
  have t2: "threads s2 = (\<lambda>x. if x \<in> set (ts_blocked ts) then map_option (\<lambda>td. td\<lparr>td_turnstile := Some (g x)\<rparr>) (threads s x) else threads s x)"
    using g by (simp add: gave_back_def set_mtx_def cong: if_cong)
  have "map_option full_view (threads s' x) = map_option (\<lambda>td. full_view (release_td a (set (ts_blocked ts)) g p t x td)) (threads s x)" for x
  proof -
    have "map_option full_view (threads s' x) =
        map_option (\<lambda>td. full_view (if x \<in> set (ts_blocked ts) then td\<lparr>td_blocked := None, td_state := TDS_READY\<rparr> else td)) (threads s3 x)"
      using w(1) by (simp add: woken_def)
    then show ?thesis
      using td by (cases "threads s x") (auto simp: s3 t2 release_td_def full_view_eq)
  qed
  moreover have "freed_ts a ts (turnstiles s) (turnstiles s')"
    using w(2,3) g by (auto simp: freed_ts_def gave_back_def s3 set_mtx_def)
  ultimately show ?thesis
    using e mx by (auto simp: released_def)
qed

lemma broadcast_inv:
  assumes sys: "sys_inv s" "Some (curthread s) \<noteq> idle_thread s" and mx: "m_owner mx = None" "\<not> m_contested mx" and b: "turnstile_broadcast now m (set_mtx m mx s) = Some s'"
  shows "sys_inv s' \<and> no_switch s' = no_switch s"
proof -
  have l: "locks_inv s" "sched_inv s" "mtx_inv s" "lock_inv s" "list_inv s"
    using sys(1) by (simp_all add: sys_inv_def locks_inv_def free_inv_def)
  obtain a ts s2 s3 where a: "used s a ts" "ts_owner ts = Some (curthread s)" "ts_wchan ts = Some m" and s2: "give_back_loop a (ts_blocked ts) (set_mtx m mx s) = Some s2"
    and s3: "unlend_self a s2 = Some s3" and s4: "wakeup_blocked now a (ts_blocked ts) s3 = Some s'" and fin: "map_option ts_state (turnstiles s' a) = Some FREE_UNBLOCKED"
    by (rule broadcast_pre [OF b l(3)])
  let ?t = "curthread s" and ?q = "ts_blocked ts"
  obtain td where td: "threads s ?t = Some td"
    using sched_inv_cur [OF l(2)] .
  note nb = cur_not_blocked [OF sys(1) td]
  have q: "distinct ?q" "?t \<notin> set ?q" "distinct (ts_free ts)" "a \<notin> set (ts_free ts)"
    using lock_inv_ts [OF l(4) a(1)] on_queue [OF l(4) td a(1)] nb l(5) list_inv_state [OF l(5) a(1), of a] a(1) by (auto simp: ts_ok_def list_inv_def used_def)
  have sc2: "sched_inv s2"
    using give_back_sched [OF s2] sched_inv_part [of "set_mtx m mx s" s] l(2) by (simp add: set_mtx_def)
  have mx': "threads (set_mtx m mx s) = threads s" "curthread (set_mtx m mx s) = ?t" "turnstiles (set_mtx m mx s) = turnstiles s" "idle_thread (set_mtx m mx s) = idle_thread s"
    by (simp_all add: set_mtx_def)
  note fr = give_back_frame [OF s2]
  have f2: "curthread s2 = ?t" "idle_thread s2 = idle_thread s" "map_option ts_blocked (turnstiles s2 a) = Some ?q" "threads s2 ?t = Some td"
    using fr a(1) q(2) td mx' by (simp_all add: used_def)
  then obtain ts2 where ts2: "turnstiles s2 a = Some ts2"
    by blast
  obtain f p R where s3': "sched_inv s3" "s3 = s2\<lparr>threads := (threads s2)(?t \<mapsto> td\<lparr>td_contested := remove1 a (td_contested td), td_flags := f, td_prio := p, td_lock := None\<rparr>),
      runq := R, turnstiles := (turnstiles s2)(a \<mapsto> ts2\<lparr>ts_owner := None\<rparr>)\<rparr>"
    and p: "\<forall>c \<in> set (remove1 a (td_contested td)). \<exists>cts. turnstiles s3 c = Some cts \<and> ts_blocked cts \<noteq> [] \<and> p \<le> prio_of s2 (hd (ts_blocked cts))"
    using unlend_self_ok [OF sc2 _ _ ts2 s3, unfolded f2(1)] f2 sys(2) by metis
  have "\<forall>t \<in> set ?q. Some t \<noteq> idle_thread s"
    using lock_inv_ts [OF l(4) a(1)] lock_inv_td [OF l(4)] l(1) unfolding ts_ok_def td_ok_def locks_inv_def idle_ok_def by (metis option.distinct(1))
  then have w: "sched_inv s'" "woken (set ?q) s3 s'" "\<forall>c. c \<noteq> a \<longrightarrow> turnstiles s' c = turnstiles s3 c" "map_option ts_state (turnstiles s' a) = map_option ts_state (turnstiles s3 a)"
    using wakeup_blocked_ok [OF s4 s3'(1) _ q(1)] f2(2) by (simp_all add: s3'(2))
  obtain g where g: "gave_back a ts m ?q g (set_mtx m mx s) s2"
    by (rule give_back_loop_ok [OF s2 _ _ a(3) q(1,3,4) ts2]) (use a(1) mx' fin w(4) s3'(2) in \<open>auto simp: used_def\<close>)
  have r: "released a ts g p ?t m s s'"
    using phases_released [OF g mx s3'(2) w(2,3) fin td q(2)] .
  have pr: "prio_of s2 = prio_of s"
  proof
    show "prio_of s2 x = prio_of s x" for x
      using g by (cases "threads s x") (auto simp: gave_back_def prio_of_def set_mtx_def)
  qed
  have "p \<le> prio_of s x" if c: "c \<noteq> a" "used s c cts" "ts_owner cts = Some ?t" "x \<in> set (ts_blocked cts)" for c cts x
  proof -
    have "c \<in> set (remove1 a (td_contested td))" "turnstiles s3 c = Some cts" "sorted (map (prio_of s) (ts_blocked cts))"
      using lock_inv_ts [OF l(4) c(2)] c(1,2,3) td list_inv_state [OF l(5) a(1), of c] g by (auto simp: ts_ok_def s3'(2) gave_back_def used_def set_mtx_def)
    then show ?thesis
      using p sorted_hd [OF _ c(4)] unfolding pr by fastforce
  qed
  then have "locks_inv s'"
    using release_locks [OF r l(1) a td nb(2)] by blast
  then show ?thesis
    using w(1,2) g by (simp add: sys_inv_def woken_def s3'(2) gave_back_def set_mtx_def)
qed

end
