(* ===== verification/LockSteps.thy ===== *)
theory LockSteps
  imports Mutex
begin

text \<open>
  The system of threads that take and release mutexes, from boot on.  A step is an operation of \<^verbatim>\<open>sys/kern/mutex.c\<close> by the running thread or an
  operation of the scheduler that concerns no lock.  The threads keep the base priority they are created with.  Every reachable state satisfies
  the invariant of the locks.
\<close>

section \<open>Operations that keep the invariant\<close>

lemma locks_mtx:
  assumes l: "locks_inv s" and c: "m_contested mx' \<longleftrightarrow> (\<exists>mx. mutexes s m = Some mx \<and> m_contested mx)"
    and o: "\<And>mx. mutexes s m = Some mx \<Longrightarrow> m_contested mx \<Longrightarrow> m_owner mx' = m_owner mx" and i: "m_owner mx' = None \<or> m_owner mx' \<noteq> idle_thread s"
  shows "locks_inv (set_mtx m mx' s)"
proof -
  let ?s = "set_mtx m mx' s"
  have e: "threads ?s = threads s" "turnstiles ?s = turnstiles s" "turnstile_chains ?s = turnstile_chains s" "idle_thread ?s = idle_thread s"
    "mutexes ?s = (mutexes s)(m \<mapsto> mx')"
    by (simp_all add: set_mtx_def)
  have u: "used ?s = used s"
    by (simp add: used_def [abs_def] e)
  have f: "lock_inv s" "inherits {} s" "own_inv s" "list_inv s" "mtx_inv s" "idle_ok s"
    using l by (simp_all add: locks_inv_def free_inv_def)
  have "mtx_inv ?s"
  proof (rule mtx_invI)
    show "buckets (turnstile_chains ?s) TC_TABLESIZE (used_set ?s) (chain_index ?s)"
      using mtx_chains [OF f(5)] by (simp add: e used_set_def chain_index_def [abs_def] u)
    show "\<exists>w wx. ts_wchan ts = Some w \<and> mutexes ?s w = Some wx \<and> m_contested wx \<and> m_owner wx = ts_owner ts" if "used ?s a ts" for a ts
      using mtx_used [OF f(5), of a ts] that u c o unfolding e(5) by (metis fun_upd_apply)
    show "a = b" if "used ?s a ts" "used ?s b bts" "ts_wchan ts = ts_wchan bts" for a ts b bts
      using mtx_unique [OF f(5)] that u by simp
    show "\<exists>a ts. used ?s a ts \<and> ts_wchan ts = Some w" if "mutexes ?s w = Some wx" "m_contested wx" for w wx
      using mtx_waiters [OF f(5), of w] that c u unfolding e(5) by (cases "w = m") auto
    show "m_owner wx = None \<or> m_owner wx \<noteq> idle_thread ?s" if "mutexes ?s w = Some wx" for w wx
      using mtx_idle [OF f(5), of w wx] that i unfolding e by (cases "w = m") auto
  qed
  moreover have "lock_inv ?s" "inherits {} ?s"
    using lock_inv_view [of ?s s] f(1,2) e by simp_all
  moreover have "own_inv ?s" "list_inv ?s" "idle_ok ?s"
    using f(3,4,6) unfolding own_inv_def list_inv_def idle_ok_def u e by fast+
  ultimately show ?thesis
    by (simp add: locks_inv_def free_inv_def)
qed

lemma set_mtx_sched: "sched_inv (set_mtx m mx s) = sched_inv s" "boot_inv (set_mtx m mx s) = boot_inv s"
  using sched_inv_part [of "set_mtx m mx s" s]
  by (simp_all add: set_mtx_def boot_inv_def runq_inv_def ready_threads_def thread_index_def [abs_def] running_threads_def locked_def)

lemma mtx_try_locks:
  assumes "locks_inv s" and "Some (curthread s) \<noteq> idle_thread s" and "mtx_try m s = Some (b, s')"
  shows "locks_inv s' \<and> (\<exists>mx. s' = set_mtx m mx s)"
proof -
  obtain mx where mx: "mutexes s m = Some mx"
    using assms(3) by (auto simp: mtx_try_def bind_eq_Some_conv)
  have same: "set_mtx m mx s = s"
    using mx by (simp add: set_mtx_def fun_upd_idem)
  have keep: "locks_inv (set_mtx m mx' s)" if "m_contested mx' = m_contested mx" "m_contested mx \<longrightarrow> m_owner mx' = m_owner mx"
      "m_owner mx' = None \<or> m_owner mx' \<noteq> idle_thread s" for mx'
    using locks_mtx [OF assms(1), of mx' m] that mx by auto
  have "s' = set_mtx m mx s \<or> (\<exists>mx'. s' = set_mtx m mx' s \<and> locks_inv s')"
    using assms mx same keep by (auto simp: mtx_try_def mtx_owned_def split: if_splits)
  then show ?thesis
    using same assms(1) by metis
qed

lemma mtx_unlock_free:
  assumes "locks_inv s" and "mutexes s m = Some mx" and "mtx_owned m s" and "m_count mx > 0 \<or> \<not> m_contested mx" and "mtx_unlock wake now now' m s = Some s'"
  shows "locks_inv s' \<and> (\<exists>mx. s' = set_mtx m mx s)"
proof -
  have i: "m_owner mx = None \<or> m_owner mx \<noteq> idle_thread s"
    using mtx_idle [of s m mx] assms(1,2) by (simp add: locks_inv_def)
  have keep: "locks_inv (set_mtx m mx' s)" if "m_contested mx' = m_contested mx" "m_contested mx \<longrightarrow> m_owner mx' = m_owner mx"
      "m_owner mx' = None \<or> m_owner mx' = m_owner mx" for mx'
    using locks_mtx [OF assms(1), of mx' m] that assms(2) i by auto
  show ?thesis
    using assms(2-5) keep by (auto simp: mtx_unlock_def split: if_splits)
qed

lemma mtx_unlock_inv:
  assumes "sys_inv s" and "\<not> no_switch s" and "mtx_unlock wake now now' m s = Some s'"
  shows "sys_inv s'"
proof -
  obtain mx where mx: "mutexes s m = Some mx" "mtx_owned m s"
    using assms(3) by (auto simp: mtx_unlock_def bind_eq_Some_conv)
  have l: "locks_inv s" "sched_inv s"
    using assms(1) by (simp_all add: sys_inv_def)
  show ?thesis
  proof (cases "m_count mx > 0 \<or> \<not> m_contested mx")
    case True
    then show ?thesis
      using mtx_unlock_free [OF l(1) mx True assms(3)] l(2) by (auto simp: sys_inv_def set_mtx_sched)
  next
    case False
    let ?mx = "mx\<lparr>m_owner := None, m_contested := False\<rparr>"
    obtain s1 s2 where s12: "preempt_disable s = Some s1" "turnstile_broadcast wake m (set_mtx m ?mx s1) = Some s2" "preempt_enable now now' s2 = Some s'"
      using assms(3) mx False by (auto simp: mtx_unlock_def bind_eq_Some_conv)
    obtain td where s1: "s1 = set_td (curthread s) (td\<lparr>td_pdnest := td_pdnest td + 1\<rparr>) s" "sys_inv s1"
      by (rule sys_preempt_disable [OF assms(1) s12(1)])
    have "Some (curthread s) \<noteq> idle_thread s"
      using mtx_idle [of s m mx] l(1) mx by (auto simp: locks_inv_def mtx_owned_def)
    then have "sys_inv s2 \<and> no_switch s2 = no_switch s1"
      using broadcast_inv [OF s1(2) _ _ _ s12(2)] s1(1) by simp
    then show ?thesis
      using sys_preempt_enable [OF _ _ s12(3)] assms(2) s1(1) by simp
  qed
qed

text \<open>Operations of the scheduler.\<close>

lemma sys_leave:
  assumes "sys_inv s" and "\<not> no_switch s" and "st \<notin> {TDS_RUNNING, TDS_BLOCKED}" and "threads s (curthread s) = Some td"
    and "sched_switch now now' (set_td (curthread s) (td\<lparr>td_lock := Some (curthread s), td_state := st\<rparr>) s) = Some s'"
  shows "sys_inv s'"
proof -
  let ?s = "set_td (curthread s) (td\<lparr>td_lock := Some (curthread s), td_state := st\<rparr>) s"
  have l: "locks_inv s" "sched_inv s" "st \<noteq> TDS_RUNNING"
    using assms(1,3) by (simp_all add: sys_inv_def)
  obtain i s1 where s1: "sched_switch now now' ?s = Some s1" "sched_inv s1" "switched i ?s s1"
    by (rule leave_ok [OF l(2) assms(2) l(3) assms(4)])
  have "same_locks s ?s"
    using same_locks_set [OF assms(4)] cur_not_blocked [OF assms(1,4)] assms(3) by (simp add: full_view_def lock_view_def)
  then show ?thesis
    using same_locks_inv [OF same_locks_trans [OF _ switched_same_locks [OF s1(3)]] l(1)] s1 assms(5) by (simp add: sys_inv_def)
qed

lemma sched_wakeup_locks:
  assumes "sched_wakeup now t r s = Some s'" and "threads s t = Some td" "\<not> td_is_blocked td"
  shows "same_locks s s'"
proof -
  let ?td = "td\<lparr>td_slptime := bintime_add (td_slptime td) (bintime_sub now (td_last_slptime td)), td_state := TDS_READY, td_slice := SLICE, td_retval := r\<rparr>"
  obtain ctd where c: "t \<noteq> curthread s" "threads s (curthread s) = Some ctd"
    using assms(1) by (auto simp: sched_wakeup_def bind_eq_Some_conv Let_def)
  obtain rq where "s' = set_td t ?td s\<lparr>runq := rq\<rparr> \<or> s' = set_td (curthread s) (ctd\<lparr>td_flags := td_flags ctd OR TDF_NEEDSWITCH\<rparr>) (set_td t ?td s\<lparr>runq := rq\<rparr>)"
    using assms(1,2) c by (auto simp: sched_wakeup_def bind_eq_Some_conv Let_def split: if_splits)
  then show ?thesis
    using assms(2,3) c by (auto simp: same_locks_def full_view_def lock_view_def)
qed

lemma sched_add_locks:
  assumes "sched_add now t s = Some s'" and "threads s t = Some td" "\<not> td_is_blocked td" and "locks_inv s"
  shows "locks_inv s'"
proof -
  obtain s1 s2 where s1: "spin_lock t s = Some s1" "sched_wakeup now t 0 s1 = Some s2" "spin_unlock t s2 = Some s'"
    using assms(1) by (auto simp: sched_add_def with_td_lock_def bind_eq_Some_conv)
  have "same_locks s s1" "threads s1 t = Some (td\<lparr>td_lock := Some (curthread s)\<rparr>)"
    using s1(1) assms(2) by (auto simp: spin_lock_def bind_eq_Some_conv full_view_def lock_view_def intro!: same_locks_set)
  moreover have "same_locks s1 s2"
    using sched_wakeup_locks [OF s1(2) calculation(2)] assms(3) by simp
  moreover have "same_locks s2 s'"
    using s1(3) by (auto simp: spin_unlock_def bind_eq_Some_conv full_view_def lock_view_def intro!: same_locks_set)
  ultimately show ?thesis
    using same_locks_inv [OF _ assms(4)] same_locks_trans by blast
qed

definition create_thread :: "nat \<Rightarrow> prio \<Rightarrow> nat \<Rightarrow> tsys \<Rightarrow> tsys" where
  "create_thread t prio a s = set_td t (new_thread prio a) (set_ts a turnstile_ctor s)"

lemma create_locks:
  assumes l: "locks_inv s" and new: "threads s t = None" "turnstiles s a = None"
  shows "locks_inv (create_thread t prio a s)"
proof -
  let ?s = "create_thread t prio a s"
  have f: "lock_inv s" "inherits {} s" "own_inv s" "list_inv s" "mtx_inv s" "idle_ok s"
    using l by (simp_all add: locks_inv_def free_inv_def)
  have e: "threads ?s = (threads s)(t \<mapsto> new_thread prio a)" "turnstiles ?s = (turnstiles s)(a \<mapsto> turnstile_ctor)" "turnstile_chains ?s = turnstile_chains s"
    "mutexes ?s = mutexes s" "idle_thread ?s = idle_thread s"
    by (simp_all add: create_thread_def)
  have n: "td_blocked (new_thread prio a) = None" "td_contested (new_thread prio a) = []" "td_turnstile (new_thread prio a) = Some a"
    by (simp_all add: new_thread_def)
  have u: "used ?s = used s"
    using new(2) by (auto simp: used_def fun_eq_iff e(2) turnstile_ctor_def)
  have pr: "prio_of ?s x = prio_of s x" if "x \<noteq> t" for x
    using that by (simp add: prio_of_def e(1))
  have q: "t \<notin> set (ts_blocked cts)" "ts_owner cts \<noteq> Some t" if "used s c cts" for c cts
    using lock_inv_ts [OF f(1) that] new(1) by (auto simp: ts_ok_def)
  have "ts_ok ?s c cts" if "used s c cts" for c cts
  proof -
    have "map (prio_of ?s) (ts_blocked cts) = map (prio_of s) (ts_blocked cts)"
      using q(1) [OF that] pr unfolding map_eq_conv by metis
    then show ?thesis
      using lock_inv_ts [OF f(1) that] new(1) unfolding ts_ok_def by (auto simp: e(1) simp del: map_eq_conv)
  qed
  moreover have "td_ok ?s x xtd" if "threads ?s x = Some xtd" for x xtd
    using that lock_inv_td [OF f(1), of x xtd] n by (auto simp: e(1) td_ok_def u split: if_splits)
  ultimately have "lock_inv ?s"
    by (simp add: lock_inv_def u)
  moreover have "inherits {} ?s"
    using f(2) q pr unfolding inherits_def u by (metis Diff_empty)
  moreover have "own_inv ?s"
    using f(3) new n unfolding own_inv_def e by (fastforce simp: turnstile_ctor_def split: if_splits)
  moreover have "list_inv ?s"
    using f(4) new(2) unfolding list_inv_def u e by fastforce
  moreover have "mtx_inv ?s"
  proof -
    have "chain_index s c = chain_index ?s c" if "c \<in> used_set s" for c
      using that new(2) by (auto simp: chain_index_def used_set_def used_def e(2))
    then have "buckets (turnstile_chains ?s) TC_TABLESIZE (used_set ?s) (chain_index ?s)"
      using mtx_chains [OF f(5)] by (auto simp: used_set_def u e intro: buckets_cong)
    then show ?thesis
      using f(5) by (simp add: mtx_inv_def u e)
  qed
  moreover have "idle_ok ?s"
    using f(6) by (auto simp: idle_ok_def e)
  ultimately show ?thesis
    by (simp add: locks_inv_def free_inv_def)
qed

section \<open>Reachable states\<close>

text \<open>One step of the system after boot.  The running thread initialises a mutex, tries to take one, waits for one it could not take, or releases
  one; it yields, sleeps, stops or dies; it is preempted or interrupted; threads that wait for no mutex are woken and new ones are created, each with
  a turnstile of its own.  The idle thread takes no mutex and is not woken.\<close>

inductive lock_step :: "tsys \<Rightarrow> tsys \<Rightarrow> bool" where
  init: "mutexes s m = None \<Longrightarrow> lock_step s (set_mtx m (mtx_init r) s)"
| attempt: "Some (curthread s) \<noteq> idle_thread s \<Longrightarrow> mtx_try m s = Some (b, s') \<Longrightarrow> lock_step s s'"
| block: "\<not> no_switch s \<Longrightarrow> Some (curthread s) \<noteq> idle_thread s \<Longrightarrow> \<not> mtx_owned m s \<Longrightarrow> mtx_block now now' m waitpt s = Some s' \<Longrightarrow> lock_step s s'"
| unlock: "\<not> no_switch s \<Longrightarrow> mtx_unlock wake now now' m s = Some s' \<Longrightarrow> lock_step s s'"
| yield: "\<not> no_switch s \<Longrightarrow> thread_yield now now' s = Some s' \<Longrightarrow> lock_step s s'"
| leave: "\<not> no_switch s \<Longrightarrow> Some (curthread s) \<noteq> idle_thread s \<Longrightarrow> st \<in> {TDS_SLEEPING, TDS_STOPPED, TDS_DEAD} \<Longrightarrow>
    spin_lock (curthread s) s = Some s1 \<Longrightarrow> threads s1 (curthread s) = Some td \<Longrightarrow>
    sched_switch now now' (set_td (curthread s) (td\<lparr>td_state := st\<rparr>) s1) = Some s' \<Longrightarrow> lock_step s s'"
| wake: "Some t \<noteq> idle_thread s \<Longrightarrow> threads s t = Some td \<Longrightarrow> \<not> td_is_blocked td \<Longrightarrow> sched_add now t s = Some s' \<Longrightarrow> lock_step s s'"
| preempt: "\<not> no_switch s \<Longrightarrow> sched_maybe_preempt now now' s = Some s' \<Longrightarrow> lock_step s s'"
| exc_leave: "\<not> no_switch s \<Longrightarrow> on_exc_leave now now' s = Some s' \<Longrightarrow> lock_step s s'"
| clock: "sched_clock s = Some s' \<Longrightarrow> lock_step s s'"
| disable: "preempt_disable s = Some s' \<Longrightarrow> lock_step s s'"
| enable: "\<not> no_switch s \<Longrightarrow> preempt_enable now now' s = Some s' \<Longrightarrow> lock_step s s'"
| create: "threads s t = None \<Longrightarrow> turnstiles s a = None \<Longrightarrow> lock_step s (create_thread t prio a s)"
| interrupt: "threads s (curthread s) = Some td \<Longrightarrow> lock_step s (set_td (curthread s) (td\<lparr>td_idnest := n\<rparr>) s\<lparr>no_switch := b\<rparr>)"
| idle: "sched_run_loop s = Some s' \<Longrightarrow> lock_step s s'"

definition init_tsys :: "nat \<Rightarrow> nat \<Rightarrow> tsys" where
  "init_tsys t0 a =
     \<lparr>threads = [t0 \<mapsto> thread0 a], runq = runq_init, sched_active = False, curthread = t0, idle_thread = None, no_switch = False,
      turnstiles = [a \<mapsto> turnstile_ctor], turnstile_chains = replicate TC_TABLESIZE [], mutexes = \<lambda>_. None\<rparr>"

text \<open>The states from boot on.  The first thread may use mutexes too, but holds none when it turns into the idle thread.\<close>

inductive lock_reachable :: "tsys \<Rightarrow> bool" where
  boot: "lock_reachable (init_tsys t0 a)"
| boot_init: "lock_reachable s \<Longrightarrow> \<not> sched_active s \<Longrightarrow> mutexes s m = None \<Longrightarrow> lock_reachable (set_mtx m (mtx_init r) s)"
| boot_try: "lock_reachable s \<Longrightarrow> \<not> sched_active s \<Longrightarrow> mtx_try m s = Some (True, s') \<Longrightarrow> lock_reachable s'"
| boot_unlock: "lock_reachable s \<Longrightarrow> \<not> sched_active s \<Longrightarrow> mutexes s m = Some mx \<Longrightarrow> \<not> m_contested mx \<Longrightarrow> mtx_unlock wake now now' m s = Some s' \<Longrightarrow> lock_reachable s'"
| boot_create: "lock_reachable s \<Longrightarrow> \<not> sched_active s \<Longrightarrow> threads s t = None \<Longrightarrow> turnstiles s a = None \<Longrightarrow> lock_reachable (create_thread t prio a s)"
| boot_add: "lock_reachable s \<Longrightarrow> \<not> sched_active s \<Longrightarrow> threads s t = Some td \<Longrightarrow> td_state td = TDS_INACTIVE \<Longrightarrow> sched_add now t s = Some s' \<Longrightarrow> lock_reachable s'"
| run: "lock_reachable s \<Longrightarrow> \<not> sched_active s \<Longrightarrow> \<forall>m mx. mutexes s m = Some mx \<longrightarrow> m_owner mx \<noteq> Some (curthread s) \<Longrightarrow> sched_run_init s = Some s' \<Longrightarrow> lock_reachable s'"
| step: "lock_reachable s \<Longrightarrow> sched_active s \<Longrightarrow> lock_step s s' \<Longrightarrow> lock_reachable s'"

lemma set_ts_inv [simp]: "sched_inv (set_ts a ts s) = sched_inv s" "boot_inv (set_ts a ts s) = boot_inv s"
  using sched_inv_part [of "set_ts a ts s" s]
  by (simp_all add: set_ts_def boot_inv_def runq_inv_def ready_threads_def thread_index_def [abs_def] running_threads_def locked_def)

lemma init_locks: "locks_inv (set_mtx m (mtx_init r) s)" if "locks_inv s" "mutexes s m = None"
  using locks_mtx [OF that(1), of "mtx_init r" m] that(2) by (simp add: mtx_init_def)

lemma exc_leave_cases:
  assumes "sched_inv s" and "threads s (curthread s) = Some td" and "on_exc_leave now now' s = Some s'"
  shows "s' = s \<or> sched_switch now now' (set_td (curthread s) (td\<lparr>td_lock := Some (curthread s), td_state := TDS_READY\<rparr>) s) = Some s'"
  using assms(2,3) sched_inv_lock [OF assms(1,2)] by (auto simp: on_exc_leave_def Let_def split: if_splits)

lemma clock_cases:
  assumes "sched_inv s" and "threads s (curthread s) = Some td" and "sched_clock s = Some s' \<or> sched_run_loop s = Some s'"
  shows "s' = s \<or> (\<exists>td'. s' = set_td (curthread s) td' s \<and> td_lock td' = None \<and> td_state td' = td_state td \<and> full_view td' = full_view td)"
  using assms(2,3) sched_inv_lock [OF assms(1,2)]
  by (auto simp: sched_clock_def sched_run_loop_def spin_unlock_def spin_owned_def Let_def full_view_eq split: if_splits)

lemma lock_step_inv:
  assumes "lock_step s s'" and sys: "sys_inv s"
  shows "sys_inv s'"
proof -
  have l: "sched_inv s" "locks_inv s"
    using sys by (simp_all add: sys_inv_def)
  obtain td where td: "threads s (curthread s) = Some td"
    using sched_inv_cur [OF l(1)] .
  note lock = sched_inv_lock [OF l(1) td]
  note leave = sys_leave [OF sys _ _ td]
  from assms(1) show ?thesis
  proof cases
    case (init m r)
    then show ?thesis
      using init_locks [OF l(2)] l(1) by (simp add: sys_inv_def set_mtx_sched)
  next
    case (attempt m b)
    then show ?thesis
      using mtx_try_locks [OF l(2) attempt] l(1) by (auto simp: sys_inv_def set_mtx_sched)
  next
    case (block m now now' waitpt)
    then show ?thesis
      by (rule mtx_block_inv [OF sys])
  next
    case (unlock wake now now' m)
    then show ?thesis
      by (rule mtx_unlock_inv [OF sys])
  next
    case (yield now now')
    then show ?thesis
      using leave [of TDS_READY now now' s'] lock(2) by (simp add: thread_yield_def)
  next
    case (leave st s1 td1 now now')
    then show ?thesis
      using sys_leave [OF sys _ _ td, of st now now' s'] lock(2) by auto
  next
    case (wake t td1 now)
    then show ?thesis
      using sched_add_locks [OF wake(4,2,3) l(2)] sched_add_inv [OF l(1) wake(1,4)] by (simp add: sys_inv_def)
  next
    case (preempt now now')
    then show ?thesis
      by (rule sys_preempt [OF sys])
  next
    case (exc_leave now now')
    then show ?thesis
      using exc_leave_cases [OF l(1) td exc_leave(2)] leave [of TDS_READY now now' s'] sys by auto
  next
    case clock
    then show ?thesis
      using clock_cases [OF l(1) td] sys_cur_set [OF sys td] sys by blast
  next
    case disable
    then show ?thesis
      by (rule sys_preempt_disable [OF sys])
  next
    case (enable now now')
    then show ?thesis
      by (rule sys_preempt_enable [OF sys])
  next
    case (create t a prio)
    then show ?thesis
      using create_locks [OF l(2) create(2,3)] sched_inv_create [of "set_ts a turnstile_ctor s" t] l(1) by (simp add: sys_inv_def create_thread_def)
  next
    case (interrupt td1 b n)
    have "same_locks s s'"
      using td interrupt by (auto simp: same_locks_def full_view_eq)
    then show ?thesis
      using sched_inv_interrupt [OF l(1) interrupt(2)] same_locks_inv [OF _ l(2)] interrupt(1) by (simp add: sys_inv_def)
  next
    case idle
    then show ?thesis
      using clock_cases [OF l(1) td] sys_cur_set [OF sys td] sys by blast
  qed
qed

lemma boot_locks: "boot_inv (init_tsys t0 a)" "locks_inv (init_tsys t0 a)"
proof -
  let ?s = "init_tsys t0 a"
  have "ready_threads ?s = {}" "running_threads ?s = {t0}"
    by (auto simp: init_tsys_def ready_threads_def running_threads_def thread0_def split: if_splits)
  then show "boot_inv ?s"
    using buckets_empty [of RQ_NQS "thread_index ?s"] by (simp add: boot_inv_def runq_inv_def init_tsys_def runq_init_def locked_def thread0_def)
  have u: "\<not> used ?s c ts" for c ts
    by (auto simp: used_def init_tsys_def turnstile_ctor_def)
  have th: "threads ?s = [t0 \<mapsto> thread0 a]" "turnstiles ?s a = Some turnstile_ctor" "idle_thread ?s = None"
    by (simp_all add: init_tsys_def)
  have td: "td_blocked (thread0 a) = None" "td_contested (thread0 a) = []" "td_turnstile (thread0 a) = Some a" "\<not> td_is_blocked (thread0 a)"
    by (simp_all add: thread0_def new_thread_def)
  have "lock_inv ?s" "inherits {} ?s" "list_inv ?s" "idle_ok ?s"
    using td by (simp_all add: lock_inv_def td_ok_def inherits_def list_inv_def idle_ok_def u th)
  moreover have "own_inv ?s"
    using td(3) th(2) by (auto simp: own_inv_def th(1) turnstile_ctor_def split: if_splits)
  ultimately have "lock_inv ?s" "inherits {} ?s" "free_inv ?s" "idle_ok ?s"
    by (simp_all add: free_inv_def)
  moreover have "mtx_inv ?s"
    using u buckets_empty [of TC_TABLESIZE "chain_index ?s"] by (simp add: mtx_inv_def used_set_def init_tsys_def)
  ultimately show "locks_inv ?s"
    by (simp add: locks_inv_def)
qed

lemma run_locks:
  assumes "boot_inv s" "locks_inv s" and "\<forall>m mx. mutexes s m = Some mx \<longrightarrow> m_owner mx \<noteq> Some (curthread s)" and "sched_run_init s = Some s'"
  shows "sys_inv s'"
proof -
  let ?t = "curthread s"
  have r: "running_threads s = {?t}" "idle_thread s = None"
    using assms(1) by (simp_all add: boot_inv_def)
  then obtain td where td: "threads s ?t = Some td" "td_is_running td"
    by (auto simp: running_threads_def)
  let ?s = "set_td ?t (td\<lparr>td_slice := 0\<rparr>) s"
  have s': "s' = ?s\<lparr>idle_thread := Some ?t, sched_active := True\<rparr>"
    using assms(4) td(1) r(2) by (simp add: sched_run_init_def Let_def)
  have "same_locks s ?s"
    using same_locks_set [OF td(1)] by (simp add: full_view_eq)
  then have l: "locks_inv ?s"
    by (rule same_locks_inv [OF _ assms(2)])
  have u: "used s' = used ?s" "prio_of s' = prio_of ?s"
    by (simp_all add: used_def [abs_def] prio_of_def [abs_def] s')
  have e: "threads s' = threads ?s" "turnstiles s' = turnstiles ?s" "turnstile_chains s' = turnstile_chains ?s" "mutexes s' = mutexes s" "idle_thread s' = Some ?t"
    by (simp_all add: s')
  have f: "lock_inv ?s" "inherits {} ?s" "own_inv ?s" "list_inv ?s" "mtx_inv ?s"
    using l by (simp_all add: locks_inv_def free_inv_def)
  have "lock_inv s'" "inherits {} s'"
    using f(1,2) lock_inv_view [of s' ?s] by (simp_all add: e)
  moreover have "free_inv s'"
    using f(3,4) unfolding free_inv_defs u e by fast
  moreover have "mtx_inv s'"
  proof (rule mtx_invI)
    show "buckets (turnstile_chains s') TC_TABLESIZE (used_set s') (chain_index s')"
      using mtx_chains [OF f(5)] unfolding used_set_def chain_index_def [abs_def] u e .
  qed (use mtx_used [OF f(5)] mtx_unique [OF f(5)] mtx_waiters [OF f(5)] assms(3) in \<open>auto simp: u e\<close>)
  moreover have "idle_ok s'"
    using td(2) by (simp add: idle_ok_def s')
  ultimately show ?thesis
    using sched_run_init_inv [OF assms(1,4)] by (simp add: sys_inv_def locks_inv_def)
qed

lemma set_mtx_active [simp]: "sched_active (set_mtx m mx s) = sched_active s" "sched_active (create_thread t prio a s) = sched_active s"
  by (simp_all add: set_mtx_def create_thread_def)

lemma lock_reachable_inv: "lock_reachable s \<Longrightarrow> locks_inv s \<and> (if sched_active s then sched_inv s else boot_inv s)"
proof (induction rule: lock_reachable.induct)
  case (boot t0 a)
  then show ?case
    using boot_locks by (simp add: init_tsys_def)
next
  case (boot_init s m r)
  then show ?case
    using init_locks by (simp add: set_mtx_sched)
next
  case (boot_try s m s')
  then have "Some (curthread s) \<noteq> idle_thread s"
    by (simp add: boot_inv_def)
  then show ?case
    using mtx_try_locks [of s m True s'] boot_try by (auto simp: set_mtx_sched)
next
  case (boot_unlock s m mx wake now now' s')
  have "mtx_owned m s"
    using boot_unlock by (auto simp: mtx_unlock_def bind_eq_Some_conv)
  then show ?case
    using mtx_unlock_free [of s m mx wake now now' s'] boot_unlock by (auto simp: set_mtx_sched)
next
  case (boot_create s t a prio)
  then show ?case
    using create_locks [of s t a prio] boot_inv_create [of "set_ts a turnstile_ctor s" t prio a] by (simp add: create_thread_def)
next
  case (boot_add s t td now s')
  then have b: "boot_inv s'"
    using boot_inv_add [of s t td now s'] by simp
  then show ?case
    using sched_add_locks [OF boot_add(5,3)] boot_add by (simp add: boot_inv_def)
next
  case (run s s')
  then show ?case
    using run_locks [of s s'] by (auto simp: sys_inv_def sched_inv_def base_inv_def)
next
  case (step s s')
  then have "sys_inv s'"
    using lock_step_inv [of s s'] by (simp add: sys_inv_def)
  then show ?case
    by (auto simp: sys_inv_def sched_inv_def base_inv_def)
qed

section \<open>Properties\<close>

text \<open>Thread \<open>t\<close> waits for a mutex that \<open>ow\<close> owns.\<close>

definition waits_for :: "tsys \<Rightarrow> nat \<Rightarrow> nat \<Rightarrow> bool" where
  "waits_for s t ow \<longleftrightarrow> (\<exists>td a ts m mx. threads s t = Some td \<and> td_blocked td = Some a \<and> turnstiles s a = Some ts \<and> ts_wchan ts = Some m \<and>
     mutexes s m = Some mx \<and> m_owner mx = Some ow)"

lemma lookup_loop_finds:
  assumes "a \<in> set as" and "\<And>c. c \<in> set as \<Longrightarrow> \<exists>cts. used s c cts \<and> (ts_wchan cts = Some m \<longleftrightarrow> c = a)"
  shows "lookup_loop m as s = Some (Some a)"
  using assms
proof (induction as)
  case (Cons c as)
  obtain cts where "used s c cts" "ts_wchan cts = Some m \<longleftrightarrow> c = a"
    using Cons.prems(2) [of c] by auto
  then show ?case
    using Cons by (auto simp: used_def)
qed simp

lemma turnstile_lookup_finds:
  assumes m: "mtx_inv s" and a: "used s a ts" "ts_wchan ts = Some m"
  shows "turnstile_lookup m s = Some (Some a)"
  unfolding turnstile_lookup_def
proof (rule lookup_loop_finds)
  have b: "set (turnstile_chains s ! TC_HASH m) = {c \<in> used_set s. chain_index s c = TC_HASH m}"
    using mtx_chains [OF m] by (simp add: buckets_def)
  then show "a \<in> set (turnstile_chains s ! TC_HASH m)"
    using a by (auto simp: used_set_def chain_index_def used_def)
  show "\<exists>cts. used s c cts \<and> (ts_wchan cts = Some m \<longleftrightarrow> c = a)" if c: "c \<in> set (turnstile_chains s ! TC_HASH m)" for c
  proof -
    obtain cts where cts: "used s c cts"
      using c b by (auto simp: used_set_def)
    have "ts_wchan cts = Some m \<longleftrightarrow> c = a"
      using mtx_unique [OF m a(1) cts] a cts by (auto simp: used_def)
    then show ?thesis
      using cts by blast
  qed
qed

lemma blocked_on:
  assumes l: "locks_inv s" and t: "threads s t = Some td" "td_blocked td = Some a"
  obtains ts m mx ow otd where "used s a ts" "t \<in> set (ts_blocked ts)" "ts_wchan ts = Some m" "mutexes s m = Some mx" "m_contested mx" "m_owner mx = Some ow"
    "ts_owner ts = Some ow" "threads s ow = Some otd" "td_prio otd \<le> td_prio td"
proof -
  have f: "lock_inv s" "inherits {} s" "mtx_inv s"
    using l by (simp_all add: locks_inv_def)
  obtain ts where ts: "used s a ts" "t \<in> set (ts_blocked ts)"
    using lock_inv_td [OF f(1) t(1)] t(2) by (auto simp: td_ok_def)
  obtain ow otd where ow: "ts_owner ts = Some ow" "threads s ow = Some otd"
    using lock_inv_ts [OF f(1) ts(1)] by (auto simp: ts_ok_def)
  obtain m mx where "ts_wchan ts = Some m" "mutexes s m = Some mx" "m_contested mx" "m_owner mx = Some ow"
    using mtx_used [OF f(3) ts(1)] ow(1) by auto
  moreover have "td_prio otd \<le> td_prio td"
    using f(2) ts ow t(1) unfolding inherits_def prio_of_def by fastforce
  ultimately show thesis
    using that ts ow by blast
qed

text \<open>C1: In every reachable state the owner of a mutex has at least the active priority of each thread that waits for the mutex, directly or through a
  chain of threads that own mutexes and wait for others themselves.\<close>

theorem priority_inheritance:
  assumes "lock_reachable s" and "(waits_for s)\<^sup>+\<^sup>+ t ow"
  shows "\<exists>td otd. threads s t = Some td \<and> threads s ow = Some otd \<and> prio_le (td_prio td) (td_prio otd)"
proof -
  have l: "locks_inv s"
    using lock_reachable_inv [OF assms(1)] by simp
  have one: "\<exists>td otd. threads s t = Some td \<and> threads s ow = Some otd \<and> prio_le (td_prio td) (td_prio otd)" if w: "waits_for s t ow" for t ow
  proof -
    obtain td a ts m mx where t: "threads s t = Some td" "td_blocked td = Some a" "turnstiles s a = Some ts" "ts_wchan ts = Some m" "mutexes s m = Some mx" "m_owner mx = Some ow"
      using w by (auto simp: waits_for_def)
    show ?thesis
      by (rule blocked_on [OF l t(1,2)]) (use t in \<open>auto simp: used_def prio_le_def\<close>)
  qed
  show ?thesis
    using assms(2)
  proof (induction rule: tranclp_induct)
    case (step y z)
    then show ?case
      using one [OF step(2)] by (fastforce simp: prio_le_def)
  qed (rule one)
qed

text \<open>C8: No wake-up is lost.  In every reachable state a blocked thread is on the queue of a turnstile that the chains find under the mutex the
  thread waits for; that mutex is owned and marked as contested, so its release will take the path that wakes the thread.\<close>

theorem blocked_threads_found:
  assumes "lock_reachable s" and "threads s t = Some td" and "td_is_blocked td"
  shows "\<exists>a ts m mx ow. td_blocked td = Some a \<and> turnstile_lookup m s = Some (Some a) \<and> turnstiles s a = Some ts \<and> t \<in> set (ts_blocked ts) \<and>
    ts_owner ts = Some ow \<and> mutexes s m = Some mx \<and> m_owner mx = Some ow \<and> m_contested mx"
proof -
  have l: "locks_inv s" "lock_inv s" "mtx_inv s"
    using lock_reachable_inv [OF assms(1)] by (simp_all add: locks_inv_def)
  obtain a where a: "td_blocked td = Some a"
    using lock_inv_td [OF l(2) assms(2)] assms(3) by (auto simp: td_ok_def)
  show ?thesis
    by (rule blocked_on [OF l(1) assms(2) a]) (use a turnstile_lookup_finds [OF l(3)] in \<open>auto simp: used_def\<close>)
qed

lemma unlend_fails:
  assumes l: "sys_inv s" and td: "threads s (curthread s) = Some td" and c: "c \<in> set (td_contested td)" "used s c cts" "c \<noteq> a" "x \<in> set (ts_blocked cts)"
    and p: "prio_of s x < td_base_prio td" and a: "used s a ts"
    and s2: "give_back_loop a (ts_blocked ts) (set_mtx m mx s) = Some s2"
  shows "unlend_self a s2 = None"
proof (rule ccontr)
  let ?t = "curthread s"
  have f: "lock_inv s" "inherits {} s" "sched_inv s"
    using l by (simp_all add: sys_inv_def locks_inv_def)
  note nb = cur_not_blocked [OF l td]
  have mx: "threads (set_mtx m mx s) = threads s" "turnstiles (set_mtx m mx s) = turnstiles s" "curthread (set_mtx m mx s) = ?t"
    by (simp_all add: set_mtx_def)
  have nq: "?t \<notin> set (ts_blocked ts)"
    using on_queue [OF f(1) td a] nb by simp
  have fr: "curthread s2 = ?t" "\<forall>c. map_option ts_blocked (turnstiles s2 c) = map_option ts_blocked (turnstiles s c)"
    "\<forall>x. map_option td_prio (threads s2 x) = map_option td_prio (threads s x)" "threads s2 ?t = Some td"
    using give_back_frame [OF s2] mx a nq td by (auto simp: used_def)
  assume "unlend_self a s2 \<noteq> None"
  then obtain ts2 prio s3 where ts2: "turnstiles s2 a = Some ts2"
    and m: "max_prio_loop (remove1 a (td_contested td)) (prio_uthread 255) (set_td ?t (td\<lparr>td_contested := remove1 a (td_contested td)\<rparr>) (set_ts a (ts2\<lparr>ts_owner := None\<rparr>) s2)) = Some prio"
    and w: "with_td_lock ?t (sched_unlend_prio ?t prio) (set_td ?t (td\<lparr>td_contested := remove1 a (td_contested td)\<rparr>) (set_ts a (ts2\<lparr>ts_owner := None\<rparr>) s2)) = Some s3"
    using fr(1,4) by (auto simp: unlend_self_def bind_eq_Some_conv Let_def)
  let ?s = "set_td ?t (td\<lparr>td_contested := remove1 a (td_contested td)\<rparr>) (set_ts a (ts2\<lparr>ts_owner := None\<rparr>) s2)"
  have pr: "prio_of ?s y = prio_of s y" for y
    using fr(3,4) td by (cases "threads s y"; cases "threads s2 y") (auto simp: prio_of_def dest: spec [of _ y])
  have bl: "ts_blocked dts' = ts_blocked dts" if "used s d dts" "turnstiles ?s d = Some dts'" for d dts dts'
    using that ts2 fr(2) [rule_format, of d] by (auto simp: used_def split: if_splits)
  have "prio_of s ?t \<le> prio"
  proof (rule max_prio_loop_lower [OF m])
    have "prio_uthread 255 = - 1"
      by code_simp
    then show "prio_of s ?t \<le> prio_uthread 255"
      by simp
    fix d dts'
    assume d: "d \<in> set (remove1 a (td_contested td))" "turnstiles ?s d = Some dts'" "ts_blocked dts' \<noteq> []"
    obtain dts where dts: "used s d dts" "ts_owner dts = Some ?t"
      using d(1) lock_inv_td [OF f(1) td] by (auto simp: td_ok_def dest: notin_set_remove1)
    then show "prio_of s ?t \<le> prio_of ?s (hd (ts_blocked dts'))"
      using f(2) d(3) bl [OF dts(1) d(2)] unfolding inherits_def pr by (metis Diff_empty list.set_sel(1))
  qed
  moreover have "prio < td_base_prio td"
  proof -
    obtain cts' where cts': "turnstiles ?s c = Some cts'" "prio \<le> prio_of ?s (hd (ts_blocked cts'))"
      using max_prio_loop_ok(2) [OF m, of c] c(1,3) by auto
    have "sorted (map (prio_of s) (ts_blocked cts))"
      using lock_inv_ts [OF f(1) c(2)] by (simp add: ts_ok_def)
    then show ?thesis
      using sorted_hd [OF _ c(4)] p cts'(2) bl [OF c(2) cts'(1)] unfolding pr by fastforce
  qed
  ultimately show False
    using w td fr(1) by (auto simp: with_td_lock_def sched_unlend_prio_def sched_lend_prio_def spin_lock_def prio_defs prio_of_def bind_eq_Some_conv split: if_splits)
qed

text \<open>C23: A thread that owns two contested mutexes cannot release one of them while a thread that waits for the other has a higher priority than the
  thread's own: the priority that is left to the thread is lent to it once more, and \<^verbatim>\<open>sched_lend_prio\<close> asserts that the thread runs below what it is
  lent, which priority inheritance has made false.  The kernel panics.\<close>

theorem unlock_panics:
  assumes "lock_reachable s" and "sched_active s" and m: "mutexes s m = Some mx" "m_owner mx = Some (curthread s)" "m_count mx = 0" "m_contested mx"
    and td: "threads s (curthread s) = Some td"
    and x: "threads s x = Some xtd" "td_blocked xtd = Some c" "turnstiles s c = Some cts" "ts_owner cts = Some (curthread s)" "ts_wchan cts \<noteq> Some m"
    and p: "prio_gt (td_prio xtd) (td_base_prio td)"
  shows "mtx_unlock wake now now' m s = None"
proof (rule ccontr)
  have sys: "sys_inv s"
    using lock_reachable_inv [OF assms(1)] assms(2) by (simp add: sys_inv_def)
  let ?mx = "mx\<lparr>m_owner := None, m_contested := False\<rparr>"
  assume "mtx_unlock wake now now' m s \<noteq> None"
  then obtain s1 s2 where s1: "preempt_disable s = Some s1" and b: "turnstile_broadcast wake m (set_mtx m ?mx s1) = Some s2"
    using m by (auto simp: mtx_unlock_def bind_eq_Some_conv)
  obtain td0 where "threads s (curthread s) = Some td0" and s1': "s1 = set_td (curthread s) (td0\<lparr>td_pdnest := td_pdnest td0 + 1\<rparr>) s" "sys_inv s1"
    by (rule sys_preempt_disable [OF sys s1])
  then have td1: "threads s1 (curthread s1) = Some (td\<lparr>td_pdnest := td_pdnest td + 1\<rparr>)" "curthread s1 = curthread s" "turnstiles s1 = turnstiles s"
    using td by simp_all
  have l: "lock_inv s1" "mtx_inv s1"
    using s1'(2) by (simp_all add: sys_inv_def locks_inv_def)
  obtain a ts s3 s4 where a: "used s1 a ts" "ts_wchan ts = Some m" and g: "give_back_loop a (ts_blocked ts) (set_mtx m ?mx s1) = Some s3" "unlend_self a s3 = Some s4"
    by (rule broadcast_pre [OF b l(2)])
  obtain xtd1 where xtd1: "threads s1 x = Some xtd1" "td_blocked xtd1 = Some c" "td_prio xtd1 = td_prio xtd"
    using x(1,2) td s1'(1) \<open>threads s (curthread s) = Some td0\<close> by (cases "x = curthread s") auto
  obtain cts' where "used s1 c cts'" "x \<in> set (ts_blocked cts')"
    using lock_inv_td [OF l(1) xtd1(1)] xtd1(2) by (auto simp: td_ok_def)
  then have c: "used s1 c cts" "x \<in> set (ts_blocked cts)"
    using x(3) by (simp_all add: used_def td1(3))
  have "c \<in> set (td_contested td)" "c \<noteq> a"
    using lock_inv_ts [OF l(1) c(1)] x(4,5) td1 a c(1) by (auto simp: ts_ok_def used_def)
  then have "unlend_self a s3 = None"
    using unlend_fails [OF s1'(2) td1(1) _ c(1) _ c(2) _ a(1) g(1)] p xtd1 by (simp add: prio_gt_def prio_of_def)
  then show False
    using g(2) by simp
qed

section \<open>A run\<close>

text \<open>Some of the steps as an executable function, to run the system.\<close>

datatype lock_op = Init nat | Create nat prio nat | Add nat | Run | Yield | Try nat | Block nat

fun lock_exec :: "lock_op \<Rightarrow> tsys \<Rightarrow> tsys option" where
  "lock_exec (Init m) s = (if Option.is_none (mutexes s m) then Some (set_mtx m (mtx_init False) s) else None)"
| "lock_exec (Create t prio a) s = (if Option.is_none (threads s t) \<and> Option.is_none (turnstiles s a) then Some (create_thread t prio a s) else None)"
| "lock_exec (Add t) s = do { td \<leftarrow> threads s t; if td_state td = TDS_INACTIVE \<and> idle_thread s \<noteq> Some t then sched_add no_time t s else None }"
| "lock_exec Run s = (if sched_active s then None else sched_run_init s)"
| "lock_exec Yield s = (if \<not> no_switch s \<and> sched_active s then thread_yield no_time no_time s else None)"
| "lock_exec (Try m) s = (if idle_thread s \<noteq> Some (curthread s) \<and> sched_active s then map_option snd (mtx_try m s) else None)"
| "lock_exec (Block m) s =
     (if \<not> no_switch s \<and> idle_thread s \<noteq> Some (curthread s) \<and> \<not> mtx_owned m s \<and> sched_active s then mtx_block no_time no_time m 0 s else None)"

fun lock_run :: "lock_op list \<Rightarrow> tsys \<Rightarrow> tsys option" where
  "lock_run [] s = Some s"
| "lock_run (opn # ops) s = do { s \<leftarrow> lock_exec opn s; lock_run ops s }"

definition lock_demo :: "lock_op list" where
  "lock_demo = [Init 500, Init 501, Create 1 200 101, Add 1, Run, Yield, Try 500, Try 501, Create 2 150 102, Add 2, Yield, Try 500, Block 500,
     Create 3 120 103, Add 3, Yield, Try 501, Block 501]"

lemma sched_add_mtx: "sched_add now t s = Some s' \<Longrightarrow> mutexes s' = mutexes s \<and> sched_active s' = sched_active s"
  by (auto simp: sched_add_def with_td_lock_def spin_lock_def sched_wakeup_def spin_unlock_def bind_eq_Some_conv Let_def split: if_splits)

lemma active_step:
  assumes "lock_reachable s" and "sched_active s" and "lock_step s s'"
  shows "lock_reachable s' \<and> sched_active s'"
  using lock_reachable.step [OF assms] lock_step_inv [OF assms(3)] lock_reachable_inv [OF assms(1)] assms(2)
  by (auto simp: sys_inv_def sched_inv_def base_inv_def)

lemma lock_exec_reachable:
  assumes "lock_exec opn s = Some s'" and "lock_reachable s" and "\<not> sched_active s \<Longrightarrow> \<forall>m mx. mutexes s m = Some mx \<longrightarrow> m_owner mx = None"
  shows "lock_reachable s' \<and> (\<not> sched_active s' \<longrightarrow> (\<forall>m mx. mutexes s' m = Some mx \<longrightarrow> m_owner mx = None))"
proof (cases opn)
  case (Init m)
  then show ?thesis
    using assms lock_reachable.boot_init [OF assms(2)] lock_reachable.step [OF assms(2) _ lock_step.init]
    by (cases "sched_active s") (auto simp: set_mtx_def mtx_init_def Option.is_none_def split: if_splits)
next
  case (Create t prio a)
  then show ?thesis
    using assms lock_reachable.boot_create [OF assms(2)] lock_reachable.step [OF assms(2) _ lock_step.create]
    by (cases "sched_active s") (auto simp: create_thread_def Option.is_none_def split: if_splits)
next
  case (Add t)
  then obtain td where td: "threads s t = Some td" "td_state td = TDS_INACTIVE" "idle_thread s \<noteq> Some t" "sched_add no_time t s = Some s'"
    using assms(1) by (auto simp: bind_eq_Some_conv split: if_splits)
  note m = sched_add_mtx [OF td(4)]
  show ?thesis
    using lock_reachable.boot_add [OF assms(2) _ td(1,2,4)] lock_reachable.step [OF assms(2) _ lock_step.wake [OF _ td(1) _ td(4)]] td(2,3) m assms(3)
    by (cases "sched_active s") auto
next
  case Run
  then have r: "\<not> sched_active s" "sched_run_init s = Some s'"
    using assms(1) by (simp_all split: if_splits)
  then have "sched_active s'"
    by (auto simp: sched_run_init_def bind_eq_Some_conv Let_def)
  then show ?thesis
    using lock_reachable.run [OF assms(2) r(1) _ r(2)] assms(3) r(1) by auto
next
  case Yield
  then have y: "lock_step s s'" "sched_active s"
    using assms(1) lock_step.yield [of s no_time no_time s'] by (auto split: if_splits)
  then show ?thesis
    using active_step [OF assms(2)] by simp
next
  case (Try m)
  then have y: "lock_step s s'" "sched_active s"
    using assms(1) lock_step.attempt [of s m _ s'] by (auto split: if_splits)
  then show ?thesis
    using active_step [OF assms(2)] by simp
next
  case (Block m)
  then have y: "lock_step s s'" "sched_active s"
    using assms(1) lock_step.block [of s m no_time no_time 0 s'] by (auto split: if_splits)
  then show ?thesis
    using active_step [OF assms(2)] by simp
qed

lemma lock_run_reachable:
  assumes "lock_run ops s = Some s'" and "lock_reachable s" and "\<not> sched_active s \<Longrightarrow> \<forall>m mx. mutexes s m = Some mx \<longrightarrow> m_owner mx = None"
  shows "lock_reachable s'"
  using assms
proof (induction ops arbitrary: s)
  case (Cons opn ops)
  obtain s1 where s1: "lock_exec opn s = Some s1" "lock_run ops s1 = Some s'"
    using Cons.prems(1) by (auto simp: bind_eq_Some_conv)
  show ?case
    using Cons.IH [OF s1(2)] lock_exec_reachable [OF s1(1) Cons.prems(2,3)] by blast
qed simp

declare propagate_loop.simps [code]

lemma lock_demo_eval:
  "map_option (\<lambda>s. (sched_active s, curthread s, map (\<lambda>t. map_option (\<lambda>td. (td_prio td, td_base_prio td, td_blocked td, td_is_blocked td)) (threads s t)) [1, 2, 3],
       map (\<lambda>a. map_option (\<lambda>ts. (ts_owner ts, ts_wchan ts)) (turnstiles s a)) [102, 103], map (mutexes s) [500, 501]))
     (lock_run lock_demo (init_tsys 0 100)) =
   Some (True, 1, [Some (120, 200, None, False), Some (150, 150, Some 102, True), Some (120, 120, Some 103, True)], [Some (Some 1, Some 500), Some (Some 1, Some 501)],
     replicate 2 (Some \<lparr>m_recursive = False, m_count = 0, m_owner = Some 1, m_contested = True\<rparr>))"
  by code_simp

lemma lock_demo_state:
  obtains s td1 td2 td3 ts2 ts3 where "lock_run lock_demo (init_tsys 0 100) = Some s" "lock_reachable s" "sched_active s" "curthread s = 1"
    "threads s 1 = Some td1" "td_base_prio td1 = 200" "threads s 2 = Some td2" "td_is_blocked td2" "threads s 3 = Some td3" "td_prio td3 = 120" "td_blocked td3 = Some 103"
    "turnstiles s 103 = Some ts3" "ts_owner ts3 = Some 1" "ts_wchan ts3 = Some 501"
    "mutexes s 500 = Some \<lparr>m_recursive = False, m_count = 0, m_owner = Some 1, m_contested = True\<rparr>"
    "mutexes s 501 = Some \<lparr>m_recursive = False, m_count = 0, m_owner = Some 1, m_contested = True\<rparr>"
proof -
  obtain s where s: "lock_run lock_demo (init_tsys 0 100) = Some s"
    using lock_demo_eval by (cases "lock_run lock_demo (init_tsys 0 100)") auto
  have "lock_reachable s"
    by (rule lock_run_reachable [OF s lock_reachable.boot]) (simp add: init_tsys_def)
  then show thesis
    using that [OF s] lock_demo_eval [unfolded s] by (auto simp: numeral_2_eq_2)
qed

theorem priority_inheritance_witness:
  "\<exists>s td otd. lock_run lock_demo (init_tsys 0 100) = Some s \<and> threads s 3 = Some td \<and> threads s 1 = Some otd \<and> td_base_prio otd = 200 \<and> prio_le 120 (td_prio otd)"
proof -
  obtain s td1 td3 ts3 where s: "lock_run lock_demo (init_tsys 0 100) = Some s" "lock_reachable s" "threads s 1 = Some td1" "td_base_prio td1 = 200"
    "threads s 3 = Some td3" "td_prio td3 = 120" "td_blocked td3 = Some 103" "turnstiles s 103 = Some ts3" "ts_wchan ts3 = Some 501"
    "mutexes s 501 = Some \<lparr>m_recursive = False, m_count = 0, m_owner = Some 1, m_contested = True\<rparr>"
    by (rule lock_demo_state)
  then have "waits_for s 3 1"
    by (auto simp: waits_for_def)
  then show ?thesis
    using priority_inheritance [OF s(2) tranclp.r_into_trancl, of 3 1] s by auto
qed

theorem blocked_threads_found_witness:
  "\<exists>s m a. lock_run lock_demo (init_tsys 0 100) = Some s \<and> turnstile_lookup m s = Some (Some a) \<and> (\<exists>ts. turnstiles s a = Some ts \<and> 2 \<in> set (ts_blocked ts))"
proof -
  obtain s td2 where s: "lock_run lock_demo (init_tsys 0 100) = Some s" "lock_reachable s" "threads s 2 = Some td2" "td_is_blocked td2"
    by (rule lock_demo_state)
  then show ?thesis
    using blocked_threads_found [OF s(2-4)] by blast
qed

theorem unlock_panics_witness:
  "\<exists>s. lock_run lock_demo (init_tsys 0 100) = Some s \<and> mtx_unlock (\<lambda>_. no_time) no_time no_time 500 s = None"
proof -
  obtain s td1 td3 ts3 where s: "lock_run lock_demo (init_tsys 0 100) = Some s" "lock_reachable s" "sched_active s" "curthread s = 1" "threads s 1 = Some td1" "td_base_prio td1 = 200"
    "threads s 3 = Some td3" "td_prio td3 = 120" "td_blocked td3 = Some 103" "turnstiles s 103 = Some ts3" "ts_owner ts3 = Some 1" "ts_wchan ts3 = Some 501"
    "mutexes s 500 = Some \<lparr>m_recursive = False, m_count = 0, m_owner = Some 1, m_contested = True\<rparr>"
    by (rule lock_demo_state)
  then have "mtx_unlock (\<lambda>_. no_time) no_time no_time 500 s = None"
    by (intro unlock_panics [OF s(2,3,13), where x = 3 and td = td1 and xtd = td3 and c = 103 and cts = ts3]) (auto simp: prio_gt_def)
  then show ?thesis
    using s(1) by blast
qed

end
