(* ===== verification/Physmem.thy ===== *)
theory Physmem
  imports Regions
begin

text \<open>
  The allocator of physical pages: \<^verbatim>\<open>sys/kern/vm_physmem.c\<close>, a buddy system.  The descriptors of all pages are one array (\<open>pm_pages\<close>), and a
  pointer to a descriptor is its index.  The segments of physical memory own consecutive parts of it.  The free lists are lists of indices.
  The flags of a page are a set.  Removing a descriptor from a list that does not hold it, and an index outside of an array, is \<^term>\<open>None\<close>.  The
  mutex \<^verbatim>\<open>physmem_lock\<close> is held throughout every operation, so each is one step.
\<close>

section \<open>State\<close>

datatype pg_flag = PG_ALLOCATED | PG_MANAGED | PG_REFERENCED | PG_MODIFIED

record phys_page =
  pg_pv :: "nat list"
  pg_paddr :: nat
  pg_flags :: "pg_flag set"
  pg_size :: nat

record physseg =
  seg_start :: nat
  seg_end :: nat
  seg_npages :: nat
  seg_used :: bool
  seg_pages :: nat

record physmem =
  pm_seglist :: "physseg list"
  pm_freeseg_last :: nat
  pm_freelist :: "nat list list"
  pm_pagecount :: "nat list"
  pm_pages :: "phys_page list"
  vm_kernel_end :: nat
  vm_boot_done :: bool
  pm_kenter :: "(nat \<times> nat) list"

definition PM_NQUEUES :: nat where "PM_NQUEUES = 16"
definition VM_PHYSSEG_NMAX :: nat where "VM_PHYSSEG_NMAX = 16"

definition PG_SIZE :: "phys_page \<Rightarrow> nat" where "PG_SIZE pg = u32 (pg_size pg * PAGESIZE)"
definition PG_END :: "phys_page \<Rightarrow> nat" where "PG_END pg = uadd (pg_paddr pg) (PG_SIZE pg)"

definition page_at :: "physmem \<Rightarrow> nat \<Rightarrow> phys_page option" where
  "page_at s p = (if p < length (pm_pages s) then Some (pm_pages s ! p) else None)"

definition set_page :: "nat \<Rightarrow> phys_page \<Rightarrow> physmem \<Rightarrow> physmem" where
  "set_page p pg s = s\<lparr>pm_pages := (pm_pages s)[p := pg]\<rparr>"

text \<open>Operations on a free list, with the count of its pages.\<close>

definition freelist_insert :: "nat \<Rightarrow> nat \<Rightarrow> physmem \<Rightarrow> physmem option" where
  "freelist_insert fl p s = do {
     kassert (fl < PM_NQUEUES);
     Some (s\<lparr>pm_freelist := (pm_freelist s)[fl := p # pm_freelist s ! fl], pm_pagecount := (pm_pagecount s)[fl := uadd (pm_pagecount s ! fl) 1]\<rparr>)
   }"

definition freelist_append :: "nat \<Rightarrow> nat \<Rightarrow> physmem \<Rightarrow> physmem option" where
  "freelist_append fl p s = do {
     kassert (fl < PM_NQUEUES);
     Some (s\<lparr>pm_freelist := (pm_freelist s)[fl := pm_freelist s ! fl @ [p]], pm_pagecount := (pm_pagecount s)[fl := uadd (pm_pagecount s ! fl) 1]\<rparr>)
   }"

definition freelist_remove :: "nat \<Rightarrow> nat \<Rightarrow> physmem \<Rightarrow> physmem option" where
  "freelist_remove fl p s = do {
     kassert (fl < PM_NQUEUES);
     kassert (p \<in> set (pm_freelist s ! fl));
     Some (s\<lparr>pm_freelist := (pm_freelist s)[fl := remove1 p (pm_freelist s ! fl)], pm_pagecount := (pm_pagecount s)[fl := usub (pm_pagecount s ! fl) 1]\<rparr>)
   }"

definition freelist_first :: "nat \<Rightarrow> physmem \<Rightarrow> nat option" where
  "freelist_first fl s = (if fl < PM_NQUEUES then case pm_freelist s ! fl of [] \<Rightarrow> None | p # _ \<Rightarrow> Some p else None)"

section \<open>Boot\<close>

definition vm_physseg_plug :: "nat \<Rightarrow> nat \<Rightarrow> bool \<Rightarrow> physmem \<Rightarrow> physmem option" where
  "vm_physseg_plug start en used s = do {
     kassert (page_aligned_p start \<and> page_aligned_p en \<and> start < en);
     kassert (pm_freeseg_last s < VM_PHYSSEG_NMAX - 1);
     let seg = \<lparr>seg_start = start, seg_end = en, seg_npages = usub en start div PAGESIZE, seg_used = used, seg_pages = 0\<rparr>;
     Some (s\<lparr>pm_freeseg_last := pm_freeseg_last s + 1, pm_seglist := pm_seglist s @ [seg]\<rparr>)
   }"

fun find_boot_seg :: "nat \<Rightarrow> physseg list \<Rightarrow> nat option" where
  "find_boot_seg n [] = None"
| "find_boot_seg n (seg # segs) =
     (if seg_used seg \<or> umul (seg_npages seg) PAGESIZE < n then map_option Suc (find_boot_seg n segs) else Some 0)"

function boot_map_loop :: "nat \<Rightarrow> nat \<Rightarrow> nat \<Rightarrow> physmem \<Rightarrow> physmem option" where
  "boot_map_loop i va en s =
     (if va < en then do {
        kassert (i < length (pm_seglist s));
        let seg = pm_seglist s ! i;
        let pa = seg_start seg;
        let seg = seg\<lparr>seg_start := uadd pa PAGESIZE, seg_npages := usub (seg_npages seg) 1\<rparr>;
        let (i, segs) = (if seg_npages seg = 0 then (0, take i (pm_seglist s) @ drop (Suc i) (pm_seglist s)) else (i, (pm_seglist s)[i := seg]));
        boot_map_loop i (va + PAGESIZE) en (s\<lparr>pm_seglist := segs, pm_kenter := pm_kenter s @ [(va, pa)]\<rparr>)
      } else Some s)"
  by pat_completeness auto
termination
  by (relation "measure (\<lambda>(i, va, en, s). en - va)") (auto simp: PAGESIZE_def)

definition vm_boot_alloc :: "nat \<Rightarrow> physmem \<Rightarrow> (nat \<times> physmem) option" where
  "vm_boot_alloc n s = do {
     kassert (\<not> vm_boot_done s);
     let begin = align (vm_kernel_end s) 8;
     let en = align (uadd begin n) PAGESIZE;
     i \<leftarrow> find_boot_seg n (pm_seglist s);
     s \<leftarrow> boot_map_loop i (align begin PAGESIZE) en s;
     Some (begin, s\<lparr>vm_kernel_end := uadd (vm_kernel_end s) n\<rparr>)
   }"

definition vm_boot_finish :: "physmem \<Rightarrow> physmem" where
  "vm_boot_finish s = s\<lparr>vm_kernel_end := align (vm_kernel_end s) PAGESIZE, vm_boot_done := True\<rparr>"

text \<open>The number of trailing zeros; what the compiler's builtin gives for zero is open and an argument.\<close>

fun ctz_from :: "nat \<Rightarrow> nat \<Rightarrow> nat" where
  "ctz_from 0 x = 0"
| "ctz_from (Suc k) x = (if odd x then 0 else Suc (ctz_from k (x div 2)))"

definition ctz :: "nat \<Rightarrow> nat \<Rightarrow> nat" where
  "ctz ctz0 x = (if u32 x = 0 then ctz0 else ctz_from 32 (u32 x))"

definition boot_page_size :: "nat \<Rightarrow> physseg \<Rightarrow> nat \<Rightarrow> nat" where
  "boot_page_size ctz0 seg pa =
     (let size = 2 ^ min (PM_NQUEUES - 1) (ctz ctz0 (pa div PAGESIZE))
      in if uadd pa (u32 (size * PAGESIZE)) > seg_end seg then 2 ^ min (PM_NQUEUES - 1) (log2 ((seg_end seg XOR pa) div PAGESIZE)) else size)"

definition boot_page :: "nat \<Rightarrow> physseg \<Rightarrow> nat \<Rightarrow> phys_page" where
  "boot_page ctz0 seg i =
     (let pa = uadd (seg_start seg) (u32 (i * PAGESIZE))
      in \<lparr>pg_pv = [], pg_paddr = pa, pg_flags = (if seg_used seg then {PG_ALLOCATED} else {}), pg_size = boot_page_size ctz0 seg pa\<rparr>)"

text \<open>The loop ends since the size of a page is positive.\<close>

function boot_free_loop :: "nat \<Rightarrow> nat \<Rightarrow> nat \<Rightarrow> physmem \<Rightarrow> physmem option" where
  "boot_free_loop base i npages s =
     (if i < npages then do {
        pg \<leftarrow> page_at s (base + i);
        s \<leftarrow> freelist_append (log2 (pg_size pg)) (base + i) s;
        let s = set_page (base + i) (pg\<lparr>pg_flags := insert PG_MANAGED (pg_flags pg)\<rparr>) s;
        if pg_size pg = 0 then None else boot_free_loop base (i + pg_size pg) npages s
      } else Some s)"
  by pat_completeness auto
termination
  by (relation "measure (\<lambda>(base, i, n, s). n - i)") auto

fun boot_segs :: "nat \<Rightarrow> nat \<Rightarrow> physseg list \<Rightarrow> physmem \<Rightarrow> (physseg list \<times> physmem) option" where
  "boot_segs ctz0 base [] s = Some ([], s)"
| "boot_segs ctz0 base (seg # segs) s = do {
     let s = s\<lparr>pm_pages := pm_pages s @ map (boot_page ctz0 seg) [0..<seg_npages seg]\<rparr>;
     s \<leftarrow> (if seg_used seg then Some s else boot_free_loop base 0 (seg_npages seg) s);
     (segs, s) \<leftarrow> boot_segs ctz0 (base + seg_npages seg) segs s;
     Some (seg\<lparr>seg_pages := base\<rparr> # segs, s)
   }"

definition SIZEOF_VM_PAGE :: nat where "SIZEOF_VM_PAGE = 64"

definition init_vm_page :: "nat \<Rightarrow> physmem \<Rightarrow> physmem option" where
  "init_vm_page ctz0 s = do {
     let s = s\<lparr>pm_freelist := replicate PM_NQUEUES []\<rparr>;
     let npages = sum_list (map seg_npages (pm_seglist s)) mod 2 ^ 64;
     (_, s) \<leftarrow> vm_boot_alloc (umul npages SIZEOF_VM_PAGE) s;
     (segs, s) \<leftarrow> boot_segs ctz0 0 (pm_seglist s) s;
     Some (vm_boot_finish (s\<lparr>pm_seglist := segs\<rparr>))
   }"

definition physmem_init :: "nat \<Rightarrow> physmem" where
  "physmem_init kernel_end =
     \<lparr>pm_seglist = [], pm_freeseg_last = 0, pm_freelist = [], pm_pagecount = replicate PM_NQUEUES 0, pm_pages = [], vm_kernel_end = kernel_end,
      vm_boot_done = False, pm_kenter = []\<rparr>"

section \<open>The buddy system\<close>

definition pm_merge_buddies :: "nat \<Rightarrow> nat \<Rightarrow> physmem \<Rightarrow> (nat \<times> physmem) option" where
  "pm_merge_buddies p1 p2 s = do {
     pg1 \<leftarrow> page_at s p1;
     pg2 \<leftarrow> page_at s p2;
     kassert (pg_size pg1 = pg_size pg2);
     let (p1, pg1, p2) = (if p1 > p2 then (p2, pg2, p1) else (p1, pg1, p2));
     kassert (p1 + pg_size pg1 = p2);
     Some (p1, set_page p1 (pg1\<lparr>pg_size := u32 (pg_size pg1 * 2)\<rparr>) s)
   }"

definition pm_find_buddy :: "physseg \<Rightarrow> nat \<Rightarrow> physmem \<Rightarrow> nat option option" where
  "pm_find_buddy seg p s = do {
     pg \<leftarrow> page_at s p;
     kassert (powerof2 (pg_size pg));
     kassert (u32 (2 * pg_size pg) \<noteq> 0);
     let buddy = (if (int p - int (seg_pages seg)) mod int (u32 (2 * pg_size pg)) = 0 then int p + int (pg_size pg) else int p - int (pg_size pg));
     let index = buddy - int (seg_pages seg);
     if index < 0 \<or> index \<ge> int (seg_npages seg) then Some None
     else do {
       bg \<leftarrow> page_at s (nat buddy);
       if pg_size bg \<noteq> pg_size pg then Some None
       else if PG_MANAGED \<notin> pg_flags bg then Some None
       else Some (Some (nat buddy))
     }
   }"

definition pm_split_page :: "nat \<Rightarrow> physmem \<Rightarrow> physmem option" where
  "pm_split_page fl s = do {
     page \<leftarrow> freelist_first fl s;
     pg \<leftarrow> page_at s page;
     let size = pg_size pg div 2;
     let buddy = page + size;
     bg \<leftarrow> page_at s buddy;
     kassert (PG_ALLOCATED \<notin> pg_flags bg);
     s \<leftarrow> freelist_remove fl page s;
     let s = set_page page (pg\<lparr>pg_size := size\<rparr>) s;
     bg \<leftarrow> page_at s buddy;
     let s = set_page buddy (bg\<lparr>pg_size := size\<rparr>) s;
     kassert (0 < fl);
     s \<leftarrow> freelist_insert (fl - 1) page s;
     s \<leftarrow> freelist_insert (fl - 1) buddy s;
     bg \<leftarrow> page_at s buddy;
     Some (set_page buddy (bg\<lparr>pg_flags := insert PG_MANAGED (pg_flags bg)\<rparr>) s)
   }"

text \<open>Changing the flags of consecutive pages.\<close>

fun flag_loop :: "(pg_flag set \<Rightarrow> pg_flag set) \<Rightarrow> bool \<Rightarrow> nat \<Rightarrow> nat \<Rightarrow> physmem \<Rightarrow> physmem option" where
  "flag_loop f unmapped p 0 s = Some s"
| "flag_loop f unmapped p (Suc n) s = do {
     pg \<leftarrow> page_at s p;
     kassert (unmapped \<longrightarrow> pg_pv pg = []);
     flag_loop f unmapped (Suc p) n (set_page p (pg\<lparr>pg_flags := f (pg_flags pg)\<rparr>) s)
   }"

definition pm_take_page :: "nat \<Rightarrow> physmem \<Rightarrow> (nat \<times> physmem) option" where
  "pm_take_page fl s = do {
     page \<leftarrow> freelist_first fl s;
     s \<leftarrow> freelist_remove fl page s;
     pg \<leftarrow> page_at s page;
     s \<leftarrow> flag_loop (insert PG_ALLOCATED) False page (pg_size pg) (set_page page (pg\<lparr>pg_flags := pg_flags pg - {PG_MANAGED}\<rparr>) s);
     Some (page, s)
   }"

function first_nonempty :: "nat \<Rightarrow> physmem \<Rightarrow> nat" where
  "first_nonempty fl s = (if fl < PM_NQUEUES \<and> pm_freelist s ! fl = [] then first_nonempty (fl + 1) s else fl)"
  by pat_completeness auto
termination
  by (relation "measure (\<lambda>(fl, s). PM_NQUEUES - fl)") auto

function split_loop :: "nat \<Rightarrow> nat \<Rightarrow> physmem \<Rightarrow> (nat \<times> physmem) option" where
  "split_loop n fl s = (if fl > n then do { s \<leftarrow> pm_split_page fl s; split_loop n (fl - 1) s } else Some (fl, s))"
  by pat_completeness auto
termination
  by (relation "measure (\<lambda>(n, fl, s). fl)") auto

definition vm_page_alloc :: "nat \<Rightarrow> physmem \<Rightarrow> (nat option \<times> physmem) option" where
  "vm_page_alloc npages s = do {
     kassert (npages > 0 \<and> powerof2 npages);
     let n = log2 npages;
     let fl = first_nonempty n s;
     if fl \<ge> PM_NQUEUES then Some (None, s)
     else do {
       (fl, s) \<leftarrow> split_loop n fl s;
       (p, s) \<leftarrow> pm_take_page fl s;
       Some (Some p, s)
     }
   }"

fun sums_loop :: "nat \<Rightarrow> nat \<Rightarrow> nat \<Rightarrow> nat list \<Rightarrow> nat list \<Rightarrow> nat \<times> nat \<times> nat list" where
  "sums_loop n fl avail sums [] = (fl, avail, sums)"
| "sums_loop n fl avail sums (c # cs) =
     (let avail = uadd avail (umul c (2 ^ fl)); sums = sums @ [avail]
      in if avail \<ge> n then (fl, avail, sums) else sums_loop n (fl + 1) avail sums cs)"

partial_function (option) pagelist_loop :: "nat \<Rightarrow> nat \<Rightarrow> nat list \<Rightarrow> nat list \<Rightarrow> physmem \<Rightarrow> (nat list \<times> physmem) option" where
  "pagelist_loop n fl sums pglist s =
     (if n > 0 then do {
        prev_sum \<leftarrow> (if fl > 0 then do { kassert (fl - 1 < length sums); Some (sums ! (fl - 1)) } else Some 0);
        if prev_sum \<ge> n then do { kassert (fl > 0); pagelist_loop n (fl - 1) sums pglist s }
        else do {
          let pgsz = 2 ^ fl;
          if n < pgsz then do {
            s \<leftarrow> pm_split_page fl s;
            kassert (fl > 0);
            pagelist_loop n (fl - 1) (sums[fl - 1 := uadd (sums ! (fl - 1)) pgsz]) pglist s
          } else do {
            (p, s) \<leftarrow> pm_take_page fl s;
            pagelist_loop (n - pgsz) fl sums (pglist @ [p]) s
          }
        }
      } else Some (pglist, s))"

definition vm_pagelist_alloc :: "nat \<Rightarrow> physmem \<Rightarrow> (errno option \<times> nat list \<times> physmem) option" where
  "vm_pagelist_alloc n s = do {
     let (fl, avail, sums) = sums_loop n 0 0 [] (pm_pagecount s);
     if avail < n then Some (Some ENOMEM, [], s)
     else do {
       (pglist, s) \<leftarrow> pagelist_loop n fl sums [] s;
       Some (None, pglist, s)
     }
   }"

partial_function (option) merge_loop :: "physseg \<Rightarrow> nat \<Rightarrow> physmem \<Rightarrow> (nat \<times> physmem) option" where
  "merge_loop seg p s = do {
     r \<leftarrow> pm_find_buddy seg p s;
     case r of
       None \<Rightarrow> Some (p, s)
     | Some b \<Rightarrow> do {
         bg \<leftarrow> page_at s b;
         s \<leftarrow> freelist_remove (log2 (pg_size bg)) b s;
         (p, s) \<leftarrow> pm_merge_buddies p b (set_page b (bg\<lparr>pg_flags := pg_flags bg - {PG_MANAGED}\<rparr>) s);
         merge_loop seg p s
       }
   }"

definition pm_free_from_seg :: "physseg \<Rightarrow> nat \<Rightarrow> physmem \<Rightarrow> physmem option" where
  "pm_free_from_seg seg p s = do {
     pg \<leftarrow> page_at s p;
     kassert (PG_ALLOCATED \<in> pg_flags pg);
     (p, s) \<leftarrow> merge_loop seg p s;
     pg \<leftarrow> page_at s p;
     s \<leftarrow> freelist_insert (log2 (pg_size pg)) p s;
     flag_loop (\<lambda>f. f - {PG_ALLOCATED} - {PG_REFERENCED, PG_MODIFIED}) True p (pg_size pg)
       (set_page p (pg\<lparr>pg_flags := insert PG_MANAGED (pg_flags pg)\<rparr>) s)
   }"

fun free_search :: "physseg list \<Rightarrow> nat \<Rightarrow> phys_page \<Rightarrow> physmem \<Rightarrow> physmem option" where
  "free_search [] p pg s = None"
| "free_search (seg # segs) p pg s =
     (if pg_paddr pg \<ge> seg_start seg \<and> PG_END pg \<le> seg_end seg then pm_free_from_seg seg p s else free_search segs p pg s)"

definition vm_page_free :: "nat \<Rightarrow> physmem \<Rightarrow> physmem option" where
  "vm_page_free p s = do { pg \<leftarrow> page_at s p; free_search (pm_seglist s) p pg s }"

fun vm_pagelist_free :: "nat list \<Rightarrow> physmem \<Rightarrow> physmem option" where
  "vm_pagelist_free [] s = Some s"
| "vm_pagelist_free (p # ps) s = do { s \<leftarrow> vm_page_free p s; vm_pagelist_free ps s }"

fun find_page :: "physseg list \<Rightarrow> nat \<Rightarrow> nat option" where
  "find_page [] pa = None"
| "find_page (seg # segs) pa = (if seg_start seg \<le> pa \<and> pa < seg_end seg then Some (seg_pages seg + usub pa (seg_start seg) div PAGESIZE) else find_page segs pa)"

definition vm_page_find :: "nat \<Rightarrow> physmem \<Rightarrow> nat option" where
  "vm_page_find pa s = find_page (pm_seglist s) pa"

end
