(* ===== verification/PhysAlloc.thy ===== *)
theory PhysAlloc
  imports Physmem
begin

text \<open>
  Correctness of the allocator of physical pages.  The blocks on the free lists, the blocks that are in use and, in the middle of an operation, the
  block in hand tile the managed segments.  The blocks in use are not recorded by the kernel; the set of them is kept beside the state.
\<close>

declare first_nonempty.simps [simp del] split_loop.simps [simp del] boot_map_loop.simps [simp del] boot_free_loop.simps [simp del]

section \<open>Tilings\<close>

definition tiles :: "nat set \<Rightarrow> (nat \<times> nat) set \<Rightarrow> bool" where
  "tiles S R \<longleftrightarrow> separated R \<and> (\<Union>r \<in> R. region r) = S \<and> (\<forall>r \<in> R. 0 < snd r)"

lemma tiles_start:
  assumes "tiles S R" and "(p, n) \<in> R" and "(q, m) \<in> R" and "p \<in> region (q, m)"
  shows "q = p \<and> m = n"
proof -
  have "p \<in> region (p, n)"
    using assms(1,2) by (auto simp: tiles_def region_def)
  then show ?thesis
    using assms unfolding tiles_def separated_def by blast
qed

lemma separated_insert:
  "separated (insert r R) \<longleftrightarrow> separated R \<and> (\<forall>r' \<in> R - {r}. region r \<inter> region r' = {})"
  unfolding separated_def by blast

lemma region_double: "region (p, n + n) = region (p, n) \<union> region (p + n, n)" "region (p, n) \<inter> region (p + n, n) = {}"
  by (auto simp: region_def)

lemma tiles_insert:
  "r \<notin> R \<Longrightarrow> tiles S (insert r R) \<longleftrightarrow>
     0 < snd r \<and> region r \<subseteq> S \<and> tiles (S - region r) R"
  unfolding tiles_def separated_insert by auto

lemma tiles_double:
  assumes "0 < n" and "(p, n) \<notin> R" and "(p + n, n) \<notin> R" and "(p, n + n) \<notin> R"
  shows "tiles S (insert (p, n) (insert (p + n, n) R)) \<longleftrightarrow> tiles S (insert (p, n + n) R)"
proof -
  have "tiles S (insert (p, n) (insert (p + n, n) R)) \<longleftrightarrow>
      region (p, n) \<subseteq> S \<and> region (p + n, n) \<subseteq> S - region (p, n) \<and> tiles (S - region (p, n) - region (p + n, n)) R"
    using assms by (simp add: tiles_insert)
  also have "S - region (p, n) - region (p + n, n) = S - region (p, n + n)"
    unfolding region_double by blast
  finally show ?thesis
    using assms region_double [of p n] by (auto simp: tiles_insert)
qed

lemma tiles_fresh: "tiles S (insert r R) \<Longrightarrow> r \<notin> R \<Longrightarrow> r' \<in> R \<Longrightarrow> region r \<inter> region r' = {}"
  by (auto simp: tiles_def separated_insert)

section \<open>Invariant\<close>

definition managed :: "physmem \<Rightarrow> nat set" where
  "managed s = {p. p < length (pm_pages s) \<and> PG_MANAGED \<in> pg_flags (pm_pages s ! p)}"

definition psize :: "physmem \<Rightarrow> nat \<Rightarrow> nat" where
  "psize s p = (if p < length (pm_pages s) then pg_size (pm_pages s ! p) else 0)"

definition is_alloc :: "physmem \<Rightarrow> nat \<Rightarrow> bool" where
  "is_alloc s p \<longleftrightarrow> p < length (pm_pages s) \<and> PG_ALLOCATED \<in> pg_flags (pm_pages s ! p)"

definition blocks :: "physmem \<Rightarrow> (nat \<times> nat) set" where
  "blocks s = (\<lambda>p. (p, psize s p)) ` managed s"

text \<open>The free lists hold the managed pages by the logarithms of their sizes.\<close>

definition lists_hold :: "physmem \<Rightarrow> nat set \<Rightarrow> (nat \<Rightarrow> nat) \<Rightarrow> bool" where
  "lists_hold s M idx \<longleftrightarrow> buckets (pm_freelist s) PM_NQUEUES M idx \<and> pm_pagecount s = map length (pm_freelist s) \<and> M \<subseteq> {..<length (pm_pages s)} \<and>
     length (pm_pages s) < 2 ^ 32"

lemma lists_hold_length:
  assumes "lists_hold s M idx" and "fl < PM_NQUEUES"
  shows "length (pm_freelist s ! fl) < 2 ^ 32" and "length (pm_freelist s) = PM_NQUEUES" and "pm_pagecount s ! fl = length (pm_freelist s ! fl)"
proof -
  have b: "length (pm_freelist s) = PM_NQUEUES" "distinct (concat (pm_freelist s))" "set (pm_freelist s ! fl) \<subseteq> {..<length (pm_pages s)}"
    using assms by (auto simp: lists_hold_def buckets_def)
  have "distinct (pm_freelist s ! fl)"
    using b(1,2) assms(2) by (auto simp: distinct_concat_iff)
  then have "length (pm_freelist s ! fl) \<le> length (pm_pages s)"
    using card_mono [OF _ b(3)] by (simp add: distinct_card)
  then show "length (pm_freelist s ! fl) < 2 ^ 32"
    using assms(1) by (simp add: lists_hold_def)
  show "length (pm_freelist s) = PM_NQUEUES" "pm_pagecount s ! fl = length (pm_freelist s ! fl)"
    using b(1) assms by (simp_all add: lists_hold_def)
qed

lemma lists_hold_cong:
  assumes "lists_hold s M idx" and "\<And>p. p \<in> M \<Longrightarrow> idx p = idx' p"
  shows "lists_hold s M idx'"
  using assms buckets_cong [of "pm_freelist s" PM_NQUEUES M idx idx'] by (auto simp: lists_hold_def)

lemma lists_hold_page [simp]: "lists_hold (set_page p pg s) M idx = lists_hold s M idx"
  by (simp add: lists_hold_def set_page_def)

lemma freelist_remove_ok:
  assumes l: "lists_hold s M idx" and p: "p \<in> M" "idx p = fl"
  obtains F C where "freelist_remove fl p s = Some (s\<lparr>pm_freelist := F, pm_pagecount := C\<rparr>)" "lists_hold (s\<lparr>pm_freelist := F, pm_pagecount := C\<rparr>) (M - {p}) idx"
    and "F = (pm_freelist s)[fl := remove1 p (pm_freelist s ! fl)]"
proof -
  have b: "buckets (pm_freelist s) PM_NQUEUES M idx" "fl < PM_NQUEUES" "p \<in> set (pm_freelist s ! fl)"
    using l p by (auto simp: lists_hold_def buckets_def)
  note n = lists_hold_length [OF l b(2)]
  let ?F = "(pm_freelist s)[fl := remove1 p (pm_freelist s ! fl)]" and ?C = "(pm_pagecount s)[fl := usub (pm_pagecount s ! fl) 1]"
  have "0 < length (pm_freelist s ! fl)"
    using b(3) by (auto simp: length_greater_0_conv)
  then have "usub (pm_pagecount s ! fl) 1 = length (remove1 p (pm_freelist s ! fl))"
    using n b(3) usub_exact [of 1 "length (pm_freelist s ! fl)"] by (simp add: length_remove1 Suc_le_eq)
  then have "?C = map length ?F"
    using l by (simp add: lists_hold_def map_update)
  then have "lists_hold (s\<lparr>pm_freelist := ?F, pm_pagecount := ?C\<rparr>) (M - {p}) idx"
    using buckets_remove_at [OF b(1) p(1)] l p(2) by (auto simp: lists_hold_def)
  then show thesis
    using that b(2,3) by (simp add: freelist_remove_def)
qed

lemma freelist_insert_ok:
  assumes l: "lists_hold s M idx" and p: "p \<notin> M" "idx p = fl" "fl < PM_NQUEUES" "p < length (pm_pages s)"
  obtains F C where "freelist_insert fl p s = Some (s\<lparr>pm_freelist := F, pm_pagecount := C\<rparr>)" "lists_hold (s\<lparr>pm_freelist := F, pm_pagecount := C\<rparr>) (insert p M) idx"
    and "F = (pm_freelist s)[fl := p # pm_freelist s ! fl]"
proof -
  note n = lists_hold_length [OF l p(3)]
  let ?F = "(pm_freelist s)[fl := p # pm_freelist s ! fl]" and ?C = "(pm_pagecount s)[fl := uadd (pm_pagecount s ! fl) 1]"
  have "uadd (pm_pagecount s ! fl) 1 = length (p # pm_freelist s ! fl)"
    using n by (simp add: uadd_exact)
  then have "?C = map length ?F"
    using l by (simp add: lists_hold_def map_update)
  then have "lists_hold (s\<lparr>pm_freelist := ?F, pm_pagecount := ?C\<rparr>) (insert p M) idx"
    using buckets_insert [of "pm_freelist s" PM_NQUEUES M idx p] l p by (auto simp: lists_hold_def)
  then show thesis
    using that p(3) by (simp add: freelist_insert_def)
qed

text \<open>Every free block, block in use (\<open>U\<close>) and block in hand (\<open>H\<close>) lies in one segment of \<open>SR\<close>, and together they are all of the segments.\<close>

definition layout :: "nat set set \<Rightarrow> (nat \<times> nat) set \<Rightarrow> (nat \<times> nat) set \<Rightarrow> (nat \<times> nat) set \<Rightarrow> bool" where
  "layout SR B U H \<longleftrightarrow> pairwise disjnt SR \<and> tiles (\<Union>SR) (B \<union> U \<union> H) \<and> B \<inter> U = {} \<and> B \<inter> H = {} \<and> U \<inter> H = {} \<and>
     (\<forall>r \<in> B \<union> U. \<exists>k < PM_NQUEUES. snd r = 2 ^ k) \<and> (\<forall>r \<in> H. \<exists>k \<le> PM_NQUEUES. snd r = 2 ^ k) \<and> (\<forall>r \<in> B \<union> U \<union> H. \<exists>R \<in> SR. region r \<subseteq> R)"

definition is_unmapped :: "physmem \<Rightarrow> nat \<Rightarrow> bool" where
  "is_unmapped s p \<longleftrightarrow> p < length (pm_pages s) \<and> pg_pv (pm_pages s ! p) = []"

text \<open>The descriptors agree with the layout.\<close>

definition pages_ok :: "physmem \<Rightarrow> (nat \<times> nat) set \<Rightarrow> (nat \<times> nat) set \<Rightarrow> bool" where
  "pages_ok s U H \<longleftrightarrow> (\<forall>r \<in> U \<union> H. psize s (fst r) = snd r) \<and> (\<forall>r \<in> blocks s. \<forall>i \<in> region r. \<not> is_alloc s i \<and> is_unmapped s i) \<and>
     (\<forall>r \<in> U. \<forall>i \<in> region r. is_alloc s i) \<and> (\<forall>r \<in> H. \<forall>i \<in> region r. is_unmapped s i)"

definition seg_range :: "physseg \<Rightarrow> nat set" where
  "seg_range seg = {seg_pages seg..<seg_pages seg + seg_npages seg}"

definition seg_ranges :: "physmem \<Rightarrow> nat set set" where
  "seg_ranges s = seg_range ` {seg \<in> set (pm_seglist s). \<not> seg_used seg}"

definition segs_ok :: "physmem \<Rightarrow> bool" where
  "segs_ok s \<longleftrightarrow>
     (\<forall>seg \<in> set (pm_seglist s). seg_pages seg + seg_npages seg \<le> length (pm_pages s) \<and> seg_end seg = seg_start seg + seg_npages seg * PAGESIZE \<and>
        seg_end seg < 2 ^ 64 \<and> (\<forall>i < seg_npages seg. pg_paddr (pm_pages s ! (seg_pages seg + i)) = seg_start seg + i * PAGESIZE)) \<and>
     (\<forall>seg \<in> set (pm_seglist s). \<forall>seg' \<in> set (pm_seglist s). seg \<noteq> seg' \<longrightarrow> {seg_start seg..<seg_end seg} \<inter> {seg_start seg'..<seg_end seg'} = {})"

definition phys_inv :: "physmem \<Rightarrow> (nat \<times> nat) set \<Rightarrow> (nat \<times> nat) set \<Rightarrow> bool" where
  "phys_inv s U H \<longleftrightarrow> segs_ok s \<and> lists_hold s (managed s) (\<lambda>p. log2 (psize s p)) \<and> layout (seg_ranges s) (blocks s) U H \<and> pages_ok s U H"

lemma layoutD:
  assumes "layout SR B U H"
  shows "pairwise disjnt SR" and "tiles (\<Union>SR) (B \<union> U \<union> H)" and "B \<inter> U = {} \<and> B \<inter> H = {} \<and> U \<inter> H = {}"
    and "r \<in> B \<union> U \<Longrightarrow> \<exists>k < PM_NQUEUES. snd r = 2 ^ k" and "r \<in> H \<Longrightarrow> \<exists>k \<le> PM_NQUEUES. snd r = 2 ^ k"
    and "r \<in> B \<union> U \<union> H \<Longrightarrow> \<exists>R \<in> SR. region r \<subseteq> R" and "r \<in> B \<union> U \<union> H \<Longrightarrow> 0 < snd r"
  using assms unfolding layout_def tiles_def by blast+

lemma layoutI:
  assumes "pairwise disjnt SR" and "tiles (\<Union>SR) (B \<union> U \<union> H)" and "B \<inter> U = {} \<and> B \<inter> H = {} \<and> U \<inter> H = {}"
    and "\<And>r. r \<in> B \<union> U \<Longrightarrow> \<exists>k < PM_NQUEUES. snd r = 2 ^ k" and "\<And>r. r \<in> H \<Longrightarrow> \<exists>k \<le> PM_NQUEUES. snd r = 2 ^ k"
    and "\<And>r. r \<in> B \<union> U \<union> H \<Longrightarrow> \<exists>R \<in> SR. region r \<subseteq> R"
  shows "layout SR B U H"
  using assms unfolding layout_def by blast

lemma layout_split:
  assumes "layout SR (insert (p, n + n) B) U H" and "(p, n + n) \<notin> B"
  shows "layout SR (insert (p, n) (insert (p + n, n) B)) U H" and "(p, n) \<notin> B \<union> U \<union> H" and "(p + n, n) \<notin> B \<union> U \<union> H"
proof -
  let ?R = "B \<union> U \<union> H"
  have t: "tiles (\<Union>SR) (insert (p, n + n) ?R)" "(p, n + n) \<notin> ?R"
    using assms by (auto simp: layout_def)
  then have n: "0 < n"
    by (simp add: tiles_def)
  have sep: "region (p, n + n) \<inter> region r = {}" if "r \<in> ?R" for r
    using tiles_fresh [OF t that] .
  have "region (p, n) \<noteq> {}" "region (p + n, n) \<noteq> {}"
    using n by (auto simp: region_def)
  then have new: "(p, n) \<notin> ?R" "(p + n, n) \<notin> ?R"
    using sep region_double [of p n] by blast+
  then have "tiles (\<Union>SR) (insert (p, n) (insert (p + n, n) ?R))"
    using tiles_double [OF n new t(2)] t(1) by simp
  moreover obtain k where "k < PM_NQUEUES" "n = 2 ^ k"
  proof -
    obtain k where "k < PM_NQUEUES" "n + n = 2 ^ k"
      using assms(1) by (auto simp: layout_def)
    then show thesis
      using that [of "k - 1"] n by (cases k) auto
  qed
  moreover have "\<exists>R \<in> SR. region (p, n) \<subseteq> R" "\<exists>R \<in> SR. region (p + n, n) \<subseteq> R"
    using assms(1) region_double [of p n] by (auto simp: layout_def)
  ultimately show "layout SR (insert (p, n) (insert (p + n, n) B)) U H"
    using assms new unfolding layout_def by auto
  show "(p, n) \<notin> ?R" "(p + n, n) \<notin> ?R"
    by fact+
qed

lemma layout_within:
  assumes "layout SR B U H" and "(p, n) \<in> B \<union> U \<union> H" and "R \<in> SR" and "p \<in> R"
  shows "region (p, n) \<subseteq> R"
proof -
  obtain R' where R: "R' \<in> SR" "region (p, n) \<subseteq> R'"
    using assms(1,2) unfolding layout_def by blast
  have "p \<in> region (p, n)"
    using layoutD(7) [OF assms(1), of "(p, n)"] assms(2) by (auto simp: region_def)
  then have "R' = R"
    using assms(1,3,4) R unfolding layout_def pairwise_def disjnt_def by blast
  then show ?thesis
    using R(2) by simp
qed

lemma layout_merge:
  assumes "layout SR (insert (b, n) B) U {(p, n)}" and "(b, n) \<notin> B" and "q = min p b" and "max p b = q + n" and "R \<in> SR" and "p \<in> R" and "b \<in> R"
  shows "layout SR B U {(q, n + n)}"
proof -
  let ?R = "B \<union> U"
  have t: "tiles (\<Union>SR) (insert (p, n) (insert (b, n) ?R))" "(p, n) \<notin> insert (b, n) ?R" "(b, n) \<notin> ?R"
    using assms(1,2) by (auto simp: layout_def)
  then have n: "0 < n"
    by (simp add: tiles_def)
  have eq: "insert (p, n) (insert (b, n) ?R) = insert (q, n) (insert (q + n, n) ?R)"
    using assms(3,4) by (auto simp: min_def max_def split: if_splits)
  have un: "region (q, n + n) = region (p, n) \<union> region (b, n)"
    using assms(3,4) by (auto simp: region_def min_def max_def split: if_splits)
  have "region r \<inter> region (q, n + n) = {}" if "r \<in> ?R" for r
    using t that unfolding un tiles_def separated_insert by blast
  moreover have "region (q, n + n) \<noteq> {}"
    using n by (simp add: region_def)
  ultimately have new: "(q, n + n) \<notin> ?R"
    by blast
  have "(q, n) \<notin> ?R" "(q + n, n) \<notin> ?R"
    using t(2,3) assms(3,4) by (auto simp: min_def max_def split: if_splits)
  then have "tiles (\<Union>SR) (insert (q, n + n) ?R)"
    using tiles_double [of n q ?R] n new t(1) eq by simp
  moreover have "region (q, n + n) \<subseteq> R"
  proof -
    have "region (p, n) \<subseteq> R" "region (b, n) \<subseteq> R"
      using layout_within [OF assms(1), of p n R] layout_within [OF assms(1), of b n R] assms(5-7) by simp_all
    then show ?thesis
      by (simp add: un)
  qed
  moreover obtain k where "k < PM_NQUEUES" "n = 2 ^ k"
    using assms(1) by (auto simp: layout_def)
  then have "\<exists>k \<le> PM_NQUEUES. n + n = 2 ^ k"
    by (intro exI [of _ "Suc k"]) auto
  ultimately show ?thesis
    using assms(2,5) new layoutD [OF assms(1)] by (intro layoutI) auto
qed

lemma layout_use:
  assumes "layout SR (insert r B) U {}" and "r \<notin> B"
  shows "layout SR B (insert r U) {}" and "r \<notin> U"
  using layoutD [OF assms(1)] assms(2) by (auto intro!: layoutI)

lemma layout_hold:
  assumes "layout SR B (insert r U) {}" and "r \<notin> U"
  shows "layout SR B U {r}"
proof (rule layoutI)
  fix r' assume "r' \<in> {r}"
  then show "\<exists>k \<le> PM_NQUEUES. snd r' = 2 ^ k"
    using layoutD(4) [OF assms(1), of r] by (auto intro: less_imp_le)
qed (use layoutD [OF assms(1)] assms(2) in auto)

lemma layout_put:
  assumes "layout SR B U {(p, 2 ^ k)}" and "k < PM_NQUEUES"
  shows "layout SR (insert (p, 2 ^ k) B) U {}"
  using layoutD [OF assms(1)] assms(2) by (intro layoutI) auto

section \<open>What an update changes\<close>

named_theorems phys_view

lemma view_lists [phys_view]:
  "managed (s\<lparr>pm_freelist := F, pm_pagecount := C\<rparr>) = managed s" "psize (s\<lparr>pm_freelist := F, pm_pagecount := C\<rparr>) = psize s"
  "is_alloc (s\<lparr>pm_freelist := F, pm_pagecount := C\<rparr>) = is_alloc s" "is_unmapped (s\<lparr>pm_freelist := F, pm_pagecount := C\<rparr>) = is_unmapped s"
  "page_at (s\<lparr>pm_freelist := F, pm_pagecount := C\<rparr>) = page_at s"
  by (auto simp: managed_def psize_def is_alloc_def is_unmapped_def page_at_def fun_eq_iff)

lemma view_page [phys_view]:
  assumes "p < length (pm_pages s)"
  shows "managed (set_page p pg s) = (if PG_MANAGED \<in> pg_flags pg then insert p (managed s) else managed s - {p})"
    and "psize (set_page p pg s) = (psize s)(p := pg_size pg)" and "is_alloc (set_page p pg s) = (is_alloc s)(p := PG_ALLOCATED \<in> pg_flags pg)"
    and "is_unmapped (set_page p pg s) = (is_unmapped s)(p := pg_pv pg = [])" and "page_at (set_page p pg s) = (page_at s)(p := Some pg)"
  using assms by (auto simp: managed_def psize_def is_alloc_def is_unmapped_def page_at_def set_page_def fun_eq_iff nth_list_update)

lemma set_page_same [simp]:
  "pm_seglist (set_page p pg s) = pm_seglist s" "pm_freelist (set_page p pg s) = pm_freelist s" "length (pm_pages (set_page p pg s)) = length (pm_pages s)"
  by (simp_all add: set_page_def)

lemma page_at_Some: "p < length (pm_pages s) \<Longrightarrow> page_at s p = Some (pm_pages s ! p)"
  by (simp add: page_at_def)

lemma page_sel [phys_view]:
  assumes "p < length (pm_pages s)"
  shows "pg_size (pm_pages s ! p) = psize s p" and "PG_ALLOCATED \<in> pg_flags (pm_pages s ! p) \<longleftrightarrow> is_alloc s p" and "pg_pv (pm_pages s ! p) = [] \<longleftrightarrow> is_unmapped s p"
  using assms by (simp_all add: psize_def is_alloc_def is_unmapped_def)

lemma segs_ok_cong:
  assumes "pm_seglist s' = pm_seglist s" and "map pg_paddr (pm_pages s') = map pg_paddr (pm_pages s)"
  shows "segs_ok s' \<longleftrightarrow> segs_ok s"
proof -
  have l: "length (pm_pages s') = length (pm_pages s)"
    using assms(2) by (metis length_map)
  have "pg_paddr (pm_pages s' ! i) = pg_paddr (pm_pages s ! i)" if "i < length (pm_pages s)" for i
    using assms(2) l that by (metis nth_map)
  then show ?thesis
    unfolding segs_ok_def assms(1) l by (intro conj_cong ball_cong refl) (auto simp: add_le_cancel_left)
qed

lemma paddr_set_page:
  "p < length (pm_pages s) \<Longrightarrow> pg_paddr pg = pg_paddr (pm_pages s ! p) \<Longrightarrow> map pg_paddr (pm_pages (set_page p pg s)) = map pg_paddr (pm_pages s)"
  by (simp add: set_page_def map_update list_update_same_conv)

lemma seg_ranges_cong: "pm_seglist s' = pm_seglist s \<Longrightarrow> seg_ranges s' = seg_ranges s"
  by (simp add: seg_ranges_def)

lemma phys_invD:
  assumes "phys_inv s U H"
  shows "segs_ok s" and "lists_hold s (managed s) (\<lambda>p. log2 (psize s p))" and "layout (seg_ranges s) (blocks s) U H" and "pages_ok s U H"
  using assms by (simp_all add: phys_inv_def)

lemma block_in_range:
  assumes "phys_inv s U H" and "r \<in> blocks s \<union> U \<union> H" and "i \<in> region r"
  shows "i < length (pm_pages s)"
proof -
  obtain seg where "seg \<in> set (pm_seglist s)" "region r \<subseteq> seg_range seg"
    using layoutD(6) [OF phys_invD(3) [OF assms(1)] assms(2)] by (auto simp: seg_ranges_def)
  then show ?thesis
    using phys_invD(1) [OF assms(1)] assms(3) by (fastforce simp: segs_ok_def seg_range_def)
qed

lemma block_end:
  assumes "phys_inv s U H" and "(p, n) \<in> blocks s \<union> U \<union> H"
  shows "p + n \<le> length (pm_pages s)"
proof -
  have "p + n - 1 \<in> region (p, n)" "0 < n"
    using layoutD(7) [OF phys_invD(3) [OF assms(1)] assms(2)] by (simp_all add: region_def)
  then show ?thesis
    using block_in_range [OF assms, of "p + n - 1"] by linarith
qed

lemma block_disjoint:
  assumes "phys_inv s U H" and "r \<in> blocks s \<union> U \<union> H" and "r' \<in> blocks s \<union> U \<union> H" and "r \<noteq> r'"
  shows "region r \<inter> region r' = {}"
  using layoutD(2) [OF phys_invD(3) [OF assms(1)]] assms(2-4) unfolding tiles_def separated_def by blast

lemma block_unique:
  assumes "phys_inv s U H" and "r \<in> blocks s \<union> U \<union> H" and "r' \<in> blocks s \<union> U \<union> H" and "fst r' \<in> region r"
  shows "r' = r"
  using tiles_start [OF layoutD(2) [OF phys_invD(3) [OF assms(1)]], of "fst r'" "snd r'" "fst r" "snd r"] assms(2-4) by (simp add: prod_eq_iff)

lemma managed_in_block:
  assumes "phys_inv s U H" and "r \<in> blocks s \<union> U \<union> H" and "q \<in> region r" and "q \<in> managed s"
  shows "r = (q, psize s q)"
  using block_unique [OF assms(1,2), of "(q, psize s q)"] assms(3,4) by (simp add: blocks_def)

lemma block_managed: "(p, n) \<in> blocks s \<longleftrightarrow> p \<in> managed s \<and> n = psize s p"
  by (auto simp: blocks_def)

lemma freelist_block:
  assumes "phys_inv s U H" and "fl < PM_NQUEUES" and "p \<in> set (pm_freelist s ! fl)"
  shows "p \<in> managed s" and "psize s p = 2 ^ fl" and "(p, 2 ^ fl) \<in> blocks s" and "p < length (pm_pages s)"
proof -
  have p: "p \<in> managed s" "log2 (psize s p) = fl"
    using phys_invD(2) [OF assms(1)] assms(2,3) by (auto simp: lists_hold_def buckets_def)
  obtain k where "psize s p = 2 ^ k"
    using layoutD(4) [OF phys_invD(3) [OF assms(1)], of "(p, psize s p)"] p(1) by (auto simp: block_managed)
  then show "psize s p = 2 ^ fl"
    using p(2) by simp
  then show "p \<in> managed s" "(p, 2 ^ fl) \<in> blocks s" "p < length (pm_pages s)"
    using p(1) by (auto simp: block_managed managed_def)
qed

section \<open>Splitting a block\<close>

text \<open>What \<open>pm_split_page\<close> computes on a well-formed state, before its meaning.\<close>

lemma pm_split_page_run:
  assumes l: "lists_hold s M idx" and f: "pm_freelist s ! Suc fl = p # ps" "Suc fl < PM_NQUEUES" and p: "p \<in> M" "idx p = Suc fl" "b \<notin> M" "b < length (pm_pages s)" "b \<noteq> p"
    and sz: "psize s p = 2 ^ Suc fl" "b = p + 2 ^ fl" "\<not> is_alloc s b" and idx: "idx' = idx(p := fl, b := fl)"
    and pg: "P = (pm_pages s)[p := (pm_pages s ! p)\<lparr>pg_size := 2 ^ fl\<rparr>,
                  b := (pm_pages s ! b)\<lparr>pg_size := 2 ^ fl, pg_flags := insert PG_MANAGED (pg_flags (pm_pages s ! b))\<rparr>]"
  obtains s' where "pm_split_page (Suc fl) s = Some s'" and "lists_hold s' (insert b M) idx'" and "pm_pages s' = P" and "pm_seglist s' = pm_seglist s"
    and "pm_freelist s' = (pm_freelist s)[Suc fl := ps, fl := b # p # pm_freelist s ! fl]"
proof -
  have pl: "p < length (pm_pages s)"
    using l p(1) by (auto simp: lists_hold_def)
  obtain F1 C1 where r: "freelist_remove (Suc fl) p s = Some (s\<lparr>pm_freelist := F1, pm_pagecount := C1\<rparr>)"
    and l1: "lists_hold (s\<lparr>pm_freelist := F1, pm_pagecount := C1\<rparr>) (M - {p}) idx" and F1: "F1 = (pm_freelist s)[Suc fl := remove1 p (pm_freelist s ! Suc fl)]"
    by (rule freelist_remove_ok [OF l p(1,2)])
  let ?s1 = "s\<lparr>pm_freelist := F1, pm_pagecount := C1\<rparr>"
  let ?s2 = "set_page b ((pm_pages s ! b)\<lparr>pg_size := 2 ^ fl\<rparr>) (set_page p ((pm_pages s ! p)\<lparr>pg_size := 2 ^ fl\<rparr>) ?s1)"
  have l2: "lists_hold ?s2 (M - {p}) idx'"
    unfolding lists_hold_page using l1 by (rule lists_hold_cong) (use p(3) idx in auto)
  have fl: "fl < PM_NQUEUES" "idx' p = fl" "idx' b = fl" "p < length (pm_pages ?s2)" "b < length (pm_pages ?s2)"
    using f(2) pl p(4) idx by (auto simp: set_page_def)
  obtain F3 C3 where i3: "freelist_insert fl p ?s2 = Some (?s2\<lparr>pm_freelist := F3, pm_pagecount := C3\<rparr>)"
    and l3: "lists_hold (?s2\<lparr>pm_freelist := F3, pm_pagecount := C3\<rparr>) (insert p (M - {p})) idx'" and F3: "F3 = (pm_freelist ?s2)[fl := p # pm_freelist ?s2 ! fl]"
    by (rule freelist_insert_ok [OF l2 _ fl(2,1,4)]) simp
  let ?s3 = "?s2\<lparr>pm_freelist := F3, pm_pagecount := C3\<rparr>"
  have b3: "b \<notin> insert p (M - {p})" "b < length (pm_pages ?s3)"
    using p(3,5) fl(5) by simp_all
  obtain F4 C4 where i4: "freelist_insert fl b ?s3 = Some (?s3\<lparr>pm_freelist := F4, pm_pagecount := C4\<rparr>)"
    and l4: "lists_hold (?s3\<lparr>pm_freelist := F4, pm_pagecount := C4\<rparr>) (insert b (insert p (M - {p}))) idx'" and F4: "F4 = (pm_freelist ?s3)[fl := b # pm_freelist ?s3 ! fl]"
    by (rule freelist_insert_ok [OF l3 b3(1) fl(3,1) b3(2)])
  let ?s5 = "set_page b ((pm_pages s ! b)\<lparr>pg_size := 2 ^ fl, pg_flags := insert PG_MANAGED (pg_flags (pm_pages s ! b))\<rparr>) (?s3\<lparr>pm_freelist := F4, pm_pagecount := C4\<rparr>)"
  have "freelist_first (Suc fl) s = Some p"
    using f by (simp add: freelist_first_def)
  then have run: "pm_split_page (Suc fl) s = Some ?s5"
    unfolding pm_split_page_def using sz r i3 i4 pl p(4,5)
    by (simp add: page_at_Some phys_view set_page_def page_at_def nth_list_update Let_def)
  have "insert b (insert p (M - {p})) = insert b M"
    using p(1) by auto
  moreover have "fl < length (pm_freelist s)"
    using fl(1) lists_hold_length(2) [OF l f(2)] by simp
  ultimately show thesis
    using that [OF run] l4 F1 F3 F4 f p(5) pg unfolding lists_hold_page by (simp add: set_page_def)
qed

lemma pm_split_page_ok:
  assumes inv: "phys_inv s U {}" and f: "pm_freelist s ! Suc fl = p # ps" "Suc fl < PM_NQUEUES"
  obtains s' where "pm_split_page (Suc fl) s = Some s'" and "phys_inv s' U {}" and "pm_seglist s' = pm_seglist s"
    and "pm_freelist s' = (pm_freelist s)[Suc fl := ps, fl := (p + 2 ^ fl) # p # pm_freelist s ! fl]"
proof -
  define n :: nat where "n = 2 ^ fl"
  define b where "b = p + n"
  define B where "B = blocks s - {(p, n + n)}"
  have p: "p \<in> managed s" "psize s p = n + n" "(p, n + n) \<in> blocks s" "p < length (pm_pages s)"
    using freelist_block [OF inv f(2), of p] f(1) by (simp_all add: n_def mult_2)
  have n: "0 < n" "n + n = 2 ^ Suc fl"
    by (simp_all add: n_def)
  have bB: "blocks s = insert (p, n + n) B" "(p, n + n) \<notin> B"
    using p(3) by (auto simp: B_def)
  note lay = layout_split [OF phys_invD(3) [OF inv, unfolded bB(1)] bB(2)]
  have bin: "b \<in> region (p, n + n)"
    using n(1) by (simp add: region_def b_def)
  have b: "b < length (pm_pages s)" "b \<notin> managed s" "\<not> is_alloc s b" "b \<noteq> p"
    using block_in_range [OF inv _ bin] managed_in_block [OF inv _ bin] phys_invD(4) [OF inv] p(3) bin n(1) by (auto simp: pages_ok_def b_def)
  let ?idx = "(\<lambda>q. log2 (psize s q))(p := fl, b := fl)"
  have idx: "log2 (psize s p) = Suc fl"
    by (simp only: p(2) n(2) log2_power)
  obtain s' where s': "pm_split_page (Suc fl) s = Some s'" "lists_hold s' (insert b (managed s)) ?idx" "pm_seglist s' = pm_seglist s"
      "pm_freelist s' = (pm_freelist s)[Suc fl := ps, fl := b # p # pm_freelist s ! fl]"
    and P: "pm_pages s' = (pm_pages s)[p := (pm_pages s ! p)\<lparr>pg_size := 2 ^ fl\<rparr>,
                  b := (pm_pages s ! b)\<lparr>pg_size := 2 ^ fl, pg_flags := insert PG_MANAGED (pg_flags (pm_pages s ! b))\<rparr>]"
    by (rule pm_split_page_run [OF phys_invD(2) [OF inv] f p(1) idx b(2,1,4) _ _ b(3) refl refl]) (use p(2) n(2) in \<open>simp_all add: b_def n_def\<close>)
  have view: "managed s' = insert b (managed s)" "psize s' = (psize s)(p := n, b := n)" "is_alloc s' = is_alloc s" "is_unmapped s' = is_unmapped s"
    using P p(1,4) b(1,4) by (auto simp: managed_def psize_def is_alloc_def is_unmapped_def fun_eq_iff nth_list_update n_def)
  have bl: "blocks s' = insert (p, n) (insert (b, n) B)"
    using p(1,2) b(2,4) by (auto simp: set_eq_iff block_managed view B_def split: if_splits)
  have paddr: "map pg_paddr (pm_pages s') = map pg_paddr (pm_pages s)"
    unfolding P by (rule nth_equalityI) (use p(4) b(1) in \<open>auto simp: nth_list_update\<close>)
  then have "segs_ok s'"
    using segs_ok_cong [OF s'(3) paddr] phys_invD(1) [OF inv] by simp
  moreover have "lists_hold s' (managed s') (\<lambda>q. log2 (psize s' q))"
    using s'(2) unfolding view by (rule lists_hold_cong) (simp add: n_def)
  moreover have "layout (seg_ranges s') (blocks s') U {}"
    using lay(1) seg_ranges_cong [OF s'(3)] bl by (simp add: b_def)
  moreover have "pages_ok s' U {}"
  proof -
    have "fst r \<notin> {p, b}" if "r \<in> U" for r
      using block_unique [OF inv, of "(p, n + n)" r] layoutD(3) [OF phys_invD(3) [OF inv]] p(3) that bin n(1)
      by (auto simp: region_def b_def)
    then have "\<forall>r \<in> U. psize s' (fst r) = snd r"
      using phys_invD(4) [OF inv] by (simp add: pages_ok_def view)
    moreover have "\<forall>r \<in> blocks s'. \<exists>r' \<in> blocks s. region r \<subseteq> region r'"
      unfolding bl bB(1) b_def using region_double [of p n] by blast
    ultimately show ?thesis
      using phys_invD(4) [OF inv] unfolding pages_ok_def view by blast
  qed
  ultimately have "phys_inv s' U {}"
    by (simp add: phys_inv_def)
  then show thesis
    using that s' by (simp add: b_def n_def)
qed

section \<open>Taking a block\<close>

definition flag_pages :: "(pg_flag set \<Rightarrow> pg_flag set) \<Rightarrow> nat \<Rightarrow> nat \<Rightarrow> phys_page list \<Rightarrow> phys_page list" where
  "flag_pages f p n P = map (\<lambda>i. if i \<in> region (p, n) then (P ! i)\<lparr>pg_flags := f (pg_flags (P ! i))\<rparr> else P ! i) [0..<length P]"

lemma flag_pages_nth:
  "i < length P \<Longrightarrow> flag_pages f p n P ! i = (if i \<in> region (p, n) then (P ! i)\<lparr>pg_flags := f (pg_flags (P ! i))\<rparr> else P ! i)"
  by (simp add: flag_pages_def)

lemma length_flag_pages [simp]: "length (flag_pages f p n P) = length P"
  by (simp add: flag_pages_def)

lemma paddr_flag_pages [simp]: "map pg_paddr (flag_pages f p n P) = map pg_paddr P"
  by (rule nth_equalityI) (simp_all add: flag_pages_nth)

lemma flag_loop_ok:
  "p + n \<le> length (pm_pages s) \<Longrightarrow> unmapped \<longrightarrow> (\<forall>i \<in> region (p, n). is_unmapped s i) \<Longrightarrow>
     flag_loop f unmapped p n s = Some (s\<lparr>pm_pages := flag_pages f p n (pm_pages s)\<rparr>)"
proof (induction f unmapped p n s rule: flag_loop.induct)
  case (1 f unmapped p s)
  have "flag_pages f p 0 (pm_pages s) = pm_pages s"
    by (rule nth_equalityI) (simp_all add: flag_pages_nth region_def)
  then show ?case
    by simp
next
  case (2 f unmapped p n s)
  let ?pg = "pm_pages s ! p" and ?s = "set_page p ((pm_pages s ! p)\<lparr>pg_flags := f (pg_flags (pm_pages s ! p))\<rparr>) s"
  have p: "p < length (pm_pages s)" "p \<in> region (p, Suc n)"
    using 2(2) by (simp_all add: region_def)
  have "flag_pages f (Suc p) n (pm_pages ?s) = flag_pages f p (Suc n) (pm_pages s)"
    using p by (intro nth_equalityI) (auto simp: flag_pages_nth set_page_def nth_list_update region_def)
  moreover have "unmapped \<longrightarrow> pg_pv ?pg = []"
    using 2(3) p by (simp add: is_unmapped_def)
  moreover have "unmapped \<longrightarrow> (\<forall>i \<in> region (Suc p, n). is_unmapped ?s i)"
    using 2(3) p(1) by (auto simp: view_page region_def)
  ultimately show ?case
    using 2(1) [of ?pg "()"] 2(2) p(1) by (simp add: page_at_Some set_page_def)
qed

lemma view_flags:
  assumes "p + n \<le> length (pm_pages s)" and "pm_pages s' = flag_pages f p n (pm_pages s)" and "\<And>F. PG_MANAGED \<in> f F \<longleftrightarrow> PG_MANAGED \<in> F"
  shows "managed s' = managed s" and "psize s' = psize s" and "is_unmapped s' = is_unmapped s"
    and "\<And>q. is_alloc s' q \<longleftrightarrow> (if q \<in> region (p, n) then PG_ALLOCATED \<in> f (pg_flags (pm_pages s ! q)) else is_alloc s q)"
proof -
  note nth = flag_pages_nth [of _ "pm_pages s" f p n]
  show "managed s' = managed s"
    unfolding managed_def assms(2) by (simp add: nth assms(3) cong: conj_cong)
  show "psize s' = psize s"
    by (rule ext) (simp add: psize_def assms(2) nth)
  show "is_unmapped s' = is_unmapped s"
    by (rule ext) (simp add: is_unmapped_def assms(2) nth cong: conj_cong)
  show "is_alloc s' q \<longleftrightarrow> (if q \<in> region (p, n) then PG_ALLOCATED \<in> f (pg_flags (pm_pages s ! q)) else is_alloc s q)" for q
    using assms(1) unfolding is_alloc_def assms(2) by (auto simp: nth region_def)
qed

lemma pm_take_page_ok:
  assumes inv: "phys_inv s U {}" and f: "pm_freelist s ! fl = p # ps" "fl < PM_NQUEUES"
  obtains s' where "pm_take_page fl s = Some (p, s')" and "phys_inv s' (insert (p, 2 ^ fl) U) {}" and "(p, 2 ^ fl) \<in> blocks s" and "(p, 2 ^ fl) \<notin> U"
    and "pm_freelist s' = (pm_freelist s)[fl := ps]" and "pm_seglist s' = pm_seglist s"
proof -
  let ?r = "(p, 2 ^ fl)"
  define B where "B = blocks s - {?r}"
  have p: "p \<in> managed s" "psize s p = 2 ^ fl" "?r \<in> blocks s" "p < length (pm_pages s)"
    using freelist_block [OF inv f(2), of p] f(1) by simp_all
  have bB: "blocks s = insert ?r B" "?r \<notin> B"
    using p(3) by (auto simp: B_def)
  note lay = layout_use [OF phys_invD(3) [OF inv, unfolded bB(1)] bB(2)]
  have idx: "log2 (psize s p) = fl"
    by (simp add: p(2))
  obtain F C where r: "freelist_remove fl p s = Some (s\<lparr>pm_freelist := F, pm_pagecount := C\<rparr>)"
    and l1: "lists_hold (s\<lparr>pm_freelist := F, pm_pagecount := C\<rparr>) (managed s - {p}) (\<lambda>p. log2 (psize s p))"
    and F: "F = (pm_freelist s)[fl := remove1 p (pm_freelist s ! fl)]"
    by (rule freelist_remove_ok [OF phys_invD(2) [OF inv] p(1) idx])
  let ?s1 = "s\<lparr>pm_freelist := F, pm_pagecount := C\<rparr>"
  let ?s2 = "set_page p ((pm_pages s ! p)\<lparr>pg_flags := pg_flags (pm_pages s ! p) - {PG_MANAGED}\<rparr>) ?s1"
  let ?s3 = "?s2\<lparr>pm_pages := flag_pages (insert PG_ALLOCATED) p (2 ^ fl) (pm_pages ?s2)\<rparr>"
  have rl: "p + 2 ^ fl \<le> length (pm_pages s)"
    using block_end [OF inv] p(3) by blast
  then have "flag_loop (insert PG_ALLOCATED) False p (2 ^ fl) ?s2 = Some ?s3"
    by (intro flag_loop_ok) (auto simp: set_page_def)
  then have run: "pm_take_page fl s = Some (p, ?s3)"
    using f r p(2,4) by (simp add: pm_take_page_def freelist_first_def phys_view page_at_Some)
  have m: "PG_MANAGED \<in> pg_flags (pm_pages s ! p)"
    using p(1) by (simp add: managed_def)
  have view2: "managed ?s2 = managed s - {p}" "psize ?s2 = psize s" "is_alloc ?s2 = is_alloc s"
    using p(4) by (auto simp: phys_view fun_eq_iff)
  have fl: "pm_pages ?s3 = flag_pages (insert PG_ALLOCATED) p (2 ^ fl) (pm_pages ?s2)" "p + 2 ^ fl \<le> length (pm_pages ?s2)"
      "\<And>F. PG_MANAGED \<in> insert PG_ALLOCATED F \<longleftrightarrow> PG_MANAGED \<in> F"
    using rl by (simp_all add: set_page_def)
  note vf = view_flags [OF fl(2,1,3)]
  have view: "managed ?s3 = managed s - {p}" "psize ?s3 = psize s" "is_unmapped ?s3 = is_unmapped ?s2"
    by (simp_all only: vf view2)
  have al: "is_alloc ?s3 q \<longleftrightarrow> q \<in> region ?r \<or> is_alloc s q" for q
    unfolding vf(4) view2 by simp
  have un: "is_unmapped ?s3 = is_unmapped s"
    unfolding view using p(4) by (auto simp: phys_view fun_eq_iff)
  have bl: "blocks ?s3 = B"
    using p(2) by (auto simp: set_eq_iff block_managed view B_def)
  have seg: "pm_seglist ?s3 = pm_seglist s" "map pg_paddr (pm_pages ?s3) = map pg_paddr (pm_pages s)"
    using p(4) by (simp_all add: paddr_set_page set_page_def map_update list_update_same_conv)
  have "lists_hold ?s3 (managed ?s3) (\<lambda>p. log2 (psize ?s3 p))"
    using l1 unfolding view by (simp add: lists_hold_def set_page_def)
  moreover have "pages_ok ?s3 (insert ?r U) {}"
  proof -
    have "i \<notin> region ?r" if "r' \<in> B" "i \<in> region r'" for r' i
      using block_disjoint [OF inv, of ?r r'] that p(3) by (auto simp: B_def)
    then have "\<forall>r \<in> B. \<forall>i \<in> region r. \<not> is_alloc ?s3 i \<and> is_unmapped ?s3 i"
      using phys_invD(4) [OF inv] unfolding pages_ok_def bB(1) al un by blast
    then show ?thesis
      using phys_invD(4) [OF inv] p(2) unfolding pages_ok_def bl view al by auto
  qed
  moreover have "segs_ok ?s3" "layout (seg_ranges ?s3) (blocks ?s3) (insert ?r U) {}"
    using segs_ok_cong [OF seg] phys_invD(1) [OF inv] lay(1) seg_ranges_cong [OF seg(1)] bl by simp_all
  ultimately have "phys_inv ?s3 (insert ?r U) {}"
    by (simp only: phys_inv_def)
  then show thesis
    using that [OF run] p(3) lay(2) F f(1) by (simp add: set_page_def)
qed

section \<open>Allocation of one block\<close>

definition free_pages :: "physmem \<Rightarrow> nat set" where
  "free_pages s = (\<Union>r \<in> blocks s. region r)"

lemma free_pages_eq:
  assumes "phys_inv s U {}"
  shows "free_pages s = \<Union>(seg_ranges s) - (\<Union>r \<in> U. region r)"
proof -
  have "region r \<inter> region r' = {}" if "r \<in> blocks s" "r' \<in> U" for r r'
    using block_disjoint [OF assms, of r r'] layoutD(3) [OF phys_invD(3) [OF assms]] that by blast
  then have "free_pages s \<inter> (\<Union>r \<in> U. region r) = {}"
    unfolding free_pages_def by blast
  moreover have "\<Union>(seg_ranges s) = free_pages s \<union> (\<Union>r \<in> U. region r)"
    using layoutD(2) [OF phys_invD(3) [OF assms]] by (simp add: tiles_def free_pages_def UN_Un)
  ultimately show ?thesis
    by (simp only: Un_Diff Diff_cancel Diff_triv Un_empty_right)
qed

lemma free_pages_take:
  assumes "phys_inv s U {}" and "phys_inv s' (insert r U) {}" and "r \<notin> U" and "pm_seglist s' = pm_seglist s"
  shows "region r \<subseteq> free_pages s" and "free_pages s' = free_pages s - region r"
proof -
  have "region r \<subseteq> \<Union>(seg_ranges s')"
    using layoutD(6) [OF phys_invD(3) [OF assms(2)], of r] by auto
  moreover have "region r \<inter> region r' = {}" if "r' \<in> U" for r'
    using block_disjoint [OF assms(2), of r r'] assms(3) that by auto
  ultimately show "region r \<subseteq> free_pages s"
    unfolding free_pages_eq [OF assms(1)] seg_ranges_cong [OF assms(4)] by blast
  show "free_pages s' = free_pages s - region r"
    unfolding free_pages_eq [OF assms(1)] free_pages_eq [OF assms(2)] seg_ranges_cong [OF assms(4)] by blast
qed

lemma first_nonempty_spec:
  "n \<le> first_nonempty n s \<and> (\<forall>j. n \<le> j \<and> j < first_nonempty n s \<longrightarrow> j < PM_NQUEUES \<and> pm_freelist s ! j = []) \<and>
     (first_nonempty n s < PM_NQUEUES \<longrightarrow> pm_freelist s ! first_nonempty n s \<noteq> [])"
proof (induction n s rule: first_nonempty.induct)
  case (1 fl s)
  show ?case
  proof (cases "fl < PM_NQUEUES \<and> pm_freelist s ! fl = []")
    case True
    then have "first_nonempty fl s = first_nonempty (fl + 1) s"
      by (simp add: first_nonempty.simps [of fl])
    moreover have "j = fl \<or> fl + 1 \<le> j" if "fl \<le> j" for j
      using that by linarith
    ultimately show ?thesis
      using 1 [OF True] True by (metis add_leD1)
  qed (auto simp: first_nonempty.simps [of fl])
qed

lemma split_loop_ok:
  assumes "phys_inv s U {}" and "pm_freelist s ! fl = p # ps" and "fl < PM_NQUEUES" and "n \<le> fl"
  shows "\<exists>s' p' ps'. split_loop n fl s = Some (n, s') \<and> phys_inv s' U {} \<and> pm_freelist s' ! n = p' # ps' \<and> pm_seglist s' = pm_seglist s"
  using assms
proof (induction fl arbitrary: s p ps)
  case 0
  then show ?case
    by (auto simp: split_loop.simps)
next
  case (Suc fl)
  show ?case
  proof (cases "n = Suc fl")
    case True
    then show ?thesis
      using Suc.prems by (auto simp: split_loop.simps)
  next
    case False
    obtain s1 where s1: "pm_split_page (Suc fl) s = Some s1" "phys_inv s1 U {}" "pm_seglist s1 = pm_seglist s"
        "pm_freelist s1 = (pm_freelist s)[Suc fl := ps, fl := (p + 2 ^ fl) # p # pm_freelist s ! fl]"
      by (rule pm_split_page_ok [OF Suc.prems(1-3)])
    have "fl < length (pm_freelist s)"
      using lists_hold_length(2) [OF phys_invD(2) [OF Suc.prems(1)] Suc.prems(3)] Suc.prems(3) by simp
    then have "pm_freelist s1 ! fl = (p + 2 ^ fl) # p # pm_freelist s ! fl"
      by (simp add: s1(4))
    then show ?thesis
      using Suc.IH [OF s1(2)] Suc.prems(3,4) False s1(1,3) by (auto simp: split_loop.simps [of n "Suc fl"])
  qed
qed

lemma blocks_iff:
  assumes "phys_inv s U H"
  shows "(p, n) \<in> blocks s \<longleftrightarrow> (\<exists>j < PM_NQUEUES. p \<in> set (pm_freelist s ! j) \<and> n = 2 ^ j)"
proof
  assume r: "(p, n) \<in> blocks s"
  then obtain j where j: "j < PM_NQUEUES" "n = 2 ^ j"
    using layoutD(4) [OF phys_invD(3) [OF assms], of "(p, n)"] by auto
  have "p \<in> managed s" "log2 (psize s p) = j"
    using r j(2) log2_power [of j] by (auto simp: block_managed)
  then have "p \<in> set (pm_freelist s ! j)"
    using phys_invD(2) [OF assms] buckets_mem by (fastforce simp: lists_hold_def)
  then show "\<exists>j < PM_NQUEUES. p \<in> set (pm_freelist s ! j) \<and> n = 2 ^ j"
    using j by blast
qed (use freelist_block [OF assms] in auto)

lemma freelist_empty_iff:
  assumes "phys_inv s U {}"
  shows "(\<forall>j. k \<le> j \<and> j < PM_NQUEUES \<longrightarrow> pm_freelist s ! j = []) \<longleftrightarrow> (\<forall>r \<in> blocks s. snd r < 2 ^ k)"
proof -
  have "(\<forall>r \<in> blocks s. snd r < 2 ^ k) \<longleftrightarrow> (\<forall>p n. (p, n) \<in> blocks s \<longrightarrow> n < 2 ^ k)"
    by fastforce
  also have "\<dots> \<longleftrightarrow> (\<forall>j < PM_NQUEUES. \<forall>p. p \<in> set (pm_freelist s ! j) \<longrightarrow> (2::nat) ^ j < 2 ^ k)"
    unfolding blocks_iff [OF assms] by blast
  also have "\<dots> \<longleftrightarrow> (\<forall>j. k \<le> j \<and> j < PM_NQUEUES \<longrightarrow> set (pm_freelist s ! j) = {})"
    by (auto simp: not_less)
  finally show ?thesis
    by simp
qed

lemma powerof2_power [simp]: "powerof2 (2 ^ k)"
proof -
  have "(2 ^ k - 1 :: int) AND 2 ^ k = 0"
    unfolding mask_eq_exp_minus_1 [symmetric] by (rule bit_eqI) (auto simp: bit_simps)
  then show ?thesis
    by (simp add: powerof2_def)
qed

lemma block_contiguous:
  assumes "phys_inv s U H" and "(p, n) \<in> blocks s \<union> U \<union> H" and "i < n"
  shows "pg_paddr (pm_pages s ! (p + i)) = pg_paddr (pm_pages s ! p) + i * PAGESIZE"
proof -
  obtain seg where seg: "seg \<in> set (pm_seglist s)" "region (p, n) \<subseteq> seg_range seg"
    using layoutD(6) [OF phys_invD(3) [OF assms(1)] assms(2)] by (auto simp: seg_ranges_def)
  define j where "j = p - seg_pages seg"
  have "p + i \<in> seg_range seg" "p \<in> seg_range seg"
    using seg(2) assms(3) by (auto simp: region_def subset_iff)
  then have "p = seg_pages seg + j" "j + i < seg_npages seg"
    by (auto simp: seg_range_def j_def)
  then show ?thesis
    using phys_invD(1) [OF assms(1)] seg(1) by (auto simp: segs_ok_def add.assoc distrib_right)
qed

lemma vm_page_alloc_run:
  assumes inv: "phys_inv s U {}" and n: "npages = 2 ^ k"
  shows "if \<forall>r \<in> blocks s. snd r < npages then vm_page_alloc npages s = Some (None, s)
         else \<exists>p s'. vm_page_alloc npages s = Some (Some p, s') \<and> phys_inv s' (insert (p, npages) U) {} \<and> (p, npages) \<notin> U \<and> pm_seglist s' = pm_seglist s"
proof -
  let ?fl = "first_nonempty k s"
  have fl: "k \<le> ?fl" "\<And>j. k \<le> j \<Longrightarrow> j < ?fl \<Longrightarrow> j < PM_NQUEUES \<and> pm_freelist s ! j = []" "?fl < PM_NQUEUES \<Longrightarrow> pm_freelist s ! ?fl \<noteq> []"
    using first_nonempty_spec [of k s] by blast+
  have all: "(\<forall>r \<in> blocks s. snd r < npages) \<longleftrightarrow> PM_NQUEUES \<le> ?fl"
    unfolding n freelist_empty_iff [OF inv, symmetric] using fl by (meson leI le_less_trans less_le_trans)
  have alloc: "vm_page_alloc npages s = (if PM_NQUEUES \<le> ?fl then Some (None, s)
      else split_loop k ?fl s \<bind> (\<lambda>(fl, s). pm_take_page fl s \<bind> (\<lambda>(p, s). Some (Some p, s))))"
    by (simp add: vm_page_alloc_def n Let_def)
  show ?thesis
  proof (cases "PM_NQUEUES \<le> ?fl")
    case True
    then show ?thesis
      unfolding all using alloc by simp
  next
    case False
    then obtain q qs where q: "pm_freelist s ! ?fl = q # qs"
      using fl(3) by (cases "pm_freelist s ! ?fl") auto
    have lt: "?fl < PM_NQUEUES" "k < PM_NQUEUES"
      using False fl(1) by auto
    obtain s1 p ps where s1: "split_loop k ?fl s = Some (k, s1)" "phys_inv s1 U {}" "pm_freelist s1 ! k = p # ps" "pm_seglist s1 = pm_seglist s"
      using split_loop_ok [OF inv q lt(1) fl(1)] by blast
    obtain s2 where s2: "pm_take_page k s1 = Some (p, s2)" "phys_inv s2 (insert (p, 2 ^ k) U) {}" "(p, 2 ^ k) \<notin> U" "pm_seglist s2 = pm_seglist s1"
      by (rule pm_take_page_ok [OF s1(2,3) lt(2)])
    have "vm_page_alloc npages s = Some (Some p, s2)" "pm_seglist s2 = pm_seglist s"
      using alloc False s1(1,4) s2(1,4) by simp_all
    then show ?thesis
      using s2(2,3) unfolding all if_not_P [OF False] by (simp add: n)
  qed
qed

text \<open>A segment of four pages, all of them one free block.\<close>

definition small_memory :: physmem where
  "small_memory = \<lparr>
     pm_seglist = [\<lparr>seg_start = 16384, seg_end = 32768, seg_npages = 4, seg_used = False, seg_pages = 0\<rparr>], pm_freeseg_last = 1,
     pm_freelist = (replicate PM_NQUEUES [])[2 := [0]], pm_pagecount = (replicate PM_NQUEUES 0)[2 := 1],
     pm_pages = [\<lparr>pg_pv = [], pg_paddr = 16384, pg_flags = {PG_MANAGED}, pg_size = 4\<rparr>, \<lparr>pg_pv = [], pg_paddr = 20480, pg_flags = {}, pg_size = 1\<rparr>,
       \<lparr>pg_pv = [], pg_paddr = 24576, pg_flags = {}, pg_size = 2\<rparr>, \<lparr>pg_pv = [], pg_paddr = 28672, pg_flags = {}, pg_size = 1\<rparr>],
     vm_kernel_end = 0, vm_boot_done = True, pm_kenter = []\<rparr>"

lemma less_four: "i < 4 \<longleftrightarrow> i = 0 \<or> i = 1 \<or> i = 2 \<or> i = (3::nat)"
  by auto

lemma small_memory_length: "length (pm_pages small_memory) = 4"
  by (simp add: small_memory_def)

lemma small_memory_blocks: "managed small_memory = {0}" "psize small_memory 0 = 4" "blocks small_memory = {(0, 4)}"
proof -
  show m: "managed small_memory = {0}"
    unfolding managed_def small_memory_length less_four by (auto simp: small_memory_def)
  show z: "psize small_memory 0 = 4"
    by (simp add: psize_def small_memory_def)
  show "blocks small_memory = {(0, 4)}"
    by (simp add: blocks_def m z)
qed

lemma small_memory_inv: "phys_inv small_memory {} {}"
proof -
  have "segs_ok small_memory"
    by (auto simp: segs_ok_def small_memory_def PAGESIZE_def less_four)
  moreover have "lists_hold small_memory (managed small_memory) (\<lambda>p. log2 (psize small_memory p))"
  proof -
    have "log2 (psize small_memory 0) = 2"
      using log2_power [of 2] by (simp add: small_memory_blocks)
    then have "buckets ((replicate PM_NQUEUES [])[2 := [0]]) PM_NQUEUES {0} (\<lambda>p. log2 (psize small_memory p))"
      using buckets_insert [OF buckets_empty, of 0 "\<lambda>p. log2 (psize small_memory p)" PM_NQUEUES] by (simp add: PM_NQUEUES_def)
    then have "buckets (pm_freelist small_memory) PM_NQUEUES {0} (\<lambda>p. log2 (psize small_memory p))"
      by (simp add: small_memory_def)
    then show ?thesis
      by (simp add: lists_hold_def small_memory_blocks) (simp add: small_memory_def map_update)
  qed
  moreover have "seg_ranges small_memory = {{0..<4}}"
    by (simp add: seg_ranges_def seg_range_def small_memory_def Collect_conv_if)
  then have "layout (seg_ranges small_memory) (blocks small_memory) {} {}"
    by (simp add: layout_def tiles_def separated_def region_def small_memory_blocks PM_NQUEUES_def exI [of _ 2])
  moreover have "\<not> is_alloc small_memory i \<and> is_unmapped small_memory i" if "i < 4" for i
    using that unfolding less_four is_alloc_def is_unmapped_def small_memory_length by (elim disjE) (simp_all add: small_memory_def)
  then have "pages_ok small_memory {} {}"
    by (simp add: pages_ok_def small_memory_blocks region_def)
  ultimately show ?thesis
    by (simp add: phys_inv_def)
qed

text \<open>
  C14: \<^verbatim>\<open>vm_page_alloc\<close> of a power of two of pages.  When no free block is large enough it returns \<^verbatim>\<open>NULL\<close> and changes nothing.  Otherwise no
  assertion fails, and it returns that many pages which were all free and are physically contiguous; exactly these pages stop being free, and the
  free lists, the counters, the sizes and the flags remain consistent.
\<close>

theorem vm_page_alloc_spec:
  assumes inv: "phys_inv s U {}" and n: "npages = 2 ^ k"
  shows "if \<forall>r \<in> blocks s. snd r < npages then vm_page_alloc npages s = Some (None, s)
         else \<exists>p s'. vm_page_alloc npages s = Some (Some p, s') \<and> phys_inv s' (insert (p, npages) U) {} \<and> pm_seglist s' = pm_seglist s \<and>
           region (p, npages) \<subseteq> free_pages s \<and> free_pages s' = free_pages s - region (p, npages) \<and>
           (\<forall>i < npages. pg_paddr (pm_pages s' ! (p + i)) = pg_paddr (pm_pages s' ! p) + i * PAGESIZE)"
proof (cases "\<forall>r \<in> blocks s. snd r < npages")
  case True
  then show ?thesis
    using vm_page_alloc_run [OF inv n] by simp
next
  case False
  then obtain p s' where s': "vm_page_alloc npages s = Some (Some p, s')" "phys_inv s' (insert (p, npages) U) {}" "(p, npages) \<notin> U" "pm_seglist s' = pm_seglist s"
    using vm_page_alloc_run [OF inv n] unfolding if_not_P [OF False] by blast
  then show ?thesis
    using free_pages_take [OF inv s'(2-4)] block_contiguous [OF s'(2), of p npages] unfolding if_not_P [OF False] by blast
qed

theorem vm_page_alloc_spec_witness:
  "\<exists>p s'. vm_page_alloc 2 small_memory = Some (Some p, s') \<and> phys_inv s' {(p, 2)} {} \<and> region (p, 2) \<subseteq> free_pages small_memory"
  using vm_page_alloc_spec [OF small_memory_inv, of 2 1] by (auto simp: small_memory_blocks)

end
