(* ===== verification/PhysLists.thy ===== *)
theory PhysLists
  imports PhysAlloc
begin

text \<open>
  The allocation of a number of pages that need not be contiguous, \<^verbatim>\<open>vm_pagelist_alloc\<close>: it succeeds exactly if enough pages are free.
\<close>

section \<open>Counting the free pages\<close>

text \<open>The number of pages in the free lists below a given one.\<close>

definition pages_below :: "physmem \<Rightarrow> nat \<Rightarrow> nat" where
  "pages_below s j = (\<Sum>i < j. length (pm_freelist s ! i) * 2 ^ i)"

lemma pages_below_Suc: "pages_below s (Suc j) = pages_below s j + length (pm_freelist s ! j) * 2 ^ j"
  by (simp add: pages_below_def)

lemma pages_below_mono: "j \<le> j' \<Longrightarrow> pages_below s j \<le> pages_below s j'"
  unfolding pages_below_def by (rule sum_mono2) auto

lemma pages_below_cong: "(\<And>i. i < j \<Longrightarrow> pm_freelist s ! i = pm_freelist s' ! i) \<Longrightarrow> pages_below s j = pages_below s' j"
  by (simp add: pages_below_def)

lemma free_pages_finite:
  assumes "phys_inv s U H"
  shows "free_pages s \<subseteq> {..<length (pm_pages s)}" and "finite (free_pages s)"
proof -
  show "free_pages s \<subseteq> {..<length (pm_pages s)}"
    using block_in_range [OF assms] by (auto simp: free_pages_def)
  then show "finite (free_pages s)"
    by (rule finite_subset) simp
qed

lemma pages_below_all:
  assumes inv: "phys_inv s U H"
  shows "pages_below s PM_NQUEUES = card (free_pages s)"
proof -
  let ?g = "\<lambda>p. log2 (psize s p)"
  have b: "buckets (pm_freelist s) PM_NQUEUES (managed s) ?g"
    using phys_invD(2) [OF inv] by (simp add: lists_hold_def)
  have fin: "finite (managed s)"
    by (simp add: managed_def)
  have "card (free_pages s) = (\<Sum>p \<in> managed s. card (region (p, psize s p)))"
  proof -
    have "region (p, psize s p) \<inter> region (q, psize s q) = {}" if "p \<in> managed s" "q \<in> managed s" "p \<noteq> q" for p q
      using block_disjoint [OF inv, of "(p, psize s p)" "(q, psize s q)"] that by (simp add: block_managed)
    then have "card (\<Union>p \<in> managed s. region (p, psize s p)) = (\<Sum>p \<in> managed s. card (region (p, psize s p)))"
      using fin by (intro card_UN_disjoint) (simp_all add: region_def)
    then show ?thesis
      by (simp add: free_pages_def blocks_def)
  qed
  also have "\<dots> = (\<Sum>p \<in> managed s. psize s p)"
    by (simp add: region_def)
  also have "\<dots> = (\<Sum>j < PM_NQUEUES. \<Sum>p \<in> {p \<in> managed s. ?g p = j}. psize s p)"
    using b fin by (intro sum.group [symmetric]) (auto simp: buckets_def)
  also have "\<dots> = (\<Sum>j < PM_NQUEUES. length (pm_freelist s ! j) * 2 ^ j)"
  proof (rule sum.cong [OF refl])
    fix j assume "j \<in> {..<PM_NQUEUES}"
    then have j: "j < PM_NQUEUES"
      by simp
    have "{p \<in> managed s. ?g p = j} = set (pm_freelist s ! j)"
      using b j by (auto simp: buckets_def)
    moreover have "distinct (pm_freelist s ! j)"
      using b j by (auto simp: buckets_def distinct_concat_iff)
    ultimately show "(\<Sum>p \<in> {p \<in> managed s. ?g p = j}. psize s p) = length (pm_freelist s ! j) * 2 ^ j"
      using freelist_block(2) [OF inv j] by (simp add: distinct_card)
  qed
  finally show ?thesis
    by (simp add: pages_below_def)
qed

lemma pages_below_bound:
  assumes "phys_inv s U H" and "j \<le> PM_NQUEUES"
  shows "pages_below s j < 2 ^ 32"
proof -
  have "card (free_pages s) \<le> length (pm_pages s)"
    using card_mono [OF _ free_pages_finite(1) [OF assms(1)]] by simp
  then show ?thesis
    using pages_below_mono [OF assms(2), of s] pages_below_all [OF assms(1)] phys_invD(2) [OF assms(1)] by (simp add: lists_hold_def)
qed

text \<open>The loop that adds up the counters.\<close>

lemma sums_loop_spec:
  assumes inv: "phys_inv s U H" and "fl \<le> PM_NQUEUES" and "sums_loop n fl (pages_below s fl) (map (\<lambda>j. pages_below s (Suc j)) [0..<fl]) (drop fl (pm_pagecount s)) = (fl', avail, sums)"
    and "pages_below s fl < n \<or> fl = 0"
  shows "if avail < n then avail = card (free_pages s)
         else fl' < PM_NQUEUES \<and> sums = map (\<lambda>j. pages_below s (Suc j)) [0..<Suc fl'] \<and> avail = pages_below s (Suc fl')"
  using assms(2-)
proof (induction "PM_NQUEUES - fl" arbitrary: fl)
  case 0
  then have "fl = PM_NQUEUES" "drop fl (pm_pagecount s) = []"
    using lists_hold_length(2) [OF phys_invD(2) [OF inv], of 0] phys_invD(2) [OF inv] by (simp_all add: lists_hold_def PM_NQUEUES_def)
  then show ?case
    using 0(3,4) pages_below_all [OF inv] by (auto simp: PM_NQUEUES_def)
next
  case (Suc d)
  have fl: "fl < PM_NQUEUES"
    using Suc(2) by simp
  note l = lists_hold_length [OF phys_invD(2) [OF inv] fl]
  have c: "drop fl (pm_pagecount s) = length (pm_freelist s ! fl) # drop (Suc fl) (pm_pagecount s)"
    using l(2,3) phys_invD(2) [OF inv] fl by (simp add: Cons_nth_drop_Suc [symmetric] lists_hold_def)
  have b: "pages_below s (Suc fl) < 2 ^ 32"
    using pages_below_bound [OF inv] fl by simp
  then have avail: "uadd (pages_below s fl) (umul (length (pm_freelist s ! fl)) (2 ^ fl)) = pages_below s (Suc fl)"
    by (simp add: umul_exact uadd_exact pages_below_Suc)
  show ?case
  proof (cases "n \<le> pages_below s (Suc fl)")
    case True
    then show ?thesis
      using Suc.prems(2) fl unfolding c by (auto simp: Let_def avail)
  next
    case False
    then show ?thesis
      using Suc.prems(2) Suc(2) unfolding c by (intro Suc.hyps(1) [of "Suc fl"]) (simp_all add: Let_def avail)
  qed
qed

section \<open>Collecting pages\<close>

text \<open>Blocks taken one after the other: distinct, new, and of the given number of pages in total.\<close>

definition taken_blocks :: "(nat \<times> nat) set \<Rightarrow> nat \<Rightarrow> (nat \<times> nat) list \<Rightarrow> bool" where
  "taken_blocks U n bs \<longleftrightarrow> distinct bs \<and> set bs \<inter> U = {} \<and> sum_list (map snd bs) = n"

lemma taken_blocks_Cons: "r \<notin> U \<Longrightarrow> taken_blocks (insert r U) n bs \<Longrightarrow> taken_blocks U (snd r + n) (r # bs)"
  by (auto simp: taken_blocks_def)

definition sums_ok :: "physmem \<Rightarrow> nat \<Rightarrow> nat \<Rightarrow> nat list \<Rightarrow> bool" where
  "sums_ok s n fl sums \<longleftrightarrow> fl < PM_NQUEUES \<and> fl < length sums \<and> (\<forall>j < fl. sums ! j = pages_below s (Suc j)) \<and> n \<le> pages_below s (Suc fl)"

lemma pagelist_loop_step:
  assumes "sums_ok s n fl sums" and "0 < n"
  shows "n \<le> pages_below s fl \<Longrightarrow> pagelist_loop n fl sums pglist s = pagelist_loop n (fl - 1) sums pglist s \<and> 0 < fl \<and> sums_ok s n (fl - 1) sums"
    and "\<not> n \<le> pages_below s fl \<Longrightarrow> n < 2 ^ fl \<Longrightarrow> 0 < fl \<and> pagelist_loop n fl sums pglist s =
           pm_split_page fl s \<bind> pagelist_loop n (fl - 1) (sums[fl - 1 := uadd (pages_below s fl) (2 ^ fl)]) pglist"
    and "\<not> n \<le> pages_below s fl \<Longrightarrow> \<not> n < 2 ^ fl \<Longrightarrow> pagelist_loop n fl sums pglist s =
           pm_take_page fl s \<bind> (\<lambda>(p, s). pagelist_loop (n - 2 ^ fl) fl sums (pglist @ [p]) s)"
proof -
  let ?prev = "pages_below s fl"
  have prev: "(if fl > 0 then do { kassert (fl - 1 < length sums); Some (sums ! (fl - 1)) } else Some 0) = Some ?prev"
    using assms(1) by (cases fl) (auto simp: pages_below_def sums_ok_def)
  note eq = pagelist_loop.simps [of n fl sums pglist s, unfolded prev]
  show "pagelist_loop n fl sums pglist s = pagelist_loop n (fl - 1) sums pglist s \<and> 0 < fl \<and> sums_ok s n (fl - 1) sums" if n: "n \<le> ?prev"
  proof -
    have "0 < fl"
      using n assms(2) by (cases fl) (auto simp: pages_below_def)
    then show ?thesis
      using n assms eq by (auto simp: sums_ok_def)
  qed
  show "0 < fl \<and> pagelist_loop n fl sums pglist s =
      pm_split_page fl s \<bind> pagelist_loop n (fl - 1) (sums[fl - 1 := uadd ?prev (2 ^ fl)]) pglist" if n: "\<not> n \<le> ?prev" "n < 2 ^ fl"
  proof -
    have "0 < fl"
      using n(2) assms(2) by (cases fl) auto
    moreover from this have "sums ! (fl - 1) = ?prev"
      using assms(1) by (cases fl) (auto simp: sums_ok_def)
    ultimately show ?thesis
      using n assms(2) eq by (simp add: Let_def)
  qed
  show "pagelist_loop n fl sums pglist s = pm_take_page fl s \<bind> (\<lambda>(p, s). pagelist_loop (n - 2 ^ fl) fl sums (pglist @ [p]) s)"
    if "\<not> n \<le> ?prev" "\<not> n < 2 ^ fl"
    using that assms(2) eq by (simp add: Let_def)
qed

lemma list_not_empty: "sums_ok s n fl sums \<Longrightarrow> \<not> n \<le> pages_below s fl \<Longrightarrow> pm_freelist s ! fl \<noteq> []"
  by (auto simp: sums_ok_def pages_below_Suc)

lemma split_step:
  assumes "phys_inv s U {}" and "sums_ok s n (Suc f) sums" and "\<not> n \<le> pages_below s (Suc f)" and "n < 2 ^ Suc f"
  shows "\<exists>s'. pm_split_page (Suc f) s = Some s' \<and> phys_inv s' U {} \<and> pm_seglist s' = pm_seglist s \<and>
           sums_ok s' n f (sums[f := uadd (pages_below s (Suc f)) (2 ^ Suc f)])"
proof -
  have fl: "Suc f < PM_NQUEUES"
    using assms(2) by (simp add: sums_ok_def)
  obtain p ps where p: "pm_freelist s ! Suc f = p # ps"
    using list_not_empty [OF assms(2,3)] by (cases "pm_freelist s ! Suc f") auto
  obtain s' where s': "pm_split_page (Suc f) s = Some s'" "phys_inv s' U {}" "pm_seglist s' = pm_seglist s"
      "pm_freelist s' = (pm_freelist s)[Suc f := ps, f := (p + 2 ^ f) # p # pm_freelist s ! f]"
    by (rule pm_split_page_ok [OF assms(1) p fl])
  have len: "f < length (pm_freelist s)"
    using lists_hold_length(2) [OF phys_invD(2) [OF assms(1)] fl] fl by simp
  have "pages_below s' j = pages_below s j" if "j \<le> f" for j
    using that by (intro pages_below_cong) (simp add: s'(4))
  moreover from this have below: "pages_below s' (Suc f) = pages_below s (Suc f) + 2 ^ Suc f"
    using len by (simp add: pages_below_Suc s'(4))
  moreover have "uadd (pages_below s (Suc f)) (2 ^ Suc f) = pages_below s (Suc f) + 2 ^ Suc f"
    using pages_below_bound [OF s'(2), of "Suc f"] fl below by (simp add: uadd_exact)
  moreover have "n \<le> pages_below s (Suc f) + 2 ^ Suc f"
    using assms(4) by linarith
  ultimately have "sums_ok s' n f (sums[f := uadd (pages_below s (Suc f)) (2 ^ Suc f)])"
    using assms(2) by (auto simp: sums_ok_def)
  then show ?thesis
    using s' by blast
qed

lemma take_step:
  assumes "phys_inv s U {}" and "sums_ok s n fl sums" and "\<not> n \<le> pages_below s fl"
  shows "\<exists>p s'. pm_take_page fl s = Some (p, s') \<and> phys_inv s' (insert (p, 2 ^ fl) U) {} \<and> (p, 2 ^ fl) \<notin> U \<and> pm_seglist s' = pm_seglist s \<and>
           sums_ok s' (n - 2 ^ fl) fl sums"
proof -
  have fl: "fl < PM_NQUEUES"
    using assms(2) by (simp add: sums_ok_def)
  obtain p ps where p: "pm_freelist s ! fl = p # ps"
    using list_not_empty [OF assms(2,3)] by (cases "pm_freelist s ! fl") auto
  obtain s' where s': "pm_take_page fl s = Some (p, s')" "phys_inv s' (insert (p, 2 ^ fl) U) {}" "(p, 2 ^ fl) \<notin> U"
      "pm_freelist s' = (pm_freelist s)[fl := ps]" "pm_seglist s' = pm_seglist s"
    by (rule pm_take_page_ok [OF assms(1) p fl])
  have len: "fl < length (pm_freelist s)"
    using lists_hold_length(2) [OF phys_invD(2) [OF assms(1)] fl] fl by simp
  have below: "pages_below s' j = pages_below s j" if "j \<le> fl" for j
    using that by (intro pages_below_cong) (simp add: s'(4))
  then have "pages_below s (Suc fl) = pages_below s' (Suc fl) + 2 ^ fl"
    using len p by (simp add: pages_below_Suc s'(4))
  then have "sums_ok s' (n - 2 ^ fl) fl sums"
    using assms(2) below by (auto simp: sums_ok_def)
  then show ?thesis
    using s' by blast
qed

lemma pagelist_loop_ok:
  assumes "phys_inv s U {}" and "sums_ok s n fl sums"
  shows "\<exists>bs s'. pagelist_loop n fl sums pglist s = Some (pglist @ map fst bs, s') \<and> taken_blocks U n bs \<and> phys_inv s' (U \<union> set bs) {} \<and>
           pm_seglist s' = pm_seglist s"
  using assms
proof (induction "n + fl" arbitrary: n fl sums pglist s U rule: less_induct)
  case less
  note inv = less.prems(1) and ok = less.prems(2)
  consider "n = 0" | "0 < n" "n \<le> pages_below s fl" | "0 < n" "\<not> n \<le> pages_below s fl" "n < 2 ^ fl" | "0 < n" "\<not> n \<le> pages_below s fl" "\<not> n < 2 ^ fl"
    by linarith
  then show ?case
  proof cases
    case 1
    then show ?thesis
      using inv by (auto simp: pagelist_loop.simps taken_blocks_def intro!: exI [of _ "[]"])
  next
    case 2
    note st = pagelist_loop_step(1) [OF ok 2, of pglist]
    then show ?thesis
      using less.hyps [OF _ inv, of n "fl - 1" sums pglist] by simp
  next
    case 3
    note st = pagelist_loop_step(2) [OF ok 3, of pglist]
    then obtain f where f: "fl = Suc f"
      by (cases fl) auto
    obtain s1 where s1: "pm_split_page (Suc f) s = Some s1" "phys_inv s1 U {}" "pm_seglist s1 = pm_seglist s"
        "sums_ok s1 n f (sums[f := uadd (pages_below s (Suc f)) (2 ^ Suc f)])"
      using split_step [OF inv ok [unfolded f] 3(2,3) [unfolded f]] by blast
    then show ?thesis
      using less.hyps [OF _ s1(2,4), of pglist] st f by simp
  next
    case 4
    note st = pagelist_loop_step(3) [OF ok 4, of pglist]
    obtain p s1 where s1: "pm_take_page fl s = Some (p, s1)" "phys_inv s1 (insert (p, 2 ^ fl) U) {}" "(p, 2 ^ fl) \<notin> U" "pm_seglist s1 = pm_seglist s"
        "sums_ok s1 (n - 2 ^ fl) fl sums"
      using take_step [OF inv ok 4(2)] by blast
    have "n - 2 ^ fl + fl < n + fl"
      using 4(1) by simp
    then obtain bs s' where "pagelist_loop (n - 2 ^ fl) fl sums (pglist @ [p]) s1 = Some ((pglist @ [p]) @ map fst bs, s')"
        "taken_blocks (insert (p, 2 ^ fl) U) (n - 2 ^ fl) bs" "phys_inv s' (insert (p, 2 ^ fl) U \<union> set bs) {}" "pm_seglist s' = pm_seglist s1"
      using less.hyps [OF _ s1(2,5), of "pglist @ [p]"] by blast
    then show ?thesis
      using st s1 4(3) taken_blocks_Cons [OF s1(3), of "n - 2 ^ fl" bs] by (intro exI [of _ "(p, 2 ^ fl) # bs"] exI [of _ s']) simp
  qed
qed

lemma taken_free_pages:
  assumes inv: "phys_inv s U {}" "phys_inv s' (U \<union> set bs) {}" "pm_seglist s' = pm_seglist s" and bs: "taken_blocks U n bs"
  shows "(\<Union>r \<in> set bs. region r) \<subseteq> free_pages s" and "card (\<Union>r \<in> set bs. region r) = n" and "free_pages s' = free_pages s - (\<Union>r \<in> set bs. region r)"
proof -
  let ?R = "\<Union>r \<in> set bs. region r"
  have bU: "distinct bs" "set bs \<inter> U = {}" "sum_list (map snd bs) = n"
    using bs by (simp_all add: taken_blocks_def)
  have "?R \<subseteq> \<Union>(seg_ranges s')"
    using layoutD(6) [OF phys_invD(3) [OF inv(2)]] by blast
  moreover have "region r \<inter> region r' = {}" if "r \<in> set bs" "r' \<in> U" for r r'
    using block_disjoint [OF inv(2), of r r'] bU(2) that by blast
  ultimately show "?R \<subseteq> free_pages s"
    unfolding free_pages_eq [OF inv(1)] seg_ranges_cong [OF inv(3)] by blast
  show "free_pages s' = free_pages s - ?R"
    unfolding free_pages_eq [OF inv(1)] free_pages_eq [OF inv(2)] seg_ranges_cong [OF inv(3)] by blast
  have "card ?R = (\<Sum>r \<in> set bs. card (region r))"
    using block_disjoint [OF inv(2)] by (intro card_UN_disjoint) (auto simp: region_def)
  then show "card ?R = n"
    using bU(1,3) by (simp add: region_def sum_list_distinct_conv_sum_set)
qed

text \<open>
  C13: \<^verbatim>\<open>vm_pagelist_alloc\<close> succeeds exactly if at least the requested number of pages is free, however they are spread over the free lists.  Then it
  returns the blocks of exactly that many pages, all of which were free; these pages, and no others, stop being free, and no assertion fails on
  the way, in particular every list it takes a block from is not empty.  Otherwise it returns \<^verbatim>\<open>ENOMEM\<close> and changes nothing.
\<close>

theorem vm_pagelist_alloc_spec:
  assumes inv: "phys_inv s U {}"
  shows "if card (free_pages s) < n then vm_pagelist_alloc n s = Some (Some ENOMEM, [], s)
         else \<exists>bs s'. vm_pagelist_alloc n s = Some (None, map fst bs, s') \<and> phys_inv s' (U \<union> set bs) {} \<and> distinct bs \<and> set bs \<inter> U = {} \<and>
           (\<Union>r \<in> set bs. region r) \<subseteq> free_pages s \<and> card (\<Union>r \<in> set bs. region r) = n \<and> free_pages s' = free_pages s - (\<Union>r \<in> set bs. region r)"
proof -
  obtain fl avail sums where l: "sums_loop n 0 0 [] (pm_pagecount s) = (fl, avail, sums)"
    by (cases "sums_loop n 0 0 [] (pm_pagecount s)")
  have spec: "if avail < n then avail = card (free_pages s)
         else fl < PM_NQUEUES \<and> sums = map (\<lambda>j. pages_below s (Suc j)) [0..<Suc fl] \<and> avail = pages_below s (Suc fl)"
    by (rule sums_loop_spec [OF inv, of 0]) (use l in \<open>simp_all add: pages_below_def\<close>)
  show ?thesis
  proof (cases "avail < n")
    case True
    then show ?thesis
      using spec l by (simp add: vm_pagelist_alloc_def)
  next
    case False
    then have fl: "fl < PM_NQUEUES" "sums = map (\<lambda>j. pages_below s (Suc j)) [0..<Suc fl]" "n \<le> pages_below s (Suc fl)"
      using spec by simp_all
    have "\<not> card (free_pages s) < n"
      using fl(1,3) pages_below_mono [of "Suc fl" PM_NQUEUES s] pages_below_all [OF inv] by simp
    moreover have "sums_ok s n fl sums"
      using fl by (auto simp: sums_ok_def nth_append simp del: upt_Suc)
    then obtain bs s' where bs: "pagelist_loop n fl sums [] s = Some (map fst bs, s')" "taken_blocks U n bs" "phys_inv s' (U \<union> set bs) {}"
        "pm_seglist s' = pm_seglist s"
      using pagelist_loop_ok [OF inv, of n fl sums "[]"] by auto
    ultimately show ?thesis
      using False l taken_free_pages [OF inv bs(3,4,2)] by (auto simp: vm_pagelist_alloc_def taken_blocks_def intro!: exI [of _ bs] exI [of _ s'])
  qed
qed

theorem vm_pagelist_alloc_spec_witness:
  "vm_pagelist_alloc 5 small_memory = Some (Some ENOMEM, [], small_memory) \<and>
   (\<exists>bs s'. vm_pagelist_alloc 3 small_memory = Some (None, map fst bs, s') \<and> phys_inv s' (set bs) {} \<and> card (\<Union>r \<in> set bs. region r) = 3)"
proof -
  have "card (free_pages small_memory) = 4"
    by (simp add: free_pages_def small_memory_blocks region_def)
  then show ?thesis
    using vm_pagelist_alloc_spec [OF small_memory_inv, of 5] vm_pagelist_alloc_spec [OF small_memory_inv, of 3] by auto
qed

end
