(* ===== verification/PhysFree.thy ===== *)
theory PhysFree
  imports PhysLists
begin

text \<open>
  Freeing blocks of pages: the search for the segment, the merging of buddies, and the allocator as a provider of the contract of \<open>Regions\<close>.
\<close>

section \<open>Merging\<close>

text \<open>What \<open>pm_find_buddy\<close> returns is a free block next to the given one, of the same size and in the same segment.\<close>

lemma held_block:
  assumes inv: "phys_inv s U {(p, n)}"
  obtains k where "k \<le> PM_NQUEUES" and "n = 2 ^ k" and "p < length (pm_pages s)" and "psize s p = n" and "p \<notin> managed s" and "n \<le> 65536"
proof -
  obtain k where k: "k \<le> PM_NQUEUES" "n = 2 ^ k"
    using layoutD(5) [OF phys_invD(3) [OF inv], of "(p, n)"] by auto
  have pr: "p \<in> region (p, n)"
    using k(2) by (simp add: region_def)
  have "p \<notin> managed s"
    using managed_in_block [OF inv _ pr] layoutD(3) [OF phys_invD(3) [OF inv]] by (auto simp: block_managed)
  moreover have "(2::nat) ^ k \<le> 2 ^ PM_NQUEUES"
    using k(1) by (rule power_increasing) simp
  ultimately show thesis
    using that [OF k] block_in_range [OF inv _ pr] phys_invD(4) [OF inv] k(2) by (simp add: pages_ok_def PM_NQUEUES_def)
qed

lemma pm_find_buddy_ok:
  assumes inv: "phys_inv s U {(p, n)}" and seg: "seg \<in> set (pm_seglist s)" "p \<in> seg_range seg"
  shows "pm_find_buddy seg p s = Some None \<or>
    (\<exists>b. pm_find_buddy seg p s = Some (Some b) \<and> (b, n) \<in> blocks s \<and> b \<in> seg_range seg \<and> max p b = min p b + n)"
proof -
  obtain k where k: "n = 2 ^ k" "p < length (pm_pages s)" "psize s p = n" "n \<le> 65536"
    using held_block [OF inv] .
  have u: "u32 (2 * n) = 2 * n" "0 < n" and pw: "powerof2 n"
    using k(1,4) by (simp_all add: u32_exact)
  define bi where "bi = (if (int p - int (seg_pages seg)) mod (2 * int n) = 0 then int p + int n else int p - int n)"
  have eq: "pm_find_buddy seg p s = (if bi - int (seg_pages seg) < 0 \<or> bi - int (seg_pages seg) \<ge> int (seg_npages seg) then Some None
     else page_at s (nat bi) \<bind> (\<lambda>bg. if pg_size bg \<noteq> n then Some None else if PG_MANAGED \<notin> pg_flags bg then Some None else Some (Some (nat bi))))"
    using k(2,3) u pw by (simp add: pm_find_buddy_def page_at_Some psize_def bi_def Let_def cong: if_cong)
  show ?thesis
  proof (cases "bi - int (seg_pages seg) < 0 \<or> bi - int (seg_pages seg) \<ge> int (seg_npages seg)")
    case True
    then show ?thesis
      by (simp add: eq)
  next
    case False
    then have b: "nat bi \<in> seg_range seg" "0 \<le> bi"
      by (auto simp: seg_range_def)
    have l: "nat bi < length (pm_pages s)"
      using b(1) seg(1) phys_invD(1) [OF inv] by (auto simp: segs_ok_def seg_range_def)
    have "max p (nat bi) = min p (nat bi) + n"
      using b(2) by (auto simp: bi_def split: if_splits)
    then show ?thesis
      using False b(1) l by (auto simp: eq page_at_Some block_managed managed_def psize_def)
  qed
qed

lemma merge_step:
  assumes inv: "phys_inv s U {(p, n)}" and b: "(b, n) \<in> blocks s" "max p b = min p b + n" and R: "R \<in> seg_ranges s" "p \<in> R" "b \<in> R"
  shows "\<exists>s'. do { bg \<leftarrow> page_at s b; s \<leftarrow> freelist_remove (log2 (pg_size bg)) b s;
             pm_merge_buddies p b (set_page b (bg\<lparr>pg_flags := pg_flags bg - {PG_MANAGED}\<rparr>) s) } = Some (min p b, s') \<and>
           phys_inv s' U {(min p b, n + n)} \<and> pm_seglist s' = pm_seglist s"
proof -
  define q where "q = min p b"
  obtain k where k: "n = 2 ^ k" "p < length (pm_pages s)" "psize s p = n" "p \<notin> managed s" "n \<le> 65536"
    using held_block [OF inv] .
  have bm: "b \<in> managed s" "psize s b = n" "b < length (pm_pages s)" "b \<noteq> p"
    using b(1) k(4) by (auto simp: block_managed managed_def)
  obtain F C where r: "freelist_remove (log2 n) b s = Some (s\<lparr>pm_freelist := F, pm_pagecount := C\<rparr>)"
    and l1: "lists_hold (s\<lparr>pm_freelist := F, pm_pagecount := C\<rparr>) (managed s - {b}) (\<lambda>p. log2 (psize s p))"
    using freelist_remove_ok [OF phys_invD(2) [OF inv] bm(1), of "log2 n"] bm(2) by metis
  let ?s1 = "set_page b ((pm_pages s ! b)\<lparr>pg_flags := pg_flags (pm_pages s ! b) - {PG_MANAGED}\<rparr>) (s\<lparr>pm_freelist := F, pm_pagecount := C\<rparr>)"
  let ?s2 = "set_page q ((pm_pages ?s1 ! q)\<lparr>pg_size := n + n\<rparr>) ?s1"
  have l: "q < length (pm_pages ?s1)" "p < length (pm_pages ?s1)" "b < length (pm_pages ?s1)"
    using k(2) bm(3) by (simp_all add: q_def set_page_def)
  have v1: "managed ?s1 = managed s - {b}" "psize ?s1 = psize s" "is_alloc ?s1 = is_alloc s" "is_unmapped ?s1 = is_unmapped s"
    using bm(3) by (auto simp: phys_view fun_eq_iff)
  have sz: "pg_size (pm_pages ?s1 ! p) = n" "pg_size (pm_pages ?s1 ! b) = n"
    using page_sel(1) [OF l(2)] page_sel(1) [OF l(3)] k(3) bm(2) unfolding v1 by simp_all
  have u: "u32 (n * 2) = n + n"
    using k(5) by (simp add: u32_exact)
  have run: "pm_merge_buddies p b ?s1 = Some (q, ?s2)"
  proof (cases "p > b")
    case True
    then show ?thesis
      using b(2) sz u l by (simp add: pm_merge_buddies_def page_at_Some q_def)
  next
    case False
    then show ?thesis
      using b(2) sz u l by (simp add: pm_merge_buddies_def page_at_Some q_def)
  qed
  have qm: "q \<notin> managed ?s1"
    unfolding v1 using k(4) by (auto simp: q_def min_def)
  then have "PG_MANAGED \<notin> pg_flags (pm_pages ?s1 ! q)"
    using l(1) by (simp add: managed_def)
  moreover have "managed ?s1 - {q} = managed s - {b}"
    using qm v1(1) by auto
  ultimately have v2: "managed ?s2 = managed s - {b}" "psize ?s2 = (psize s)(q := n + n)" "is_alloc ?s2 = is_alloc s" "is_unmapped ?s2 = is_unmapped s"
    unfolding view_page [OF l(1)] using page_sel(2,3) [OF l(1)] v1 by (simp_all add: fun_upd_idem_iff)
  define B where "B = blocks s - {(b, n)}"
  have bB: "blocks s = insert (b, n) B" "(b, n) \<notin> B"
    using b(1) by (auto simp: B_def)
  have bl: "blocks ?s2 = B"
    using qm bm(2) unfolding v1 by (auto simp: set_eq_iff block_managed v2 B_def)
  have lay: "layout (seg_ranges s) B U {(q, n + n)}"
    by (rule layout_merge [OF phys_invD(3) [OF inv, unfolded bB(1)] bB(2) q_def b(2) [folded q_def] R])
  have seg: "pm_seglist ?s2 = pm_seglist s" "map pg_paddr (pm_pages ?s2) = map pg_paddr (pm_pages s)"
    using l(1) bm(3) by (simp_all add: paddr_set_page)
  have "lists_hold ?s2 (managed ?s2) (\<lambda>p. log2 (psize ?s2 p))"
    unfolding lists_hold_page v2 using l1 by (rule lists_hold_cong) (use qm v1(1) in auto)
  moreover have "pages_ok ?s2 U {(q, n + n)}"
  proof -
    have "q \<in> region (p, n) \<or> q \<in> region (b, n)"
      using k(1) by (auto simp: q_def region_def min_def)
    then have "fst r \<noteq> q" if "r \<in> U" for r
      using block_unique [OF inv, of "(p, n)" r] block_unique [OF inv, of "(b, n)" r] layoutD(3) [OF phys_invD(3) [OF inv]] b(1) that by auto
    moreover have "region (q, n + n) = region (p, n) \<union> region (b, n)"
      using b(2) by (auto simp: region_def q_def min_def max_def split: if_splits)
    ultimately show ?thesis
      using phys_invD(4) [OF inv] b(1) unfolding pages_ok_def bl v2 B_def by auto
  qed
  ultimately have "phys_inv ?s2 U {(q, n + n)}"
    using segs_ok_cong [OF seg] phys_invD(1) [OF inv] lay seg_ranges_cong [OF seg(1)] bl by (simp add: phys_inv_def)
  then show ?thesis
    using run r seg(1) bm(3) bm(2) by (simp add: page_at_Some page_sel q_def)
qed

lemma merge_loop_ok:
  assumes "phys_inv s U {(p, 2 ^ k)}" and "seg \<in> set (pm_seglist s)" and "\<not> seg_used seg" and "p \<in> seg_range seg" and "k \<le> PM_NQUEUES"
  shows "\<exists>p' k' s'. merge_loop seg p s = Some (p', s') \<and> phys_inv s' U {(p', 2 ^ k')} \<and> pm_seglist s' = pm_seglist s \<and> p' \<in> seg_range seg \<and> k \<le> k'"
  using assms
proof (induction "PM_NQUEUES - k" arbitrary: p k s rule: less_induct)
  case less
  note inv = less.prems(1)
  have R: "seg_range seg \<in> seg_ranges s"
    using less.prems(2,3) by (auto simp: seg_ranges_def)
  consider "pm_find_buddy seg p s = Some None"
    | b where "pm_find_buddy seg p s = Some (Some b)" "(b, 2 ^ k) \<in> blocks s" "b \<in> seg_range seg" "max p b = min p b + 2 ^ k"
    using pm_find_buddy_ok [OF inv less.prems(2,4)] by blast
  then show ?case
  proof cases
    case 1
    then show ?thesis
      using less.prems by (subst merge_loop.simps) auto
  next
    case (2 b)
    have k: "k < PM_NQUEUES"
      using layoutD(4) [OF phys_invD(3) [OF inv], of "(b, 2 ^ k)"] 2(2) by auto
    obtain s1 where s1: "do { bg \<leftarrow> page_at s b; s \<leftarrow> freelist_remove (log2 (pg_size bg)) b s;
             pm_merge_buddies p b (set_page b (bg\<lparr>pg_flags := pg_flags bg - {PG_MANAGED}\<rparr>) s) } = Some (min p b, s1)"
        "phys_inv s1 U {(min p b, 2 ^ k + 2 ^ k)}" "pm_seglist s1 = pm_seglist s"
      using merge_step [OF inv 2(2,4) R less.prems(4) 2(3)] by blast
    have "merge_loop seg p s = merge_loop seg (min p b) s1"
      using 2(1) s1(1) by (subst merge_loop.simps) (auto simp: bind_eq_Some_conv)
    moreover have "min p b \<in> seg_range seg" "PM_NQUEUES - Suc k < PM_NQUEUES - k" "phys_inv s1 U {(min p b, 2 ^ Suc k)}"
      using less.prems(4) 2(3) k s1(2) by (auto simp: min_def mult_2)
    ultimately show ?thesis
      using less.hyps [of "Suc k" s1 "min p b"] s1(3) less.prems(2,3) k by (auto simp: Suc_le_eq simp del: power_Suc dest: less_imp_le)
  qed
qed

section \<open>Freeing a block\<close>

lemma hold_block:
  assumes inv: "phys_inv s U {}" and r: "r \<in> U" and un: "\<forall>i \<in> region r. is_unmapped s i"
  shows "phys_inv s (U - {r}) {r}"
proof -
  have "layout (seg_ranges s) (blocks s) (U - {r}) {r}"
    using layout_hold [of "seg_ranges s" "blocks s" r "U - {r}"] phys_invD(3) [OF inv] r by (simp add: insert_absorb)
  moreover have "pages_ok s (U - {r}) {r}"
    using phys_invD(4) [OF inv] r un by (auto simp: pages_ok_def)
  ultimately show ?thesis
    using phys_invD(1,2) [OF inv] by (simp add: phys_inv_def)
qed

lemma put_block:
  assumes inv: "phys_inv s U {(p, 2 ^ k)}" and k: "k < PM_NQUEUES"
  shows "\<exists>s'. do { pg \<leftarrow> page_at s p; s \<leftarrow> freelist_insert (log2 (pg_size pg)) p s;
             flag_loop (\<lambda>f. f - {PG_ALLOCATED} - {PG_REFERENCED, PG_MODIFIED}) True p (pg_size pg)
               (set_page p (pg\<lparr>pg_flags := insert PG_MANAGED (pg_flags pg)\<rparr>) s) } = Some s' \<and>
           phys_inv s' U {} \<and> pm_seglist s' = pm_seglist s"
proof -
  let ?r = "(p, 2 ^ k)" and ?f = "\<lambda>f. f - {PG_ALLOCATED} - {PG_REFERENCED, PG_MODIFIED}"
  have p: "p < length (pm_pages s)" "psize s p = 2 ^ k" "p \<notin> managed s"
    using held_block [OF inv] by blast+
  have rl: "p + 2 ^ k \<le> length (pm_pages s)"
    using block_end [OF inv] by blast
  have un: "\<forall>i \<in> region ?r. is_unmapped s i"
    using phys_invD(4) [OF inv] by (simp add: pages_ok_def)
  have idx: "log2 (psize s p) = k"
    by (simp add: p(2))
  obtain F C where i: "freelist_insert k p s = Some (s\<lparr>pm_freelist := F, pm_pagecount := C\<rparr>)"
    and l1: "lists_hold (s\<lparr>pm_freelist := F, pm_pagecount := C\<rparr>) (insert p (managed s)) (\<lambda>p. log2 (psize s p))"
    by (rule freelist_insert_ok [OF phys_invD(2) [OF inv] p(3) idx k p(1)])
  let ?s1 = "set_page p ((pm_pages s ! p)\<lparr>pg_flags := insert PG_MANAGED (pg_flags (pm_pages s ! p))\<rparr>) (s\<lparr>pm_freelist := F, pm_pagecount := C\<rparr>)"
  let ?s2 = "?s1\<lparr>pm_pages := flag_pages ?f p (2 ^ k) (pm_pages ?s1)\<rparr>"
  have v1: "managed ?s1 = insert p (managed s)" "psize ?s1 = psize s" "is_alloc ?s1 = is_alloc s" "is_unmapped ?s1 = is_unmapped s"
    using p(1) by (auto simp: phys_view fun_eq_iff)
  have fl: "p + 2 ^ k \<le> length (pm_pages ?s1)" "pm_pages ?s2 = flag_pages ?f p (2 ^ k) (pm_pages ?s1)" "\<And>F. PG_MANAGED \<in> ?f F \<longleftrightarrow> PG_MANAGED \<in> F"
    using rl by (auto simp: set_page_def)
  have run: "flag_loop ?f True p (2 ^ k) ?s1 = Some ?s2"
    using fl(1) un by (intro flag_loop_ok) (simp_all only: v1 simp_thms)
  note vf = view_flags [OF fl]
  have v2: "managed ?s2 = insert p (managed s)" "psize ?s2 = psize s" "is_unmapped ?s2 = is_unmapped s"
    by (simp_all only: vf v1)
  have al: "is_alloc ?s2 q \<longleftrightarrow> q \<notin> region ?r \<and> is_alloc s q" for q
    unfolding vf(4) v1 by simp
  have bl: "blocks ?s2 = insert ?r (blocks s)"
    using p(2) by (auto simp: set_eq_iff block_managed v2)
  have seg: "pm_seglist ?s2 = pm_seglist s" "map pg_paddr (pm_pages ?s2) = map pg_paddr (pm_pages s)"
    using p(1) by (simp_all add: set_page_def map_update list_update_same_conv)
  have "lists_hold ?s2 (managed ?s2) (\<lambda>p. log2 (psize ?s2 p))"
    using l1 unfolding v2 by (simp add: lists_hold_def set_page_def)
  moreover have "pages_ok ?s2 U {}"
  proof -
    have "i \<notin> region ?r" if "r' \<in> U" "i \<in> region r'" for r' i
      using block_disjoint [OF inv, of ?r r'] layoutD(3) [OF phys_invD(3) [OF inv]] that by auto
    then show ?thesis
      using phys_invD(4) [OF inv] un unfolding pages_ok_def bl v2 al by auto
  qed
  moreover have "segs_ok ?s2" "layout (seg_ranges ?s2) (blocks ?s2) U {}"
    using segs_ok_cong [OF seg] phys_invD(1) [OF inv] layout_put [OF phys_invD(3) [OF inv] k] seg_ranges_cong [OF seg(1)] bl by simp_all
  ultimately have "phys_inv ?s2 U {}"
    by (simp only: phys_inv_def)
  then show ?thesis
    using i run seg(1) p(1,2) by (intro exI [of _ ?s2]) (simp add: page_at_Some page_sel)
qed

text \<open>No segment that is managed holds a block of \<open>2 ^ PM_NQUEUES\<close> pages; merging would otherwise leave the array of free lists.\<close>

definition small_segs :: "physmem \<Rightarrow> bool" where
  "small_segs s \<longleftrightarrow> (\<forall>seg \<in> set (pm_seglist s). \<not> seg_used seg \<longrightarrow> seg_npages seg < 2 ^ PM_NQUEUES)"

lemma pm_free_from_seg_ok:
  assumes inv: "phys_inv s U {}" and r: "(p, n) \<in> U" "\<forall>i \<in> region (p, n). is_unmapped s i" and small: "small_segs s"
    and seg: "seg \<in> set (pm_seglist s)" "\<not> seg_used seg" "p \<in> seg_range seg"
  shows "\<exists>s'. pm_free_from_seg seg p s = Some s' \<and> phys_inv s' (U - {(p, n)}) {} \<and> pm_seglist s' = pm_seglist s"
proof -
  note held = hold_block [OF inv r]
  obtain k where k: "k \<le> PM_NQUEUES" "n = 2 ^ k" "p < length (pm_pages s)"
    using held_block [OF held] .
  have al: "PG_ALLOCATED \<in> pg_flags (pm_pages s ! p)"
    using phys_invD(4) [OF inv] r(1) k(2) page_sel(2) [OF k(3)] by (fastforce simp: pages_ok_def region_def)
  obtain p' k' s1 where s1: "merge_loop seg p s = Some (p', s1)" "phys_inv s1 (U - {(p, n)}) {(p', 2 ^ k')}" "pm_seglist s1 = pm_seglist s" "p' \<in> seg_range seg"
    using merge_loop_ok [OF held [unfolded k(2)] seg k(1)] k(2) by blast
  have "seg_range seg \<in> seg_ranges s1"
    using seg(1,2) s1(3) by (auto simp: seg_ranges_def)
  then have "region (p', 2 ^ k') \<subseteq> seg_range seg"
    using layout_within [OF phys_invD(3) [OF s1(2)]] s1(4) by blast
  then have "2 ^ k' \<le> seg_npages seg"
    using card_mono [of "seg_range seg" "region (p', 2 ^ k')"] by (simp add: seg_range_def region_def)
  moreover have "seg_npages seg < 2 ^ PM_NQUEUES"
    using small seg(1,2) by (simp add: small_segs_def)
  ultimately have "(2::nat) ^ k' < 2 ^ PM_NQUEUES"
    by linarith
  then have "k' < PM_NQUEUES"
    by simp
  from put_block [OF s1(2) this] show ?thesis
    using s1(1,3) al k(3) by (simp add: pm_free_from_seg_def page_at_Some)
qed

lemma free_search_eq:
  assumes "seg \<in> set segs" and "seg_start seg \<le> pg_paddr pg \<and> PG_END pg \<le> seg_end seg"
    and "\<And>seg'. seg' \<in> set segs \<Longrightarrow> seg_start seg' \<le> pg_paddr pg \<Longrightarrow> PG_END pg \<le> seg_end seg' \<Longrightarrow> seg' = seg"
  shows "free_search segs p pg s = pm_free_from_seg seg p s"
  using assms
proof (induction segs)
  case (Cons seg' segs)
  show ?case
  proof (cases "seg_start seg' \<le> pg_paddr pg \<and> PG_END pg \<le> seg_end seg'")
    case True
    then show ?thesis
      using Cons.prems(3) [of seg'] by simp
  next
    case False
    then have "seg \<in> set segs"
      using Cons.prems(1,2) by auto
    then show ?thesis
      using Cons.IH [OF _ Cons.prems(2)] Cons.prems(3) False by (simp only: free_search.simps if_False) simp
  qed
qed simp

lemma vm_page_free_eq:
  assumes inv: "phys_inv s U {}" and r: "(p, n) \<in> U"
  obtains seg where "seg \<in> set (pm_seglist s)" and "\<not> seg_used seg" and "p \<in> seg_range seg" and "vm_page_free p s = pm_free_from_seg seg p s"
proof -
  obtain seg where seg: "seg \<in> set (pm_seglist s)" "\<not> seg_used seg" "region (p, n) \<subseteq> seg_range seg"
    using layoutD(6) [OF phys_invD(3) [OF inv], of "(p, n)"] r by (auto simp: seg_ranges_def)
  obtain k where k: "k < PM_NQUEUES" "n = 2 ^ k"
    using layoutD(4) [OF phys_invD(3) [OF inv], of "(p, n)"] r by auto
  have "(2::nat) ^ k < 2 ^ PM_NQUEUES"
    using k(1) by simp
  then have n: "n < 65536" "0 < n"
    by (simp_all add: k(2) PM_NQUEUES_def)
  define i where "i = p - seg_pages seg"
  have "p \<in> region (p, n)" "p + n - 1 \<in> region (p, n)"
    using n(2) by (simp_all add: region_def)
  then have i: "p = seg_pages seg + i" "i + n \<le> seg_npages seg" "p \<in> seg_range seg" "p < length (pm_pages s)"
    using seg(3) block_in_range [OF inv, of "(p, n)" p] r n(2) by (auto simp: seg_range_def i_def subset_iff)
  let ?pg = "pm_pages s ! p"
  have so: "seg_end seg = seg_start seg + seg_npages seg * PAGESIZE" "seg_end seg < 2 ^ 64" "pg_paddr ?pg = seg_start seg + i * PAGESIZE"
    using phys_invD(1) [OF inv] seg(1) i(1,2) n(2) by (auto simp: segs_ok_def)
  have sz: "PG_SIZE ?pg = n * PAGESIZE"
    using phys_invD(4) [OF inv] r n(1) page_sel(1) [OF i(4)] by (auto simp: PG_SIZE_def pages_ok_def PAGESIZE_def u32_exact)
  have "(i + n) * PAGESIZE \<le> seg_npages seg * PAGESIZE"
    using i(2) by (rule mult_le_mono1)
  then have e: "pg_paddr ?pg + n * PAGESIZE \<le> seg_end seg"
    unfolding so by (simp add: distrib_right)
  then have "PG_END ?pg = pg_paddr ?pg + n * PAGESIZE"
    using so(2) by (simp add: PG_END_def sz uadd_exact)
  moreover have pos: "0 < n * PAGESIZE"
    using n(2) by (simp add: PAGESIZE_def)
  moreover have "seg' = seg" if "seg' \<in> set (pm_seglist s)" "pg_paddr ?pg \<in> {seg_start seg'..<seg_end seg'}" for seg'
  proof -
    have "pg_paddr ?pg \<in> {seg_start seg..<seg_end seg}"
      using e pos so(3) unfolding atLeastLessThan_iff by linarith
    then show ?thesis
      using phys_invD(1) [OF inv] seg(1) that unfolding segs_ok_def by blast
  qed
  ultimately have "free_search (pm_seglist s) p ?pg s = pm_free_from_seg seg p s"
    using e so(3) by (intro free_search_eq [OF seg(1)]) (simp_all del: nat_0_less_mult_iff)
  then show thesis
    using that seg(1,2) i(3,4) by (simp add: vm_page_free_def page_at_Some)
qed

lemma vm_page_free_ok:
  assumes inv: "phys_inv s U {}" and r: "(p, n) \<in> U" "\<forall>i \<in> region (p, n). is_unmapped s i" and small: "small_segs s"
  shows "\<exists>s'. vm_page_free p s = Some s' \<and> phys_inv s' (U - {(p, n)}) {} \<and> pm_seglist s' = pm_seglist s"
proof -
  obtain seg where seg: "seg \<in> set (pm_seglist s)" "\<not> seg_used seg" "p \<in> seg_range seg" and eq: "vm_page_free p s = pm_free_from_seg seg p s"
    by (rule vm_page_free_eq [OF inv r(1)])
  then show ?thesis
    using pm_free_from_seg_ok [OF inv r small seg] by simp
qed

lemma vm_page_free_twice:
  assumes inv: "phys_inv s U {}" and p: "p \<in> free_pages s"
  shows "vm_page_free p s = None"
proof -
  have "\<not> is_alloc s p" "p < length (pm_pages s)"
    using phys_invD(4) [OF inv] p free_pages_finite(1) [OF inv] by (auto simp: pages_ok_def free_pages_def)
  then have "pm_free_from_seg seg p s = None" for seg
    by (simp add: pm_free_from_seg_def page_at_Some page_sel)
  then have "free_search segs p pg s = None" for segs pg
    by (induction segs) simp_all
  then show ?thesis
    by (cases "page_at s p") (simp_all add: vm_page_free_def)
qed

section \<open>The allocator as a provider of regions\<close>

lemma powerof2_iff:
  assumes "0 < n"
  shows "powerof2 n \<longleftrightarrow> (\<exists>k. n = 2 ^ k)"
proof
  assume p: "powerof2 n"
  define k where "k = log2 n"
  have k: "2 ^ k \<le> n" "n < 2 ^ Suc k"
    using assms by (simp_all add: k_def log2_le del: power_Suc)
  have "n = 2 ^ k"
  proof (rule ccontr)
    assume "n \<noteq> 2 ^ k"
    then have "2 ^ k \<le> n - 1" "n - 1 < 2 ^ Suc k"
      using k by linarith+
    then have "(n - 1) div 2 ^ k = 1" "n div 2 ^ k = 1"
      using k by (auto intro!: div_nat_eqI)
    then have "bit (n - 1) k" "bit n k"
      by (simp_all add: bit_iff_odd)
    then have "bit (int (n - 1) AND int n) k"
      by (simp add: bit_and_iff bit_of_nat_iff)
    moreover have "int (n - 1) = int n - 1"
      using assms by simp
    ultimately show False
      using p by (simp add: powerof2_def)
  qed
  then show "\<exists>k. n = 2 ^ k"
    by blast
qed auto

text \<open>
  The steps of the system: an allocation, a request that is refused, the release of a block none of whose pages is mapped, and a change of the
  mappings of a page in use, which is the business of the other parts of the kernel.
\<close>

inductive phys_step :: "physmem \<times> (nat \<times> nat) set \<Rightarrow> region_event \<Rightarrow> physmem \<times> (nat \<times> nat) set \<Rightarrow> bool" where
  phys_take: "vm_page_alloc n s = Some (Some p, s') \<Longrightarrow> phys_step (s, U) (Taken p n) (s', insert (p, n) U)"
| phys_none: "vm_page_alloc n s = Some (None, s') \<Longrightarrow> phys_step (s, U) Refused (s', U)"
| phys_free: "(p, n) \<in> U \<Longrightarrow> \<forall>i \<in> region (p, n). is_unmapped s i \<Longrightarrow> vm_page_free p s = Some s' \<Longrightarrow> phys_step (s, U) (Released p n) (s', U - {(p, n)})"
| phys_map: "r \<in> U \<Longrightarrow> i \<in> region r \<Longrightarrow> phys_step (s, U) Refused (set_page i ((pm_pages s ! i)\<lparr>pg_pv := l\<rparr>) s, U)"

inductive_simps phys_step_taken: "phys_step (s, U) (Taken p n) x"
inductive_simps phys_step_released: "phys_step (s, U) (Released p n) x"
inductive_simps phys_step_refused: "phys_step (s, U) Refused x"

definition phys_ok :: "physmem \<times> (nat \<times> nat) set \<Rightarrow> bool" where
  "phys_ok x \<longleftrightarrow> phys_inv (fst x) (snd x) {} \<and> small_segs (fst x)"

definition phys_space :: "physmem \<times> (nat \<times> nat) set \<Rightarrow> nat set" where
  "phys_space x = \<Union>(seg_ranges (fst x))"

lemma small_segs_cong: "pm_seglist s' = pm_seglist s \<Longrightarrow> small_segs s' = small_segs s"
  by (simp add: small_segs_def)

lemma alloc_inv:
  assumes "phys_inv s U {}" and "vm_page_alloc n s = Some (q, s')"
  shows "pm_seglist s' = pm_seglist s \<and> (case q of None \<Rightarrow> s' = s | Some p \<Rightarrow> phys_inv s' (insert (p, n) U) {} \<and> (p, n) \<notin> U)"
proof -
  have "0 < n" "powerof2 n"
    using assms(2) by (auto simp: vm_page_alloc_def bind_eq_Some_conv)
  then obtain k where k: "n = 2 ^ k"
    using powerof2_iff by blast
  show ?thesis
    using vm_page_alloc_run [OF assms(1) k] assms(2) by (cases "\<forall>r \<in> blocks s. snd r < n") auto
qed

lemma mapping_inv:
  assumes inv: "phys_inv s U {}" and r: "r \<in> U" "i \<in> region r"
  shows "phys_inv (set_page i ((pm_pages s ! i)\<lparr>pg_pv := l\<rparr>) s) U {}"
proof -
  let ?s = "set_page i ((pm_pages s ! i)\<lparr>pg_pv := l\<rparr>) s"
  have i: "i < length (pm_pages s)"
    using block_in_range [OF inv _ r(2)] r(1) by blast
  have v: "managed ?s = managed s" "psize ?s = psize s" "is_alloc ?s = is_alloc s" "is_unmapped ?s = (is_unmapped s)(i := l = [])"
    using i by (auto simp: managed_def psize_def is_alloc_def is_unmapped_def set_page_def nth_list_update fun_eq_iff)
  have bl: "blocks ?s = blocks s"
    by (simp add: blocks_def v)
  have "i \<notin> region r'" if "r' \<in> blocks s" for r'
    using block_disjoint [OF inv, of r r'] layoutD(3) [OF phys_invD(3) [OF inv]] r that by blast
  then have "pages_ok ?s U {}"
    using phys_invD(4) [OF inv] unfolding pages_ok_def bl v by auto
  moreover have "segs_ok ?s"
    using segs_ok_cong [of ?s s] paddr_set_page [OF i] phys_invD(1) [OF inv] by simp
  ultimately show ?thesis
    using phys_invD(2,3) [OF inv] by (simp add: phys_inv_def v bl seg_ranges_def)
qed

lemma phys_step_inv:
  assumes ok: "phys_ok x" and st: "phys_step x e y"
  shows "phys_ok y \<and> phys_space y = phys_space x"
proof -
  have *: "phys_inv (fst y) (snd y) {} \<and> pm_seglist (fst y) = pm_seglist (fst x)"
    using st ok
  proof cases
    case (phys_free p n U s s')
    then show ?thesis
      using vm_page_free_ok [of s U p n] ok by (auto simp: phys_ok_def)
  qed (use alloc_inv mapping_inv in \<open>fastforce simp: phys_ok_def\<close>)+
  then have "small_segs (fst y) = small_segs (fst x)" "seg_ranges (fst y) = seg_ranges (fst x)"
    using small_segs_cong seg_ranges_cong by blast+
  then show ?thesis
    using * ok by (simp add: phys_ok_def phys_space_def)
qed

interpretation phys: region_allocator phys_ok phys_space snd phys_step
proof unfold_locales
  show "phys_ok y \<and> phys_space y = phys_space x" if "phys_ok x" "phys_step x e y" for x e y
    using phys_step_inv [OF that] .
next
  fix x :: "physmem \<times> (nat \<times> nat) set" and p n y
  assume ok: "phys_ok x" and st: "phys_step x (Taken p n) y"
  obtain s U s' where x: "x = (s, U)" "vm_page_alloc n s = Some (Some p, s')" "y = (s', insert (p, n) U)"
    using st by cases auto
  have i: "phys_inv s U {}" "phys_inv s' (insert (p, n) U) {}" "(p, n) \<notin> U" "pm_seglist s' = pm_seglist s"
    using alloc_inv [OF _ x(2)] ok by (auto simp: phys_ok_def x(1))
  show "0 < n \<and> region (p, n) \<subseteq> phys_space x \<and> (\<forall>r \<in> snd x. region (p, n) \<inter> region r = {}) \<and> snd y = insert (p, n) (snd x)"
    using free_pages_take(1) [OF i] layoutD(7) [OF phys_invD(3) [OF i(2)], of "(p, n)"] unfolding free_pages_eq [OF i(1)] x phys_space_def by auto
next
  show "(p, n) \<in> snd x \<and> snd y = snd x - {(p, n)}" if "phys_ok x" "phys_step x (Released p n) y" for x p n y
    using that(2) by cases auto
next
  show "snd y = snd x" if "phys_ok x" "phys_step x Refused y" for x y
    using that(2) by cases auto
qed

section \<open>Properties of freeing\<close>

text \<open>The memory of four pages after all of them were taken.\<close>

definition used_memory :: physmem where
  "used_memory = small_memory\<lparr>pm_freelist := replicate PM_NQUEUES [], pm_pagecount := replicate PM_NQUEUES 0,
     pm_pages := [\<lparr>pg_pv = [], pg_paddr = 16384, pg_flags = {PG_ALLOCATED}, pg_size = 4\<rparr>, \<lparr>pg_pv = [], pg_paddr = 20480, pg_flags = {PG_ALLOCATED}, pg_size = 1\<rparr>,
       \<lparr>pg_pv = [], pg_paddr = 24576, pg_flags = {PG_ALLOCATED}, pg_size = 2\<rparr>, \<lparr>pg_pv = [], pg_paddr = 28672, pg_flags = {PG_ALLOCATED}, pg_size = 1\<rparr>]\<rparr>"

lemma small_memory_alloc: "vm_page_alloc 4 small_memory = Some (Some 0, used_memory)"
proof -
  have p: "log2 4 = 2" "powerof2 4"
    using log2_power [of 2] powerof2_power [of 2] by simp_all
  have f: "pm_freelist small_memory ! 2 = [0]" "pm_pages small_memory ! 0 = \<lparr>pg_pv = [], pg_paddr = 16384, pg_flags = {PG_MANAGED}, pg_size = 4\<rparr>"
    by (simp_all add: small_memory_def PM_NQUEUES_def)
  have "first_nonempty 2 small_memory = 2"
    using f(1) by (subst first_nonempty.simps) simp
  moreover have "split_loop 2 2 small_memory = Some (2, small_memory)"
    by (subst split_loop.simps) simp
  moreover have "pm_take_page 2 small_memory = Some (0, used_memory)"
  proof -
    have "freelist_first 2 small_memory = Some 0"
      using f(1) by (simp add: freelist_first_def PM_NQUEUES_def)
    moreover have "freelist_remove 2 0 small_memory = Some (small_memory\<lparr>pm_freelist := replicate PM_NQUEUES [], pm_pagecount := replicate PM_NQUEUES 0\<rparr>)"
      using f(1) usub_exact [of 1 1] by (simp add: freelist_remove_def small_memory_def PM_NQUEUES_def list_update_same_conv)
    moreover define s1 where "s1 = set_page 0 ((pm_pages small_memory ! 0)\<lparr>pg_flags := {}\<rparr>)
        (small_memory\<lparr>pm_freelist := replicate PM_NQUEUES [], pm_pagecount := replicate PM_NQUEUES 0\<rparr>)"
    have four: "(4::nat) = Suc (Suc (Suc (Suc 0)))"
      by simp
    have "flag_loop (insert PG_ALLOCATED) False 0 4 s1 = Some used_memory"
      by (subst four) (simp add: s1_def page_at_def set_page_def used_memory_def small_memory_def)
    ultimately show ?thesis
      using f(2) small_memory_length by (auto simp: pm_take_page_def page_at_def s1_def)
  qed
  ultimately show ?thesis
    using p by (simp add: vm_page_alloc_def PM_NQUEUES_def)
qed

lemma used_memory_inv: "phys_inv used_memory {(0, 4)} {}" "small_segs used_memory" "\<forall>i \<in> region (0, 4). is_unmapped used_memory i"
proof -
  show "phys_inv used_memory {(0, 4)} {}"
    using alloc_inv [OF small_memory_inv small_memory_alloc] by simp
  show "small_segs used_memory"
    by (simp add: small_segs_def used_memory_def small_memory_def PM_NQUEUES_def)
  show "\<forall>i \<in> region (0, 4). is_unmapped used_memory i"
    unfolding region_def is_unmapped_def by (auto simp: less_four used_memory_def)
qed

lemma free_pages_give:
  assumes "phys_inv s U {}" and "phys_inv s' (U - {r}) {}" and "r \<in> U" and "pm_seglist s' = pm_seglist s"
  shows "free_pages s' = free_pages s \<union> region r"
  using free_pages_take [of s' "U - {r}" s r] assms by (auto simp: insert_absorb)




lemma reuse_trace:
  "\<exists>b y. phys.trace (small_memory, {}) ([] @ Taken 0 4 # [Released 0 4] @ Taken b 1 # []) y \<and> region (0, 4) \<inter> region (b, 1) \<noteq> {}"
proof -
  obtain s where s: "vm_page_free 0 used_memory = Some s" "phys_inv s {} {}" "pm_seglist s = pm_seglist used_memory"
    using vm_page_free_ok [OF used_memory_inv(1) _ used_memory_inv(3,2)] by auto
  have free: "free_pages s = free_pages used_memory \<union> region (0, 4)"
    by (rule free_pages_give [OF used_memory_inv(1) _ _ s(3)]) (use s(2) in simp_all)
  have "seg_ranges s = {{0..<4}}"
    using s(3) by (simp add: seg_ranges_def seg_range_def used_memory_def small_memory_def Collect_conv_if)
  then have fs: "free_pages s \<subseteq> region (0, 4)"
    unfolding free_pages_eq [OF s(2)] by (auto simp: region_def)
  have "0 \<in> free_pages s"
    by (simp add: free region_def)
  then have "\<not> (\<forall>r \<in> blocks s. snd r < 2 ^ 0)"
    by (auto simp: free_pages_def region_def)
  then obtain b s' where a: "vm_page_alloc (2 ^ 0) s = Some (Some b, s')" "phys_inv s' (insert (b, 2 ^ 0) {}) {}" "pm_seglist s' = pm_seglist s"
    using vm_page_alloc_run [OF s(2) refl, of 0] by metis
  have "region (b, 1) \<subseteq> region (0, 4)"
    using free_pages_take(1) [OF s(2) a(2) _ a(3)] fs by simp
  then have "region (0, 4) \<inter> region (b, 1) \<noteq> {}"
    by (auto simp: region_def)
  moreover have "phys_step (small_memory, {}) (Taken 0 4) (used_memory, {(0, 4)})" "phys_step (used_memory, {(0, 4)}) (Released 0 4) (s, {})"
      "phys_step (s, {}) (Taken b 1) (s', {(b, 1)})"
    using phys_take [OF small_memory_alloc, of "{}"] phys_free [OF _ used_memory_inv(3) s(1), of "{(0, 4)}"] phys_take [OF a(1), of "{}"] by simp_all
  then have "phys.trace (small_memory, {}) ([] @ Taken 0 4 # [Released 0 4] @ Taken b 1 # []) (s', {(b, 1)})"
    by (auto intro: phys.trace_nil phys.trace_cons)
  ultimately show ?thesis
    by blast
qed


lemma seg_unique:
  assumes "segs_ok s" and "seg \<in> set (pm_seglist s)" and "seg' \<in> set (pm_seglist s)" and "p \<in> seg_range seg" and "p \<in> seg_range seg'"
  shows "seg = seg'"
proof -
  have "pg_paddr (pm_pages s ! p) \<in> {seg_start seg..<seg_end seg}" if "seg \<in> set (pm_seglist s)" "p \<in> seg_range seg" for seg
  proof -
    define i where "i = p - seg_pages seg"
    have i: "p = seg_pages seg + i" "i < seg_npages seg"
      using that(2) by (auto simp: seg_range_def i_def)
    then show ?thesis
      using assms(1) that(1) by (auto simp: segs_ok_def PAGESIZE_def)
  qed
  then show ?thesis
    using assms unfolding segs_ok_def by blast
qed

lemma find_right_buddy:
  assumes p: "p < length (pm_pages s)" "psize s p = 2 ^ 15" and b: "(p + 2 ^ 15, 2 ^ 15) \<in> blocks s"
    and seg: "p \<in> seg_range seg" "p + 2 ^ 15 \<in> seg_range seg" "(p - seg_pages seg) mod 2 ^ 16 = 0"
  shows "pm_find_buddy seg p s = Some (Some (p + 2 ^ 15))"
proof -
  have "int p - int (seg_pages seg) = int (p - seg_pages seg)"
    using seg(1) by (simp add: seg_range_def)
  also have "\<dots> mod 65536 = int ((p - seg_pages seg) mod 65536)"
    by (simp add: zmod_int)
  finally have m: "(int p - int (seg_pages seg)) mod 65536 = 0"
    using seg(3) by simp
  have u: "u32 65536 = 65536" "powerof2 32768"
    using powerof2_power [of 15] by (simp_all add: u32_exact)
  have "nat (int p + 32768) = p + 32768"
    by (simp add: nat_add_distrib)
  moreover have "p + 32768 < length (pm_pages s)" "pg_size (pm_pages s ! (p + 32768)) = 32768" "PG_MANAGED \<in> pg_flags (pm_pages s ! (p + 32768))"
    using b by (auto simp: block_managed managed_def psize_def)
  ultimately show ?thesis
    using p seg(2) m u by (auto simp: pm_find_buddy_def page_at_Some psize_def seg_range_def Let_def)
qed

text \<open>
  C24: Merging has no upper limit.  Freeing a block of \<open>2 ^ 15\<close> pages whose buddy of the same size is free makes a block of \<open>2 ^ 16\<close> pages, for
  which there is no free list: the index is one past the end of the arrays, and \<^verbatim>\<open>vm_page_free\<close> accesses memory out of bounds.
\<close>

theorem vm_page_free_overflow:
  assumes inv: "phys_inv s U {}" and r: "(p, 2 ^ 15) \<in> U" "\<forall>i \<in> region (p, 2 ^ 15). is_unmapped s i" and b: "(p + 2 ^ 15, 2 ^ 15) \<in> blocks s"
    and seg: "seg \<in> set (pm_seglist s)" "\<not> seg_used seg" "p \<in> seg_range seg" "p + 2 ^ 15 \<in> seg_range seg" "(p - seg_pages seg) mod 2 ^ 16 = 0"
  shows "vm_page_free p s = None"
proof -
  let ?b = "p + 2 ^ 15" and ?U = "U - {(p, 2 ^ 15)}"
  note held = hold_block [OF inv r]
  obtain seg' where "seg' \<in> set (pm_seglist s)" "p \<in> seg_range seg'" "vm_page_free p s = pm_free_from_seg seg' p s"
    by (rule vm_page_free_eq [OF inv r(1)])
  then have free: "vm_page_free p s = pm_free_from_seg seg p s"
    using seg_unique [OF phys_invD(1) [OF inv] _ seg(1) _ seg(3)] by blast
  have p: "p < length (pm_pages s)" "psize s p = 2 ^ 15"
    using held_block [OF held] by blast+
  have buddy: "pm_find_buddy seg p s = Some (Some ?b)"
    by (rule find_right_buddy [OF p _ seg(3-5)]) (use b in simp_all)
  have R: "seg_range seg \<in> seg_ranges s"
    using seg(1,2) by (auto simp: seg_ranges_def)
  obtain s1 where s1: "do { bg \<leftarrow> page_at s ?b; s \<leftarrow> freelist_remove (log2 (pg_size bg)) ?b s;
             pm_merge_buddies p ?b (set_page ?b (bg\<lparr>pg_flags := pg_flags bg - {PG_MANAGED}\<rparr>) s) } = Some (p, s1)"
      "phys_inv s1 ?U {(p, 2 ^ PM_NQUEUES)}" "pm_seglist s1 = pm_seglist s"
    using merge_step [OF held b _ R seg(3,4)] by (auto simp: PM_NQUEUES_def)
  obtain p' k' s2 where s2: "merge_loop seg p s1 = Some (p', s2)" "phys_inv s2 ?U {(p', 2 ^ k')}" "PM_NQUEUES \<le> k'"
    using merge_loop_ok [OF s1(2), of seg] s1(3) seg(1-3) by auto
  have "merge_loop seg p s = Some (p', s2)"
    using buddy s1(1) s2(1) by (subst merge_loop.simps) (auto simp: bind_eq_Some_conv)
  moreover have "p' < length (pm_pages s2)" "psize s2 p' = 2 ^ k'"
    using held_block [OF s2(2)] by blast+
  ultimately show ?thesis
    using free s2(3) p(1) by (cases "PG_ALLOCATED \<in> pg_flags (pm_pages s ! p)") (simp_all add: pm_free_from_seg_def page_at_Some page_sel freelist_insert_def)
qed

definition big_pages :: "phys_page list" where
  "big_pages = map (\<lambda>i. \<lparr>pg_pv = [], pg_paddr = 268435456 + i * PAGESIZE,
     pg_flags = (if i < 32768 then {PG_ALLOCATED} else if i = 32768 then {PG_MANAGED} else {}), pg_size = 32768\<rparr>) [0..<65536]"

definition big_memory :: physmem where
  "big_memory = \<lparr>
     pm_seglist = [\<lparr>seg_start = 268435456, seg_end = 536870912, seg_npages = 65536, seg_used = False, seg_pages = 0\<rparr>], pm_freeseg_last = 1,
     pm_freelist = (replicate PM_NQUEUES [])[15 := [32768]], pm_pagecount = (replicate PM_NQUEUES 0)[15 := 1],
     pm_pages = big_pages,
     vm_kernel_end = 0, vm_boot_done = True, pm_kenter = []\<rparr>"

lemma big_pages_nth:
  "length big_pages = 65536"
  "i < 65536 \<Longrightarrow> big_pages ! i = \<lparr>pg_pv = [], pg_paddr = 268435456 + i * PAGESIZE,
     pg_flags = (if i < 32768 then {PG_ALLOCATED} else if i = 32768 then {PG_MANAGED} else {}), pg_size = 32768\<rparr>"
  unfolding big_pages_def length_map length_upt by (simp_all only: nth_map length_upt nth_upt diff_zero add_0)

lemma big_memory_views:
  "length (pm_pages big_memory) = 65536" "managed big_memory = {32768}" "i < 65536 \<Longrightarrow> psize big_memory i = 32768"
  "blocks big_memory = {(32768, 32768)}" "i < 65536 \<Longrightarrow> is_alloc big_memory i \<longleftrightarrow> i < 32768" "i < 65536 \<Longrightarrow> is_unmapped big_memory i"
proof -
  have P: "pm_pages big_memory = big_pages"
    by (simp add: big_memory_def)
  then show l: "length (pm_pages big_memory) = 65536"
    by (simp add: big_pages_nth)
  note nth = big_pages_nth(2) [folded P]
  show m: "managed big_memory = {32768}"
    unfolding managed_def l by (auto simp: nth split: if_splits)
  show z: "psize big_memory i = 32768" if "i < 65536" for i
    using that by (simp add: psize_def l nth)
  show "blocks big_memory = {(32768, 32768)}"
    by (simp add: blocks_def m z)
  show "is_alloc big_memory i \<longleftrightarrow> i < 32768" "is_unmapped big_memory i" if "i < 65536" for i
    using that by (simp_all add: is_alloc_def is_unmapped_def l nth)
qed

lemma big_memory_inv: "phys_inv big_memory {(0, 32768)} {}"
proof -
  have "segs_ok big_memory"
    by (simp add: segs_ok_def big_memory_def PAGESIZE_def big_pages_nth)
  moreover have "lists_hold big_memory (managed big_memory) (\<lambda>p. log2 (psize big_memory p))"
  proof -
    have "log2 (psize big_memory 32768) = 15"
      using log2_power [of 15] by (simp add: big_memory_views)
    then have "buckets ((replicate PM_NQUEUES [])[15 := [32768]]) PM_NQUEUES {32768} (\<lambda>p. log2 (psize big_memory p))"
      using buckets_insert [OF buckets_empty, of 32768 "\<lambda>p. log2 (psize big_memory p)" PM_NQUEUES] by (simp add: PM_NQUEUES_def)
    then have "buckets (pm_freelist big_memory) PM_NQUEUES {32768} (\<lambda>p. log2 (psize big_memory p))"
      by (simp add: big_memory_def)
    then show ?thesis
      by (simp add: lists_hold_def big_memory_views) (simp add: big_memory_def map_update)
  qed
  moreover have "seg_ranges big_memory = {region (0, 32768) \<union> region (32768, 32768)}"
    using region_double(1) [of 0 32768] by (simp add: seg_ranges_def seg_range_def big_memory_def Collect_conv_if region_def)
  then have "layout (seg_ranges big_memory) (blocks big_memory) {(0, 32768)} {}"
    using region_double(2) [of 0 32768] by (auto simp: layout_def tiles_def separated_def big_memory_views PM_NQUEUES_def intro!: exI [of _ 15])
  moreover have "pages_ok big_memory {(0, 32768)} {}"
    by (simp add: pages_ok_def big_memory_views region_def)
  ultimately show ?thesis
    by (simp add: phys_inv_def)
qed

theorem vm_page_free_overflow_witness: "vm_page_free 0 big_memory = None"
proof -
  let ?seg = "\<lparr>seg_start = 268435456, seg_end = 536870912, seg_npages = 65536, seg_used = False, seg_pages = 0\<rparr>"
  have "?seg \<in> set (pm_seglist big_memory)"
    by (simp add: big_memory_def)
  then show ?thesis
    using big_memory_inv by (intro vm_page_free_overflow [of big_memory "{(0, 32768)}" 0 ?seg]) (simp_all add: big_memory_views region_def seg_range_def)
qed

end
