(* ===== verification/PhysBoot.thy ===== *)
theory PhysBoot
  imports PhysFree
begin

text \<open>
  The initialisation of the allocator of physical pages, \<^verbatim>\<open>init_vm_page\<close>: it establishes the invariant that the operations keep.
\<close>

section \<open>The size of a page at boot\<close>

lemma ctz_from_dvd: "2 ^ ctz_from k x dvd x"
proof (induction k x rule: ctz_from.induct)
  case (2 k x)
  show ?case
  proof (cases "odd x")
    case False
    then have "2 * 2 ^ ctz_from k (x div 2) dvd 2 * (x div 2)"
      using 2 by (intro mult_dvd_mono) simp_all
    moreover have "2 * (x div 2) = x"
      using False by simp
    ultimately show ?thesis
      using False by (simp only: ctz_from.simps if_False power_Suc)
  qed simp
qed simp

lemma ctz_dvd: "0 < x \<Longrightarrow> x < 2 ^ 32 \<Longrightarrow> 2 ^ ctz ctz0 x dvd x"
  using ctz_from_dvd [of 32 x] by (simp add: ctz_def u32_exact)

lemma xor_low:
  assumes "2 ^ m dvd (a::nat)" and "d < 2 ^ m"
  shows "(a + d) XOR a = d"
proof -
  obtain q where a: "a = push_bit m q"
    using assms(1) by (auto simp: push_bit_eq_mult mult.commute elim!: dvdE)
  have d: "take_bit m d = d"
    using assms(2) by (simp add: take_bit_nat_eq_self)
  have nb: "\<not> bit d n" if "m \<le> n" for n
    using d that by (metis bit_take_bit_iff not_le)
  have "a + d = a OR d"
    by (rule disjunctive_add) (auto simp: a bit_push_bit_iff dest: nb)
  then show ?thesis
    by (simp add: a) (rule bit_eqI, auto simp: bit_xor_iff bit_or_iff bit_push_bit_iff dest: nb)
qed

lemma xor_pages: "(4096 * a XOR 4096 * b) div 4096 = (a XOR b :: nat)"
proof -
  have "4096 * x = push_bit 12 x" for x :: nat
    by (simp add: push_bit_eq_mult)
  then have "4096 * a XOR 4096 * b = 4096 * (a XOR b)"
    by (simp add: push_bit_xor)
  then show ?thesis
    by simp
qed

text \<open>The segments that boot starts from: aligned, not at address 0, below 16 TiB and less than 4 GiB long.\<close>

definition boot_seg_ok :: "physseg \<Rightarrow> bool" where
  "boot_seg_ok seg \<longleftrightarrow> seg_end seg = seg_start seg + seg_npages seg * PAGESIZE \<and> PAGESIZE dvd seg_start seg \<and> 0 < seg_start seg \<and> seg_end seg < 2 ^ 44 \<and>
     0 < seg_npages seg \<and> seg_npages seg < 2 ^ 20"

lemma boot_page_paddr:
  assumes "boot_seg_ok seg" and "i < seg_npages seg"
  shows "pg_paddr (boot_page ctz0 seg i) = seg_start seg + i * PAGESIZE"
proof -
  have "i * PAGESIZE < seg_npages seg * PAGESIZE" "i * PAGESIZE < 2 ^ 32"
    using assms by (simp_all add: boot_seg_ok_def PAGESIZE_def)
  then show ?thesis
    using assms(1) by (simp add: boot_page_def Let_def u32_exact uadd_exact boot_seg_ok_def)
qed

lemma boot_page_size_ok:
  assumes ok: "boot_seg_ok seg" and i: "i < seg_npages seg"
  shows "\<exists>k < PM_NQUEUES. pg_size (boot_page ctz0 seg i) = 2 ^ k \<and> i + 2 ^ k \<le> seg_npages seg"
proof -
  obtain S where S: "seg_start seg = 4096 * S" "0 < S"
    using ok by (auto simp: boot_seg_ok_def PAGESIZE_def elim!: dvdE)
  define P E where "P = S + i" and "E = S + seg_npages seg"
  have pa: "pg_paddr (boot_page ctz0 seg i) = 4096 * P" "seg_end seg = 4096 * E"
    using boot_page_paddr [OF ok i] ok S by (simp_all add: boot_seg_ok_def PAGESIZE_def P_def E_def)
  have lt: "P < E" "0 < P" "P < 2 ^ 32" "E < 2 ^ 32"
    using i S ok pa(2) by (simp_all add: P_def E_def boot_seg_ok_def)
  define m where "m = min (PM_NQUEUES - 1) (ctz ctz0 P)"
  have m: "m \<le> 15" "m \<le> ctz ctz0 P"
    by (simp_all add: m_def PM_NQUEUES_def)
  have md: "2 ^ m dvd P"
    using dvd_trans [OF le_imp_power_dvd [OF m(2)] ctz_dvd [OF lt(2,3)]] .
  have two: "(2::nat) ^ m \<le> 2 ^ 15"
    using m(1) by (rule power_increasing) simp
  have sz: "u32 (2 ^ m * PAGESIZE) = 4096 * 2 ^ m"
    using two by (simp add: u32_exact PAGESIZE_def)
  have ua: "uadd (4096 * P) (4096 * 2 ^ m) = 4096 * (P + 2 ^ m)"
    using two lt(3) by (simp add: uadd_exact)
  have size: "pg_size (boot_page ctz0 seg i) = (if E < P + 2 ^ m then 2 ^ min 15 (log2 (E XOR P)) else 2 ^ m)"
  proof -
    have "min (PM_NQUEUES - 1) (ctz ctz0 (4096 * P div PAGESIZE)) = m" "(seg_end seg XOR 4096 * P) div PAGESIZE = E XOR P"
      by (simp_all add: m_def PAGESIZE_def pa(2) xor_pages)
    then have "boot_page_size ctz0 seg (4096 * P) = (if E < P + 2 ^ m then 2 ^ min 15 (log2 (E XOR P)) else 2 ^ m)"
      unfolding boot_page_size_def Let_def by (simp add: sz ua pa(2) PM_NQUEUES_def)
    moreover have "pg_size (boot_page ctz0 seg i) = boot_page_size ctz0 seg (pg_paddr (boot_page ctz0 seg i))"
      by (simp add: boot_page_def Let_def)
    ultimately show ?thesis
      by (simp add: pa(1))
  qed
  show ?thesis
  proof (cases "E < P + 2 ^ m")
    case True
    define d where "d = E - P"
    have d: "E = P + d" "0 < d" "d < 2 ^ m"
      using True lt(1) by (simp_all add: d_def)
    have "(2::nat) ^ log2 d < 2 ^ m"
      using log2_le [OF d(2)] d(3) by linarith
    then have "log2 d < m"
      by simp
    moreover have "E XOR P = d"
      using xor_low [OF md d(3)] by (simp add: d(1))
    ultimately show ?thesis
      using size True m(1) log2_le [OF d(2)] i by (intro exI [of _ "log2 d"]) (simp add: PM_NQUEUES_def d_def E_def P_def)
  next
    case False
    then show ?thesis
      using size m(1) by (intro exI [of _ m]) (simp add: PM_NQUEUES_def E_def P_def)
  qed
qed

section \<open>Filling the free lists\<close>

lemma freelist_append_ok:
  assumes l: "lists_hold s M idx" and p: "p \<notin> M" "idx p = fl" "fl < PM_NQUEUES" "p < length (pm_pages s)"
  obtains F C where "freelist_append fl p s = Some (s\<lparr>pm_freelist := F, pm_pagecount := C\<rparr>)" "lists_hold (s\<lparr>pm_freelist := F, pm_pagecount := C\<rparr>) (insert p M) idx"
proof -
  note n = lists_hold_length [OF l p(3)]
  let ?F = "(pm_freelist s)[fl := pm_freelist s ! fl @ [p]]" and ?C = "(pm_pagecount s)[fl := uadd (pm_pagecount s ! fl) 1]"
  have "uadd (pm_pagecount s ! fl) 1 = length (pm_freelist s ! fl @ [p])"
    using n by (simp add: uadd_exact)
  then have "?C = map length ?F"
    using l by (simp add: lists_hold_def map_update)
  then have "lists_hold (s\<lparr>pm_freelist := ?F, pm_pagecount := ?C\<rparr>) (insert p M) idx"
    using buckets_append [of "pm_freelist s" PM_NQUEUES M idx p] l p by (auto simp: lists_hold_def)
  then show thesis
    using that p(3) by (simp add: freelist_append_def)
qed

text \<open>The loop has put the first \<open>i\<close> pages of a segment on the free lists; \<open>SR\<close> are the segments before it.\<close>

definition fill_inv :: "nat \<Rightarrow> nat set set \<Rightarrow> physseg \<Rightarrow> nat \<Rightarrow> nat \<Rightarrow> physmem \<Rightarrow> bool" where
  "fill_inv ctz0 SR seg base i s \<longleftrightarrow> lists_hold s (managed s) (\<lambda>p. log2 (psize s p)) \<and> i \<le> seg_npages seg \<and> base + seg_npages seg \<le> length (pm_pages s) \<and>
     tiles (\<Union>SR \<union> {base..<base + i}) (blocks s) \<and> \<Union>SR \<subseteq> {..<base} \<and>
     (\<forall>r \<in> blocks s. (\<exists>k < PM_NQUEUES. snd r = 2 ^ k) \<and> (\<exists>R \<in> insert {base..<base + seg_npages seg} SR. region r \<subseteq> R)) \<and>
     (\<forall>j \<in> \<Union>SR \<union> {base..<base + seg_npages seg}. \<not> is_alloc s j \<and> is_unmapped s j) \<and>
     (\<forall>j < seg_npages seg. psize s (base + j) = pg_size (boot_page ctz0 seg j))"

lemma fill_invD:
  assumes "fill_inv ctz0 SR seg base i s"
  shows "lists_hold s (managed s) (\<lambda>p. log2 (psize s p))" and "tiles (\<Union>SR \<union> {base..<base + i}) (blocks s)"
    and "r \<in> blocks s \<Longrightarrow> \<exists>k < PM_NQUEUES. snd r = 2 ^ k" and "r \<in> blocks s \<Longrightarrow> \<exists>R \<in> insert {base..<base + seg_npages seg} SR. region r \<subseteq> R"
    and "j \<in> \<Union>SR \<union> {base..<base + seg_npages seg} \<Longrightarrow> \<not> is_alloc s j \<and> is_unmapped s j"
  using assms unfolding fill_inv_def by blast+

lemma fill_step:
  assumes inv: "fill_inv ctz0 SR seg base i s" and ok: "boot_seg_ok seg" and i: "i < seg_npages seg"
  obtains s' where "fill_inv ctz0 SR seg base (i + psize s (base + i)) s'" and "0 < psize s (base + i)"
    and "boot_free_loop base i (seg_npages seg) s = boot_free_loop base (i + psize s (base + i)) (seg_npages seg) s'"
    and "pm_seglist s' = pm_seglist s" and "map pg_paddr (pm_pages s') = map pg_paddr (pm_pages s)"
proof -
  let ?p = "base + i"
  obtain k where k: "k < PM_NQUEUES" "psize s ?p = 2 ^ k" "i + 2 ^ k \<le> seg_npages seg"
    using boot_page_size_ok [OF ok i, of ctz0] inv i by (auto simp: fill_inv_def)
  have p: "?p < length (pm_pages s)" "\<Union>SR \<subseteq> {..<base}" "tiles (\<Union>SR \<union> {base..<base + i}) (blocks s)"
    using inv i by (auto simp: fill_inv_def)
  have pm: "?p \<notin> managed s"
  proof
    assume "?p \<in> managed s"
    then have r: "(?p, 2 ^ k) \<in> blocks s"
      by (simp add: block_managed k(2))
    moreover have "?p \<in> region (?p, 2 ^ k)"
      by (simp add: region_def)
    ultimately have "?p \<in> \<Union>SR \<union> {base..<base + i}"
      using p(3) unfolding tiles_def by blast
    then show False
      using p(2) by auto
  qed
  have idx: "log2 (psize s ?p) = k"
    by (simp add: k(2))
  have lh: "lists_hold s (managed s) (\<lambda>p. log2 (psize s p))"
    using inv by (simp add: fill_inv_def)
  obtain F C where a: "freelist_append k ?p s = Some (s\<lparr>pm_freelist := F, pm_pagecount := C\<rparr>)"
    and l: "lists_hold (s\<lparr>pm_freelist := F, pm_pagecount := C\<rparr>) (insert ?p (managed s)) (\<lambda>p. log2 (psize s p))"
    by (rule freelist_append_ok [OF lh pm idx k(1) p(1)])
  let ?s = "set_page ?p ((pm_pages s ! ?p)\<lparr>pg_flags := insert PG_MANAGED (pg_flags (pm_pages s ! ?p))\<rparr>) (s\<lparr>pm_freelist := F, pm_pagecount := C\<rparr>)"
  have v: "managed ?s = insert ?p (managed s)" "psize ?s = psize s" "is_alloc ?s = is_alloc s" "is_unmapped ?s = is_unmapped s"
    using p(1) by (auto simp: phys_view fun_eq_iff)
  have bl: "blocks ?s = insert (?p, 2 ^ k) (blocks s)"
    using k(2) by (auto simp: set_eq_iff block_managed v)
  have "tiles (\<Union>SR \<union> {base..<base + (i + 2 ^ k)}) (insert (?p, 2 ^ k) (blocks s))"
  proof -
    have "(\<Union>SR \<union> {base..<base + (i + 2 ^ k)}) - region (?p, 2 ^ k) = \<Union>SR \<union> {base..<base + i}"
      using p(2) by (auto simp: region_def)
    moreover have "(?p, 2 ^ k) \<notin> blocks s"
      using pm by (simp add: block_managed)
    ultimately show ?thesis
      using p(3) by (subst tiles_insert) (auto simp: region_def)
  qed
  moreover have "region (?p, 2 ^ k) \<subseteq> {base..<base + seg_npages seg}"
    using k(3) by (auto simp: region_def)
  ultimately have "fill_inv ctz0 SR seg base (i + 2 ^ k) ?s"
    using inv l k(1,3) unfolding fill_inv_def lists_hold_page bl v by auto
  moreover have "boot_free_loop base i (seg_npages seg) s = boot_free_loop base (i + 2 ^ k) (seg_npages seg) ?s"
    using i a k(2) p(1) by (subst boot_free_loop.simps) (simp add: page_at_Some page_sel)
  ultimately show thesis
    using that [of ?s] k(2) paddr_set_page [of ?p "s\<lparr>pm_freelist := F, pm_pagecount := C\<rparr>"] p(1) by simp
qed

lemma boot_free_loop_ok:
  assumes "fill_inv ctz0 SR seg base i s" and "boot_seg_ok seg"
  shows "\<exists>s'. boot_free_loop base i (seg_npages seg) s = Some s' \<and> fill_inv ctz0 SR seg base (seg_npages seg) s' \<and> pm_seglist s' = pm_seglist s \<and>
           map pg_paddr (pm_pages s') = map pg_paddr (pm_pages s)"
  using assms(1)
proof (induction "seg_npages seg - i" arbitrary: i s rule: less_induct)
  case less
  show ?case
  proof (cases "i < seg_npages seg")
    case True
    obtain s1 where s1: "fill_inv ctz0 SR seg base (i + psize s (base + i)) s1" "0 < psize s (base + i)"
        "boot_free_loop base i (seg_npages seg) s = boot_free_loop base (i + psize s (base + i)) (seg_npages seg) s1"
        "pm_seglist s1 = pm_seglist s" "map pg_paddr (pm_pages s1) = map pg_paddr (pm_pages s)"
      by (rule fill_step [OF less.prems assms(2) True])
    have "seg_npages seg - (i + psize s (base + i)) < seg_npages seg - i"
      using True s1(2) by linarith
    from less.hyps [OF this s1(1)] show ?thesis
      using s1(3-5) by simp
  next
    case False
    moreover from this have "i = seg_npages seg"
      using less.prems by (simp add: fill_inv_def)
    ultimately show ?thesis
      using less.prems by (subst boot_free_loop.simps) simp
  qed
qed

section \<open>The segments one after the other\<close>

definition add_pages :: "nat \<Rightarrow> physseg \<Rightarrow> physmem \<Rightarrow> physmem" where
  "add_pages ctz0 seg s = s\<lparr>pm_pages := pm_pages s @ map (boot_page ctz0 seg) [0..<seg_npages seg]\<rparr>"

lemma view_add_pages:
  "managed (add_pages ctz0 seg s) = managed s" "p < length (pm_pages s) \<Longrightarrow> psize (add_pages ctz0 seg s) p = psize s p"
  "blocks (add_pages ctz0 seg s) = blocks s"
  "p < length (pm_pages s) \<Longrightarrow> is_alloc (add_pages ctz0 seg s) p = is_alloc s p"
  "p < length (pm_pages s) \<Longrightarrow> is_unmapped (add_pages ctz0 seg s) p = is_unmapped s p"
  "i < seg_npages seg \<Longrightarrow> psize (add_pages ctz0 seg s) (length (pm_pages s) + i) = pg_size (boot_page ctz0 seg i)"
  "i < seg_npages seg \<Longrightarrow> is_alloc (add_pages ctz0 seg s) (length (pm_pages s) + i) = seg_used seg"
  "i < seg_npages seg \<Longrightarrow> is_unmapped (add_pages ctz0 seg s) (length (pm_pages s) + i)"
proof -
  let ?s = "add_pages ctz0 seg s"
  have P: "pm_pages ?s = pm_pages s @ map (boot_page ctz0 seg) [0..<seg_npages seg]"
    by (simp add: add_pages_def)
  have "PG_MANAGED \<notin> pg_flags (pm_pages ?s ! x)" if "length (pm_pages s) \<le> x" "x < length (pm_pages ?s)" for x
  proof -
    have "x - length (pm_pages s) < seg_npages seg"
      using that by (simp add: P)
    then show ?thesis
      using that(1) by (simp add: P nth_append boot_page_def Let_def)
  qed
  then have "x < length (pm_pages ?s) \<and> PG_MANAGED \<in> pg_flags (pm_pages ?s ! x) \<longleftrightarrow> x < length (pm_pages s) \<and> PG_MANAGED \<in> pg_flags (pm_pages s ! x)" for x
    by (cases "x < length (pm_pages s)") (auto simp: P nth_append)
  then show m: "managed ?s = managed s"
    by (simp add: managed_def)
  show z: "psize ?s p = psize s p" if "p < length (pm_pages s)" for p
    using that by (simp add: psize_def P nth_append)
  have "p < length (pm_pages s)" if "p \<in> managed s" for p
    using that by (simp add: managed_def)
  then show "blocks ?s = blocks s"
    unfolding blocks_def m by (intro image_cong refl) (simp add: z)
  show "is_alloc ?s p = is_alloc s p" "is_unmapped ?s p = is_unmapped s p" if "p < length (pm_pages s)" for p
    using that by (simp_all add: is_alloc_def is_unmapped_def P nth_append)
  show "psize ?s (length (pm_pages s) + i) = pg_size (boot_page ctz0 seg i)" "is_alloc ?s (length (pm_pages s) + i) = seg_used seg"
      "is_unmapped ?s (length (pm_pages s) + i)" if "i < seg_npages seg" for i
    using that by (simp_all add: psize_def is_alloc_def is_unmapped_def P nth_append) (simp_all add: boot_page_def Let_def)
qed

lemma view_segs [simp]:
  "managed (s\<lparr>pm_seglist := ds\<rparr>) = managed s" "psize (s\<lparr>pm_seglist := ds\<rparr>) = psize s" "blocks (s\<lparr>pm_seglist := ds\<rparr>) = blocks s"
  "is_alloc (s\<lparr>pm_seglist := ds\<rparr>) = is_alloc s" "is_unmapped (s\<lparr>pm_seglist := ds\<rparr>) = is_unmapped s"
  "lists_hold (s\<lparr>pm_seglist := ds\<rparr>) M idx = lists_hold s M idx" "pages_ok (s\<lparr>pm_seglist := ds\<rparr>) U H = pages_ok s U H"
  by (auto simp: managed_def psize_def blocks_def is_alloc_def is_unmapped_def lists_hold_def pages_ok_def fun_eq_iff)

definition phys_range :: "physseg \<Rightarrow> nat set" where
  "phys_range seg = {seg_start seg..<seg_end seg}"

lemma add_pages_segs:
  assumes ok: "segs_ok (s\<lparr>pm_seglist := ds\<rparr>)" "boot_seg_ok seg" and apart: "\<forall>seg' \<in> set ds. phys_range seg' \<inter> phys_range seg = {}"
  shows "segs_ok ((add_pages ctz0 seg s)\<lparr>pm_seglist := ds @ [seg\<lparr>seg_pages := length (pm_pages s)\<rparr>]\<rparr>)"
proof -
  let ?l = "length (pm_pages s)" and ?P = "pm_pages s @ map (boot_page ctz0 seg) [0..<seg_npages seg]"
  let ?seg = "seg\<lparr>seg_pages := ?l\<rparr>"
  have old: "seg_pages d + seg_npages d \<le> ?l \<and> seg_end d = seg_start d + seg_npages d * PAGESIZE \<and> seg_end d < 2 ^ 64 \<and>
      (\<forall>i < seg_npages d. pg_paddr (pm_pages s ! (seg_pages d + i)) = seg_start d + i * PAGESIZE)" if "d \<in> set ds" for d
    using bspec [OF conjunct1 [OF ok(1) [unfolded segs_ok_def]], of d] that by simp
  have A: "seg_pages d + seg_npages d \<le> length ?P \<and> seg_end d = seg_start d + seg_npages d * PAGESIZE \<and> seg_end d < 2 ^ 64 \<and>
      (\<forall>i < seg_npages d. pg_paddr (?P ! (seg_pages d + i)) = seg_start d + i * PAGESIZE)" if "d \<in> set (ds @ [?seg])" for d
  proof (cases "d \<in> set ds")
    case True
    then show ?thesis
      using old [OF True] by (simp add: nth_append)
  next
    case False
    then have "d = ?seg"
      using that by simp
    then show ?thesis
      using ok(2) boot_page_paddr [OF ok(2), of _ ctz0] by (simp add: nth_append boot_seg_ok_def)
  qed
  have B: "{seg_start d..<seg_end d} \<inter> {seg_start d'..<seg_end d'} = {}" if "d \<in> set (ds @ [?seg])" "d' \<in> set (ds @ [?seg])" "d \<noteq> d'" for d d'
    using ok(1) apart that unfolding segs_ok_def phys_range_def by (auto simp: Int_commute)
  have eqs: "pm_pages ((add_pages ctz0 seg s)\<lparr>pm_seglist := ds @ [?seg]\<rparr>) = ?P" "pm_seglist ((add_pages ctz0 seg s)\<lparr>pm_seglist := ds @ [?seg]\<rparr>) = ds @ [?seg]"
    by (simp_all add: add_pages_def)
  show ?thesis
    unfolding segs_ok_def eqs by (rule conjI; intro ballI impI) (rule A B; assumption)+
qed

lemma seg_ranges_add:
  "seg_ranges (s'\<lparr>pm_seglist := ds @ [seg\<lparr>seg_pages := l\<rparr>]\<rparr>) =
     (if seg_used seg then seg_ranges (s\<lparr>pm_seglist := ds\<rparr>) else insert {l..<l + seg_npages seg} (seg_ranges (s\<lparr>pm_seglist := ds\<rparr>)))"
proof -
  have "{d \<in> set (ds @ [seg\<lparr>seg_pages := l\<rparr>]). \<not> seg_used d} =
      (if seg_used seg then {d \<in> set ds. \<not> seg_used d} else insert (seg\<lparr>seg_pages := l\<rparr>) {d \<in> set ds. \<not> seg_used d})"
    by (auto simp: set_eq_iff)
  then show ?thesis
    by (simp add: seg_ranges_def seg_range_def)
qed

lemma seg_ranges_below:
  assumes "segs_ok (s\<lparr>pm_seglist := ds\<rparr>)"
  shows "\<Union>(seg_ranges (s\<lparr>pm_seglist := ds\<rparr>)) \<subseteq> {..<length (pm_pages s)}"
  using assms by (fastforce simp: segs_ok_def seg_ranges_def seg_range_def)

lemma length_add_pages [simp]: "length (pm_pages (add_pages ctz0 seg s)) = length (pm_pages s) + seg_npages seg"
  by (simp add: add_pages_def)

lemma add_pages_lists:
  assumes "phys_inv (s\<lparr>pm_seglist := ds\<rparr>) {} {}" and "length (pm_pages s) + seg_npages seg < 2 ^ 32"
  shows "lists_hold (add_pages ctz0 seg s) (managed (add_pages ctz0 seg s)) (\<lambda>p. log2 (psize (add_pages ctz0 seg s) p))"
proof -
  have "lists_hold (add_pages ctz0 seg s) (managed s) (\<lambda>p. log2 (psize s p))"
    using phys_invD(2) [OF assms(1)] assms(2) by (auto simp: lists_hold_def add_pages_def)
  then show ?thesis
    unfolding view_add_pages(1) by (rule lists_hold_cong) (simp add: view_add_pages(2) managed_def)
qed

lemma boot_used_seg:
  assumes inv: "phys_inv (s\<lparr>pm_seglist := ds\<rparr>) {} {}" and ok: "boot_seg_ok seg" "seg_used seg" and apart: "\<forall>seg' \<in> set ds. phys_range seg' \<inter> phys_range seg = {}"
    and len: "length (pm_pages s) + seg_npages seg < 2 ^ 32"
  shows "phys_inv ((add_pages ctz0 seg s)\<lparr>pm_seglist := ds @ [seg\<lparr>seg_pages := length (pm_pages s)\<rparr>]\<rparr>) {} {}"
proof -
  let ?s = "add_pages ctz0 seg s"
  have "lists_hold ?s (managed ?s) (\<lambda>p. log2 (psize ?s p))"
    by (rule add_pages_lists [OF inv len])
  moreover have "pages_ok ?s {} {}"
  proof -
    have "i < length (pm_pages s)" if "r \<in> blocks s" "i \<in> region r" for r i
      using block_in_range [OF inv _ that(2)] that(1) by simp
    then show ?thesis
      using phys_invD(4) [OF inv] by (simp add: pages_ok_def view_add_pages)
  qed
  ultimately show ?thesis
    using add_pages_segs [OF phys_invD(1) [OF inv] ok(1) apart, of ctz0] phys_invD(3) [OF inv] ok(2)
    by (simp add: phys_inv_def seg_ranges_add [where s = s] view_add_pages(3))
qed

lemma boot_free_seg:
  assumes inv: "phys_inv (s\<lparr>pm_seglist := ds\<rparr>) {} {}" and ok: "boot_seg_ok seg" "\<not> seg_used seg" and apart: "\<forall>seg' \<in> set ds. phys_range seg' \<inter> phys_range seg = {}"
    and len: "length (pm_pages s) + seg_npages seg < 2 ^ 32"
  shows "\<exists>s'. boot_free_loop (length (pm_pages s)) 0 (seg_npages seg) (add_pages ctz0 seg s) = Some s' \<and>
           phys_inv (s'\<lparr>pm_seglist := ds @ [seg\<lparr>seg_pages := length (pm_pages s)\<rparr>]\<rparr>) {} {} \<and> length (pm_pages s') = length (pm_pages s) + seg_npages seg"
proof -
  let ?s = "add_pages ctz0 seg s" and ?l = "length (pm_pages s)" and ?SR = "seg_ranges (s\<lparr>pm_seglist := ds\<rparr>)"
  let ?R = "{?l..<?l + seg_npages seg}"
  note lay = phys_invD(3) [OF inv, unfolded view_segs] and below = seg_ranges_below [OF phys_invD(1) [OF inv]]
  have tl: "tiles (\<Union>?SR) (blocks s)"
    using layoutD(2) [OF lay] by simp
  have fl: "\<not> is_alloc ?s j \<and> is_unmapped ?s j" if j: "j \<in> \<Union>?SR \<union> ?R" for j
  proof (cases "j < ?l")
    case True
    then have "j \<in> \<Union>?SR"
      using j by auto
    then obtain r where "r \<in> blocks s" "j \<in> region r"
      using tl unfolding tiles_def by blast
    then show ?thesis
      using True phys_invD(4) [OF inv] by (simp add: pages_ok_def view_add_pages)
  next
    case False
    define i where "i = j - ?l"
    have "j = ?l + i" "i < seg_npages seg"
      using False j below by (auto simp: i_def)
    then show ?thesis
      using ok(2) by (simp add: view_add_pages)
  qed
  have "fill_inv ctz0 ?SR seg ?l 0 ?s"
    unfolding fill_inv_def view_add_pages(3)
    using add_pages_lists [OF inv len, of ctz0] fl tl below layoutD(4,6) [OF lay] by (simp add: view_add_pages(6))
  then obtain s' where s': "boot_free_loop ?l 0 (seg_npages seg) ?s = Some s'" "fill_inv ctz0 ?SR seg ?l (seg_npages seg) s'"
      "map pg_paddr (pm_pages s') = map pg_paddr (pm_pages ?s)"
    using boot_free_loop_ok [OF _ ok(1)] by blast
  note fi = fill_invD [OF s'(2)]
  have "segs_ok (s'\<lparr>pm_seglist := ds @ [seg\<lparr>seg_pages := ?l\<rparr>]\<rparr>)"
    using segs_ok_cong [of "s'\<lparr>pm_seglist := ds @ [seg\<lparr>seg_pages := ?l\<rparr>]\<rparr>" "?s\<lparr>pm_seglist := ds @ [seg\<lparr>seg_pages := ?l\<rparr>]\<rparr>"] s'(3)
      add_pages_segs [OF phys_invD(1) [OF inv] ok(1) apart, of ctz0] by simp
  moreover have "layout (insert ?R ?SR) (blocks s') {} {}"
  proof (rule layoutI)
    have "R \<inter> ?R = {}" if "R \<in> ?SR" for R
      using below that by fastforce
    then show "pairwise disjnt (insert ?R ?SR)"
      using layoutD(1) [OF lay] by (auto simp: pairwise_insert disjnt_def)
    show "tiles (\<Union>(insert ?R ?SR)) (blocks s' \<union> {} \<union> {})"
      using fi(2) by (simp add: Un_commute)
  qed (use fi(3,4) in simp_all)
  moreover have "pages_ok s' {} {}"
  proof -
    have "i \<in> \<Union>?SR \<union> ?R" if "r \<in> blocks s'" "i \<in> region r" for r i
      using fi(2) that unfolding tiles_def by blast
    then show ?thesis
      using fi(5) unfolding pages_ok_def by blast
  qed
  ultimately have "phys_inv (s'\<lparr>pm_seglist := ds @ [seg\<lparr>seg_pages := ?l\<rparr>]\<rparr>) {} {}"
    using fi(1) ok(2) by (simp add: phys_inv_def seg_ranges_add [where s = s])
  moreover have "length (pm_pages s') = ?l + seg_npages seg"
    using arg_cong [OF s'(3), of length] by (simp add: add_pages_def)
  ultimately show ?thesis
    using s'(1) by blast
qed

definition apart :: "physseg \<Rightarrow> physseg \<Rightarrow> bool" where
  "apart a b \<longleftrightarrow> phys_range a \<inter> phys_range b = {}"

lemma boot_segs_ok:
  assumes "phys_inv (s\<lparr>pm_seglist := ds\<rparr>) {} {}" and "\<forall>seg \<in> set segs. boot_seg_ok seg" and "sorted_wrt apart segs" and "\<forall>d \<in> set ds. \<forall>seg \<in> set segs. apart d seg"
    and "length (pm_pages s) + sum_list (map seg_npages segs) < 2 ^ 32"
  shows "\<exists>segs' s'. boot_segs ctz0 (length (pm_pages s)) segs s = Some (segs', s') \<and> phys_inv (s'\<lparr>pm_seglist := ds @ segs'\<rparr>) {} {}"
  using assms
proof (induction segs arbitrary: ds s)
  case (Cons seg segs)
  let ?l = "length (pm_pages s)"
  let ?seg = "seg\<lparr>seg_pages := ?l\<rparr>"
  have ok: "boot_seg_ok seg" "\<forall>d \<in> set ds. phys_range d \<inter> phys_range seg = {}" "?l + seg_npages seg < 2 ^ 32"
    using Cons.prems(2,4,5) by (auto simp: apart_def)
  obtain s1 where s1: "(if seg_used seg then Some (add_pages ctz0 seg s) else boot_free_loop ?l 0 (seg_npages seg) (add_pages ctz0 seg s)) = Some s1"
      "phys_inv (s1\<lparr>pm_seglist := ds @ [?seg]\<rparr>) {} {}" "length (pm_pages s1) = ?l + seg_npages seg"
  proof (cases "seg_used seg")
    case True
    then show thesis
      using that boot_used_seg [OF Cons.prems(1) ok(1) True ok(2,3), of ctz0] by simp
  next
    case False
    then show thesis
      using that boot_free_seg [OF Cons.prems(1) ok(1) False ok(2,3), of ctz0] by auto
  qed
  have "phys_range ?seg = phys_range seg"
    by (simp add: phys_range_def)
  then have "\<forall>d \<in> set (ds @ [?seg]). \<forall>seg \<in> set segs. apart d seg"
    using Cons.prems(3,4) by (auto simp: apart_def)
  then obtain segs' s' where "boot_segs ctz0 (?l + seg_npages seg) segs s1 = Some (segs', s')" "phys_inv (s'\<lparr>pm_seglist := (ds @ [?seg]) @ segs'\<rparr>) {} {}"
    using Cons.IH [OF s1(2)] Cons.prems(2,3,5) s1(3) by auto
  then show ?case
    unfolding boot_segs.simps Let_def add_pages_def [symmetric] s1(1) by simp
qed simp

section \<open>The memory for the descriptors\<close>

definition shrink :: "nat \<Rightarrow> nat \<Rightarrow> physseg list \<Rightarrow> physseg list" where
  "shrink i k segs = (if k = seg_npages (segs ! i) then take i segs @ drop (Suc i) segs
     else segs[i := (segs ! i)\<lparr>seg_start := seg_start (segs ! i) + k * PAGESIZE, seg_npages := seg_npages (segs ! i) - k\<rparr>])"

lemma boot_map_loop_ok:
  assumes "i < length (pm_seglist s)" and "boot_seg_ok (pm_seglist s ! i)" and "k \<le> seg_npages (pm_seglist s ! i)"
  shows "\<exists>E. boot_map_loop i va (va + k * PAGESIZE) s = Some (s\<lparr>pm_seglist := shrink i k (pm_seglist s), pm_kenter := E\<rparr>)"
  using assms
proof (induction k arbitrary: va s)
  case 0
  then show ?case
    by (subst boot_map_loop.simps) (auto simp: shrink_def boot_seg_ok_def intro!: exI [of _ "pm_kenter s"])
next
  case (Suc k)
  let ?seg = "pm_seglist s ! i"
  let ?seg' = "?seg\<lparr>seg_start := seg_start ?seg + PAGESIZE, seg_npages := seg_npages ?seg - 1\<rparr>"
  have ok: "0 < seg_npages ?seg" "seg_npages ?seg < 2 ^ 20" "seg_start ?seg + PAGESIZE < 2 ^ 64" "seg_end ?seg = seg_start ?seg + seg_npages ?seg * PAGESIZE"
    using Suc.prems(2) by (auto simp: boot_seg_ok_def PAGESIZE_def)
  then have u: "uadd (seg_start ?seg) PAGESIZE = seg_start ?seg + PAGESIZE" "usub (seg_npages ?seg) (Suc 0) = seg_npages ?seg - Suc 0" "va < va + Suc k * PAGESIZE"
    by (simp_all add: uadd_exact usub_exact PAGESIZE_def)
  have en: "va + Suc k * PAGESIZE = (va + PAGESIZE) + k * PAGESIZE"
    by simp
  show ?case
  proof (cases "seg_npages ?seg = 1")
    case True
    then have k: "k = 0" "Suc k = seg_npages ?seg"
      using Suc.prems(3) by simp_all
    have "boot_map_loop 0 e e t = Some t" for e t
      by (subst boot_map_loop.simps) simp
    then show ?thesis
      using True u Suc.prems(1) unfolding k(1)
      by (intro exI [of _ "pm_kenter s @ [(va, seg_start ?seg)]"]) (subst boot_map_loop.simps, simp add: shrink_def Let_def)
  next
    case False
    let ?s = "s\<lparr>pm_seglist := (pm_seglist s)[i := ?seg'], pm_kenter := pm_kenter s @ [(va, seg_start ?seg)]\<rparr>"
    have nth: "pm_seglist ?s ! i = ?seg'"
      using Suc.prems(1) by simp
    obtain m where m: "seg_npages ?seg = Suc m" "0 < m"
      using ok(1) False by (cases "seg_npages ?seg") auto
    have "boot_seg_ok ?seg'"
      using Suc.prems(2) m by (simp add: boot_seg_ok_def)
    then have "\<exists>E. boot_map_loop i (va + PAGESIZE) ((va + PAGESIZE) + k * PAGESIZE) ?s = Some (?s\<lparr>pm_seglist := shrink i k (pm_seglist ?s), pm_kenter := E\<rparr>)"
      using Suc.prems(1,3) m nth by (intro Suc.IH) simp_all
    then obtain E where E: "boot_map_loop i (va + PAGESIZE) ((va + PAGESIZE) + k * PAGESIZE) ?s = Some (?s\<lparr>pm_seglist := shrink i k (pm_seglist ?s), pm_kenter := E\<rparr>)"
      by blast
    have "boot_map_loop i va (va + Suc k * PAGESIZE) s = boot_map_loop i (va + PAGESIZE) (va + Suc k * PAGESIZE) ?s"
      using m u Suc.prems(1) by (subst boot_map_loop.simps) (simp add: Let_def)
    moreover have "shrink i k (pm_seglist ?s) = shrink i (Suc k) (pm_seglist s)"
      using Suc.prems(1) m by (simp add: shrink_def add.assoc)
    ultimately show ?thesis
      using E unfolding en by (intro exI [of _ E]) simp
  qed
qed

lemma shrink_split:
  "shrink (length a) k (a @ x # b) =
     (if k = seg_npages x then a @ b else a @ x\<lparr>seg_start := seg_start x + k * PAGESIZE, seg_npages := seg_npages x - k\<rparr> # b)"
  by (simp add: shrink_def)

lemma shrink_ok:
  assumes segs: "segs = a @ x # b" and k: "k \<le> seg_npages x" and ok: "\<forall>seg \<in> set segs. boot_seg_ok seg" "sorted_wrt apart segs"
  shows "\<forall>seg \<in> set (shrink (length a) k segs). boot_seg_ok seg" and "sorted_wrt apart (shrink (length a) k segs)"
    and "sum_list (map seg_npages (shrink (length a) k segs)) \<le> sum_list (map seg_npages segs)"
proof -
  let ?x = "x\<lparr>seg_start := seg_start x + k * PAGESIZE, seg_npages := seg_npages x - k\<rparr>"
  have "boot_seg_ok ?x" if "k \<noteq> seg_npages x"
  proof -
    define m where "m = seg_npages x - k"
    have "seg_npages x = k + m" "0 < m"
      using k that by (simp_all add: m_def)
    then show ?thesis
      using ok(1) segs by (simp add: boot_seg_ok_def distrib_right)
  qed
  then show "\<forall>seg \<in> set (shrink (length a) k segs). boot_seg_ok seg"
    using ok(1) by (auto simp: segs shrink_split)
  have "phys_range ?x \<subseteq> phys_range x"
    by (auto simp: phys_range_def)
  then show "sorted_wrt apart (shrink (length a) k segs)"
    using ok(2) unfolding segs shrink_split by (auto simp: sorted_wrt_append apart_def)
  show "sum_list (map seg_npages (shrink (length a) k segs)) \<le> sum_list (map seg_npages segs)"
    by (simp add: segs shrink_split)
qed

lemma find_boot_seg_ok:
  assumes "\<exists>seg \<in> set segs. \<not> seg_used seg \<and> n \<le> seg_npages seg * PAGESIZE" and "\<forall>seg \<in> set segs. boot_seg_ok seg"
  shows "\<exists>a x b. segs = a @ x # b \<and> find_boot_seg n segs = Some (length a) \<and> n \<le> seg_npages x * PAGESIZE"
  using assms
proof (induction segs)
  case (Cons seg segs)
  have "umul (seg_npages seg) PAGESIZE = seg_npages seg * PAGESIZE"
    using Cons.prems(2) by (simp add: umul_exact boot_seg_ok_def PAGESIZE_def)
  note find = this
  show ?case
  proof (cases "seg_used seg \<or> seg_npages seg * PAGESIZE < n")
    case True
    then obtain a x b where "segs = a @ x # b" "find_boot_seg n segs = Some (length a)" "n \<le> seg_npages x * PAGESIZE"
      using Cons.IH Cons.prems by auto
    then show ?thesis
      using True find by (intro exI [of _ "seg # a"] exI [of _ x] exI [of _ b]) simp
  next
    case False
    then show ?thesis
      using find by (intro exI [of _ "[]"] exI [of _ seg] exI [of _ segs]) simp
  qed
qed simp

lemma align_bounds:
  assumes "sz = 2 ^ k" and "addr + sz \<le> 2 ^ 64"
  shows "addr \<le> align addr sz" and "align addr sz < addr + sz" and "sz dvd align addr sz"
proof -
  have "align addr sz \<le> addr + sz - 1"
    using align_power2 [OF assms] by simp
  moreover have "0 < sz"
    using assms(1) by simp
  ultimately show "align addr sz < addr + sz"
    by linarith
qed (rule align_le [OF assms] align_dvd [OF assms])+

lemma vm_boot_alloc_ok:
  assumes boot: "\<not> vm_boot_done s" and segs: "\<forall>seg \<in> set (pm_seglist s). boot_seg_ok seg" "sorted_wrt apart (pm_seglist s)"
    and fits: "\<exists>seg \<in> set (pm_seglist s). \<not> seg_used seg \<and> n \<le> seg_npages seg * PAGESIZE" and ke: "vm_kernel_end s + n + 16384 \<le> 2 ^ 64"
  shows "\<exists>va segs' E K. vm_boot_alloc n s = Some (va, s\<lparr>pm_seglist := segs', pm_kenter := E, vm_kernel_end := K\<rparr>) \<and>
           (\<forall>seg \<in> set segs'. boot_seg_ok seg) \<and> sorted_wrt apart segs' \<and> sum_list (map seg_npages segs') \<le> sum_list (map seg_npages (pm_seglist s))"
proof -
  obtain a x b where x: "pm_seglist s = a @ x # b" "find_boot_seg n (pm_seglist s) = Some (length a)" "n \<le> seg_npages x * PAGESIZE"
    using find_boot_seg_ok [OF fits segs(1)] by blast
  let ?va0 = "align (vm_kernel_end s) 8"
  have pg: "(8::nat) = 2 ^ 3" "PAGESIZE = 2 ^ 12"
    by (simp_all add: PAGESIZE_def)
  have b: "?va0 < vm_kernel_end s + 8"
    using align_bounds(2) [OF pg(1)] ke by simp
  then have u: "uadd ?va0 n = ?va0 + n"
    using ke by (simp add: uadd_exact)
  define va where "va = align ?va0 PAGESIZE"
  define en where "en = align (?va0 + n) PAGESIZE"
  have room: "?va0 + PAGESIZE \<le> 2 ^ 64" "?va0 + n + PAGESIZE \<le> 2 ^ 64"
    using b ke by (simp_all add: PAGESIZE_def)
  note v = align_bounds [OF pg(2) room(1), folded va_def] and e = align_bounds [OF pg(2) room(2), folded en_def]
  have "va \<le> en"
    using align_least [OF pg(2) room(1) e(3)] e(1) by (simp add: va_def)
  then obtain k where k: "en = va + k * PAGESIZE"
    using dvd_diff_nat [OF e(3) v(3)] by (metis dvd_def le_add_diff_inverse mult.commute)
  have "en \<le> va + seg_npages x * PAGESIZE"
    unfolding en_def using v(1,3) x(3) by (intro align_least [OF pg(2) room(2)]) auto
  then have kx: "k \<le> seg_npages x"
    by (simp add: k PAGESIZE_def)
  have "pm_seglist s ! length a = x" "boot_seg_ok x" "length a < length (pm_seglist s)"
    using x(1) segs(1) by simp_all
  then obtain E where E: "boot_map_loop (length a) va en s = Some (s\<lparr>pm_seglist := shrink (length a) k (pm_seglist s), pm_kenter := E\<rparr>)"
    using boot_map_loop_ok [of "length a" s k va] kx unfolding k by auto
  have "vm_boot_alloc n s = Some (?va0, s\<lparr>pm_seglist := shrink (length a) k (pm_seglist s), pm_kenter := E, vm_kernel_end := uadd (vm_kernel_end s) n\<rparr>)"
    using boot x(2) E u by (simp add: vm_boot_alloc_def Let_def va_def en_def)
  then show ?thesis
    using shrink_ok [OF x(1) kx segs] by blast
qed

lemma phys_inv_boot [simp]: "phys_inv (vm_boot_finish s) U H = phys_inv s U H"
proof -
  have "managed (vm_boot_finish s) = managed s" "psize (vm_boot_finish s) = psize s" "is_alloc (vm_boot_finish s) = is_alloc s" "is_unmapped (vm_boot_finish s) = is_unmapped s"
      "pm_seglist (vm_boot_finish s) = pm_seglist s" "pm_pages (vm_boot_finish s) = pm_pages s" "pm_freelist (vm_boot_finish s) = pm_freelist s"
      "pm_pagecount (vm_boot_finish s) = pm_pagecount s"
    by (auto simp: vm_boot_finish_def managed_def psize_def is_alloc_def is_unmapped_def fun_eq_iff)
  then show ?thesis
    by (simp add: phys_inv_def segs_ok_def lists_hold_def blocks_def seg_ranges_def pages_ok_def)
qed

lemma empty_phys_inv:
  assumes "pm_pages s = []" and "pm_freelist s = replicate PM_NQUEUES []" and "pm_pagecount s = replicate PM_NQUEUES 0"
  shows "phys_inv (s\<lparr>pm_seglist := []\<rparr>) {} {}"
proof -
  have "managed s = {}"
    by (simp add: managed_def assms(1))
  then show ?thesis
    using assms buckets_empty by (simp add: phys_inv_def segs_ok_def lists_hold_def layout_def tiles_def separated_def pages_ok_def blocks_def seg_ranges_def)
qed



end
