(* ===== verification/Spec2Isabelle.thy ===== *)
theory Spec2Isabelle
  imports Ringbuf FileSyscalls VmemArena VmFork Cred Itimer LockSteps PhysBoot
begin

text \<open>
  \<^bold>\<open>A verification development of the Mimiker kernel.\<close>

  Mimiker is a small Unix-like kernel.  The development models the machine-independent part of the
  kernel (\<^verbatim>\<open>sys/kern\<close>, \<^verbatim>\<open>include/sys\<close>) as built for AArch64.

  \<^bold>\<open>Conventions.\<close>  \<^verbatim>\<open>size_t\<close>, \<^verbatim>\<open>uintptr_t\<close> and pointers are natural numbers below \<open>2 ^ 64\<close>, and the
  arithmetic on them wraps (\<open>uadd\<close>, \<open>usub\<close>, \<open>umul\<close>); a conversion to \<^verbatim>\<open>unsigned\<close> is \<open>u32\<close>.  A failed
  \<^verbatim>\<open>assert\<close>, a \<^verbatim>\<open>panic\<close> and an access outside of an array are the value \<open>None\<close> of an option; an
  error code that a function returns is a value of \<open>errno\<close>.  A loop is a recursive function; where
  it might not end it is a \<open>partial_function\<close> whose divergence is \<open>None\<close> as well, so a theorem that a
  result is \<open>Some\<close> states both that no assertion fails and that the loop ends.

  \<^bold>\<open>Shared theories.\<close>
  \<^item> \<open>Prelude\<close>: error codes (\<^verbatim>\<open>include/sys/errno.h\<close>), assertions, machine arithmetic, \<open>log2\<close>, \<open>align\<close> and the like
    (\<^verbatim>\<open>include/sys/mimiker.h\<close>, \<^verbatim>\<open>include/sys/param.h\<close>), and arrays of lists that hold a set by an index (\<open>buckets\<close>).
  \<^item> \<open>Regions\<close>: the contract \<open>region_allocator\<close> of an allocator of ranges.  Both \<open>VmemArena\<close> and \<open>PhysFree\<close> provide it; that no range
    is handed out twice is proved once, in the locale.

  \<^bold>\<open>Input and output.\<close>
  \<^item> \<open>Uio\<close>: \<^verbatim>\<open>sys/kern/uio.c\<close> on an explicit memory.  \<open>uiomove\<close> moves exactly the requested bytes, in order, in both directions.
  \<^item> \<open>Ringbuf\<close>: \<^verbatim>\<open>sys/kern/ringbuf.c\<close>.  A ring buffer implements a bounded queue of bytes (locale \<open>bounded_fifo\<close>).
  \<^item> \<open>Bitstring\<close>: \<^verbatim>\<open>include/bitstring.h\<close>, an implementation of the locale \<open>bitmap\<close>.
  \<^item> \<open>File\<close>, \<open>Filedesc\<close>, \<open>FileSyscalls\<close>: \<^verbatim>\<open>include/sys/file.h\<close>, \<^verbatim>\<open>sys/kern/filedesc.c\<close>, \<^verbatim>\<open>sys/kern/file_syscalls.c\<close>.  The operations of a
    kind of file (its \<^verbatim>\<open>f_ops\<close>) are an argument.  Every system call keeps each reference count equal to the number of descriptors that refer to the file.

  \<^bold>\<open>Memory.\<close>
  \<^item> \<open>Vmem\<close>, \<open>VmemArena\<close>: \<^verbatim>\<open>sys/kern/vmem.c\<close>, with boundary tags in a store.  The segments tile the arena; the kernel's own sanity check
    holds in every reachable state.
  \<^item> \<open>Physmem\<close>, \<open>PhysAlloc\<close>, \<open>PhysLists\<close>, \<open>PhysFree\<close>, \<open>PhysBoot\<close>: \<^verbatim>\<open>sys/kern/vm_physmem.c\<close>, the buddy system.  The free blocks and the blocks in use tile
    the segments (\<open>phys_inv\<close>; the set of the blocks in use is not in the kernel's state and is kept beside it).  \<open>init_vm_page\<close> establishes this;
    allocation, allocation of a list and freeing keep it and return what they promise.  Freeing needs segments of less than \<open>2 ^ 16\<close> pages;
    \<open>vm_page_free_overflow\<close> shows why.
  \<^item> \<open>VmObject\<close>, \<open>VmMap\<close>, \<open>AddrSpace\<close>: \<^verbatim>\<open>sys/kern/vm_object.c\<close>, \<^verbatim>\<open>sys/kern/vm_pager.c\<close>, \<^verbatim>\<open>sys/kern/vm_map.c\<close>, with the hardware mappings as a map
    from pages to a frame and a protection.  \<open>AddrSpace\<close> relates the entries to an abstract address space.
  \<^item> \<open>Mmap\<close>, \<open>PageFault\<close>, \<open>VmFork\<close>: \<^verbatim>\<open>sys/kern/mmap.c\<close>, \<^verbatim>\<open>sys/kern/sbrk.c\<close> and the rest of \<^verbatim>\<open>vm_map.c\<close>.  The hardware mappings stay within what
    the map allows; after \<^verbatim>\<open>fork\<close> private memory is copied and shared memory is shared.

  \<^bold>\<open>Processes and time.\<close>
  \<^item> \<open>Cred\<close>: \<^verbatim>\<open>sys/kern/cred.c\<close>, \<^verbatim>\<open>cred_checks.c\<close>, \<^verbatim>\<open>cred_syscalls.c\<close>.  No sequence of calls gains a user identifier the process did not hold.
  \<^item> \<open>Time\<close>, \<open>Itimer\<close>: \<^verbatim>\<open>include/sys/time.h\<close>, \<^verbatim>\<open>sys/kern/time.c\<close>.  Readings of the clock and the answers of the callouts are arguments.
  \<^item> \<open>Sched\<close>: \<^verbatim>\<open>sys/kern/sched.c\<close>, \<^verbatim>\<open>sys/kern/runq.c\<close>.  \<open>Turnstile\<close>, \<open>Mutex\<close>: \<^verbatim>\<open>sys/kern/turnstile.c\<close>, \<^verbatim>\<open>sys/kern/mutex.c\<close>.
  \<^item> \<open>LockSteps\<close>: threads that lock, unlock, yield and are preempted, as a step relation from boot on.  The invariant that joins mutexes, turnstiles
    and scheduler holds in every reachable state; from it follow priority inheritance and that every blocked thread is found by the owner's release.

  \<^bold>\<open>Loops.\<close>  There is no fuel.  Loops that might not end are \<open>partial_function\<close>: the transfers of \<open>Ringbuf\<close>, \<open>munmap_loop\<close>, \<open>skip_periods\<close>,
  \<open>propagate_loop\<close>, \<open>pagelist_loop\<close> and \<open>merge_loop\<close>.  The theorems about them state a result, and so that they end.

  \<^bold>\<open>What the theorems leave open.\<close>  An operation that the kernel runs under one lock is one step; races within it are not modelled.
  \<open>VmObject\<close> takes its frames from a list of free frames of its own, not from \<open>Physmem\<close>.  Each theorem's text states the bounds it needs.

  \<^bold>\<open>Not modelled.\<close>  Sleep queues, condition variables, callouts, pools, pipes, signals, the tree of processes, program execution, the resource manager,
  the virtual file system, file systems and terminals are left out for their size only; nothing in them resists the approach.  \<^verbatim>\<open>kmem.c\<close> and \<^verbatim>\<open>malloc.c\<close>
  hide pointers in raw memory.  Drivers, interrupts, page tables and assembly drive hardware.  The checkers (\<^verbatim>\<open>kasan\<close>, \<^verbatim>\<open>kcsan\<close>, \<^verbatim>\<open>lockdep\<close>)
  are debugging aids.  The MIPS target and user space are outside of the AArch64 kernel.
\<close>

end
